(* ===== verification/Kio_Prelude.thy ===== *)
theory Kio_Prelude
  imports Main "HOL-Library.Word" "HOL-Library.Sublist"
begin

text \<open>
  Shared vocabulary of the kio development: the machine types the sources use, unsigned
  \<^verbatim>\<open>size_t\<close> arithmetic with its wrap-around written out, and the parts of the C++ standard
  library that several components rely on: \<^verbatim>\<open>std::string_view::find\<close>, \<^verbatim>\<open>std::to_chars\<close>
  and \<^verbatim>\<open>std::from_chars\<close> on integers. Lemmas every component uses are declared
  \<open>[simp]\<close> or collected in \<open>size_simps\<close> (unsigned arithmetic that does not wrap) and
  \<open>find_simps\<close> (searching for a delimiter).
\<close>

unbundle bit_operations_syntax

named_theorems size_simps \<open>unsigned size arithmetic inside its range\<close>
named_theorems find_simps \<open>searching for a delimiter in a character sequence\<close>

section \<open>Machine types\<close>

type_synonym byte = "8 word"
type_synonym bytes = "8 word list"
type_synonym u8 = "8 word"
type_synonym u16 = "16 word"
type_synonym u32 = "32 word"
type_synonym u64 = "64 word"

section \<open>Unsigned sizes\<close>

text \<open>
  \<^verbatim>\<open>size_t\<close> and \<^verbatim>\<open>uint64_t\<close> quantities that are mostly used as list lengths are kept as
  natural numbers below \<open>2 ^ 64\<close>; their sums and differences are reduced modulo \<open>2 ^ 64\<close>,
  as the unsigned arithmetic of C++ does. \<open>trunc32\<close> is the conversion to \<^verbatim>\<open>uint32_t\<close>.
\<close>

definition size_limit :: nat where
  "size_limit = 2 ^ 64"

definition sz_add :: "nat \<Rightarrow> nat \<Rightarrow> nat" where
  "sz_add a b = (a + b) mod 2 ^ 64"

definition sz_sub :: "nat \<Rightarrow> nat \<Rightarrow> nat" where
  "sz_sub a b = (a + (2 ^ 64 - b mod 2 ^ 64)) mod 2 ^ 64"

definition trunc32 :: "nat \<Rightarrow> nat" where
  "trunc32 n = n mod 2 ^ 32"

lemma sz_add_eq [size_simps]: "a + b < size_limit \<Longrightarrow> sz_add a b = a + b"
  by (simp add: sz_add_def size_limit_def)

lemma sz_sub_eq [size_simps]:
  assumes "b \<le> a" and "a < size_limit"
  shows "sz_sub a b = a - b"
proof -
  from assms have "a + (2 ^ 64 - b mod 2 ^ 64) = (a - b) + 2 ^ 64"
    by (simp add: size_limit_def)
  then have "sz_sub a b = (a - b) mod 2 ^ 64"
    by (simp only: sz_sub_def mod_add_self2)
  with assms show ?thesis
    by (simp add: size_limit_def)
qed

lemma sz_add_bound: "sz_add a b < size_limit"
  by (simp add: sz_add_def size_limit_def)

lemma sz_sub_bound: "sz_sub a b < size_limit"
  by (simp add: sz_sub_def size_limit_def)

lemma trunc32_eq [size_simps]: "n < 2 ^ 32 \<Longrightarrow> trunc32 n = n"
  by (simp add: trunc32_def)

lemma trunc32_bound: "trunc32 n < 2 ^ 32"
  by (simp add: trunc32_def)

section \<open>Buffers\<close>

text \<open>\<^verbatim>\<open>std::memcpy (buf + off, src, n)\<close> into a buffer large enough, and a subspan.\<close>

definition memcpy_at :: "nat \<Rightarrow> 'a list \<Rightarrow> 'a list \<Rightarrow> 'a list" where
  "memcpy_at off src buf = take off buf @ src @ drop (off + length src) buf"

definition subspan :: "nat \<Rightarrow> nat \<Rightarrow> 'a list \<Rightarrow> 'a list" where
  "subspan off n xs = take n (drop off xs)"

lemma length_memcpy_at [simp]:
  "off + length src \<le> length buf \<Longrightarrow> length (memcpy_at off src buf) = length buf"
  by (simp add: memcpy_at_def)

lemma length_subspan [simp]: "length (subspan off n xs) = min n (length xs - off)"
  by (simp add: subspan_def)

lemma subspan_memcpy_at:
  "off + length src \<le> length buf \<Longrightarrow> subspan off (length src) (memcpy_at off src buf) = src"
  by (simp add: subspan_def memcpy_at_def)

lemma subspan_append1:
  "off + n \<le> length xs \<Longrightarrow> subspan off n (xs @ ys) = subspan off n xs"
  by (simp add: subspan_def)

lemma subspan_append2 [simp]:
  "length xs \<le> off \<Longrightarrow> subspan off n (xs @ ys) = subspan (off - length xs) n ys"
  by (simp add: subspan_def)

lemma subspan_none [simp]: "subspan off 0 xs = []"
  by (simp add: subspan_def)

lemma subspan_0 [simp]: "subspan 0 n xs = take n xs"
  by (simp add: subspan_def)

text \<open>Writing a field of a buffer that is the concatenation of its fields.\<close>

lemma memcpy_at_skip [simp]:
  "length a \<le> off \<Longrightarrow> memcpy_at off src (a @ b) = a @ memcpy_at (off - length a) src b"
  by (simp add: memcpy_at_def)

lemma memcpy_at_here [simp]:
  "length src = length a \<Longrightarrow> memcpy_at 0 src (a @ b) = src @ b"
  by (simp add: memcpy_at_def)

lemma memcpy_at_whole [simp]: "length src = length a \<Longrightarrow> memcpy_at 0 src a = src"
  by (simp add: memcpy_at_def)

lemma subspan_split: "subspan a (m + n) xs = subspan a m xs @ subspan (a + m) n xs"
  by (simp add: subspan_def take_add add.commute)

lemma subspan_clip: "subspan off n xs = subspan off (min n (length xs - off)) xs"
  by (simp add: subspan_def min_def)

lemma subspan_between:
  "a \<le> m \<Longrightarrow> subspan a (m + n - a) xs = subspan a (m - a) xs @ subspan m n xs"
  using subspan_split [of a "m - a" n xs] by simp

lemma take_subspan: "take (m + n) xs = take m xs @ subspan m n xs"
  by (simp add: subspan_def take_add)

lemma subspan_memcpy_other:
  assumes "off + length src \<le> length buf" and "a + n \<le> off \<or> off + length src \<le> a"
  shows "subspan a n (memcpy_at off src buf) = subspan a n buf"
  using assms(2)
proof
  assume a: "a + n \<le> off"
  then have "subspan a n (memcpy_at off src buf) = subspan a n (take off buf)"
    unfolding memcpy_at_def using assms(1) by (intro subspan_append1) simp
  also have "\<dots> = subspan a n buf" using a by (simp add: subspan_def drop_take)
  finally show ?thesis .
next
  assume a: "off + length src \<le> a"
  have "memcpy_at off src buf = (take off buf @ src) @ drop (off + length src) buf"
    by (simp add: memcpy_at_def)
  then have "subspan a n (memcpy_at off src buf) = subspan (a - (off + length src)) n (drop (off + length src) buf)"
    using a assms(1) by (simp only:) (subst subspan_append2, simp_all)
  then show ?thesis using a by (simp add: subspan_def)
qed

section \<open>Searching in a sequence\<close>

text \<open>\<^verbatim>\<open>std::string_view::find\<close>: the least position at which the needle occurs.\<close>

fun find_sub :: "'a list \<Rightarrow> 'a list \<Rightarrow> nat option" where
  "find_sub pat [] = (if pat = [] then Some 0 else None)"
| "find_sub pat (x # xs) =
     (if take (length pat) (x # xs) = pat then Some 0 else map_option Suc (find_sub pat xs))"

definition occurs_at :: "'a list \<Rightarrow> 'a list \<Rightarrow> nat \<Rightarrow> bool" where
  "occurs_at pat xs i \<longleftrightarrow> i \<le> length xs \<and> take (length pat) (drop i xs) = pat"

lemma occurs_at_0 [simp]: "occurs_at pat xs 0 \<longleftrightarrow> take (length pat) xs = pat"
  by (simp add: occurs_at_def)

lemma occurs_at_Suc [simp]: "occurs_at pat (x # xs) (Suc i) \<longleftrightarrow> occurs_at pat xs i"
  by (simp add: occurs_at_def)

lemma occurs_at_bound: "occurs_at pat xs i \<Longrightarrow> i + length pat \<le> length xs"
  by (auto simp: occurs_at_def dest!: arg_cong [where f = length])

lemma find_sub_occurs: "find_sub pat xs = Some i \<Longrightarrow> occurs_at pat xs i"
  by (induction pat xs arbitrary: i rule: find_sub.induct)
    (auto split: if_splits simp: occurs_at_def)

lemma find_sub_least: "find_sub pat xs = Some i \<Longrightarrow> j < i \<Longrightarrow> \<not> occurs_at pat xs j"
proof (induction pat xs arbitrary: i j rule: find_sub.induct)
  case (1 pat)
  then show ?case by (auto split: if_splits)
next
  case (2 pat x xs)
  then show ?case by (cases j) (auto split: if_splits)
qed

lemma find_sub_None_iff: "find_sub pat xs = None \<longleftrightarrow> (\<forall>i. \<not> occurs_at pat xs i)"
proof (induction pat xs rule: find_sub.induct)
  case (1 pat)
  then show ?case by (auto simp: occurs_at_def)
next
  case (2 pat x xs)
  have "(\<forall>i. \<not> occurs_at pat (x # xs) i) \<longleftrightarrow>
      \<not> occurs_at pat (x # xs) 0 \<and> (\<forall>i. \<not> occurs_at pat (x # xs) (Suc i))"
    by (metis not0_implies_Suc)
  with 2 show ?case by simp
qed

lemma find_sub_SomeI:
  assumes "occurs_at pat xs i" and "\<And>j. j < i \<Longrightarrow> \<not> occurs_at pat xs j"
  shows "find_sub pat xs = Some i"
proof (cases "find_sub pat xs")
  case None
  with assms(1) show ?thesis by (auto simp: find_sub_None_iff)
next
  case (Some k)
  then have "occurs_at pat xs k" and "\<And>j. j < k \<Longrightarrow> \<not> occurs_at pat xs j"
    by (auto dest: find_sub_occurs find_sub_least)
  with assms have "k = i" by (metis linorder_neqE_nat)
  with Some show ?thesis by simp
qed

lemma find_sub_bound: "find_sub pat xs = Some i \<Longrightarrow> i + length pat \<le> length xs"
  by (rule occurs_at_bound [OF find_sub_occurs])

text \<open>A hit stays where it is when more input arrives behind it.\<close>

lemma occurs_at_append:
  "i + length pat \<le> length xs \<Longrightarrow> occurs_at pat (xs @ ys) i \<longleftrightarrow> occurs_at pat xs i"
  by (auto simp: occurs_at_def)

lemma find_sub_append:
  assumes "find_sub pat xs = Some i"
  shows "find_sub pat (xs @ ys) = Some i"
proof (rule find_sub_SomeI)
  from find_sub_bound [OF assms] find_sub_occurs [OF assms]
  show "occurs_at pat (xs @ ys) i" by (simp add: occurs_at_append)
next
  fix j
  assume "j < i"
  with find_sub_bound [OF assms] find_sub_least [OF assms]
  show "\<not> occurs_at pat (xs @ ys) j" by (simp add: occurs_at_append)
qed

lemma find_sub_take:
  assumes "find_sub pat xs = Some i" and "i + length pat \<le> n"
  shows "find_sub pat (take n xs) = Some i"
proof (rule find_sub_SomeI)
  have eq: "occurs_at pat (take n xs) j \<longleftrightarrow> occurs_at pat xs j" if "j \<le> i" for j
    using that assms(2) find_sub_bound [OF assms(1)] occurs_at_append [of j pat "take n xs" "drop n xs"]
    by simp
  from find_sub_occurs [OF assms(1)] eq show "occurs_at pat (take n xs) i" by simp
  show "\<not> occurs_at pat (take n xs) j" if "j < i" for j
    using that eq find_sub_least [OF assms(1)] by simp
qed

definition crlf :: string where
  "crlf = [CHR 0x0D, CHR 0x0A]"

lemma length_crlf [simp]: "length crlf = 2"
  by (simp add: crlf_def)

lemma crlf_free_occurs: "CHR 0x0D \<notin> set xs \<Longrightarrow> \<not> occurs_at crlf xs i"
  by (cases "drop i xs") (auto simp: occurs_at_def crlf_def dest!: arg_cong [where f = set] set_drop_subset [THEN subsetD])

lemma find_crlf_free [find_simps]: "CHR 0x0D \<notin> set xs \<Longrightarrow> find_sub crlf xs = None"
  by (simp add: find_sub_None_iff crlf_free_occurs)

lemma find_crlf_first [find_simps]:
  "find_sub crlf xs = None \<Longrightarrow> find_sub crlf (xs @ crlf @ ys) = Some (length xs)"
proof (induction xs)
  case Nil
  then show ?case by (simp add: crlf_def)
next
  case (Cons x xs)
  then show ?case
    by (cases xs) (auto simp: crlf_def split: if_splits)
qed

section \<open>Decimal integers: \<^verbatim>\<open>std::to_chars\<close> and \<^verbatim>\<open>std::from_chars\<close>\<close>

definition digit_char :: "nat \<Rightarrow> char" where
  "digit_char d = char_of (48 + d)"

definition is_digit :: "char \<Rightarrow> bool" where
  "is_digit c \<longleftrightarrow> 48 \<le> (of_char c :: nat) \<and> (of_char c :: nat) \<le> 57"

definition digit_val :: "char \<Rightarrow> nat" where
  "digit_val c = of_char c - 48"

fun nat_digits :: "nat \<Rightarrow> string" where
  "nat_digits n =
     (if n < 10 then [digit_char n] else nat_digits (n div 10) @ [digit_char (n mod 10)])"

declare nat_digits.simps [simp del]

definition to_chars :: "int \<Rightarrow> string" where
  "to_chars i = (if i < 0 then CHR ''-'' # nat_digits (nat (- i)) else nat_digits (nat i))"

definition digits_val :: "string \<Rightarrow> nat" where
  "digits_val ds = foldl (\<lambda>v c. 10 * v + digit_val c) 0 ds"

text \<open>
  \<^verbatim>\<open>std::from_chars\<close> on an integer type with range \<open>lo..hi\<close>: how many characters it
  consumed, whether it succeeded, and the value. A sign is recognised only by the signed
  types (\<open>lo < 0\<close>), and only \<^verbatim>\<open>-\<close>.
\<close>

datatype from_chars_ec = Fc_Ok | Fc_Invalid_Argument | Fc_Out_Of_Range

definition from_chars :: "int \<Rightarrow> int \<Rightarrow> string \<Rightarrow> nat \<times> from_chars_ec \<times> int" where
  "from_chars lo hi s =
     (let neg = (lo < 0 \<and> s \<noteq> [] \<and> hd s = CHR ''-'');
          body = (if neg then tl s else s);
          ds = takeWhile is_digit body;
          v = (if neg then - int (digits_val ds) else int (digits_val ds));
          n = length ds + (if neg then 1 else 0)
      in if ds = [] then (0, Fc_Invalid_Argument, 0)
         else if lo \<le> v \<and> v \<le> hi then (n, Fc_Ok, v) else (n, Fc_Out_Of_Range, 0))"

definition int64_min :: int where "int64_min = - (2 ^ 63)"
definition int64_max :: int where "int64_max = 2 ^ 63 - 1"

lemma of_char_digit_char: "d < 10 \<Longrightarrow> (of_char (digit_char d) :: nat) = 48 + d"
  by (simp add: digit_char_def)

lemma is_digit_digit_char [simp]: "d < 10 \<Longrightarrow> is_digit (digit_char d)"
  by (simp add: is_digit_def of_char_digit_char)

lemma digit_val_digit_char [simp]: "d < 10 \<Longrightarrow> digit_val (digit_char d) = d"
  by (simp add: digit_val_def of_char_digit_char)

lemma nat_digits_all: "\<forall>c \<in> set (nat_digits n). is_digit c"
  by (induction n rule: nat_digits.induct) (subst nat_digits.simps, auto)

lemma nat_digits_nonempty [simp]: "nat_digits n \<noteq> []"
  by (subst nat_digits.simps) simp

lemma digits_val_snoc: "digits_val (ds @ [c]) = 10 * digits_val ds + digit_val c"
  by (simp add: digits_val_def)

lemma digits_val_nat_digits [simp]: "digits_val (nat_digits n) = n"
proof (induction n rule: nat_digits.induct)
  case (1 n)
  show ?case
  proof (cases "n < 10")
    case True
    then show ?thesis by (subst nat_digits.simps) (simp add: digits_val_def)
  next
    case False
    with 1 show ?thesis by (subst nat_digits.simps) (simp add: digits_val_snoc)
  qed
qed

lemma takeWhile_nat_digits [simp]: "takeWhile is_digit (nat_digits n) = nat_digits n"
  using nat_digits_all by (simp add: takeWhile_eq_all_conv)

lemma is_digit_not_minus: "is_digit c \<Longrightarrow> c \<noteq> CHR ''-''"
  by (auto simp: is_digit_def)

lemma is_digit_not_cr: "is_digit c \<Longrightarrow> c \<noteq> CHR 0x0D"
  by (auto simp: is_digit_def)

lemma nat_digits_hd: "hd (nat_digits n) \<noteq> CHR ''-''"
  using nat_digits_all [of n] hd_in_set [OF nat_digits_nonempty, of n]
  by (blast dest: is_digit_not_minus)

lemma to_chars_no_cr: "CHR 0x0D \<notin> set (to_chars i)"
  using nat_digits_all [of "nat i"] nat_digits_all [of "nat (- i)"]
  by (auto simp: to_chars_def dest: is_digit_not_cr)

lemma to_chars_nonempty [simp]: "to_chars i \<noteq> []"
  by (simp add: to_chars_def)

text \<open>Printing and reading back an integer of the range.\<close>

lemma from_chars_to_chars:
  assumes "lo \<le> i" and "i \<le> hi"
  shows "from_chars lo hi (to_chars i) = (length (to_chars i), Fc_Ok, i)"
proof (cases "i < 0")
  case True
  with assms show ?thesis by (simp add: from_chars_def to_chars_def Let_def)
next
  case False
  with assms nat_digits_hd [of "nat i"] show ?thesis
    by (simp add: from_chars_def to_chars_def Let_def)
qed

lemma from_chars_range: "from_chars lo hi s = (n, Fc_Ok, v) \<Longrightarrow> lo \<le> v \<and> v \<le> hi"
  by (auto simp: from_chars_def Let_def split: if_splits)

section \<open>Characters: \<^verbatim>\<open>std::tolower\<close>\<close>

definition tolower :: "char \<Rightarrow> char" where
  "tolower c = (let n = of_char c :: nat in if 65 \<le> n \<and> n \<le> 90 then char_of (n + 32) else c)"

end
