(* ===== verification/Http.thy ===== *)
theory Http
  imports Kio_Prelude "HOL-Library.Signed_Division"
begin

text \<open>
  Request and response headers (\<^verbatim>\<open>include/kio/http.hpp\<close>): header lists that keep the case of
  the names and are searched without regard to it, body framing, and the wire format. The
  header operations of the two structures are the same; their laws are the locale
  \<open>header_block\<close>, interpreted on both.
\<close>

definition IEquals :: "string \<Rightarrow> string \<Rightarrow> bool" where
  "IEquals a b \<longleftrightarrow> list_all2 (\<lambda>c1 c2. tolower c1 = tolower c2) a b"

record Header =
  hdr_name :: string
  hdr_value :: string

definition NameEquals :: "Header \<Rightarrow> string \<Rightarrow> bool" where
  "NameEquals h other = IEquals (hdr_name h) other"

record RequestHeader =
  rq_method :: string
  rq_raw_path :: string
  rq_version_major :: int
  rq_version_minor :: int
  rq_headers :: "Header list"

record ResponseHeader =
  rs_status_code :: int
  rs_reason_phrase :: string
  rs_version_major :: int
  rs_version_minor :: int
  rs_headers :: "Header list"

section \<open>Header lists\<close>

text \<open>The loops over \<^verbatim>\<open>headers\<close> that both structures contain.\<close>

fun find_header :: "Header list \<Rightarrow> string \<Rightarrow> string" where
  "find_header [] name = []"
| "find_header (h # hs) name = (if NameEquals h name then hdr_value h else find_header hs name)"

fun collect_headers :: "Header list \<Rightarrow> string \<Rightarrow> string list" where
  "collect_headers [] name = []"
| "collect_headers (h # hs) name =
     (if NameEquals h name then hdr_value h # collect_headers hs name else collect_headers hs name)"

definition erase_header :: "string \<Rightarrow> Header list \<Rightarrow> Header list" where
  "erase_header name hs = filter (\<lambda>h. \<not> NameEquals h name) hs"

definition parse_content_length :: "string \<Rightarrow> nat option" where
  "parse_content_length val =
     (if val = [] then None
      else case from_chars 0 (2 ^ 64 - 1) val of
        (n, ec, v) \<Rightarrow> if ec \<noteq> Fc_Ok \<or> n \<noteq> length val then None else Some (nat v))"

definition is_blank :: "char \<Rightarrow> bool" where
  "is_blank c \<longleftrightarrow> c = CHR '' '' \<or> c = CHR 0x09"

text \<open>\<^verbatim>\<open>std::string_view::rfind\<close> of a character.\<close>

definition rfind_char :: "char \<Rightarrow> string \<Rightarrow> nat option" where
  "rfind_char c s =
     (if c \<in> set s then Some (length s - 1 - length (takeWhile (\<lambda>x. x \<noteq> c) (rev s))) else None)"

definition is_chunked_value :: "string \<Rightarrow> bool" where
  "is_chunked_value te \<longleftrightarrow>
     (if te = [] then False
      else
        let last = (case rfind_char CHR '','' te of None \<Rightarrow> te | Some last_comma \<Rightarrow> drop (last_comma + 1) te);
            last = dropWhile is_blank last;
            last = rev (dropWhile is_blank (rev last))
        in IEquals last ''chunked'')"

definition keep_alive :: "int \<Rightarrow> string \<Rightarrow> bool" where
  "keep_alive version_minor conn \<longleftrightarrow>
     (if 1 \<le> version_minor then \<not> IEquals conn ''close'' else IEquals conn ''keep-alive'')"

text \<open>\<^verbatim>\<open>static_cast<char> ('0' + n)\<close>.\<close>

definition digit_cast :: "int \<Rightarrow> char" where
  "digit_cast n = char_of (48 + n)"

fun serialize_headers :: "Header list \<Rightarrow> string \<Rightarrow> string" where
  "serialize_headers [] out = out"
| "serialize_headers (h # hs) out =
     serialize_headers hs (out @ hdr_name h @ '': '' @ hdr_value h @ crlf)"

section \<open>Requests\<close>

definition RequestHeader_Path :: "RequestHeader \<Rightarrow> string" where
  "RequestHeader_Path r = rq_raw_path r"

definition PathWithoutQuery :: "RequestHeader \<Rightarrow> string" where
  "PathWithoutQuery r =
     (let p = RequestHeader_Path r
      in case find_sub ''?'' p of None \<Rightarrow> p | Some qpos \<Rightarrow> take qpos p)"

definition RequestHeader_Query :: "RequestHeader \<Rightarrow> string" where
  "RequestHeader_Query r =
     (let p = RequestHeader_Path r
      in case find_sub ''?'' p of None \<Rightarrow> [] | Some qpos \<Rightarrow> drop (qpos + 1) p)"

definition RequestHeader_GetHeader :: "RequestHeader \<Rightarrow> string \<Rightarrow> string" where
  "RequestHeader_GetHeader r name = find_header (rq_headers r) name"

definition RequestHeader_GetAllHeaders :: "RequestHeader \<Rightarrow> string \<Rightarrow> string list" where
  "RequestHeader_GetAllHeaders r name = collect_headers (rq_headers r) name"

definition RequestHeader_HasHeader :: "RequestHeader \<Rightarrow> string \<Rightarrow> bool" where
  "RequestHeader_HasHeader r name \<longleftrightarrow> RequestHeader_GetHeader r name \<noteq> []"

definition RequestHeader_RemoveHeader :: "string \<Rightarrow> RequestHeader \<Rightarrow> RequestHeader" where
  "RequestHeader_RemoveHeader name r = r\<lparr>rq_headers := erase_header name (rq_headers r)\<rparr>"

definition RequestHeader_AppendHeader :: "string \<Rightarrow> string \<Rightarrow> RequestHeader \<Rightarrow> RequestHeader" where
  "RequestHeader_AppendHeader name value r =
     r\<lparr>rq_headers := rq_headers r @ [\<lparr>hdr_name = name, hdr_value = value\<rparr>]\<rparr>"

definition RequestHeader_SetHeader :: "string \<Rightarrow> string \<Rightarrow> RequestHeader \<Rightarrow> RequestHeader" where
  "RequestHeader_SetHeader name value r =
     (let r' = RequestHeader_RemoveHeader name r
      in r'\<lparr>rq_headers := rq_headers r' @ [\<lparr>hdr_name = name, hdr_value = value\<rparr>]\<rparr>)"

definition RequestHeader_ContentLength :: "RequestHeader \<Rightarrow> nat option" where
  "RequestHeader_ContentLength r = parse_content_length (RequestHeader_GetHeader r ''content-length'')"

definition RequestHeader_IsChunked :: "RequestHeader \<Rightarrow> bool" where
  "RequestHeader_IsChunked r = is_chunked_value (RequestHeader_GetHeader r ''transfer-encoding'')"

definition RequestHeader_IsKeepAlive :: "RequestHeader \<Rightarrow> bool" where
  "RequestHeader_IsKeepAlive r = keep_alive (rq_version_minor r) (RequestHeader_GetHeader r ''connection'')"

definition RequestHeader_Serialize :: "RequestHeader \<Rightarrow> string \<Rightarrow> string" where
  "RequestHeader_Serialize r out =
     (let out = out @ rq_method r @ '' '' @ rq_raw_path r @ '' HTTP/'' @ [digit_cast (rq_version_major r)]
                  @ ''.'' @ [digit_cast (rq_version_minor r)] @ crlf;
          out = serialize_headers (rq_headers r) out
      in out @ crlf)"

section \<open>Responses\<close>

definition ResponseHeader_GetHeader :: "ResponseHeader \<Rightarrow> string \<Rightarrow> string" where
  "ResponseHeader_GetHeader r name = find_header (rs_headers r) name"

definition ResponseHeader_GetAllHeaders :: "ResponseHeader \<Rightarrow> string \<Rightarrow> string list" where
  "ResponseHeader_GetAllHeaders r name = collect_headers (rs_headers r) name"

definition ResponseHeader_HasHeader :: "ResponseHeader \<Rightarrow> string \<Rightarrow> bool" where
  "ResponseHeader_HasHeader r name \<longleftrightarrow> ResponseHeader_GetHeader r name \<noteq> []"

definition ResponseHeader_RemoveHeader :: "string \<Rightarrow> ResponseHeader \<Rightarrow> ResponseHeader" where
  "ResponseHeader_RemoveHeader name r = r\<lparr>rs_headers := erase_header name (rs_headers r)\<rparr>"

definition ResponseHeader_AppendHeader :: "string \<Rightarrow> string \<Rightarrow> ResponseHeader \<Rightarrow> ResponseHeader" where
  "ResponseHeader_AppendHeader name value r =
     r\<lparr>rs_headers := rs_headers r @ [\<lparr>hdr_name = name, hdr_value = value\<rparr>]\<rparr>"

definition ResponseHeader_SetHeader :: "string \<Rightarrow> string \<Rightarrow> ResponseHeader \<Rightarrow> ResponseHeader" where
  "ResponseHeader_SetHeader name value r =
     (let r' = ResponseHeader_RemoveHeader name r
      in r'\<lparr>rs_headers := rs_headers r' @ [\<lparr>hdr_name = name, hdr_value = value\<rparr>]\<rparr>)"

definition ResponseHeader_ContentLength :: "ResponseHeader \<Rightarrow> nat option" where
  "ResponseHeader_ContentLength r = parse_content_length (ResponseHeader_GetHeader r ''content-length'')"

definition ResponseHeader_IsChunked :: "ResponseHeader \<Rightarrow> bool" where
  "ResponseHeader_IsChunked r = is_chunked_value (ResponseHeader_GetHeader r ''transfer-encoding'')"

definition ResponseHeader_IsKeepAlive :: "ResponseHeader \<Rightarrow> bool" where
  "ResponseHeader_IsKeepAlive r = keep_alive (rs_version_minor r) (ResponseHeader_GetHeader r ''connection'')"

definition ResponseHeader_HasBody :: "ResponseHeader \<Rightarrow> bool" where
  "ResponseHeader_HasBody r \<longleftrightarrow>
     (let status_code = rs_status_code r
      in if 100 \<le> status_code \<and> status_code < 200 then False
         else if status_code = 204 \<or> status_code = 304 then False
         else True)"

definition DefaultReasonPhrase :: "int \<Rightarrow> string" where
  "DefaultReasonPhrase code =
     (if code = 200 then ''OK''
      else if code = 201 then ''Created''
      else if code = 204 then ''No Content''
      else if code = 301 then ''Moved Permanently''
      else if code = 302 then ''Found''
      else if code = 304 then ''Not Modified''
      else if code = 400 then ''Bad Request''
      else if code = 401 then ''Unauthorized''
      else if code = 403 then ''Forbidden''
      else if code = 404 then ''Not Found''
      else if code = 500 then ''Internal Server Error''
      else if code = 502 then ''Bad Gateway''
      else if code = 503 then ''Service Unavailable''
      else ''Unknown'')"

definition ResponseHeader_Serialize :: "ResponseHeader \<Rightarrow> string \<Rightarrow> string" where
  "ResponseHeader_Serialize r out =
     (let status_code = rs_status_code r;
          out = out @ ''HTTP/'' @ [digit_cast (rs_version_major r)] @ ''.'' @ [digit_cast (rs_version_minor r)] @ '' '';
          out = out @ [digit_cast (status_code sdiv 100), digit_cast ((status_code sdiv 10) smod 10),
                       digit_cast (status_code smod 10), CHR '' ''];
          out = out @ (if rs_reason_phrase r \<noteq> [] then rs_reason_phrase r else DefaultReasonPhrase status_code);
          out = serialize_headers (rs_headers r) (out @ crlf)
      in out @ crlf)"

section \<open>Names\<close>

lemma IEquals_map: "IEquals a b \<longleftrightarrow> map tolower a = map tolower b"
  by (simp add: IEquals_def list_all2_map1 list_all2_map2 flip: list.rel_eq)

lemma NameEquals_swap:
  assumes "IEquals n k"
  shows "NameEquals h n \<longleftrightarrow> NameEquals h k"
  using assms by (simp add: NameEquals_def IEquals_map)

lemma find_header_collect:
  "find_header hs name = (case collect_headers hs name of [] \<Rightarrow> [] | v # _ \<Rightarrow> v)"
  by (induction hs) auto

lemma collect_append: "collect_headers (hs @ hs') name = collect_headers hs name @ collect_headers hs' name"
  by (induction hs) auto

lemma collect_erase:
  "collect_headers (erase_header n hs) k = (if IEquals n k then [] else collect_headers hs k)"
proof (induction hs)
  case Nil
  then show ?case by (simp add: erase_header_def)
next
  case (Cons h hs)
  have "NameEquals h n \<and> NameEquals h k \<Longrightarrow> IEquals n k" by (auto simp: NameEquals_def IEquals_map)
  with Cons NameEquals_swap [of n k h] show ?case by (auto simp: erase_header_def)
qed

text \<open>
  The contract of a header block: every operation by its effect on the list of values that
  a name collects.
\<close>

locale header_block =
  fixes get_one :: "'m \<Rightarrow> string \<Rightarrow> string"
    and get_all :: "'m \<Rightarrow> string \<Rightarrow> string list"
    and remove_op :: "string \<Rightarrow> 'm \<Rightarrow> 'm"
    and append_op :: "string \<Rightarrow> string \<Rightarrow> 'm \<Rightarrow> 'm"
    and set_op :: "string \<Rightarrow> string \<Rightarrow> 'm \<Rightarrow> 'm"
  assumes get_one_first: "get_one m k = (case get_all m k of [] \<Rightarrow> [] | v # _ \<Rightarrow> v)"
    and get_all_remove: "get_all (remove_op n m) k = (if IEquals n k then [] else get_all m k)"
    and get_all_append: "get_all (append_op n v m) k = get_all m k @ (if IEquals n k then [v] else [])"
    and set_remove_append: "set_op n v m = append_op n v (remove_op n m)"
begin

lemma get_all_set: "get_all (set_op n v m) k = (if IEquals n k then [v] else get_all m k)"
  by (simp add: set_remove_append get_all_append get_all_remove)

lemma get_set: "get_one (set_op n v m) k = (if IEquals n k then v else get_one m k)"
  by (simp add: get_one_first get_all_set)

lemma get_remove: "get_one (remove_op n m) k = (if IEquals n k then [] else get_one m k)"
  by (simp add: get_one_first get_all_remove)

lemma get_append_first:
  "get_one (append_op n v m) k = (if get_all m k = [] \<and> IEquals n k then v else get_one m k)"
  by (cases "get_all m k") (simp_all add: get_one_first get_all_append)

end

interpretation request_headers: header_block RequestHeader_GetHeader RequestHeader_GetAllHeaders
  RequestHeader_RemoveHeader RequestHeader_AppendHeader RequestHeader_SetHeader
  by unfold_locales
    (auto simp: RequestHeader_GetHeader_def RequestHeader_GetAllHeaders_def RequestHeader_RemoveHeader_def
      RequestHeader_AppendHeader_def RequestHeader_SetHeader_def find_header_collect collect_erase
      collect_append NameEquals_def Let_def)

interpretation response_headers: header_block ResponseHeader_GetHeader ResponseHeader_GetAllHeaders
  ResponseHeader_RemoveHeader ResponseHeader_AppendHeader ResponseHeader_SetHeader
  by unfold_locales
    (auto simp: ResponseHeader_GetHeader_def ResponseHeader_GetAllHeaders_def ResponseHeader_RemoveHeader_def
      ResponseHeader_AppendHeader_def ResponseHeader_SetHeader_def find_header_collect collect_erase
      collect_append NameEquals_def Let_def)

section \<open>The wire format\<close>

text \<open>
  A reference reader of a header section: the lines up to the first empty one, and the rest
  of the stream.
\<close>

function read_head :: "string \<Rightarrow> (string list \<times> string) option" where
  "read_head s =
     (case find_sub crlf s of
        None \<Rightarrow> None
      | Some p \<Rightarrow>
          if p = 0 then Some ([], drop 2 s)
          else map_option (\<lambda>(ls, body). (take p s # ls, body)) (read_head (drop (p + 2) s)))"
  by pat_completeness auto
termination
  by (relation "measure length") (auto dest!: find_sub_bound)

declare read_head.simps [simp del]

lemma read_head_line:
  assumes "line \<noteq> []" and "CHR 0x0D \<notin> set line"
  shows "read_head (line @ crlf @ s) = map_option (\<lambda>(ls, body). (line # ls, body)) (read_head s)"
proof -
  have "find_sub crlf (line @ crlf @ s) = Some (length line)"
    by (rule find_crlf_first [OF find_crlf_free [OF assms(2)]])
  then show ?thesis using assms(1) by (subst read_head.simps) simp
qed

lemma read_head_end: "read_head (crlf @ s) = Some ([], s)"
proof -
  have "find_sub crlf (crlf @ s) = Some 0" using find_crlf_first [of "[]" s] by (simp add: crlf_def)
  then show ?thesis by (subst read_head.simps) simp
qed

definition header_line :: "Header \<Rightarrow> string" where
  "header_line h = hdr_name h @ '': '' @ hdr_value h"

lemma serialize_headers_eq: "serialize_headers hs out = out @ concat (map (\<lambda>h. header_line h @ crlf) hs)"
  by (induction hs arbitrary: out) (simp_all add: header_line_def)

definition headers_clean :: "Header list \<Rightarrow> bool" where
  "headers_clean hs \<longleftrightarrow> (\<forall>h \<in> set hs. CHR 0x0D \<notin> set (hdr_name h) \<and> CHR 0x0D \<notin> set (hdr_value h))"

lemma read_head_headers:
  assumes "headers_clean hs"
  shows "read_head (concat (map (\<lambda>h. header_line h @ crlf) hs) @ crlf @ body) = Some (map header_line hs, body)"
  using assms
proof (induction hs)
  case Nil
  then show ?case by (simp add: read_head_end)
next
  case (Cons h hs)
  then have "CHR 0x0D \<notin> set (header_line h)" "header_line h \<noteq> []" "headers_clean hs"
    by (auto simp: headers_clean_def header_line_def)
  with Cons.IH show ?case by (simp add: read_head_line)
qed

lemma digit_cast_digit: "0 \<le> n \<Longrightarrow> n < 10 \<Longrightarrow> digit_cast n = digit_char (nat n)"
proof -
  assume "0 \<le> n" "n < 10"
  then have "48 + n = int (48 + nat n)" by simp
  then show ?thesis by (simp only: digit_cast_def digit_char_def char_of_def bit_of_nat_iff_bit)
qed

lemma digit_cast_no_cr: "0 \<le> n \<Longrightarrow> n < 10 \<Longrightarrow> digit_cast n \<noteq> CHR 0x0D"
  using is_digit_not_cr [OF is_digit_digit_char, of "nat n"] by (simp add: digit_cast_digit)

lemma nat_digits_3:
  assumes "100 \<le> n" and "n < 1000"
  shows "nat_digits n = [digit_char (n div 100), digit_char (n div 10 mod 10), digit_char (n mod 10)]"
proof -
  have "nat_digits n = (nat_digits (n div 10 div 10) @ [digit_char (n div 10 mod 10)]) @ [digit_char (n mod 10)]"
    using assms by (simp add: nat_digits.simps [of n] nat_digits.simps [of "n div 10"])
  moreover have "n div 10 div 10 = n div 100" "n div 100 < 10"
    using assms by (simp_all add: div_mult2_eq [symmetric])
  ultimately show ?thesis by (simp add: nat_digits.simps [of "n div 100"])
qed

lemma status_digits:
  assumes "100 \<le> c" and "c < 1000"
  shows "[digit_cast (c sdiv 100), digit_cast ((c sdiv 10) smod 10), digit_cast (c smod 10)] = to_chars c"
proof -
  let ?n = "nat c"
  have n: "c = int ?n" "100 \<le> ?n" "?n < 1000" using assms by simp_all
  have s: "c sdiv 100 = int (?n div 100)" "c sdiv 10 = int (?n div 10)" "c smod 10 = int (?n mod 10)"
    "(c sdiv 10) smod 10 = int (?n div 10 mod 10)"
    using assms by (simp_all add: signed_divide_int_def signed_modulo_int_def zdiv_int zmod_int minus_mult_div_eq_mod)
  have "digit_cast (int (?n div 100)) = digit_char (?n div 100)"
    "digit_cast (int (?n div 10 mod 10)) = digit_char (?n div 10 mod 10)"
    "digit_cast (int (?n mod 10)) = digit_char (?n mod 10)"
    using n by (simp_all add: digit_cast_digit less_mult_imp_div_less nat_div_distrib nat_mod_distrib)
  then show ?thesis using assms nat_digits_3 [OF n(2,3)] by (simp only: s(1,3,4)) (simp add: to_chars_def)
qed

lemma rfind_last_token:
  assumes "c \<notin> set tok"
  shows "rfind_char c (pre @ [c] @ tok) = Some (length pre)"
proof -
  have "takeWhile (\<lambda>x. x \<noteq> c) (rev (pre @ [c] @ tok)) = rev tok"
    using assms by (subst rev_append) (auto simp: takeWhile_append)
  then show ?thesis by (simp add: rfind_char_def)
qed

lemma trim_token:
  assumes "\<forall>c \<in> set l. is_blank c" and "\<forall>c \<in> set r. is_blank c" and "\<forall>c \<in> set tok. \<not> is_blank c" and "tok \<noteq> []"
  shows "rev (dropWhile is_blank (rev (dropWhile is_blank (l @ tok @ r)))) = tok"
proof -
  have front: "dropWhile is_blank (xs @ t # ts) = t # ts" if "\<forall>c \<in> set xs. is_blank c" "\<not> is_blank t" for xs t ts
    using that by (induction xs) auto
  obtain t ts where t: "tok = t # ts" using assms(4) by (cases tok) auto
  obtain b bs where b: "rev tok = b # bs" using assms(4) by (cases "rev tok") auto
  have nb: "\<not> is_blank t" "\<not> is_blank b"
    using assms(3) t arg_cong [OF b, of set] by auto
  have 1: "dropWhile is_blank (l @ tok @ r) = tok @ r"
    using front [OF assms(1) nb(1), of "ts @ r"] by (simp add: t)
  have "dropWhile is_blank (rev r @ b # bs) = b # bs"
    by (rule front) (use assms(2) nb in auto)
  then have "dropWhile is_blank (rev (tok @ r)) = rev tok" by (simp add: b)
  then show ?thesis by (simp add: 1)
qed

lemma content_length_digits: "n < 2 ^ 64 \<Longrightarrow> parse_content_length (to_chars (int n)) = Some n"
  by (simp add: parse_content_length_def from_chars_to_chars)

lemma split_query:
  "p = (case find_sub ''?'' p of None \<Rightarrow> p | Some q \<Rightarrow> take q p) @
     (if CHR ''?'' \<in> set p then ''?'' @ (case find_sub ''?'' p of None \<Rightarrow> [] | Some q \<Rightarrow> drop (q + 1) p) else [])"
proof (induction p)
  case (Cons c p)
  have "find_sub ''?'' p = None" if "CHR ''?'' \<notin> set p"
    using that by (induction p) auto
  with Cons show ?case by (auto split: option.splits if_splits)
qed simp

section \<open>Properties\<close>

text \<open>
  Header access on requests, without regard to case: setting a header replaces every
  earlier one of that name by exactly one and leaves all other names alone, removing hides
  the name and nothing else, appending keeps the earlier values first, and the path is the
  path without query, a question mark and the query.
\<close>

theorem request_header_laws:
  "RequestHeader_GetAllHeaders (RequestHeader_SetHeader n v r) k =
     (if IEquals n k then [v] else RequestHeader_GetAllHeaders r k) \<and>
   RequestHeader_GetHeader (RequestHeader_SetHeader n v r) k =
     (if IEquals n k then v else RequestHeader_GetHeader r k) \<and>
   RequestHeader_GetAllHeaders (RequestHeader_RemoveHeader n r) k =
     (if IEquals n k then [] else RequestHeader_GetAllHeaders r k) \<and>
   RequestHeader_GetAllHeaders (RequestHeader_AppendHeader n v r) k =
     RequestHeader_GetAllHeaders r k @ (if IEquals n k then [v] else []) \<and>
   (RequestHeader_HasHeader (RequestHeader_SetHeader n v r) n \<longleftrightarrow> v \<noteq> []) \<and>
   RequestHeader_Path r = PathWithoutQuery r @
     (if CHR ''?'' \<in> set (RequestHeader_Path r) then ''?'' @ RequestHeader_Query r else [])"
proof -
  note split_query [of "RequestHeader_Path r"]
  moreover have "IEquals n n" by (simp add: IEquals_map)
  ultimately show ?thesis
    by (auto simp: request_headers.get_all_set request_headers.get_set request_headers.get_all_remove
        request_headers.get_all_append RequestHeader_HasHeader_def PathWithoutQuery_def
        RequestHeader_Query_def Let_def)
qed

text \<open>
  The same laws on responses, and framing: after setting the content length of a
  message to a decimal number, exactly that number is read back, under any spelling of the
  name; a transfer encoding whose last token is \<open>chunked\<close>, in any case and with blanks
  around it, is recognised, and only the last token counts.
\<close>

theorem response_framing:
  assumes "n < 2 ^ 64" and "IEquals name ''content-length''" and "IEquals te ''transfer-encoding''"
    and "\<forall>c \<in> set l. is_blank c" and "\<forall>c \<in> set l'. is_blank c"
    and "\<forall>c \<in> set tok. \<not> is_blank c \<and> c \<noteq> CHR '',''" and "tok \<noteq> []"
  shows "ResponseHeader_ContentLength (ResponseHeader_SetHeader name (to_chars (int n)) r) = Some n \<and>
    (ResponseHeader_IsChunked (ResponseHeader_SetHeader te (pre @ '','' @ l @ tok @ l') r) \<longleftrightarrow> IEquals tok ''chunked'') \<and>
    ResponseHeader_GetHeader (ResponseHeader_SetHeader name v r) k =
      (if IEquals name k then v else ResponseHeader_GetHeader r k)"
proof -
  have "is_blank CHR '','' \<Longrightarrow> False" by (simp add: is_blank_def)
  then have "CHR '','' \<notin> set (l @ tok @ l')" using assms(4-6) by auto
  then have "rfind_char CHR '','' (pre @ '','' @ l @ tok @ l') = Some (length pre)" by (rule rfind_last_token)
  moreover have "rev (dropWhile is_blank (rev (dropWhile is_blank (l @ tok @ l')))) = tok"
    by (rule trim_token) (use assms(4-7) in auto)
  ultimately have "is_chunked_value (pre @ '','' @ l @ tok @ l') \<longleftrightarrow> IEquals tok ''chunked''"
    by (simp add: is_chunked_value_def Let_def)
  with assms(1-3) show ?thesis
    by (simp add: ResponseHeader_ContentLength_def ResponseHeader_IsChunked_def response_headers.get_set
        content_length_digits)
qed

theorem response_framing_witness:
  "let r = \<lparr>rs_status_code = 200, rs_reason_phrase = [], rs_version_major = 1, rs_version_minor = 1, rs_headers = []\<rparr>
   in ResponseHeader_ContentLength (ResponseHeader_SetHeader ''Content-Length'' (to_chars 42) r) = Some 42 \<and>
      ResponseHeader_IsChunked (ResponseHeader_SetHeader ''Transfer-Encoding'' (''gzip'' @ '','' @ '' '' @ ''Chunked'' @ []) r)"
proof -
  have e: "IEquals ''Content-Length'' ''content-length''" "IEquals ''Transfer-Encoding'' ''transfer-encoding''"
    "IEquals ''Chunked'' ''chunked''" by code_simp+
  have t: "\<forall>c \<in> set '' ''. is_blank c" "\<forall>c \<in> set ([] :: string). is_blank c"
    "\<forall>c \<in> set ''Chunked''. \<not> is_blank c \<and> c \<noteq> CHR '',''" by (simp_all add: is_blank_def)
  show ?thesis
    using response_framing [OF _ e(1,2) t, of 42 "\<lparr>rs_status_code = 200, rs_reason_phrase = [],
        rs_version_major = 1, rs_version_minor = 1, rs_headers = []\<rparr>" "''gzip''"] e(3)
    by (simp add: Let_def)
qed

text \<open>
  C34: the wire form of a request whose fields contain no carriage return is read by a line
  reader as exactly one request line, one line per header in order, and the body that
  follows: nothing a header holds can end the header section or add a line to it.
\<close>

theorem request_wire_format:
  assumes "CHR 0x0D \<notin> set (rq_method r)" and "CHR 0x0D \<notin> set (rq_raw_path r)" and "headers_clean (rq_headers r)"
    and "0 \<le> rq_version_major r \<and> rq_version_major r \<le> 9" and "0 \<le> rq_version_minor r \<and> rq_version_minor r \<le> 9"
  shows "read_head (RequestHeader_Serialize r [] @ body) =
    Some ((rq_method r @ '' '' @ rq_raw_path r @ '' HTTP/'' @ to_chars (rq_version_major r) @ ''.'' @
           to_chars (rq_version_minor r)) # map header_line (rq_headers r), body)"
proof -
  have d: "[digit_cast n] = to_chars n" if "0 \<le> n" "n \<le> 9" for n
    using that by (simp add: digit_cast_digit to_chars_def nat_digits.simps)
  let ?line = "rq_method r @ '' '' @ rq_raw_path r @ '' HTTP/'' @ to_chars (rq_version_major r) @ ''.'' @
           to_chars (rq_version_minor r)"
  have "RequestHeader_Serialize r [] @ body =
      ?line @ crlf @ concat (map (\<lambda>h. header_line h @ crlf) (rq_headers r)) @ crlf @ body"
    using d [of "rq_version_major r"] d [of "rq_version_minor r"] assms(4,5)
    by (simp add: RequestHeader_Serialize_def Let_def serialize_headers_eq)
  moreover have "?line \<noteq> []" "CHR 0x0D \<notin> set ?line"
    using assms(1,2) to_chars_no_cr by auto
  ultimately show ?thesis
    using read_head_line [of ?line] read_head_headers [OF assms(3), of body] by simp
qed

theorem request_wire_format_witness:
  "read_head (RequestHeader_Serialize \<lparr>rq_method = ''GET'', rq_raw_path = ''/'', rq_version_major = 1,
      rq_version_minor = 1, rq_headers = [\<lparr>hdr_name = ''Host'', hdr_value = ''a''\<rparr>]\<rparr> [] @ ''body'') =
   Some ([''GET / HTTP/1.1'', ''Host: a''], ''body'')"
proof -
  have tc: "to_chars 1 = ''1''" by code_simp
  show ?thesis
    using request_wire_format [of "\<lparr>rq_method = ''GET'', rq_raw_path = ''/'', rq_version_major = 1,
      rq_version_minor = 1, rq_headers = [\<lparr>hdr_name = ''Host'', hdr_value = ''a''\<rparr>]\<rparr>" "''body''"]
    by (simp add: headers_clean_def header_line_def tc)
qed

text \<open>
  The wire form of a response with a three-digit status: the status line carries the
  decimal status code and the reason phrase (the given one, or the default for the code),
  followed by one line per header and the body.
\<close>

theorem response_wire_format:
  assumes "CHR 0x0D \<notin> set (rs_reason_phrase r)" and "headers_clean (rs_headers r)"
    and "100 \<le> rs_status_code r \<and> rs_status_code r \<le> 999"
    and "0 \<le> rs_version_major r \<and> rs_version_major r \<le> 9" and "0 \<le> rs_version_minor r \<and> rs_version_minor r \<le> 9"
  shows "read_head (ResponseHeader_Serialize r [] @ body) =
    Some ((''HTTP/'' @ to_chars (rs_version_major r) @ ''.'' @ to_chars (rs_version_minor r) @ '' '' @
           to_chars (rs_status_code r) @ '' '' @
           (if rs_reason_phrase r = [] then DefaultReasonPhrase (rs_status_code r) else rs_reason_phrase r))
          # map header_line (rs_headers r), body)"
proof -
  have d: "[digit_cast n] = to_chars n" if "0 \<le> n" "n \<le> 9" for n
    using that by (simp add: digit_cast_digit to_chars_def nat_digits.simps)
  let ?c = "rs_status_code r"
  let ?reason = "if rs_reason_phrase r = [] then DefaultReasonPhrase ?c else rs_reason_phrase r"
  let ?line = "''HTTP/'' @ to_chars (rs_version_major r) @ ''.'' @ to_chars (rs_version_minor r) @ '' '' @
           to_chars ?c @ '' '' @ ?reason"
  have "ResponseHeader_Serialize r [] @ body =
      ?line @ crlf @ concat (map (\<lambda>h. header_line h @ crlf) (rs_headers r)) @ crlf @ body"
    using d [of "rs_version_major r"] d [of "rs_version_minor r"] assms(3-5)
    by (simp add: ResponseHeader_Serialize_def Let_def serialize_headers_eq flip: status_digits)
  moreover have "CHR 0x0D \<notin> set (DefaultReasonPhrase ?c)" by (simp add: DefaultReasonPhrase_def)
  with assms(1) have "?line \<noteq> []" "CHR 0x0D \<notin> set ?line"
    using to_chars_no_cr by auto
  ultimately show ?thesis
    using read_head_line [of ?line] read_head_headers [OF assms(2), of body] by simp
qed

theorem response_wire_format_witness:
  "read_head (ResponseHeader_Serialize \<lparr>rs_status_code = 404, rs_reason_phrase = [], rs_version_major = 1,
      rs_version_minor = 1, rs_headers = [\<lparr>hdr_name = ''Server'', hdr_value = ''kio''\<rparr>]\<rparr> [] @ ''x'') =
   Some ([''HTTP/1.1 404 Not Found'', ''Server: kio''], ''x'')"
proof -
  have tc: "to_chars 1 = ''1''" "to_chars 404 = ''404''" by code_simp+
  show ?thesis
    using response_wire_format [of "\<lparr>rs_status_code = 404, rs_reason_phrase = [], rs_version_major = 1,
      rs_version_minor = 1, rs_headers = [\<lparr>hdr_name = ''Server'', hdr_value = ''kio''\<rparr>]\<rparr>" "''x''"]
    by (simp add: headers_clean_def header_line_def tc DefaultReasonPhrase_def)
qed

end
