(* ===== verification/Byte_Codec.thy ===== *)
theory Byte_Codec
  imports Kio_Prelude
begin

text \<open>
  The byte-level layer of the bitcask storage engine (\<^verbatim>\<open>bitcask/include/common.h\<close>):
  fixed-width little-endian integers read from and written into byte buffers, on hosts of
  either byte order, and the file-format constants. The locale \<open>prefix_codec\<close> states what
  a record format promises to the code that scans a file of such records; it is
  interpreted on the hint and data entries of the theory \<open>Entry\<close>.
\<close>

section \<open>Integers in memory\<close>

text \<open>The bytes of a word, least significant first, and the word of such bytes.\<close>

primrec le_bytes :: "nat \<Rightarrow> 'a::len word \<Rightarrow> bytes" where
  "le_bytes 0 v = []"
| "le_bytes (Suc n) v = ucast v # le_bytes n (drop_bit 8 v)"

primrec le_word :: "bytes \<Rightarrow> 'a::len word" where
  "le_word [] = 0"
| "le_word (b # bs) = ucast b OR push_bit 8 (le_word bs)"

lemma length_le_bytes [simp]: "length (le_bytes n v) = n"
  by (induction n arbitrary: v) simp_all

lemma le_word_le_bytes_take: "le_word (le_bytes n v) = take_bit (8 * n) v"
proof (induction n arbitrary: v)
  case 0
  then show ?case by simp
next
  case (Suc n)
  show ?case
    by (rule bit_word_eqI) (auto simp: Suc bit_simps)
qed

lemma le_word_le_bytes [simp]:
  fixes v :: "'a::len word"
  assumes "LENGTH('a) \<le> 8 * n"
  shows "le_word (le_bytes n v) = v"
  using assms by (simp add: le_word_le_bytes_take take_bit_word_eq_self)

lemma le_bytes_le_word [simp]:
  assumes "8 * length bs \<le> LENGTH('a::len)"
  shows "le_bytes (length bs) (le_word bs :: 'a word) = bs"
  using assms
proof (induction bs)
  case Nil
  then show ?case by simp
next
  case (Cons b bs)
  let ?w = "ucast b OR push_bit 8 (le_word bs) :: 'a word"
  from Cons.prems have len: "8 + 8 * length bs \<le> LENGTH('a)" by simp
  have 1: "ucast ?w = b"
    using len by (intro bit_word_eqI) (auto simp: bit_simps)
  have 2: "drop_bit 8 ?w = take_bit (LENGTH('a) - 8) (le_word bs :: 'a word)"
    by (intro bit_word_eqI) (auto simp: bit_simps dest: bit_imp_le_length)
  have tb: "le_bytes n (take_bit m w) = le_bytes n w" if "8 * n \<le> m" for n m and w :: "'a word"
    using that
  proof (induction n arbitrary: m w)
    case (Suc n)
    have "ucast (take_bit m w) = (ucast w :: byte)"
      using Suc.prems by (intro bit_word_eqI) (auto simp: bit_simps)
    moreover have "drop_bit 8 (take_bit m w) = take_bit (m - 8) (drop_bit 8 w)"
      by (simp add: drop_bit_take_bit)
    ultimately show ?case using Suc by simp
  qed simp
  from len have "le_bytes (length bs) (drop_bit 8 ?w) = le_bytes (length bs) (le_word bs :: 'a word)"
    by (simp only: 2) (rule tb, simp)
  with Cons 1 show ?case by simp
qed

declare le_bytes.simps [simp del] le_word.simps [simp del]

datatype endian = Little | Big

text \<open>The object representation that \<^verbatim>\<open>memcpy (\&val, buffer, sizeof (T))\<close> reads and writes.\<close>

definition native_bytes :: "endian \<Rightarrow> 'a::len word \<Rightarrow> bytes" where
  "native_bytes e v = (let bs = le_bytes (LENGTH('a) div 8) v in case e of Little \<Rightarrow> bs | Big \<Rightarrow> rev bs)"

definition native_word :: "endian \<Rightarrow> bytes \<Rightarrow> 'a::len word" where
  "native_word e bs = le_word (case e of Little \<Rightarrow> bs | Big \<Rightarrow> rev bs)"

definition ByteSwap :: "'a::len word \<Rightarrow> 'a word" where
  "ByteSwap v = le_word (rev (le_bytes (LENGTH('a) div 8) v))"

definition ReadLe_on :: "endian \<Rightarrow> bytes \<Rightarrow> 'a::len word" where
  "ReadLe_on e buffer =
     (let val = native_word e (take (LENGTH('a) div 8) buffer)
      in case e of Big \<Rightarrow> ByteSwap val | Little \<Rightarrow> val)"

definition WriteLe_on :: "endian \<Rightarrow> nat \<Rightarrow> 'a::len word \<Rightarrow> bytes \<Rightarrow> bytes" where
  "WriteLe_on e off v buffer =
     (let v' = (case e of Big \<Rightarrow> ByteSwap v | Little \<Rightarrow> v)
      in memcpy_at off (native_bytes e v') buffer)"

text \<open>
  On the supported little-endian hosts both reduce to \<open>le_bytes\<close> and \<open>le_word\<close>; the
  theorem below says the host's byte order never shows in the file.
\<close>

definition ReadLe :: "nat \<Rightarrow> bytes \<Rightarrow> 'a::len word" where
  "ReadLe off buffer = ReadLe_on Little (drop off buffer)"

definition WriteLe :: "nat \<Rightarrow> 'a::len word \<Rightarrow> bytes \<Rightarrow> bytes" where
  "WriteLe = WriteLe_on Little"

lemma ReadLe_eq: "ReadLe off buffer = (le_word (subspan off (LENGTH('a) div 8) buffer) :: 'a::len word)"
  by (simp add: ReadLe_def ReadLe_on_def native_word_def subspan_def)

lemma WriteLe_eq: "WriteLe off (v :: 'a::len word) buffer = memcpy_at off (le_bytes (LENGTH('a) div 8) v) buffer"
  by (simp add: WriteLe_def WriteLe_on_def native_bytes_def)

lemma le_bytes_ByteSwap:
  fixes v :: "'a::len word"
  assumes "8 dvd LENGTH('a)"
  shows "le_bytes (LENGTH('a) div 8) (ByteSwap v) = rev (le_bytes (LENGTH('a) div 8) v)"
proof -
  let ?bs = "rev (le_bytes (LENGTH('a) div 8) v)"
  have "le_bytes (length ?bs) (le_word ?bs :: 'a word) = ?bs"
    by (rule le_bytes_le_word) (use assms in simp)
  then show ?thesis by (simp add: ByteSwap_def)
qed

lemma ByteSwap_ByteSwap:
  fixes v :: "'a::len word"
  assumes "8 dvd LENGTH('a)"
  shows "ByteSwap (ByteSwap v) = v"
proof -
  have "ByteSwap (ByteSwap v) = (le_word (le_bytes (LENGTH('a) div 8) v) :: 'a word)"
    by (simp add: ByteSwap_def [of "ByteSwap v"] le_bytes_ByteSwap [OF assms])
  with assms show ?thesis by simp
qed

lemma WriteLe_on_eq:
  fixes v :: "'a::len word"
  assumes "8 dvd LENGTH('a)"
  shows "WriteLe_on e off v = WriteLe off v"
  by (cases e) (auto simp: WriteLe_def WriteLe_on_def native_bytes_def le_bytes_ByteSwap [OF assms])

lemma ReadLe_on_eq:
  assumes "8 dvd LENGTH('a::len)" and "LENGTH('a) div 8 \<le> length buffer"
  shows "(ReadLe_on e buffer :: 'a word) = ReadLe 0 buffer"
proof (cases e)
  case Little
  then show ?thesis by (simp add: ReadLe_def)
next
  case Big
  let ?bs = "take (LENGTH('a) div 8) buffer"
  from assms have "le_bytes (LENGTH('a) div 8) (le_word (rev ?bs) :: 'a word) = rev ?bs"
    using le_bytes_le_word [of "rev ?bs", where 'a = 'a] by (simp add: min_absorb2)
  with Big show ?thesis
    by (simp add: ReadLe_on_def native_word_def ByteSwap_def ReadLe_eq)
qed

section \<open>File-format constants\<close>

definition kFlagNone :: u8 where "kFlagNone = 0x00"
definition kFlagTombstone :: u8 where "kFlagTombstone = 0x01"
definition kEntryFixedHeaderSize :: nat where "kEntryFixedHeaderSize = 21"
definition kHintHeaderSize :: nat where "kHintHeaderSize = 24"
definition kDataFilePrefix :: string where "kDataFilePrefix = ''data_''"
definition kHintFilePrefix :: string where "kHintFilePrefix = ''hint_''"
definition kDataFileExtension :: string where "kDataFileExtension = ''.db''"
definition kHintFileExtension :: string where "kHintFileExtension = ''.ht''"

section \<open>Errors of the storage engine\<close>

text \<open>
  \<^verbatim>\<open>kio::Error\<close> carries a category and a value. The two serialization codes the engine
  compares against are distinct constants; an errno is any other value. An exception that
  leaves a coroutine reaches the awaiting caller in place of a result: it is the value
  \<open>Thrown\<close>. \<open>Diverges\<close> is the outcome of a loop that has stopped making progress and never
  returns.
\<close>

datatype ErrorCategory = KSerialization | KFile | KApplication | KSystem
datatype error_value = KIoNeedMoreData | KIoDataCorrupted | Errno int | Thrown string | Diverges

record Error =
  category :: ErrorCategory
  error_val :: error_value

definition need_more_data :: Error where
  "need_more_data = \<lparr>category = KSerialization, error_val = KIoNeedMoreData\<rparr>"

definition data_corrupted :: Error where
  "data_corrupted = \<lparr>category = KSerialization, error_val = KIoDataCorrupted\<rparr>"

lemma error_distinct [simp]:
  "error_val need_more_data = KIoNeedMoreData"
  "error_val data_corrupted = KIoDataCorrupted"
  "need_more_data \<noteq> data_corrupted" "data_corrupted \<noteq> need_more_data"
  by (simp_all add: need_more_data_def data_corrupted_def)

section \<open>Scanning a file of records\<close>

text \<open>
  A record format: \<open>enc\<close> writes a record, \<open>dec\<close> reads one from the front of a buffer and
  says how many bytes it took. \<open>scan\<close> is the loop shared by the recovery paths: decode
  records from the front until the buffer holds no whole record.
\<close>

function scan :: "(bytes \<Rightarrow> ('e \<times> nat) option) \<Rightarrow> bytes \<Rightarrow> 'e list \<times> bytes" where
  "scan dec bs =
     (case dec bs of
        None \<Rightarrow> ([], bs)
      | Some (e, n) \<Rightarrow>
          if n = 0 \<or> bs = [] then ([], bs)
          else (let (es, rest) = scan dec (drop n bs) in (e # es, rest)))"
  by pat_completeness auto
termination
  by (relation "measure (\<lambda>(dec, bs). length bs)") auto

declare scan.simps [simp del]

locale prefix_codec =
  fixes enc :: "'e \<Rightarrow> bytes"
    and dec :: "bytes \<Rightarrow> ('e \<times> nat) option"
    and valid :: "'e \<Rightarrow> bool"
  assumes dec_enc: "valid e \<Longrightarrow> dec (enc e @ rest) = Some (e, length (enc e))"
    and enc_nonempty: "valid e \<Longrightarrow> enc e \<noteq> []"
    and dec_partial: "valid e \<Longrightarrow> n < length (enc e) \<Longrightarrow> dec (take n (enc e)) = None"
begin

lemma scan_enc: "valid e \<Longrightarrow> scan dec (enc e @ rest) = (e # fst (scan dec rest), snd (scan dec rest))"
  by (subst scan.simps) (simp add: dec_enc enc_nonempty split_beta)

lemma scan_concat:
  "\<forall>e \<in> set es. valid e \<Longrightarrow> scan dec (concat (map enc es) @ rest) = (es @ fst (scan dec rest), snd (scan dec rest))"
  by (induction es) (auto simp: scan_enc)

text \<open>A file cut inside its last record: every whole record before the cut is recovered.\<close>

lemma scan_truncated:
  assumes "\<forall>e \<in> set es. valid e" and "valid e" and "n < length (enc e)"
  shows "scan dec (concat (map enc es) @ take n (enc e)) = (es, take n (enc e))"
proof -
  have "scan dec (take n (enc e)) = ([], take n (enc e))"
    by (subst scan.simps) (simp add: dec_partial assms(2,3))
  with scan_concat [OF assms(1)] show ?thesis by simp
qed

text \<open>A file of records has only one reading.\<close>

lemma concat_enc_inject:
  assumes "\<forall>e \<in> set es. valid e" and "\<forall>e \<in> set fs. valid e"
    and "concat (map enc es) = concat (map enc fs)" and "dec [] = None"
  shows "es = fs"
proof -
  have "scan dec [] = ([], [])" by (subst scan.simps) (simp add: assms(4))
  with scan_concat [OF assms(1), of "[]"] scan_concat [OF assms(2), of "[]"] assms(3)
  show ?thesis by simp
qed

end

section \<open>Host independence\<close>

text \<open>
  The bytes \<^verbatim>\<open>WriteLe\<close> stores, and the value \<^verbatim>\<open>ReadLe\<close> fetches, do not depend on the byte
  order of the host that compiled the code: the \<^verbatim>\<open>if constexpr (std::endian::native)\<close>
  branches agree, for every integer type of whole bytes.
\<close>

theorem codec_host_independent:
  fixes v :: "'a::len word"
  assumes "8 dvd LENGTH('a)" and "off + LENGTH('a) div 8 \<le> length buffer"
  shows "WriteLe_on Big off v buffer = WriteLe_on Little off v buffer \<and>
    (ReadLe_on Big (drop off buffer) :: 'a word) = ReadLe_on Little (drop off buffer) \<and>
    ReadLe_on e (drop off (WriteLe_on e' off v buffer)) = v"
proof (intro conjI)
  show "WriteLe_on Big off v buffer = WriteLe_on Little off v buffer"
    by (simp add: WriteLe_on_eq [OF assms(1)])
  show "(ReadLe_on Big (drop off buffer) :: 'a word) = ReadLe_on Little (drop off buffer)"
    using assms by (subst (1 2) ReadLe_on_eq) simp_all
  let ?b = "WriteLe off v buffer"
  have "(ReadLe_on e (drop off ?b) :: 'a word) = le_word (subspan off (LENGTH('a) div 8) ?b)"
    using assms by (subst ReadLe_on_eq) (simp_all add: WriteLe_eq ReadLe_eq subspan_def)
  also have "\<dots> = v"
    using assms subspan_memcpy_at [of off "le_bytes (LENGTH('a) div 8) v" buffer] by (simp add: WriteLe_eq)
  finally show "ReadLe_on e (drop off (WriteLe_on e' off v buffer)) = v"
    by (simp add: WriteLe_on_eq [OF assms(1)])
qed

theorem codec_host_independent_witness:
  "WriteLe_on Big 1 (0x1234 :: u16) [0, 0, 0] = [0, 0x34, 0x12] \<and>
   (ReadLe_on Big (drop 1 [0, 0x34, 0x12]) :: u16) = 0x1234"
proof -
  have l: "WriteLe_on Little 1 (0x1234 :: u16) [0, 0, 0] = [0, 0x34, 0x12]" by code_simp
  show ?thesis
    using codec_host_independent [of 1 "[0, 0, 0]" "0x1234 :: u16" Big Little] by (simp add: l [unfolded One_nat_def])
qed

end
