(* ===== verification/Entry.thy ===== *)
theory Entry
  imports Byte_Codec
begin

text \<open>
  On-disk records of the bitcask engine (\<^verbatim>\<open>bitcask/include/entry.h\<close>,
  \<^verbatim>\<open>bitcask/src/entry.cpp\<close>): the CRC-protected data entry, the hint entry, and the in-memory
  location of a value. The checksum library \<^verbatim>\<open>crc32c\<close> is not part of the repository: its
  function is the argument \<open>crc\<close> of every definition that computes a checksum, and none of
  the theorems of this theory needs an assumption about it.
\<close>

section \<open>Data entries\<close>

record DataEntry =
  de_payload :: bytes
  key_view :: bytes
  value_view :: bytes

text \<open>
  The constructor, statement by statement: the lengths are truncated to 32 bits, the
  payload is sized from the truncated lengths, and the CRC is written last, over the bytes
  that follow its field.
\<close>

definition mk_DataEntry :: "(bytes \<Rightarrow> u32) \<Rightarrow> bytes \<Rightarrow> bytes \<Rightarrow> u8 \<Rightarrow> u64 \<Rightarrow> DataEntry" where
  "mk_DataEntry crc key val flag timestamp =
     (let len = of_nat (length key) :: u32;
          v_len = of_nat (length val) :: u32;
          p = replicate (kEntryFixedHeaderSize + unat len + unat v_len) 0;
          p = WriteLe 0 (0 :: u32) p;
          p = WriteLe 4 timestamp p;
          p = WriteLe 12 flag p;
          p = WriteLe 13 len p;
          p = WriteLe 17 v_len p;
          p = memcpy_at kEntryFixedHeaderSize (take (unat len) key) p;
          p = memcpy_at (kEntryFixedHeaderSize + unat len) (take (unat v_len) val) p;
          c = crc (drop 4 p);
          p = memcpy_at 0 (native_bytes Little c) p
      in \<lparr>de_payload = p,
          key_view = subspan kEntryFixedHeaderSize (unat len) p,
          value_view = subspan (kEntryFixedHeaderSize + unat len) (unat v_len) p\<rparr>)"

definition DataEntry_GetCrc :: "DataEntry \<Rightarrow> u32" where
  "DataEntry_GetCrc e = ReadLe 0 (de_payload e)"

definition DataEntry_GetTimestamp :: "DataEntry \<Rightarrow> u64" where
  "DataEntry_GetTimestamp e = ReadLe 4 (de_payload e)"

definition DataEntry_GetFlag :: "DataEntry \<Rightarrow> u8" where
  "DataEntry_GetFlag e = ReadLe 12 (de_payload e)"

definition DataEntry_IsTombstone :: "DataEntry \<Rightarrow> bool" where
  "DataEntry_IsTombstone e \<longleftrightarrow> (DataEntry_GetFlag e AND kFlagTombstone) \<noteq> 0"

definition DataEntry_Size :: "DataEntry \<Rightarrow> nat" where
  "DataEntry_Size e = trunc32 (length (de_payload e))"

definition DataEntry_Deserialize :: "(bytes \<Rightarrow> u32) \<Rightarrow> bytes \<Rightarrow> Error + DataEntry" where
  "DataEntry_Deserialize crc buffer =
     (if length buffer < kEntryFixedHeaderSize then Inl need_more_data
      else
        let len = unat (ReadLe 13 buffer :: u32);
            v_len = unat (ReadLe 17 buffer :: u32)
        in if length buffer < kEntryFixedHeaderSize + len + v_len then Inl need_more_data
           else
             let stored_crc = ReadLe 0 buffer :: u32;
                 computed_crc = crc (subspan 4 (kEntryFixedHeaderSize - 4 + len + v_len) buffer)
             in if computed_crc \<noteq> stored_crc then Inl data_corrupted
                else
                  let timestamp = ReadLe 4 buffer :: u64;
                      flag = ReadLe 12 buffer :: u8;
                      key = subspan kEntryFixedHeaderSize len buffer;
                      val = subspan (kEntryFixedHeaderSize + len) v_len buffer
                  in Inr (mk_DataEntry crc key val flag timestamp))"

text \<open>The on-disk layout as one expression: header fields, then key and value bytes.\<close>

definition entry_body :: "bytes \<Rightarrow> bytes \<Rightarrow> u8 \<Rightarrow> u64 \<Rightarrow> bytes" where
  "entry_body key val flag timestamp =
     le_bytes 8 timestamp @ le_bytes 1 flag @ le_bytes 4 (of_nat (length key) :: u32)
       @ le_bytes 4 (of_nat (length val) :: u32) @ key @ val"

definition entry_image :: "(bytes \<Rightarrow> u32) \<Rightarrow> bytes \<Rightarrow> bytes \<Rightarrow> u8 \<Rightarrow> u64 \<Rightarrow> bytes" where
  "entry_image crc key val flag timestamp =
     le_bytes 4 (crc (entry_body key val flag timestamp)) @ entry_body key val flag timestamp"

lemma length_entry_body [simp]:
  "length (entry_body key val flag ts) = 17 + length key + length val"
  by (simp add: entry_body_def)

lemma length_entry_image [simp]:
  "length (entry_image crc key val flag ts) = 21 + length key + length val"
  by (simp add: entry_image_def)

lemma unat_len32 [simp]: "length xs < 2 ^ 32 \<Longrightarrow> unat (of_nat (length xs) :: u32) = length xs"
  by (simp add: unat_of_nat)

lemma zero_header:
  "replicate (21 + k + v) (0 :: byte) =
     replicate 4 0 @ replicate 8 0 @ replicate 1 0 @ replicate 4 0 @ replicate 4 0
       @ replicate k 0 @ replicate v 0"
  by (simp only: replicate_add [symmetric]) (simp add: add.assoc)

lemma payload_mk_DataEntry:
  assumes "length key < 2 ^ 32" and "length val < 2 ^ 32"
  shows "de_payload (mk_DataEntry crc key val flag ts) = entry_image crc key val flag ts"
  using assms
  by (simp add: mk_DataEntry_def Let_def WriteLe_eq native_bytes_def kEntryFixedHeaderSize_def
      zero_header entry_image_def entry_body_def del: replicate.simps)

lemma subspan_entry_key:
  "subspan 21 (length key) (entry_image crc key val flag ts @ rest) = key"
  by (simp add: entry_image_def entry_body_def)

lemma subspan_entry_value:
  "subspan (21 + length key) (length val) (entry_image crc key val flag ts @ rest) = val"
  by (simp add: entry_image_def entry_body_def)

lemma mk_DataEntry_eq:
  assumes "length key < 2 ^ 32" and "length val < 2 ^ 32"
  shows "mk_DataEntry crc key val flag ts =
    \<lparr>de_payload = entry_image crc key val flag ts, key_view = key, value_view = val\<rparr>"
proof -
  let ?e = "mk_DataEntry crc key val flag ts"
  have "key_view ?e = subspan 21 (length key) (de_payload ?e)"
    and "value_view ?e = subspan (21 + length key) (length val) (de_payload ?e)"
    using assms by (simp_all add: mk_DataEntry_def Let_def kEntryFixedHeaderSize_def)
  then show ?thesis
    using subspan_entry_key [of key crc val flag ts "[]"] subspan_entry_value [of key val crc flag ts "[]"]
    by (simp add: payload_mk_DataEntry [OF assms])
qed

text \<open>The header fields of an image, read at the offsets the decoder uses.\<close>

lemma entry_image_fields:
  "ReadLe 0 (entry_image crc key val flag ts @ rest) = (crc (entry_body key val flag ts) :: u32)"
  "ReadLe 4 (entry_image crc key val flag ts @ rest) = (ts :: u64)"
  "ReadLe 12 (entry_image crc key val flag ts @ rest) = (flag :: u8)"
  "ReadLe 13 (entry_image crc key val flag ts @ rest) = (of_nat (length key) :: u32)"
  "ReadLe 17 (entry_image crc key val flag ts @ rest) = (of_nat (length val) :: u32)"
  by (simp_all add: entry_image_def entry_body_def ReadLe_eq)

lemma subspan_entry_body:
  "subspan 4 (17 + length key + length val) (entry_image crc key val flag ts @ rest) = entry_body key val flag ts"
  by (simp add: entry_image_def)

lemma ReadLe_prefix:
  assumes "off + LENGTH('a::len) div 8 \<le> n" and "n \<le> length buf"
  shows "(ReadLe off (take n buf) :: 'a word) = ReadLe off buf"
proof -
  have "take (LENGTH('a) div 8) (drop off (take n buf)) = take (LENGTH('a) div 8) (drop off buf)"
    using assms by (simp add: drop_take min_def)
  then show ?thesis by (simp add: ReadLe_eq subspan_def)
qed

lemma DataEntry_Deserialize_image:
  assumes "length key < 2 ^ 32" and "length val < 2 ^ 32"
  shows "DataEntry_Deserialize crc (entry_image crc key val flag ts @ rest) =
    Inr (mk_DataEntry crc key val flag ts)"
  using assms subspan_entry_key [of key crc val flag ts rest]
    subspan_entry_value [of key val crc flag ts rest] subspan_entry_body [of key val crc flag ts rest]
  by (simp add: DataEntry_Deserialize_def Let_def kEntryFixedHeaderSize_def entry_image_fields)

text \<open>A strict prefix of a record is never mistaken for a record or for corruption.\<close>

lemma DataEntry_Deserialize_prefix:
  assumes "length key < 2 ^ 32" and "length val < 2 ^ 32"
    and "n < length (entry_image crc key val flag ts)"
  shows "DataEntry_Deserialize crc (take n (entry_image crc key val flag ts)) = Inl need_more_data"
proof (cases "n < 21")
  case True
  then show ?thesis by (simp add: DataEntry_Deserialize_def kEntryFixedHeaderSize_def)
next
  case False
  let ?img = "entry_image crc key val flag ts"
  have "ReadLe 13 (take n ?img) = (of_nat (length key) :: u32)"
    and "ReadLe 17 (take n ?img) = (of_nat (length val) :: u32)"
    using False assms(3) entry_image_fields(4,5) [of crc key val flag ts "[]"]
    by (simp_all add: ReadLe_prefix)
  with False assms show ?thesis
    by (simp add: DataEntry_Deserialize_def Let_def kEntryFixedHeaderSize_def)
qed

text \<open>
  Conversely, what the decoder accepts is exactly an image: rebuilding the entry from its
  fields reproduces the bytes that were read.
\<close>

lemma le_bytes_ReadLe:
  assumes "8 dvd LENGTH('a::len)" and "off + LENGTH('a) div 8 \<le> length buf"
  shows "le_bytes (LENGTH('a) div 8) (ReadLe off buf :: 'a word) = subspan off (LENGTH('a) div 8) buf"
proof -
  let ?s = "subspan off (LENGTH('a) div 8) buf"
  from assms have "length ?s = LENGTH('a) div 8" by simp
  with assms(1) le_bytes_le_word [of ?s, where 'a = 'a] show ?thesis
    by (simp add: ReadLe_eq)
qed

lemma subspan_fields:
  "subspan 4 (17 + k + v) xs = subspan 4 8 xs @ subspan 12 1 xs @ subspan 13 4 xs @ subspan 17 4 xs
     @ subspan 21 k xs @ subspan (21 + k) v xs"
proof -
  have "17 + k + v = 8 + (1 + (4 + (4 + (k + v))))" by simp
  then show ?thesis by (simp only: subspan_split) simp
qed

lemma DataEntry_Deserialize_sound:
  assumes ok: "DataEntry_Deserialize crc buf = Inr e"
  shows "\<exists>key val flag ts. length key < 2 ^ 32 \<and> length val < 2 ^ 32 \<and>
    e = mk_DataEntry crc key val flag ts \<and>
    21 + length key + length val \<le> length buf \<and>
    take (21 + length key + length val) buf = entry_image crc key val flag ts"
proof -
  define len where "len = unat (ReadLe 13 buf :: u32)"
  define v_len where "v_len = unat (ReadLe 17 buf :: u32)"
  define key where "key = subspan 21 len buf"
  define val where "val = subspan (21 + len) v_len buf"
  let ?ts = "ReadLe 4 buf :: u64" and ?flag = "ReadLe 12 buf :: u8"
  from ok have size: "21 + len + v_len \<le> length buf"
    and crc: "crc (subspan 4 (17 + len + v_len) buf) = (ReadLe 0 buf :: u32)"
    and e: "e = mk_DataEntry crc key val ?flag ?ts"
    by (auto simp: DataEntry_Deserialize_def Let_def kEntryFixedHeaderSize_def len_def v_len_def
        key_def val_def split: if_splits)
  have lk: "length key = len" and lv: "length val = v_len"
    using size by (simp_all add: key_def val_def)
  have bl: "len < 2 ^ 32" "v_len < 2 ^ 32"
    using unsigned_less [of "ReadLe 13 buf :: u32"] unsigned_less [of "ReadLe 17 buf :: u32"]
    by (simp_all add: len_def v_len_def)
  have "le_bytes 8 ?ts = subspan 4 8 buf" "le_bytes 1 ?flag = subspan 12 1 buf"
    "le_bytes 4 (of_nat len :: u32) = subspan 13 4 buf"
    "le_bytes 4 (of_nat v_len :: u32) = subspan 17 4 buf"
    using size le_bytes_ReadLe [of 4 buf, where 'a = 64] le_bytes_ReadLe [of 12 buf, where 'a = 8]
      le_bytes_ReadLe [of 13 buf, where 'a = 32] le_bytes_ReadLe [of 17 buf, where 'a = 32]
    by (simp_all add: len_def v_len_def)
  then have body: "entry_body key val ?flag ?ts = subspan 4 (17 + len + v_len) buf"
    by (simp only: entry_body_def lk lv subspan_fields) (simp only: key_def val_def)
  have "le_bytes 4 (ReadLe 0 buf :: u32) = take 4 buf"
    using size le_bytes_ReadLe [of 0 buf, where 'a = 32] by simp
  with body crc have "entry_image crc key val ?flag ?ts = take 4 buf @ subspan 4 (17 + len + v_len) buf"
    by (simp add: entry_image_def)
  also have "\<dots> = take (21 + len + v_len) buf"
    using take_subspan [of 4 "17 + len + v_len" buf] by (simp add: add.assoc)
  finally show ?thesis
    using e size bl lk lv by (intro exI [of _ key] exI [of _ val] exI [of _ ?flag] exI [of _ ?ts]) simp
qed

section \<open>Hint entries\<close>

record HintEntry =
  h_offset :: u64
  h_size :: u32
  h_timestamp_ns :: u64
  h_key :: bytes

definition HintEntry_Size :: "HintEntry \<Rightarrow> nat" where
  "HintEntry_Size h = kHintHeaderSize + length (h_key h)"

definition HintEntry_Serialize :: "HintEntry \<Rightarrow> bytes" where
  "HintEntry_Serialize h =
     (let len = of_nat (length (h_key h)) :: u32;
          buffer = replicate (kHintHeaderSize + unat len) 0;
          buffer = WriteLe 0 (h_timestamp_ns h) buffer;
          buffer = WriteLe 8 (h_offset h) buffer;
          buffer = WriteLe 16 (h_size h) buffer;
          buffer = WriteLe 20 len buffer
      in if 0 < unat len then memcpy_at kHintHeaderSize (take (unat len) (h_key h)) buffer else buffer)"

definition HintEntry_Deserialize :: "bytes \<Rightarrow> Error + (HintEntry \<times> nat)" where
  "HintEntry_Deserialize buffer =
     (if length buffer < kHintHeaderSize then Inl need_more_data
      else
        let len = unat (ReadLe 20 buffer :: u32)
        in if length buffer < kHintHeaderSize + len then Inl need_more_data
           else Inr (\<lparr>h_offset = ReadLe 8 buffer, h_size = ReadLe 16 buffer, h_timestamp_ns = ReadLe 0 buffer,
                      h_key = (if 0 < len then subspan kHintHeaderSize len buffer else [])\<rparr>,
                     kHintHeaderSize + len))"

definition hint_image :: "HintEntry \<Rightarrow> bytes" where
  "hint_image h = le_bytes 8 (h_timestamp_ns h) @ le_bytes 8 (h_offset h) @ le_bytes 4 (h_size h)
     @ le_bytes 4 (of_nat (length (h_key h)) :: u32) @ h_key h"

lemma length_hint_image [simp]: "length (hint_image h) = 24 + length (h_key h)"
  by (simp add: hint_image_def)

lemma zero_hint_header:
  "replicate (24 + k) (0 :: byte) =
     replicate 8 0 @ replicate 8 0 @ replicate 4 0 @ replicate 4 0 @ replicate k 0"
  by (simp only: replicate_add [symmetric]) (simp add: add.assoc)

lemma HintEntry_Serialize_eq:
  assumes "length (h_key h) < 2 ^ 32"
  shows "HintEntry_Serialize h = hint_image h"
  using assms
  by (simp add: HintEntry_Serialize_def Let_def WriteLe_eq kHintHeaderSize_def zero_hint_header
      hint_image_def del: replicate.simps)

lemma hint_image_fields:
  "ReadLe 0 (hint_image h @ rest) = h_timestamp_ns h"
  "ReadLe 8 (hint_image h @ rest) = h_offset h"
  "ReadLe 16 (hint_image h @ rest) = h_size h"
  "ReadLe 20 (hint_image h @ rest) = (of_nat (length (h_key h)) :: u32)"
  by (simp_all add: hint_image_def ReadLe_eq)

lemma subspan_hint_key: "subspan 24 (length (h_key h)) (hint_image h @ rest) = h_key h"
  by (simp add: hint_image_def)

lemma HintEntry_Deserialize_image:
  assumes "length (h_key h) < 2 ^ 32"
  shows "HintEntry_Deserialize (hint_image h @ rest) = Inr (h, HintEntry_Size h)"
  using assms subspan_hint_key [of h rest]
  by (simp add: HintEntry_Deserialize_def Let_def kHintHeaderSize_def HintEntry_Size_def hint_image_fields)

lemma HintEntry_Deserialize_prefix:
  assumes "length (h_key h) < 2 ^ 32" and "n < length (hint_image h)"
  shows "HintEntry_Deserialize (take n (hint_image h)) = Inl need_more_data"
proof (cases "n < 24")
  case True
  then show ?thesis by (simp add: HintEntry_Deserialize_def kHintHeaderSize_def)
next
  case False
  then have "ReadLe 20 (take n (hint_image h)) = (of_nat (length (h_key h)) :: u32)"
    using assms(2) hint_image_fields(4) [of h "[]"] by (simp add: ReadLe_prefix)
  with False assms show ?thesis
    by (simp add: HintEntry_Deserialize_def Let_def kHintHeaderSize_def)
qed

section \<open>Both record formats as prefix codecs\<close>

text \<open>
  A data record as a tuple (key, value, flag, timestamp), and its reader: what one
  iteration of the recovery scan takes from the buffer. A hint record likewise.
\<close>

definition entry_enc :: "(bytes \<Rightarrow> u32) \<Rightarrow> bytes \<times> bytes \<times> u8 \<times> u64 \<Rightarrow> bytes" where
  "entry_enc crc r = (case r of (k, v, f, t) \<Rightarrow> de_payload (mk_DataEntry crc k v f t))"

definition entry_dec :: "(bytes \<Rightarrow> u32) \<Rightarrow> bytes \<Rightarrow> ((bytes \<times> bytes \<times> u8 \<times> u64) \<times> nat) option" where
  "entry_dec crc buf =
     (case DataEntry_Deserialize crc buf of
        Inl _ \<Rightarrow> None
      | Inr e \<Rightarrow> Some ((key_view e, value_view e, DataEntry_GetFlag e, DataEntry_GetTimestamp e),
                      length (de_payload e)))"

definition entry_fits :: "bytes \<times> bytes \<times> u8 \<times> u64 \<Rightarrow> bool" where
  "entry_fits r \<longleftrightarrow> (case r of (k, v, f, t) \<Rightarrow> length k < 2 ^ 32 \<and> length v < 2 ^ 32)"

definition hint_dec :: "bytes \<Rightarrow> (HintEntry \<times> nat) option" where
  "hint_dec buf = (case HintEntry_Deserialize buf of Inl _ \<Rightarrow> None | Inr r \<Rightarrow> Some r)"

definition hint_fits :: "HintEntry \<Rightarrow> bool" where
  "hint_fits h \<longleftrightarrow> length (h_key h) < 2 ^ 32"

lemma DataEntry_fields:
  assumes "length key < 2 ^ 32" and "length val < 2 ^ 32"
  shows "DataEntry_GetFlag (mk_DataEntry crc key val flag ts) = flag"
    and "DataEntry_GetTimestamp (mk_DataEntry crc key val flag ts) = ts"
    and "DataEntry_GetCrc (mk_DataEntry crc key val flag ts) = crc (entry_body key val flag ts)"
  using entry_image_fields [of crc key val flag ts "[]"]
  by (simp_all add: DataEntry_GetFlag_def DataEntry_GetTimestamp_def DataEntry_GetCrc_def
      payload_mk_DataEntry [OF assms])

lemma DataEntry_views:
  assumes "length key < 2 ^ 32" and "length val < 2 ^ 32"
  shows "key_view (mk_DataEntry crc key val flag ts) = key"
    and "value_view (mk_DataEntry crc key val flag ts) = val"
  by (simp_all add: mk_DataEntry_eq [OF assms])

interpretation entry_codec: prefix_codec "entry_enc crc" "entry_dec crc" entry_fits for crc
proof unfold_locales
  fix e rest
  assume "entry_fits e"
  then show "entry_dec crc (entry_enc crc e @ rest) = Some (e, length (entry_enc crc e))"
    by (cases e) (simp add: entry_fits_def entry_enc_def entry_dec_def payload_mk_DataEntry
        DataEntry_Deserialize_image DataEntry_fields DataEntry_views)
next
  fix e
  assume "entry_fits e"
  then have "0 < length (entry_enc crc e)"
    by (cases e) (simp add: entry_fits_def entry_enc_def payload_mk_DataEntry)
  then show "entry_enc crc e \<noteq> []" by simp
next
  fix e n
  assume "entry_fits e" and "n < length (entry_enc crc e)"
  then show "entry_dec crc (take n (entry_enc crc e)) = None"
    by (cases e) (simp add: entry_fits_def entry_enc_def entry_dec_def payload_mk_DataEntry
        DataEntry_Deserialize_prefix)
qed

interpretation hint_codec: prefix_codec HintEntry_Serialize hint_dec hint_fits
proof unfold_locales
  fix h rest
  assume "hint_fits h"
  then show "hint_dec (HintEntry_Serialize h @ rest) = Some (h, length (HintEntry_Serialize h))"
    by (simp add: hint_fits_def hint_dec_def HintEntry_Serialize_eq HintEntry_Deserialize_image
        HintEntry_Size_def kHintHeaderSize_def)
next
  fix h
  assume "hint_fits h"
  then have "0 < length (HintEntry_Serialize h)"
    by (simp add: hint_fits_def HintEntry_Serialize_eq)
  then show "HintEntry_Serialize h \<noteq> []" by simp
next
  fix h n
  assume "hint_fits h" and "n < length (HintEntry_Serialize h)"
  then show "hint_dec (take n (HintEntry_Serialize h)) = None"
    by (simp add: hint_fits_def hint_dec_def HintEntry_Serialize_eq HintEntry_Deserialize_prefix)
qed

text \<open>A concrete checksum for the witnesses: the sum of the bytes.\<close>

definition sum_list32 :: "bytes \<Rightarrow> u32" where
  "sum_list32 bs = sum_list (map ucast bs)"

section \<open>Properties of the record formats\<close>





text \<open>
  A data file cut at an arbitrary byte inside its last record: scanning recovers
  exactly the whole records, in order, and stops in front of the torn one.
\<close>

theorem data_file_torn_tail:
  assumes "\<forall>r \<in> set rs. entry_fits r" and "entry_fits r" and "n < length (entry_enc crc r)"
  shows "scan (entry_dec crc) (concat (map (entry_enc crc) rs) @ take n (entry_enc crc r)) =
    (rs, take n (entry_enc crc r))"
  using assms by (rule entry_codec.scan_truncated)

theorem data_file_torn_tail_witness:
  "fst (scan (entry_dec sum_list32) (entry_enc sum_list32 ([1], [2, 3], 0, 5) @ take 22 (entry_enc sum_list32 ([4], [5], 0, 6))))
     = [([1], [2, 3], 0, 5)]"
proof -
  have "length (entry_enc sum_list32 ([4], [5], 0, 6)) = 23"
    by (simp add: entry_enc_def payload_mk_DataEntry)
  then show ?thesis
    using data_file_torn_tail [of "[([1], [2, 3], 0, 5)]" "([4], [5], 0, 6)" 22 sum_list32]
    by (simp add: entry_fits_def)
qed

text \<open>
  Hint files: the serialized records of a file, followed by a torn one, read back as
  exactly those records; each record takes \<^verbatim>\<open>HintEntry::Size\<close> bytes.
\<close>

theorem hint_file_torn_tail:
  assumes "\<forall>h \<in> set hs. hint_fits h" and "hint_fits h" and "n < HintEntry_Size h"
  shows "scan hint_dec (concat (map HintEntry_Serialize hs) @ take n (HintEntry_Serialize h)) =
    (hs, take n (HintEntry_Serialize h)) \<and>
    length (concat (map HintEntry_Serialize hs)) = sum_list (map HintEntry_Size hs)"
proof (intro conjI)
  have len: "length (HintEntry_Serialize g) = HintEntry_Size g" if "hint_fits g" for g
    using that by (simp add: hint_fits_def HintEntry_Serialize_eq HintEntry_Size_def kHintHeaderSize_def)
  show "scan hint_dec (concat (map HintEntry_Serialize hs) @ take n (HintEntry_Serialize h)) =
    (hs, take n (HintEntry_Serialize h))"
    using assms len by (intro hint_codec.scan_truncated) auto
  show "length (concat (map HintEntry_Serialize hs)) = sum_list (map HintEntry_Size hs)"
    using assms(1) len by (simp add: length_concat comp_def cong: map_cong)
qed

theorem hint_file_torn_tail_witness:
  "let h = \<lparr>h_offset = 21, h_size = 24, h_timestamp_ns = 7, h_key = [1, 2]\<rparr>
   in scan hint_dec (HintEntry_Serialize h @ take 25 (HintEntry_Serialize h)) = ([h], take 25 (HintEntry_Serialize h))"
  using hint_file_torn_tail [of "[\<lparr>h_offset = 21, h_size = 24, h_timestamp_ns = 7, h_key = [1, 2]\<rparr>]"
      "\<lparr>h_offset = 21, h_size = 24, h_timestamp_ns = 7, h_key = [1, 2]\<rparr>" 25]
  by (simp add: hint_fits_def HintEntry_Size_def kHintHeaderSize_def)

end
