(* ===== verification/File_Id.thy ===== *)
theory File_Id
  imports Kio_Prelude
begin

text \<open>
  File identifiers of the bitcask engine (\<^verbatim>\<open>bitcask/include/file_id.h\<close>): the packed
  64-bit layout partition / timestamp / sequence, the order in which recovery replays the
  files of a partition, and the per-partition generator. The clock is an argument of
  \<open>FileIdGenerator_Next\<close>: every reading may be anything, also earlier than the last.
\<close>

record FileID =
  fid_partition :: u16
  fid_timestamp_sec :: u32
  fid_sequence :: u16

definition FileID_Encode :: "FileID \<Rightarrow> u64" where
  "FileID_Encode f =
     push_bit 48 (ucast (fid_partition f)) OR push_bit 16 (ucast (fid_timestamp_sec f)) OR ucast (fid_sequence f)"

definition FileID_Decode :: "u64 \<Rightarrow> FileID" where
  "FileID_Decode i =
     \<lparr>fid_partition = ucast (drop_bit 48 i),
      fid_timestamp_sec = ucast (drop_bit 16 i AND 0xFFFFFFFF),
      fid_sequence = ucast (i AND 0xFFFF)\<rparr>"

definition FileIdCompareByTime :: "u64 \<Rightarrow> u64 \<Rightarrow> bool" where
  "FileIdCompareByTime a b =
     (let id_a = FileID_Decode a; id_b = FileID_Decode b
      in if fid_timestamp_sec id_a \<noteq> fid_timestamp_sec id_b then fid_timestamp_sec id_a < fid_timestamp_sec id_b
         else fid_sequence id_a < fid_sequence id_b)"

record FileIdGenerator =
  partition_id :: u16
  last_timestamp :: u32
  gen_sequence :: u16

definition mk_FileIdGenerator :: "u16 \<Rightarrow> FileIdGenerator" where
  "mk_FileIdGenerator p = \<lparr>partition_id = p, last_timestamp = 0, gen_sequence = 0\<rparr>"

definition FileIdGenerator_UpdateState :: "u32 \<Rightarrow> u16 \<Rightarrow> FileIdGenerator \<Rightarrow> FileIdGenerator" where
  "FileIdGenerator_UpdateState max_timestamp max_sequence g =
     (if last_timestamp g < max_timestamp
      then g\<lparr>last_timestamp := max_timestamp, gen_sequence := max_sequence\<rparr>
      else if max_timestamp = last_timestamp g
      then g\<lparr>gen_sequence := max max_sequence (gen_sequence g)\<rparr>
      else g)"

definition FileIdGenerator_Next :: "u32 \<Rightarrow> FileIdGenerator \<Rightarrow> u64 \<times> FileIdGenerator" where
  "FileIdGenerator_Next now g =
     (let g' = (if last_timestamp g < now
                then g\<lparr>last_timestamp := now, gen_sequence := 0\<rparr>
                else g\<lparr>gen_sequence := (if gen_sequence g = 0xFFFF then 0 else gen_sequence g + 1)\<rparr>)
      in (FileID_Encode \<lparr>fid_partition = partition_id g', fid_timestamp_sec = last_timestamp g',
                         fid_sequence = gen_sequence g'\<rparr>, g'))"

text \<open>The identifiers handed out for a sequence of clock readings.\<close>

fun FileIdGenerator_ids :: "u32 list \<Rightarrow> FileIdGenerator \<Rightarrow> u64 list" where
  "FileIdGenerator_ids [] g = []"
| "FileIdGenerator_ids (now # nows) g =
     (let (i, g') = FileIdGenerator_Next now g in i # FileIdGenerator_ids nows g')"

section \<open>The packed layout\<close>

lemma FileID_Decode_alt:
  "FileID_Decode i =
     \<lparr>fid_partition = ucast (drop_bit 48 i), fid_timestamp_sec = ucast (take_bit 32 (drop_bit 16 i)),
      fid_sequence = ucast (take_bit 16 i)\<rparr>"
  by (simp add: FileID_Decode_def take_bit_eq_mask mask_eq_exp_minus_1)

lemma bit_short: "bit (w :: u16) n \<Longrightarrow> n < 16" "bit (v :: u32) n \<Longrightarrow> n < 32"
  by (auto dest: bit_imp_le_length)

lemma FileID_Decode_Encode: "FileID_Decode (FileID_Encode f) = f"
proof -
  have 1: "ucast (drop_bit 48 (FileID_Encode f)) = fid_partition f"
    by (rule bit_word_eqI) (auto simp: FileID_Encode_def bit_simps dest: bit_short)
  have 2: "ucast (take_bit 32 (drop_bit 16 (FileID_Encode f))) = fid_timestamp_sec f"
    by (rule bit_word_eqI) (auto simp: FileID_Encode_def bit_simps dest: bit_short)
  have 3: "ucast (take_bit 16 (FileID_Encode f)) = fid_sequence f"
    by (rule bit_word_eqI) (auto simp: FileID_Encode_def bit_simps dest: bit_short)
  from 1 2 3 show ?thesis
    by (cases f) (simp add: FileID_Decode_alt)
qed

lemma FileID_Encode_Decode: "FileID_Encode (FileID_Decode i) = i"
proof (rule bit_word_eqI)
  fix n
  assume "n < LENGTH(64)"
  then consider "n < 16" | "16 \<le> n" "n < 48" | "48 \<le> n" "n < 64" by fastforce
  then show "bit (FileID_Encode (FileID_Decode i)) n = bit i n"
    by cases (auto simp: FileID_Encode_def FileID_Decode_alt bit_simps)
qed

text \<open>The numeric reading of the layout, from which the order of identifiers follows.\<close>

lemma unat_FileID_Encode:
  "unat (FileID_Encode f) =
     unat (fid_partition f) * 2 ^ 48 + unat (fid_timestamp_sec f) * 2 ^ 16 + unat (fid_sequence f)"
proof -
  let ?p = "push_bit 48 (ucast (fid_partition f)) :: u64"
    and ?t = "push_bit 16 (ucast (fid_timestamp_sec f)) :: u64" and ?s = "ucast (fid_sequence f) :: u64"
  have p: "unat (fid_partition f) < 2 ^ 16" and t: "unat (fid_timestamp_sec f) < 2 ^ 32"
    and s: "unat (fid_sequence f) < 2 ^ 16"
    using unsigned_less [of "fid_partition f"] unsigned_less [of "fid_timestamp_sec f"]
      unsigned_less [of "fid_sequence f"] by simp_all
  have "?t AND ?s = 0"
    by (rule bit_word_eqI) (auto simp: bit_simps dest: bit_short)
  then have ts: "?t OR ?s = ?t + ?s" by (simp add: disjunctive_add_eq_or)
  have "?p AND (?t OR ?s) = 0"
    by (rule bit_word_eqI) (auto simp: bit_simps dest: bit_short)
  then have "FileID_Encode f = ?p + (?t + ?s)"
    by (simp add: FileID_Encode_def or.assoc disjunctive_add_eq_or flip: ts)
  moreover have "unat ?p = unat (fid_partition f) * 2 ^ 48"
    using p by (simp add: unsigned_push_bit_eq unsigned_ucast_eq take_bit_eq_mod)
      (simp add: push_bit_eq_mult)
  moreover have "unat ?t = unat (fid_timestamp_sec f) * 2 ^ 16"
    using t by (simp add: unsigned_push_bit_eq unsigned_ucast_eq take_bit_eq_mod)
      (simp add: push_bit_eq_mult)
  moreover have "unat ?s = unat (fid_sequence f)"
    using s by (simp add: unsigned_ucast_eq take_bit_eq_mod)
  ultimately show ?thesis
    using p t s by (simp add: unat_word_ariths)
qed

lemma FileID_Encode_less_iff:
  assumes "fid_partition f = fid_partition g"
  shows "FileID_Encode f < FileID_Encode g \<longleftrightarrow>
    fid_timestamp_sec f < fid_timestamp_sec g \<or>
    fid_timestamp_sec f = fid_timestamp_sec g \<and> fid_sequence f < fid_sequence g"
proof -
  have "unat (fid_sequence f) < 2 ^ 16" and "unat (fid_sequence g) < 2 ^ 16"
    using unsigned_less [of "fid_sequence f"] unsigned_less [of "fid_sequence g"] by simp_all
  then have "unat (FileID_Encode f) < unat (FileID_Encode g) \<longleftrightarrow>
      unat (fid_timestamp_sec f) < unat (fid_timestamp_sec g) \<or>
      unat (fid_timestamp_sec f) = unat (fid_timestamp_sec g) \<and>
      unat (fid_sequence f) < unat (fid_sequence g)"
    by (auto simp: unat_FileID_Encode assms)
  then show ?thesis
    by (simp add: word_less_nat_alt word_unat_eq_iff)
qed

section \<open>The generator\<close>

text \<open>The identifier made of the generator's state, which is the last one it handed out.\<close>

definition gen_current :: "FileIdGenerator \<Rightarrow> u64" where
  "gen_current g = FileID_Encode \<lparr>fid_partition = partition_id g, fid_timestamp_sec = last_timestamp g,
     fid_sequence = gen_sequence g\<rparr>"

definition gen_exhausted :: "u32 \<Rightarrow> FileIdGenerator \<Rightarrow> bool" where
  "gen_exhausted now g \<longleftrightarrow> now \<le> last_timestamp g \<and> gen_sequence g = 0xFFFF"

lemma Next_current: "FileIdGenerator_Next now g = (i, g') \<Longrightarrow> i = gen_current g'"
  by (auto simp: FileIdGenerator_Next_def Let_def gen_current_def)

lemma Next_partition: "FileIdGenerator_Next now g = (i, g') \<Longrightarrow> partition_id g' = partition_id g"
  by (auto simp: FileIdGenerator_Next_def Let_def split: if_splits)

lemma Next_increases:
  assumes "FileIdGenerator_Next now g = (i, g')" and "\<not> gen_exhausted now g"
  shows "gen_current g < i"
proof -
  have "unat (gen_sequence g) < 2 ^ 16"
    using unsigned_less [of "gen_sequence g"] by simp
  then have "gen_sequence g < gen_sequence g + 1" if "gen_sequence g \<noteq> 0xFFFF"
    using that by (simp add: word_less_nat_alt word_unat_eq_iff unat_word_ariths)
  with assms show ?thesis
    by (auto simp: FileIdGenerator_Next_def Let_def gen_current_def gen_exhausted_def
        FileID_Encode_less_iff split: if_splits)
qed

lemma Next_exhausted:
  assumes "FileIdGenerator_Next now g = (i, g')" and "gen_exhausted now g"
  shows "i < gen_current g"
  using assms
  by (auto simp: FileIdGenerator_Next_def Let_def gen_current_def gen_exhausted_def
      FileID_Encode_less_iff split: if_splits)

lemma Next_sequence:
  assumes "FileIdGenerator_Next now g = (i, g')" and "gen_sequence g \<noteq> 0xFFFF"
  shows "unat (gen_sequence g') \<le> Suc (unat (gen_sequence g))"
  using assms
  by (auto simp: FileIdGenerator_Next_def Let_def unat_word_ariths split: if_splits)

lemma sequence_not_max: "unat (w :: u16) < 0xFFFF \<Longrightarrow> w \<noteq> 0xFFFF"
  by auto

lemma ids_increasing:
  "length nows + unat (gen_sequence g) \<le> 0xFFFF \<Longrightarrow>
     sorted_wrt (<) (gen_current g # FileIdGenerator_ids nows g)"
proof (induction nows arbitrary: g)
  case Nil
  then show ?case by simp
next
  case (Cons now nows)
  obtain i g' where nx: "FileIdGenerator_Next now g = (i, g')" by fastforce
  from Cons.prems have seq: "gen_sequence g \<noteq> 0xFFFF"
    by (intro sequence_not_max) simp
  with nx have lt: "gen_current g < i"
    by (intro Next_increases) (auto simp: gen_exhausted_def)
  from Next_sequence [OF nx seq] Cons.prems
  have "sorted_wrt (<) (gen_current g' # FileIdGenerator_ids nows g')"
    by (intro Cons.IH) simp
  with lt show ?case
    by (auto simp: nx Next_current [OF nx] intro: less_trans)
qed

text \<open>
  After recovery has fed the largest identifier found on disk into the generator, its
  state is at least that identifier.
\<close>

lemma UpdateState_covers:
  assumes "fid_partition (FileID_Decode i) = partition_id g"
  shows "i \<le> gen_current (FileIdGenerator_UpdateState (fid_timestamp_sec (FileID_Decode i))
                          (fid_sequence (FileID_Decode i)) g)" (is "i \<le> gen_current ?g")
proof -
  let ?f = "FileID_Decode i"
  have "\<not> gen_current ?g < FileID_Encode ?f"
    using assms
    by (auto simp: FileIdGenerator_UpdateState_def gen_current_def FileID_Encode_less_iff not_less)
  then show ?thesis by (simp add: FileID_Encode_Decode not_less)
qed

section \<open>Properties of identifiers\<close>

text \<open>
  Packing and unpacking an identifier are inverse to each other, and inside one
  partition the replay order \<^verbatim>\<open>FileIdCompareByTime\<close> is the numeric order of the packed
  identifiers.
\<close>

theorem file_id_order:
  "FileID_Decode (FileID_Encode f) = f \<and> FileID_Encode (FileID_Decode i) = i \<and>
   (fid_partition (FileID_Decode i) = fid_partition (FileID_Decode j) \<longrightarrow>
      (FileIdCompareByTime i j \<longleftrightarrow> i < j))"
proof -
  have "FileIdCompareByTime i j \<longleftrightarrow> i < j" if "fid_partition (FileID_Decode i) = fid_partition (FileID_Decode j)"
    using FileID_Encode_less_iff [OF that]
    by (auto simp: FileIdCompareByTime_def Let_def FileID_Encode_Decode)
  then show ?thesis by (simp add: FileID_Decode_Encode FileID_Encode_Decode)
qed

theorem file_id_order_witness: "FileIdCompareByTime 0x0001000000020005 0x0001000000030000"
proof -
  have "fid_partition (FileID_Decode 0x0001000000020005) = fid_partition (FileID_Decode 0x0001000000030000)"
    by (simp add: FileID_Decode_def)
  with file_id_order [of undefined "0x0001000000020005" "0x0001000000030000"] show ?thesis by simp
qed

text \<open>
  After recovery has shown the generator an identifier found on disk, the identifiers
  it hands out are strictly increasing and all newer than that one, whatever the clock
  reads (it may stand still or run backwards), for as long as the sequence number has room:
  up to \<open>0xFFFF - s\<close> calls, where \<open>s\<close> is the sequence number it starts from.
\<close>

theorem generator_monotonic:
  assumes "fid_partition (FileID_Decode i) = partition_id g0"
    and g: "g = FileIdGenerator_UpdateState (fid_timestamp_sec (FileID_Decode i)) (fid_sequence (FileID_Decode i)) g0"
    and "length nows + unat (gen_sequence g) \<le> 0xFFFF"
  shows "sorted_wrt (<) (FileIdGenerator_ids nows g) \<and> (\<forall>j \<in> set (FileIdGenerator_ids nows g). i < j)"
  using ids_increasing [OF assms(3)] UpdateState_covers [OF assms(1)] g by (auto intro: le_less_trans)

theorem generator_monotonic_witness:
  "let g = FileIdGenerator_UpdateState 100 5 (mk_FileIdGenerator 1)
   in \<forall>j \<in> set (FileIdGenerator_ids [99, 100, 101, 50] g). 0x0001000000640005 < j"
proof -
  have d: "FileID_Decode 0x0001000000640005 = \<lparr>fid_partition = 1, fid_timestamp_sec = 100, fid_sequence = 5\<rparr>"
    by (simp add: FileID_Decode_def)
  have "\<forall>j \<in> set (FileIdGenerator_ids [99, 100, 101, 50] (FileIdGenerator_UpdateState 100 5 (mk_FileIdGenerator 1))).
      0x0001000000640005 < j"
    by (rule conjunct2, rule generator_monotonic [where ?g0.0 = "mk_FileIdGenerator 1"])
      (simp_all add: d mk_FileIdGenerator_def FileIdGenerator_UpdateState_def)
  then show ?thesis by (simp add: Let_def)
qed

text \<open>
  At the end of the sequence space the generator is not monotonic: when the clock has
  not moved past the last timestamp and the sequence number is \<open>0xFFFF\<close>, the next
  identifier is smaller than the one before it.
\<close>

theorem generator_wraps:
  assumes "now \<le> last_timestamp g" and "gen_sequence g = 0xFFFF"
  shows "fst (FileIdGenerator_Next now g) < gen_current g"
  using Next_exhausted [of now g "fst (FileIdGenerator_Next now g)" "snd (FileIdGenerator_Next now g)"] assms
  by (simp add: gen_exhausted_def)

theorem generator_wraps_witness:
  "fst (FileIdGenerator_Next 100 \<lparr>partition_id = 1, last_timestamp = 100, gen_sequence = 0xFFFF\<rparr>)
     < gen_current \<lparr>partition_id = 1, last_timestamp = 100, gen_sequence = 0xFFFF\<rparr>"
  by (rule generator_wraps) simp_all

end
