(* ===== verification/Bitcask_Config.thy ===== *)
theory Bitcask_Config
  imports Kio_Prelude "HOL-Library.AList" "HOL-Library.Log_Nat"
begin

text \<open>
  Configuration and statistics of the bitcask engine (\<^verbatim>\<open>bitcask/include/config.h\<close>,
  \<^verbatim>\<open>bitcask/include/stats.h\<close>). A \<^verbatim>\<open>double\<close> is the rational number it stands for; conversions
  and divisions round to the nearest number of 53 significant bits, ties to even. The
  exponent range is not modelled: the quantities are ratios of 64-bit counters. Hash maps are
  association lists with distinct keys.
\<close>

section \<open>Double precision\<close>

definition round_half_even :: "rat \<Rightarrow> int" where
  "round_half_even x =
     (let f = \<lfloor>x\<rfloor>; d = x - of_int f
      in if d < 1 / 2 then f else if 1 / 2 < d then f + 1 else if even f then f else f + 1)"

definition binary_exponent :: "rat \<Rightarrow> int" where
  "binary_exponent x =
     (case quotient_of x of
        (n, d) \<Rightarrow>
          let e = int (floorlog 2 (nat n)) - int (floorlog 2 (nat d))
          in if (if 0 \<le> e then of_int (2 ^ nat e) \<le> x else 1 \<le> x * of_int (2 ^ nat (- e))) then e else e - 1)"

definition to_double :: "rat \<Rightarrow> rat" where
  "to_double x =
     (if x \<le> 0 then 0
      else
        let k = 52 - binary_exponent x
        in if 0 \<le> k then of_int (round_half_even (x * of_int (2 ^ nat k))) / of_int (2 ^ nat k)
           else of_int (round_half_even (x / of_int (2 ^ nat (- k)))) * of_int (2 ^ nat (- k)))"

section \<open>Configuration\<close>

definition O_CREAT :: int where "O_CREAT = 64"
definition O_RDONLY :: int where "O_RDONLY = 0"
definition O_WRONLY :: int where "O_WRONLY = 1"
definition O_RDWR :: int where "O_RDWR = 2"
definition O_TRUNC :: int where "O_TRUNC = 512"
definition O_APPEND :: int where "O_APPEND = 1024"

record BitcaskConfig =
  directory :: string
  file_mode :: nat
  dir_mode :: nat
  read_flags :: int
  write_flags :: int
  max_file_size :: nat
  sync_on_write :: bool
  sync_interval :: nat
  auto_compact :: bool
  fragmentation_threshold :: rat
  compaction_interval_s :: nat
  read_buffer_size :: nat
  write_buffer_size :: nat
  max_open_sealed_files :: nat

definition default_BitcaskConfig :: BitcaskConfig where
  "default_BitcaskConfig =
     \<lparr>directory = [], file_mode = 420, dir_mode = 493, read_flags = O_RDONLY,
      write_flags = O_CREAT OR O_RDWR, max_file_size = 100 * 1024 * 1024, sync_on_write = False,
      sync_interval = 1000, auto_compact = True, fragmentation_threshold = 1 / 2,
      compaction_interval_s = 120000, read_buffer_size = 64 * 1024, write_buffer_size = 4096,
      max_open_sealed_files = 100\<rparr>"

datatype config_error = Directory_Empty | Write_Flags_Append | Max_File_Size_Zero

definition Validate :: "BitcaskConfig \<Rightarrow> config_error + unit" where
  "Validate cfg =
     (if directory cfg = [] then Inl Directory_Empty
      else if write_flags cfg AND O_APPEND \<noteq> 0 then Inl Write_Flags_Append
      else if max_file_size cfg = 0 then Inl Max_File_Size_Zero
      else Inr ())"

section \<open>Statistics\<close>

record FileStats =
  total_bytes :: nat
  live_bytes :: nat
  live_entries :: nat

definition zero_FileStats :: FileStats where
  "zero_FileStats = \<lparr>total_bytes = 0, live_bytes = 0, live_entries = 0\<rparr>"

text \<open>\<^verbatim>\<open>1.0 - (double) live / (double) total\<close>, every operation rounded.\<close>

definition fragmentation_of :: "nat \<Rightarrow> nat \<Rightarrow> rat" where
  "fragmentation_of live tot =
     (if 0 < tot
      then let q = to_double (to_double (of_nat live) / to_double (of_nat tot))
           in if q \<le> 1 then to_double (1 - q) else - to_double (q - 1)
      else 0)"

definition Fragmentation :: "FileStats \<Rightarrow> rat" where
  "Fragmentation s = fragmentation_of (live_bytes s) (total_bytes s)"

definition ReclaimableBytes :: "FileStats \<Rightarrow> nat" where
  "ReclaimableBytes s = sz_sub (total_bytes s) (live_bytes s)"

record PartitionStats =
  data_files :: "(u64 \<times> FileStats) list"
  compaction_running :: bool
  puts_total :: nat
  gets_total :: nat
  gets_miss_total :: nat
  deletes_total :: nat
  compactions_total :: nat
  compactions_failed :: nat
  bytes_reclaimed_total :: nat
  files_compacted_total :: nat
  file_rotations_total :: nat

definition zero_PartitionStats :: PartitionStats where
  "zero_PartitionStats =
     \<lparr>data_files = [], compaction_running = False, puts_total = 0, gets_total = 0, gets_miss_total = 0,
      deletes_total = 0, compactions_total = 0, compactions_failed = 0, bytes_reclaimed_total = 0,
      files_compacted_total = 0, file_rotations_total = 0\<rparr>"

definition TotalReclaimableBytes :: "PartitionStats \<Rightarrow> nat" where
  "TotalReclaimableBytes s = foldl (\<lambda>t (_, f). sz_add t (ReclaimableBytes f)) 0 (data_files s)"

definition OverallFragmentation :: "PartitionStats \<Rightarrow> rat" where
  "OverallFragmentation s =
     (let tot = foldl (\<lambda>t (_, f). sz_add t (total_bytes f)) 0 (data_files s);
          live = foldl (\<lambda>t (_, f). sz_add t (live_bytes f)) 0 (data_files s)
      in fragmentation_of live tot)"

text \<open>\<^verbatim>\<open>data_files[id]\<close>: the entry, created with zeros when it is missing; and its update.\<close>

definition file_stats :: "u64 \<Rightarrow> PartitionStats \<Rightarrow> FileStats" where
  "file_stats i s = (case map_of (data_files s) i of None \<Rightarrow> zero_FileStats | Some f \<Rightarrow> f)"

definition set_file_stats :: "u64 \<Rightarrow> FileStats \<Rightarrow> PartitionStats \<Rightarrow> PartitionStats" where
  "set_file_stats i f s = s\<lparr>data_files := AList.update i f (data_files s)\<rparr>"

definition upd_file_stats :: "u64 \<Rightarrow> (FileStats \<Rightarrow> FileStats) \<Rightarrow> PartitionStats \<Rightarrow> PartitionStats" where
  "upd_file_stats i g s = set_file_stats i (g (file_stats i s)) s"

definition erase_file_stats :: "u64 \<Rightarrow> PartitionStats \<Rightarrow> PartitionStats" where
  "erase_file_stats i s = s\<lparr>data_files := AList.delete i (data_files s)\<rparr>"

lemma file_stats_upd:
  "file_stats i (upd_file_stats j g s) = (if i = j then g (file_stats j s) else file_stats i s)"
  by (simp add: upd_file_stats_def set_file_stats_def file_stats_def update_conv')

end
