(* ===== verification/Bitcask_Env.thy ===== *)
theory Bitcask_Env
  imports Entry File_Id Bitcask_Config "HOL-Library.Multiset"
begin

text \<open>
  What the bitcask engine runs on. The asynchronous worker (\<^verbatim>\<open>kio::io::Worker\<close>), the read
  buffer (\<^verbatim>\<open>kio::BytesMut\<close>), the checksum package, the operating system and the hash maps
  are not part of the repository: they are the fields of the record \<open>env\<close>, functions over an
  arbitrary type \<open>'w\<close> of worlds. The locale \<open>posix_env\<close> names what the engine relies on; it
  says what the documentation of these calls promises about file contents and descriptors,
  for successful and for failed calls. A call awaited by a coroutine is one step here.

  Every asynchronous method of the engine is a function from a state to a result and the
  next state; \<open>co_try\<close> is \<^verbatim>\<open>KIO_TRY (co_await ...)\<close>.
\<close>

type_synonym path = string
type_synonym ('s, 'a) task = "'s \<Rightarrow> (Error + 'a) \<times> 's"

section \<open>Tasks\<close>

definition co_return :: "'a \<Rightarrow> ('s, 'a) task" where
  "co_return x s = (Inr x, s)"

definition co_fail :: "Error \<Rightarrow> ('s, 'a) task" where
  "co_fail e s = (Inl e, s)"

definition co_try :: "('s, 'a) task \<Rightarrow> ('a \<Rightarrow> ('s, 'b) task) \<Rightarrow> ('s, 'b) task" where
  "co_try m k s = (case m s of (Inl e, s') \<Rightarrow> (Inl e, s') | (Inr x, s') \<Rightarrow> k x s')"

text \<open>Awaiting without \<^verbatim>\<open>KIO_TRY\<close>: the result, error or not, is handed on.\<close>

definition co_await :: "('s, 'a) task \<Rightarrow> (Error + 'a \<Rightarrow> ('s, 'b) task) \<Rightarrow> ('s, 'b) task" where
  "co_await m k s = (case m s of (r, s') \<Rightarrow> k r s')"

lemma co_try_Inl: "m s = (Inl e, s') \<Longrightarrow> co_try m k s = (Inl e, s')"
  by (simp add: co_try_def)

lemma co_try_Inr: "m s = (Inr x, s') \<Longrightarrow> co_try m k s = k x s'"
  by (simp add: co_try_def)

lemma co_tryE:
  assumes "co_try m k s = (Inr y, t)"
  obtains x s' where "m s = (Inr x, s')" "k x s' = (Inr y, t)"
  using assms by (auto simp: co_try_def split: prod.splits sum.splits)

section \<open>Locations and the key directory\<close>

text \<open>
  The key directory is a hash map: an association list with distinct keys, which an
  iteration visits in the order \<open>env_keydir_order\<close> gives, any permutation.
\<close>

record ValueLocation =
  loc_file_id :: u64
  loc_offset :: nat
  loc_total_size :: nat
  loc_timestamp_ns :: u64

type_synonym KeyDir = "(bytes \<times> ValueLocation) list"

section \<open>The environment\<close>

record 'w env =
  env_crc :: "bytes \<Rightarrow> u32"
  env_crc_extend :: "u32 \<Rightarrow> bytes \<Rightarrow> u32"
  env_open :: "path \<Rightarrow> int \<Rightarrow> nat \<Rightarrow> ('w, int) task"
  env_close :: "int \<Rightarrow> ('w, unit) task"
  env_write_exact_at :: "int \<Rightarrow> bytes \<Rightarrow> nat \<Rightarrow> ('w, unit) task"
  env_write_exact :: "int \<Rightarrow> bytes \<Rightarrow> ('w, unit) task"
  env_writev :: "int \<Rightarrow> bytes list \<Rightarrow> nat \<Rightarrow> ('w, int) task"
  env_read_exact_at :: "int \<Rightarrow> nat \<Rightarrow> nat \<Rightarrow> ('w, bytes) task"
  env_read_at :: "int \<Rightarrow> nat \<Rightarrow> nat \<Rightarrow> ('w, bytes) task"
  env_fsync :: "int \<Rightarrow> ('w, unit) task"
  env_fdatasync :: "int \<Rightarrow> ('w, unit) task"
  env_ftruncate :: "int \<Rightarrow> nat \<Rightarrow> ('w, unit) task"
  env_fallocate :: "int \<Rightarrow> nat \<Rightarrow> nat \<Rightarrow> ('w, unit) task"
  env_unlink :: "path \<Rightarrow> ('w, unit) task"
  env_sysclose :: "int \<Rightarrow> 'w \<Rightarrow> 'w"
  env_fstat_size :: "int \<Rightarrow> 'w \<Rightarrow> Error + nat"
  env_getfl :: "int \<Rightarrow> 'w \<Rightarrow> Error + int"
  env_exists :: "path \<Rightarrow> 'w \<Rightarrow> bool"
  env_file_size :: "path \<Rightarrow> 'w \<Rightarrow> nat"
  env_list_dir :: "path \<Rightarrow> 'w \<Rightarrow> string list option"
  env_room :: "nat \<Rightarrow> nat \<Rightarrow> 'w \<Rightarrow> nat"
  env_keydir_order :: "KeyDir \<Rightarrow> KeyDir"
  env_stats_order :: "(u64 \<times> FileStats) list \<Rightarrow> (u64 \<times> FileStats) list"

text \<open>Writing at an offset: a gap behind the end of the file reads as zeros.\<close>

definition pwrite :: "nat \<Rightarrow> bytes \<Rightarrow> bytes \<Rightarrow> bytes" where
  "pwrite off bs c =
     (if bs = [] then c else memcpy_at off bs (c @ replicate (off + length bs - length c) 0))"

definition resize :: "nat \<Rightarrow> bytes \<Rightarrow> bytes" where
  "resize n c = take n c @ replicate (n - length c) 0"

lemma length_pwrite: "bs \<noteq> [] \<Longrightarrow> length (pwrite off bs c) = max (length c) (off + length bs)"
  by (auto simp: pwrite_def memcpy_at_def max_def)

lemma length_pwrite_ge: "length c \<le> length (pwrite off bs c)"
  by (cases "bs = []") (simp_all add: length_pwrite, simp add: pwrite_def)

lemma subspan_pwrite_here: "subspan off (length bs) (pwrite off bs c) = bs"
  by (cases "bs = []") (simp_all add: pwrite_def subspan_memcpy_at)

lemma subspan_pwrite_other:
  assumes "a + n \<le> length c" and "a + n \<le> off \<or> off + length bs \<le> a"
  shows "subspan a n (pwrite off bs c) = subspan a n c"
proof (cases "bs = []")
  case False
  let ?z = "c @ replicate (off + length bs - length c) 0"
  have "subspan a n (memcpy_at off bs ?z) = subspan a n ?z"
    using assms(2) by (intro subspan_memcpy_other) simp_all
  also have "\<dots> = subspan a n c" using assms(1) by (rule subspan_append1)
  finally show ?thesis using False by (simp add: pwrite_def)
qed (simp add: pwrite_def)

lemma subspan_resize:
  assumes "a + m \<le> n" and "a + m \<le> length c"
  shows "subspan a m (resize n c) = subspan a m c"
proof -
  have "subspan a m (resize n c) = subspan a m (take n c)"
    unfolding resize_def using assms by (intro subspan_append1) simp
  with assms show ?thesis by (simp add: subspan_def drop_take min_def)
qed

section \<open>What the engine relies on\<close>

text \<open>
  \<open>content w p\<close> is what the file \<open>p\<close> holds, \<open>opened w fd\<close> the file a descriptor refers to
  and \<open>fpos w fd\<close> its position. A failed write may leave any prefix of its data behind.
\<close>

locale posix_env =
  fixes E :: "'w env"
    and content :: "'w \<Rightarrow> path \<Rightarrow> bytes option"
    and opened :: "'w \<Rightarrow> int \<Rightarrow> path option"
    and fpos :: "'w \<Rightarrow> int \<Rightarrow> nat"
  assumes crc_extend: "env_crc_extend E (env_crc E a) b = env_crc E (a @ b)"
    and open_ok: "env_open E p fl md w = (Inr fd, w') \<Longrightarrow> 0 \<le> fd \<and> opened w fd = None \<and>
        opened w' = (opened w)(fd \<mapsto> p) \<and> fpos w' = (fpos w)(fd := 0) \<and>
        content w' = (content w)(p \<mapsto> (if fl AND O_TRUNC \<noteq> 0 \<or> content w p = None then [] else the (content w p)))"
    and open_fail: "env_open E p fl md w = (Inl e, w') \<Longrightarrow> content w' = content w \<and> opened w' = opened w \<and> fpos w' = fpos w"
    and close_any: "env_close E fd w = (r, w') \<Longrightarrow> content w' = content w \<and>
        (\<forall>g. g \<noteq> fd \<longrightarrow> opened w' g = opened w g \<and> fpos w' g = fpos w g) \<and> (r = Inr () \<longrightarrow> opened w' fd = None)"
    and sysclose_any: "content (env_sysclose E fd w) = content w \<and> opened (env_sysclose E fd w) = (opened w)(fd := None) \<and>
        (\<forall>g. g \<noteq> fd \<longrightarrow> fpos (env_sysclose E fd w) g = fpos w g)"
    and writev_any: "env_writev E fd iov off w = (rn, w') \<Longrightarrow> opened w fd = Some p \<Longrightarrow> content w p = Some c \<Longrightarrow>
        opened w' = opened w \<and> fpos w' = fpos w \<and>
        (\<exists>n \<le> length (concat iov). content w' = (content w)(p \<mapsto> pwrite off (take n (concat iov)) c) \<and>
           (\<forall>m. rn = Inr m \<longrightarrow> m = int n))"
    and write_exact_at_any: "env_write_exact_at E fd bs off w = (r, w') \<Longrightarrow> opened w fd = Some p \<Longrightarrow> content w p = Some c \<Longrightarrow>
        opened w' = opened w \<and> fpos w' = fpos w \<and>
        (\<exists>n \<le> length bs. content w' = (content w)(p \<mapsto> pwrite off (take n bs) c) \<and> (r = Inr () \<longrightarrow> n = length bs))"
    and write_exact_any: "env_write_exact E fd bs w = (r, w') \<Longrightarrow> opened w fd = Some p \<Longrightarrow> content w p = Some c \<Longrightarrow>
        opened w' = opened w \<and>
        (\<exists>n \<le> length bs. content w' = (content w)(p \<mapsto> pwrite (fpos w fd) (take n bs) c) \<and>
           fpos w' = (fpos w)(fd := fpos w fd + n) \<and> (r = Inr () \<longrightarrow> n = length bs))"
    and read_exact_at_any: "env_read_exact_at E fd len off w = (rb, w') \<Longrightarrow>
        content w' = content w \<and> opened w' = opened w \<and> fpos w' = fpos w \<and>
        (\<forall>bs p c. rb = Inr bs \<and> opened w fd = Some p \<and> content w p = Some c \<longrightarrow>
           off + len \<le> length c \<and> bs = subspan off len c)"
    and read_at_any: "env_read_at E fd len off w = (rb, w') \<Longrightarrow>
        content w' = content w \<and> opened w' = opened w \<and> fpos w' = fpos w \<and>
        (\<forall>bs p c. rb = Inr bs \<and> opened w fd = Some p \<and> content w p = Some c \<longrightarrow>
           (\<exists>n \<le> len. bs = subspan off n c \<and> n \<le> length c - off) \<and> (bs = [] \<and> 0 < len \<longrightarrow> length c \<le> off))"
    and fsync_any: "env_fsync E fd w = (r, w') \<Longrightarrow> content w' = content w \<and> opened w' = opened w \<and> fpos w' = fpos w"
    and fdatasync_any: "env_fdatasync E fd w = (r, w') \<Longrightarrow> content w' = content w \<and> opened w' = opened w \<and> fpos w' = fpos w"
    and ftruncate_any: "env_ftruncate E fd n w = (r, w') \<Longrightarrow> opened w fd = Some p \<Longrightarrow> content w p = Some c \<Longrightarrow>
        opened w' = opened w \<and> fpos w' = fpos w \<and>
        content w' = (content w)(p \<mapsto> (if r = Inr () then resize n c else c))"
    and fallocate_any: "env_fallocate E fd off len w = (r, w') \<Longrightarrow> opened w fd = Some p \<Longrightarrow> content w p = Some c \<Longrightarrow>
        opened w' = opened w \<and> fpos w' = fpos w \<and>
        content w' = (content w)(p \<mapsto> (if r = Inr () then resize (max (length c) (off + len)) c else c))"
    and unlink_any: "env_unlink E p w = (r, w') \<Longrightarrow> opened w' = opened w \<and> fpos w' = fpos w \<and>
        content w' = (if r = Inr () then (content w)(p := None) else content w)"
    and fstat_size: "env_fstat_size E fd w = Inr n \<Longrightarrow> opened w fd = Some p \<Longrightarrow> content w p = Some c \<Longrightarrow> n = length c"
    and exists_iff: "env_exists E p w \<longleftrightarrow> content w p \<noteq> None"
    and list_dir: "env_list_dir E d w = Some names \<Longrightarrow>
        distinct names \<and> (\<forall>n. n \<in> set names \<longleftrightarrow> CHR ''/'' \<notin> set n \<and> content w (d @ ''/'' @ n) \<noteq> None)"
    and room: "n \<le> env_room E k n w"
    and keydir_order: "mset (env_keydir_order E kd) = mset kd"
    and stats_order: "mset (env_stats_order E fs) = mset fs"

text \<open>
  The calls that can only fail because a device does: with a healthy device, reads inside a
  file succeed, existing files can be opened and writes are complete.
\<close>

locale reliable_env = posix_env +
  assumes open_succeeds: "\<exists>fd w'. env_open E p fl md w = (Inr fd, w')"
    and read_succeeds: "opened w fd = Some p \<Longrightarrow> content w p = Some c \<Longrightarrow> off + len \<le> length c \<Longrightarrow>
        \<exists>bs w'. env_read_exact_at E fd len off w = (Inr bs, w')"
    and read_at_succeeds: "opened w fd = Some p \<Longrightarrow> content w p = Some c \<Longrightarrow>
        \<exists>bs w'. env_read_at E fd len off w = (Inr bs, w')"
    and fstat_succeeds: "opened w fd = Some p \<Longrightarrow> content w p = Some c \<Longrightarrow> env_fstat_size E fd w = Inr (length c)"
    and writev_succeeds: "opened w fd = Some p \<Longrightarrow> content w p \<noteq> None \<Longrightarrow>
        \<exists>w'. env_writev E fd iov off w = (Inr (int (length (concat iov))), w')"
    and write_exact_at_succeeds: "opened w fd = Some p \<Longrightarrow> content w p \<noteq> None \<Longrightarrow>
        \<exists>w'. env_write_exact_at E fd bs off w = (Inr (), w')"
    and write_exact_succeeds: "opened w fd = Some p \<Longrightarrow> content w p \<noteq> None \<Longrightarrow>
        \<exists>w'. env_write_exact E fd bs w = (Inr (), w')"
    and fsync_succeeds: "opened w fd \<noteq> None \<Longrightarrow> \<exists>w'. env_fsync E fd w = (Inr (), w')"
    and fdatasync_succeeds: "opened w fd \<noteq> None \<Longrightarrow> \<exists>w'. env_fdatasync E fd w = (Inr (), w')"
    and ftruncate_succeeds: "opened w fd = Some p \<Longrightarrow> content w p \<noteq> None \<Longrightarrow> \<exists>w'. env_ftruncate E fd n w = (Inr (), w')"
    and getfl_succeeds: "env_open E p fl md w = (Inr fd, w') \<Longrightarrow> fl AND O_APPEND = 0 \<Longrightarrow>
        \<exists>flags. env_getfl E fd w' = Inr flags \<and> flags AND O_APPEND = 0"
    and close_succeeds: "opened w fd \<noteq> None \<Longrightarrow> \<exists>w'. env_close E fd w = (Inr (), w')"

section \<open>A file system in memory\<close>

text \<open>
  An instance on which the definitions of the engine can be evaluated: files and open
  descriptors as association lists, every call succeeding.
\<close>

record mem =
  mem_files :: "(path \<times> bytes) list"
  mem_fds :: "(int \<times> path \<times> nat) list"
  mem_next :: nat

definition mem_content :: "mem \<Rightarrow> path \<Rightarrow> bytes option" where
  "mem_content w = map_of (mem_files w)"

definition mem_opened :: "mem \<Rightarrow> int \<Rightarrow> path option" where
  "mem_opened w fd = (if 0 \<le> fd \<and> fd < int (mem_next w) then map_option fst (map_of (mem_fds w) fd) else None)"

definition mem_fpos :: "mem \<Rightarrow> int \<Rightarrow> nat" where
  "mem_fpos w fd = (case map_of (mem_fds w) fd of None \<Rightarrow> 0 | Some (_, n) \<Rightarrow> n)"

definition mem_set :: "path \<Rightarrow> bytes \<Rightarrow> mem \<Rightarrow> mem" where
  "mem_set p c w = w\<lparr>mem_files := AList.update p c (mem_files w)\<rparr>"

definition ebadf :: Error where
  "ebadf = \<lparr>category = KFile, error_val = Errno 9\<rparr>"

text \<open>Run an operation on the file behind a descriptor.\<close>

definition mem_on_fd :: "int \<Rightarrow> (path \<Rightarrow> bytes \<Rightarrow> mem \<Rightarrow> (Error + 'a) \<times> mem) \<Rightarrow> (mem, 'a) task" where
  "mem_on_fd fd f w =
     (case mem_opened w fd of
        None \<Rightarrow> (Inl ebadf, w)
      | Some p \<Rightarrow> (case mem_content w p of None \<Rightarrow> (Inl ebadf, w) | Some c \<Rightarrow> f p c w))"

definition mem_open :: "path \<Rightarrow> int \<Rightarrow> nat \<Rightarrow> (mem, int) task" where
  "mem_open p fl md w =
     (let fd = int (mem_next w);
          c = (if fl AND O_TRUNC \<noteq> 0 \<or> mem_content w p = None then [] else the (mem_content w p))
      in (Inr fd, w\<lparr>mem_files := AList.update p c (mem_files w), mem_fds := AList.update fd (p, 0) (mem_fds w),
                    mem_next := Suc (mem_next w)\<rparr>))"

definition mem_sysclose :: "int \<Rightarrow> mem \<Rightarrow> mem" where
  "mem_sysclose fd w = w\<lparr>mem_fds := AList.delete fd (mem_fds w)\<rparr>"

definition mem_list_dir :: "path \<Rightarrow> mem \<Rightarrow> string list option" where
  "mem_list_dir d w =
     Some (remdups (map (drop (length d + 1))
       (filter (\<lambda>p. take (length d + 1) p = d @ ''/'' \<and> CHR ''/'' \<notin> set (drop (length d + 1) p))
         (map fst (mem_files w)))))"

definition mem_env :: "mem env" where
  "mem_env =
     \<lparr>env_crc = (\<lambda>bs. 1 + sum_list32 bs),
      env_crc_extend = (\<lambda>c bs. c + sum_list32 bs),
      env_open = mem_open,
      env_close = (\<lambda>fd w. (Inr (), mem_sysclose fd w)),
      env_write_exact_at = (\<lambda>fd bs off. mem_on_fd fd (\<lambda>p c w. (Inr (), mem_set p (pwrite off bs c) w))),
      env_write_exact = (\<lambda>fd bs. mem_on_fd fd (\<lambda>p c w.
         (Inr (), (mem_set p (pwrite (mem_fpos w fd) bs c) w)
                    \<lparr>mem_fds := AList.update fd (p, mem_fpos w fd + length bs) (mem_fds w)\<rparr>))),
      env_writev = (\<lambda>fd iov off. mem_on_fd fd (\<lambda>p c w.
         (Inr (int (length (concat iov))), mem_set p (pwrite off (concat iov) c) w))),
      env_read_exact_at = (\<lambda>fd len off. mem_on_fd fd (\<lambda>p c w.
         (if off + len \<le> length c then Inr (subspan off len c) else Inl ebadf, w))),
      env_read_at = (\<lambda>fd len off. mem_on_fd fd (\<lambda>p c w. (Inr (subspan off len c), w))),
      env_fsync = (\<lambda>fd w. (Inr (), w)),
      env_fdatasync = (\<lambda>fd w. (Inr (), w)),
      env_ftruncate = (\<lambda>fd n. mem_on_fd fd (\<lambda>p c w. (Inr (), mem_set p (resize n c) w))),
      env_fallocate = (\<lambda>fd off len. mem_on_fd fd (\<lambda>p c w.
         (Inr (), mem_set p (resize (max (length c) (off + len)) c) w))),
      env_unlink = (\<lambda>p w. (Inr (), w\<lparr>mem_files := AList.delete p (mem_files w)\<rparr>)),
      env_sysclose = mem_sysclose,
      env_fstat_size = (\<lambda>fd w. fst (mem_on_fd fd (\<lambda>p c w. (Inr (length c), w)) w)),
      env_getfl = (\<lambda>fd w. Inr 0),
      env_exists = (\<lambda>p w. mem_content w p \<noteq> None),
      env_file_size = (\<lambda>p w. case mem_content w p of None \<Rightarrow> 0 | Some c \<Rightarrow> length c),
      env_list_dir = mem_list_dir,
      env_room = (\<lambda>k n w. n),
      env_keydir_order = (\<lambda>kd. kd),
      env_stats_order = (\<lambda>fs. fs)\<rparr>"

definition empty_mem :: mem where
  "empty_mem = \<lparr>mem_files = [], mem_fds = [], mem_next = 3\<rparr>"

lemma mem_set_views [simp]:
  "mem_content (mem_set p c w) = (mem_content w)(p \<mapsto> c)" "mem_opened (mem_set p c w) = mem_opened w"
  "mem_fpos (mem_set p c w) = mem_fpos w"
  by (auto simp: mem_content_def mem_set_def mem_opened_def mem_fpos_def update_conv' fun_eq_iff)

lemma mem_on_fdE:
  assumes "mem_on_fd fd f w = (r, w')" and "mem_opened w fd = Some p" and "mem_content w p = Some c"
  shows "f p c w = (r, w')"
  using assms by (simp add: mem_on_fd_def)

lemma mem_on_fd_same:
  assumes "mem_on_fd fd (\<lambda>p c w. (g p c w, w)) w = (r, w')"
  shows "w' = w \<and> (mem_opened w fd = Some p \<longrightarrow> mem_content w p = Some c \<longrightarrow> r = g p c w)"
  using assms by (auto simp: mem_on_fd_def split: option.splits)

lemma mem_sysclose_views [simp]:
  "mem_content (mem_sysclose fd w) = mem_content w" "mem_opened (mem_sysclose fd w) = (mem_opened w)(fd := None)"
  "g \<noteq> fd \<Longrightarrow> mem_fpos (mem_sysclose fd w) g = mem_fpos w g"
  by (auto simp: mem_sysclose_def mem_content_def mem_opened_def mem_fpos_def delete_conv' fun_eq_iff)

lemma mem_open_views:
  assumes "mem_open p fl md w = (Inr fd, w')"
  shows "fd = int (mem_next w)" "mem_opened w' = (mem_opened w)(fd \<mapsto> p)" "mem_fpos w' = (mem_fpos w)(fd := 0)"
    "mem_content w' = (mem_content w)(p \<mapsto> (if fl AND O_TRUNC \<noteq> 0 \<or> mem_content w p = None then [] else the (mem_content w p)))"
  using assms
  by (auto simp: mem_open_def Let_def mem_content_def mem_opened_def mem_fpos_def update_conv' fun_eq_iff)

lemma mem_list_dir_names:
  assumes "mem_list_dir d w = Some names"
  shows "distinct names \<and> (\<forall>n. n \<in> set names \<longleftrightarrow> CHR ''/'' \<notin> set n \<and> mem_content w (d @ ''/'' @ n) \<noteq> None)"
proof -
  have n: "names = remdups (map (drop (length d + 1))
       (filter (\<lambda>p. take (length d + 1) p = d @ ''/'' \<and> CHR ''/'' \<notin> set (drop (length d + 1) p))
         (map fst (mem_files w))))"
    using assms by (simp only: mem_list_dir_def option.inject)
  have sn: "set names = drop (length d + 1) ` {p \<in> fst ` set (mem_files w). take (length d + 1) p = d @ ''/'' \<and>
      CHR ''/'' \<notin> set (drop (length d + 1) p)}"
    by (simp only: n set_remdups set_map set_filter)
  have "n \<in> drop (length d + 1) ` {p \<in> fst ` set (mem_files w). take (length d + 1) p = d @ ''/'' \<and>
      CHR ''/'' \<notin> set (drop (length d + 1) p)} \<longleftrightarrow> CHR ''/'' \<notin> set n \<and> d @ ''/'' @ n \<in> fst ` set (mem_files w)" (is "?l \<longleftrightarrow> ?r") for n
  proof
    assume ?l
    then obtain p where p: "p \<in> fst ` set (mem_files w)" "take (length d + 1) p = d @ ''/''"
      "CHR ''/'' \<notin> set (drop (length d + 1) p)" "n = drop (length d + 1) p" by blast
    have "p = take (length d + 1) p @ drop (length d + 1) p" by (rule append_take_drop_id [symmetric])
    then have "p = d @ ''/'' @ n" unfolding p(2) p(4) by (simp only: append.assoc)
    with p(1) have "d @ ''/'' @ n \<in> fst ` set (mem_files w)" by (simp only:)
    with p(3) show ?r unfolding p(4) by (rule conjI)
  next
    assume ?r
    then show ?l by (intro image_eqI [of _ _ "d @ ''/'' @ n"]) simp_all
  qed
  moreover have "mem_content w p \<noteq> None \<longleftrightarrow> p \<in> fst ` set (mem_files w)" for p
    by (auto simp: mem_content_def map_of_eq_None_iff)
  ultimately have "\<forall>n. n \<in> set names \<longleftrightarrow> CHR ''/'' \<notin> set n \<and> mem_content w (d @ ''/'' @ n) \<noteq> None"
    unfolding sn by (simp only: simp_thms)
  moreover have "distinct names" by (simp only: n distinct_remdups)
  ultimately show ?thesis by blast
qed

lemma sum_list32_append: "sum_list32 (a @ b) = sum_list32 a + sum_list32 b"
  by (simp add: sum_list32_def)

lemma mem_write_views:
  assumes "mem_on_fd fd (\<lambda>p c w. (Inr x, mem_set p (g c) w)) w = (r, w')"
    and "mem_opened w fd = Some p" and "mem_content w p = Some c"
  shows "r = Inr x \<and> mem_opened w' = mem_opened w \<and> mem_fpos w' = mem_fpos w \<and>
    mem_content w' = (mem_content w)(p \<mapsto> g c)"
proof -
  have "(Inr x, mem_set p (g c) w) = (r, w')" by (rule mem_on_fdE [OF assms])
  then show ?thesis by auto
qed

lemma mem_write_exact_views:
  assumes "env_write_exact mem_env fd bs w = (r, w')" and "mem_opened w fd = Some p" and "mem_content w p = Some c"
  shows "r = Inr () \<and> mem_opened w' = mem_opened w \<and> mem_fpos w' = (mem_fpos w)(fd := mem_fpos w fd + length bs) \<and>
    mem_content w' = (mem_content w)(p \<mapsto> pwrite (mem_fpos w fd) bs c)"
proof -
  let ?w = "(mem_set p (pwrite (mem_fpos w fd) bs c) w)\<lparr>mem_fds := AList.update fd (p, mem_fpos w fd + length bs) (mem_fds w)\<rparr>"
  have "(Inr (), ?w) = (r, w')"
    using assms by (simp add: mem_env_def mem_on_fd_def)
  moreover have "mem_opened ?w = mem_opened w"
    using assms(2) by (auto simp: mem_opened_def mem_set_def update_conv' fun_eq_iff split: if_splits)
  moreover have "mem_fpos ?w = (mem_fpos w)(fd := mem_fpos w fd + length bs)"
    by (auto simp: mem_fpos_def update_conv' fun_eq_iff)
  moreover have "mem_content ?w = (mem_content w)(p \<mapsto> pwrite (mem_fpos w fd) bs c)"
    by (auto simp: mem_content_def mem_set_def update_conv' fun_eq_iff)
  ultimately show ?thesis by auto
qed

lemma mem_unlink_views [simp]:
  "mem_opened (w\<lparr>mem_files := f\<rparr>) = mem_opened w" "mem_fpos (w\<lparr>mem_files := f\<rparr>) = mem_fpos w"
  "mem_content (w\<lparr>mem_files := AList.delete p (mem_files w)\<rparr>) = (mem_content w)(p := None)"
  by (auto simp: mem_opened_def mem_fpos_def mem_content_def delete_conv' fun_eq_iff)

interpretation mem_posix: posix_env mem_env mem_content mem_opened mem_fpos
proof unfold_locales
  fix p fl md w fd w'
  assume "env_open mem_env p fl md w = (Inr fd, w')"
  then have "mem_open p fl md w = (Inr fd, w')" by (simp add: mem_env_def)
  note v = mem_open_views [OF this]
  have "mem_opened w fd = None" "0 \<le> fd" by (simp_all add: v(1) mem_opened_def)
  with v(2-4) show "0 \<le> fd \<and> mem_opened w fd = None \<and> mem_opened w' = (mem_opened w)(fd \<mapsto> p) \<and>
      mem_fpos w' = (mem_fpos w)(fd := 0) \<and>
      mem_content w' = (mem_content w)(p \<mapsto> (if fl AND O_TRUNC \<noteq> 0 \<or> mem_content w p = None then [] else the (mem_content w p)))"
    by blast
next
  fix fd iov off w rn w' p c
  assume a: "env_writev mem_env fd iov off w = (rn, w')" "mem_opened w fd = Some p" "mem_content w p = Some c"
  then have "mem_on_fd fd (\<lambda>p c w. (Inr (int (length (concat iov))), mem_set p (pwrite off (concat iov) c) w)) w = (rn, w')"
    by (simp add: mem_env_def)
  from mem_write_views [OF this a(2,3)]
  show "mem_opened w' = mem_opened w \<and> mem_fpos w' = mem_fpos w \<and>
      (\<exists>n \<le> length (concat iov). mem_content w' = (mem_content w)(p \<mapsto> pwrite off (take n (concat iov)) c) \<and>
        (\<forall>m. rn = Inr m \<longrightarrow> m = int n))"
    by (auto intro!: exI [of _ "length (concat iov)"])
next
  fix fd bs off w r w' p c
  assume a: "env_write_exact_at mem_env fd bs off w = (r, w')" "mem_opened w fd = Some p" "mem_content w p = Some c"
  then have "mem_on_fd fd (\<lambda>p c w. (Inr (), mem_set p (pwrite off bs c) w)) w = (r, w')"
    by (simp add: mem_env_def)
  from mem_write_views [OF this a(2,3)]
  show "mem_opened w' = mem_opened w \<and> mem_fpos w' = mem_fpos w \<and>
      (\<exists>n \<le> length bs. mem_content w' = (mem_content w)(p \<mapsto> pwrite off (take n bs) c) \<and> (r = Inr () \<longrightarrow> n = length bs))"
    by (auto intro!: exI [of _ "length bs"])
next
  fix fd bs w r w' p c
  assume "env_write_exact mem_env fd bs w = (r, w')" "mem_opened w fd = Some p" "mem_content w p = Some c"
  from mem_write_exact_views [OF this]
  show "mem_opened w' = mem_opened w \<and>
      (\<exists>n \<le> length bs. mem_content w' = (mem_content w)(p \<mapsto> pwrite (mem_fpos w fd) (take n bs) c) \<and>
        mem_fpos w' = (mem_fpos w)(fd := mem_fpos w fd + n) \<and> (r = Inr () \<longrightarrow> n = length bs))"
    by (auto intro!: exI [of _ "length bs"])
next
  fix fd len off w rb w'
  assume a: "env_read_exact_at mem_env fd len off w = (rb, w')"
  show "mem_content w' = mem_content w \<and> mem_opened w' = mem_opened w \<and> mem_fpos w' = mem_fpos w \<and>
      (\<forall>bs p c. rb = Inr bs \<and> mem_opened w fd = Some p \<and> mem_content w p = Some c \<longrightarrow>
        off + len \<le> length c \<and> bs = subspan off len c)"
    using a by (auto simp: mem_env_def mem_on_fd_def split: option.splits if_splits)
next
  fix fd len off w rb w'
  assume a: "env_read_at mem_env fd len off w = (rb, w')"
  show "mem_content w' = mem_content w \<and> mem_opened w' = mem_opened w \<and> mem_fpos w' = mem_fpos w \<and>
      (\<forall>bs p c. rb = Inr bs \<and> mem_opened w fd = Some p \<and> mem_content w p = Some c \<longrightarrow>
        (\<exists>n \<le> len. bs = subspan off n c \<and> n \<le> length c - off) \<and> (bs = [] \<and> 0 < len \<longrightarrow> length c \<le> off))"
  proof -
    have "\<exists>n \<le> len. subspan off len c = subspan off n c \<and> n \<le> length c - off" for c :: bytes
      using subspan_clip [of off len c] by (intro exI [of _ "min len (length c - off)"]) simp
    moreover have "length c \<le> off" if "subspan off len c = []" "0 < len" for c :: bytes
      using that by (auto simp: subspan_def)
    ultimately show ?thesis
      using a by (auto simp: mem_env_def mem_on_fd_def split: option.splits)
  qed
next
  fix fd n w r w' p c
  assume a: "env_ftruncate mem_env fd n w = (r, w')" "mem_opened w fd = Some p" "mem_content w p = Some c"
  then have "mem_on_fd fd (\<lambda>p c w. (Inr (), mem_set p (resize n c) w)) w = (r, w')" by (simp add: mem_env_def)
  from mem_write_views [OF this a(2,3)]
  show "mem_opened w' = mem_opened w \<and> mem_fpos w' = mem_fpos w \<and>
      mem_content w' = (mem_content w)(p \<mapsto> (if r = Inr () then resize n c else c))" by simp
next
  fix fd off len w r w' p c
  assume a: "env_fallocate mem_env fd off len w = (r, w')" "mem_opened w fd = Some p" "mem_content w p = Some c"
  then have "mem_on_fd fd (\<lambda>p c w. (Inr (), mem_set p (resize (max (length c) (off + len)) c) w)) w = (r, w')"
    by (simp add: mem_env_def)
  from mem_write_views [OF this a(2,3)]
  show "mem_opened w' = mem_opened w \<and> mem_fpos w' = mem_fpos w \<and>
      mem_content w' = (mem_content w)(p \<mapsto> (if r = Inr () then resize (max (length c) (off + len)) c else c))" by simp
next
  fix fd w n p c
  assume "env_fstat_size mem_env fd w = Inr n" "mem_opened w fd = Some p" "mem_content w p = Some c"
  then show "n = length c" by (simp add: mem_env_def mem_on_fd_def)
next
  fix d w names
  assume "env_list_dir mem_env d w = Some names"
  then have "mem_list_dir d w = Some names" by (simp add: mem_env_def)
  then show "distinct names \<and> (\<forall>n. n \<in> set names \<longleftrightarrow> CHR ''/'' \<notin> set n \<and> mem_content w (d @ ''/'' @ n) \<noteq> None)"
    by (rule mem_list_dir_names)
qed (auto simp: mem_env_def mem_open_def Let_def sum_list32_append)

interpretation mem_reliable: reliable_env mem_env mem_content mem_opened mem_fpos
  by unfold_locales (auto simp: mem_env_def mem_open_def mem_on_fd_def Let_def)

end
