(* ===== verification/Fd_Cache.thy ===== *)
theory Fd_Cache
  imports Bitcask_Env
begin

text \<open>
  The cache of open file descriptors (\<^verbatim>\<open>bitcask/include/fd_cache.h\<close>, \<^verbatim>\<open>fd_cache.cpp\<close>) with the
  owning handles of \<^verbatim>\<open>file_handle.h\<close>. A node of the \<^verbatim>\<open>std::list\<close> has an identity, so that the
  iterator stored in a cache entry names the node it was taken from. \<^verbatim>\<open>GetOrOpen\<close> is split at
  its \<^verbatim>\<open>co_await\<close>: other coroutines of the worker run between the two parts.
\<close>

section \<open>Owning handles\<close>

definition FileHandle_IsValid :: "int \<Rightarrow> bool" where
  "FileHandle_IsValid fd \<longleftrightarrow> 0 \<le> fd"

definition FileHandle_CloseFd :: "'w env \<Rightarrow> int \<Rightarrow> 'w \<Rightarrow> int \<times> 'w" where
  "FileHandle_CloseFd E fd w = (if 0 \<le> fd then (- 1, env_sysclose E fd w) else (fd, w))"

definition FileHandle_Release :: "int \<Rightarrow> int \<times> int" where
  "FileHandle_Release fd = (fd, - 1)"

definition FileHandle_Reset :: "'w env \<Rightarrow> int \<Rightarrow> int \<Rightarrow> 'w \<Rightarrow> int \<times> 'w" where
  "FileHandle_Reset E new_fd fd w = (case FileHandle_CloseFd E fd w of (_, w') \<Rightarrow> (new_fd, w'))"

text \<open>Move assignment: the target closes what it owned and takes over; the source is emptied.\<close>

definition FileHandle_move_assign :: "'w env \<Rightarrow> int \<Rightarrow> int \<Rightarrow> 'w \<Rightarrow> (int \<times> int) \<times> 'w" where
  "FileHandle_move_assign E target source w =
     (case FileHandle_CloseFd E target w of (_, w') \<Rightarrow> ((source, - 1), w'))"

section \<open>The cache\<close>

record CacheEntry =
  ce_handle :: int
  ce_path :: path
  ce_lru_iter :: nat

record FDCache =
  max_open_files :: nat
  fdc_cache :: "(u64 \<times> CacheEntry) list"
  lru_list :: "(nat \<times> u64) list"
  lru_fresh :: nat
  fdc_hits :: nat
  fdc_misses :: nat
  fdc_evictions :: nat

definition mk_FDCache :: "nat \<Rightarrow> FDCache" where
  "mk_FDCache max_files =
     \<lparr>max_open_files = max_files, fdc_cache = [], lru_list = [], lru_fresh = 0,
      fdc_hits = 0, fdc_misses = 0, fdc_evictions = 0\<rparr>"

definition FDCache_Size :: "FDCache \<Rightarrow> nat" where
  "FDCache_Size c = length (fdc_cache c)"

definition lru_erase :: "nat \<Rightarrow> FDCache \<Rightarrow> FDCache" where
  "lru_erase node c = c\<lparr>lru_list := filter (\<lambda>(n, _). n \<noteq> node) (lru_list c)\<rparr>"

definition lru_push_front :: "u64 \<Rightarrow> FDCache \<Rightarrow> nat \<times> FDCache" where
  "lru_push_front i c =
     (lru_fresh c, c\<lparr>lru_list := (lru_fresh c, i) # lru_list c, lru_fresh := Suc (lru_fresh c)\<rparr>)"

definition FDCache_Touch :: "u64 \<Rightarrow> FDCache \<Rightarrow> FDCache" where
  "FDCache_Touch file_id c =
     (case map_of (fdc_cache c) file_id of
        None \<Rightarrow> c
      | Some entry \<Rightarrow>
          let c = lru_erase (ce_lru_iter entry) c;
              (node, c) = lru_push_front file_id c
          in c\<lparr>fdc_cache := AList.update file_id (entry\<lparr>ce_lru_iter := node\<rparr>) (fdc_cache c)\<rparr>)"

definition FDCache_EvictOldest :: "'w env \<Rightarrow> FDCache \<times> 'w \<Rightarrow> FDCache \<times> 'w" where
  "FDCache_EvictOldest E s =
     (case s of (c, w) \<Rightarrow>
        if lru_list c = [] then (c, w)
        else
          let oldest_id = snd (last (lru_list c));
              w' = (case map_of (fdc_cache c) oldest_id of
                      None \<Rightarrow> w | Some entry \<Rightarrow> snd (FileHandle_CloseFd E (ce_handle entry) w))
          in (c\<lparr>lru_list := butlast (lru_list c), fdc_cache := AList.delete oldest_id (fdc_cache c),
                fdc_evictions := sz_add (fdc_evictions c) 1\<rparr>, w'))"

definition GetOrOpen_begin :: "'w env \<Rightarrow> u64 \<Rightarrow> FDCache \<times> 'w \<Rightarrow> int option \<times> (FDCache \<times> 'w)" where
  "GetOrOpen_begin E file_id s =
     (case s of (c, w) \<Rightarrow>
        (case map_of (fdc_cache c) file_id of
           Some entry \<Rightarrow>
             (Some (ce_handle entry), (FDCache_Touch file_id (c\<lparr>fdc_hits := sz_add (fdc_hits c) 1\<rparr>), w))
         | None \<Rightarrow>
             let c = c\<lparr>fdc_misses := sz_add (fdc_misses c) 1\<rparr>
             in (None, if max_open_files c \<le> FDCache_Size c then FDCache_EvictOldest E (c, w) else (c, w))))"

definition GetOrOpen_finish :: "'w env \<Rightarrow> u64 \<Rightarrow> path \<Rightarrow> int \<Rightarrow> FDCache \<times> 'w \<Rightarrow> FDCache \<times> 'w" where
  "GetOrOpen_finish E file_id path fd s =
     (case s of (c, w) \<Rightarrow>
        let (node, c) = lru_push_front file_id c;
            w' = (case map_of (fdc_cache c) file_id of
                    None \<Rightarrow> w | Some old \<Rightarrow> snd (FileHandle_move_assign E (ce_handle old) fd w))
        in (c\<lparr>fdc_cache := AList.update file_id \<lparr>ce_handle = fd, ce_path = path, ce_lru_iter = node\<rparr> (fdc_cache c)\<rparr>, w'))"

definition FDCache_GetOrOpen :: "'w env \<Rightarrow> u64 \<Rightarrow> path \<Rightarrow> (FDCache \<times> 'w, int) task" where
  "FDCache_GetOrOpen E file_id path s =
     (case GetOrOpen_begin E file_id s of
        (Some fd, s') \<Rightarrow> (Inr fd, s')
      | (None, (c, w)) \<Rightarrow>
          (case env_open E path O_RDONLY 0 w of
             (Inl e, w') \<Rightarrow> (Inl e, (c, w'))
           | (Inr fd, w') \<Rightarrow> (Inr fd, GetOrOpen_finish E file_id path fd (c, w'))))"

definition FDCache_Remove :: "'w env \<Rightarrow> u64 \<Rightarrow> FDCache \<times> 'w \<Rightarrow> FDCache \<times> 'w" where
  "FDCache_Remove E file_id s =
     (case s of (c, w) \<Rightarrow>
        (case map_of (fdc_cache c) file_id of
           None \<Rightarrow> (c, w)
         | Some entry \<Rightarrow>
             let c = lru_erase (ce_lru_iter entry) c
             in (c\<lparr>fdc_cache := AList.delete file_id (fdc_cache c)\<rparr>,
                 snd (FileHandle_CloseFd E (ce_handle entry) w))))"

definition FDCache_Clear :: "'w env \<Rightarrow> FDCache \<times> 'w \<Rightarrow> FDCache \<times> 'w" where
  "FDCache_Clear E s =
     (case s of (c, w) \<Rightarrow>
        (c\<lparr>fdc_cache := [], lru_list := []\<rparr>,
         foldl (\<lambda>w (_, entry). snd (FileHandle_CloseFd E (ce_handle entry) w)) w (fdc_cache c)))"

definition HitRate :: "FDCache \<Rightarrow> rat" where
  "HitRate c =
     (let n = sz_add (fdc_hits c) (fdc_misses c)
      in if 0 < n then to_double (to_double (of_nat (fdc_hits c)) / to_double (of_nat n)) else 0)"

section \<open>Invariant\<close>

text \<open>
  The list and the map describe the same files: every entry's iterator names the one node
  that carries its file, and no node is left over. Nodes handed out are never reused.
\<close>

definition fdc_inv :: "FDCache \<Rightarrow> bool" where
  "fdc_inv c \<longleftrightarrow>
     distinct (map fst (fdc_cache c)) \<and> distinct (map snd (lru_list c)) \<and> distinct (map fst (lru_list c)) \<and>
     (\<forall>n \<in> fst ` set (lru_list c). n < lru_fresh c) \<and>
     (\<forall>n i. (n, i) \<in> set (lru_list c) \<longleftrightarrow> (\<exists>e. map_of (fdc_cache c) i = Some e \<and> ce_lru_iter e = n))"

definition fdc_bound :: "FDCache \<Rightarrow> nat" where
  "fdc_bound c = max 1 (max_open_files c)"

lemma fdc_inv_node:
  "fdc_inv c \<Longrightarrow> (n, i) \<in> set (lru_list c) \<longleftrightarrow> (\<exists>e. map_of (fdc_cache c) i = Some e \<and> ce_lru_iter e = n)"
  by (simp add: fdc_inv_def)

lemma fdc_inv_ids:
  assumes "fdc_inv c"
  shows "set (map snd (lru_list c)) = set (map fst (fdc_cache c))"
proof (rule set_eqI)
  fix i
  have "i \<in> set (map snd (lru_list c)) \<longleftrightarrow> (\<exists>n. (n, i) \<in> set (lru_list c))" by force
  also have "\<dots> \<longleftrightarrow> map_of (fdc_cache c) i \<noteq> None" by (simp add: fdc_inv_node [OF assms])
  also have "\<dots> \<longleftrightarrow> i \<in> set (map fst (fdc_cache c))" by (simp add: map_of_eq_None_iff del: not_None_eq)
  finally show "i \<in> set (map snd (lru_list c)) \<longleftrightarrow> i \<in> set (map fst (fdc_cache c))" .
qed

lemma fdc_inv_size:
  assumes "fdc_inv c"
  shows "length (lru_list c) = FDCache_Size c"
proof -
  have "card (set (map snd (lru_list c))) = card (set (map fst (fdc_cache c)))"
    by (simp only: fdc_inv_ids [OF assms])
  moreover have "distinct (map snd (lru_list c))" "distinct (map fst (fdc_cache c))"
    using assms by (simp_all add: fdc_inv_def)
  ultimately show ?thesis by (simp add: distinct_card FDCache_Size_def del: set_map)
qed

lemma length_alist_update:
  "length (AList.update k v al) = (if map_of al k = None then Suc (length al) else length al)"
  by (induction al) auto

lemma distinct_fst_inj:
  "distinct (map fst xs) \<Longrightarrow> (a, b) \<in> set xs \<Longrightarrow> (a, b') \<in> set xs \<Longrightarrow> b = b'"
  by (metis eq_key_imp_eq_value)

text \<open>The two elementary changes: a file leaves the cache, a file enters it.\<close>

lemma fdc_inv_drop:
  assumes inv: "fdc_inv c" and e: "map_of (fdc_cache c) i = Some e"
    and lru: "lru_list c' = filter (\<lambda>(n, _). n \<noteq> ce_lru_iter e) (lru_list c)"
    and cache: "map_of (fdc_cache c') = (map_of (fdc_cache c))(i := None)" "distinct (map fst (fdc_cache c'))"
    and fresh: "lru_fresh c' = lru_fresh c"
  shows "fdc_inv c'"
proof -
  have d: "distinct (map fst (lru_list c))" using inv by (simp add: fdc_inv_def)
  have node: "(ce_lru_iter e, i) \<in> set (lru_list c)" using fdc_inv_node [OF inv] e by blast
  have "(m, j) \<in> set (lru_list c') \<longleftrightarrow> (\<exists>e'. map_of (fdc_cache c') j = Some e' \<and> ce_lru_iter e' = m)" for m j
  proof (cases "j = i")
    case True
    have "(m, i) \<in> set (lru_list c) \<Longrightarrow> m = ce_lru_iter e" using fdc_inv_node [OF inv] e by auto
    with True show ?thesis by (auto simp: lru cache)
  next
    case False
    have "(m, j) \<in> set (lru_list c) \<Longrightarrow> m \<noteq> ce_lru_iter e" using distinct_fst_inj [OF d node] False by blast
    with False fdc_inv_node [OF inv, of m j] show ?thesis by (auto simp: lru cache)
  qed
  with inv show ?thesis
    by (auto simp: fdc_inv_def lru fresh cache(2) distinct_map_filter)
qed

lemma fdc_inv_add:
  assumes inv: "fdc_inv c" and none: "map_of (fdc_cache c) i = None"
    and lru: "lru_list c' = (lru_fresh c, i) # lru_list c"
    and cache: "map_of (fdc_cache c') = (map_of (fdc_cache c))(i \<mapsto> e)" "distinct (map fst (fdc_cache c'))"
    and e: "ce_lru_iter e = lru_fresh c" and fresh: "lru_fresh c' = Suc (lru_fresh c)"
  shows "fdc_inv c'"
proof -
  have new: "i \<notin> set (map snd (lru_list c))"
    using none fdc_inv_ids [OF inv] by (simp add: map_of_eq_None_iff)
  have old: "\<forall>n \<in> fst ` set (lru_list c). n < lru_fresh c" using inv by (simp add: fdc_inv_def)
  have "(m, j) \<in> set (lru_list c') \<longleftrightarrow> (\<exists>e'. map_of (fdc_cache c') j = Some e' \<and> ce_lru_iter e' = m)" for m j
    using fdc_inv_node [OF inv, of m j] new none by (cases "j = i") (auto simp: lru cache e)
  moreover have "lru_fresh c \<notin> fst ` set (lru_list c)" using old by auto
  ultimately show ?thesis
    using inv new old by (auto simp: fdc_inv_def lru fresh cache(2) less_SucI)
qed

lemma lru_last_filter:
  assumes "distinct (map fst xs)" and "xs \<noteq> []"
  shows "butlast xs = filter (\<lambda>(n, _). n \<noteq> fst (last xs)) xs"
proof -
  obtain ys y where xs: "xs = ys @ [y]" using assms(2) by (cases xs rule: rev_cases) auto
  have "filter (\<lambda>(n, _). n \<noteq> fst y) ys = ys"
  proof (intro filter_id_conv [THEN iffD2] ballI)
    fix x
    assume "x \<in> set ys"
    then have "fst x \<in> fst ` set ys" by (rule imageI)
    moreover have "fst y \<notin> fst ` set ys" using assms(1) by (simp add: xs)
    ultimately have "fst x \<noteq> fst y" by metis
    then show "case x of (n, _) \<Rightarrow> n \<noteq> fst y" by (simp add: split_beta)
  qed
  then show ?thesis by (simp add: xs split_beta)
qed

lemma Touch_inv:
  assumes inv: "fdc_inv c"
  shows "fdc_inv (FDCache_Touch i c)"
proof (cases "map_of (fdc_cache c) i")
  case None
  with inv show ?thesis by (simp add: FDCache_Touch_def)
next
  case (Some e)
  let ?d = "c\<lparr>lru_list := filter (\<lambda>(n, _). n \<noteq> ce_lru_iter e) (lru_list c), fdc_cache := AList.delete i (fdc_cache c)\<rparr>"
  have dk: "distinct (map fst (fdc_cache c))" using inv by (simp add: fdc_inv_def)
  have d: "fdc_inv ?d"
    by (rule fdc_inv_drop [OF inv Some]) (simp_all add: delete_conv' distinct_delete dk)
  show ?thesis
    by (rule fdc_inv_add [OF d, of i _ "e\<lparr>ce_lru_iter := lru_fresh c\<rparr>"])
      (simp_all add: FDCache_Touch_def Some lru_erase_def lru_push_front_def Let_def delete_conv' update_conv' distinct_update dk)
qed

lemma Touch_simps:
  "max_open_files (FDCache_Touch i c) = max_open_files c"
  "map_option ce_handle (map_of (fdc_cache (FDCache_Touch i c)) j) = map_option ce_handle (map_of (fdc_cache c) j)"
  by (auto simp: FDCache_Touch_def lru_erase_def lru_push_front_def Let_def update_conv' split: option.splits)

lemma Touch_size: "fdc_inv c \<Longrightarrow> FDCache_Size (FDCache_Touch i c) = FDCache_Size c"
  by (auto simp: FDCache_Touch_def lru_erase_def lru_push_front_def Let_def FDCache_Size_def length_alist_update
      split: option.splits)

lemma evict_entry:
  assumes inv: "fdc_inv c" and ne: "lru_list c \<noteq> []"
  obtains e where "map_of (fdc_cache c) (snd (last (lru_list c))) = Some e" "ce_lru_iter e = fst (last (lru_list c))"
proof -
  have "(fst (last (lru_list c)), snd (last (lru_list c))) \<in> set (lru_list c)" using ne by simp
  with fdc_inv_node [OF inv] that show thesis by blast
qed

lemma Evict_inv:
  assumes inv: "fdc_inv c" and ev: "FDCache_EvictOldest E (c, w) = (c', w')"
  shows "fdc_inv c'" and "lru_list c \<noteq> [] \<Longrightarrow> FDCache_Size c' = FDCache_Size c - 1"
    and "max_open_files c' = max_open_files c" and "map_of (fdc_cache c) j = None \<Longrightarrow> map_of (fdc_cache c') j = None"
proof -
  have dk: "distinct (map fst (fdc_cache c))" and dn: "distinct (map fst (lru_list c))" using inv by (simp_all add: fdc_inv_def)
  show i: "fdc_inv c'"
  proof (cases "lru_list c = []")
    case True
    with inv ev show ?thesis by (simp add: FDCache_EvictOldest_def)
  next
    case False
    obtain e where e: "map_of (fdc_cache c) (snd (last (lru_list c))) = Some e" "ce_lru_iter e = fst (last (lru_list c))"
      by (rule evict_entry [OF inv False])
    show ?thesis
      by (rule fdc_inv_drop [OF inv e(1)])
        (use ev False e lru_last_filter [OF dn False] in
          \<open>auto simp: FDCache_EvictOldest_def Let_def delete_conv' distinct_delete dk\<close>)
  qed
  show "FDCache_Size c' = FDCache_Size c - 1" if "lru_list c \<noteq> []"
    using that ev fdc_inv_size [OF inv] fdc_inv_size [OF i] by (auto simp: FDCache_EvictOldest_def Let_def)
  show "max_open_files c' = max_open_files c" "map_of (fdc_cache c) j = None \<Longrightarrow> map_of (fdc_cache c') j = None"
    using ev by (auto simp: FDCache_EvictOldest_def Let_def delete_conv' split: if_splits)
qed

lemma finish_inv:
  assumes inv: "fdc_inv c" and none: "map_of (fdc_cache c) i = None"
    and fin: "GetOrOpen_finish E i path fd (c, w) = (c', w')"
  shows "fdc_inv c'" and "FDCache_Size c' = Suc (FDCache_Size c)" and "max_open_files c' = max_open_files c" and "w' = w"
    and "map_option ce_handle (map_of (fdc_cache c') i) = Some fd"
proof -
  have dk: "distinct (map fst (fdc_cache c))" using inv by (simp add: fdc_inv_def)
  let ?e = "\<lparr>ce_handle = fd, ce_path = path, ce_lru_iter = lru_fresh c\<rparr>"
  have c': "c' = c\<lparr>lru_list := (lru_fresh c, i) # lru_list c, lru_fresh := Suc (lru_fresh c),
      fdc_cache := AList.update i ?e (fdc_cache c)\<rparr>" and w': "w' = w"
    using fin none by (auto simp: GetOrOpen_finish_def lru_push_front_def Let_def)
  show "fdc_inv c'"
    by (rule fdc_inv_add [OF inv none, of _ ?e]) (simp_all add: c' update_conv' distinct_update dk)
  show "FDCache_Size c' = Suc (FDCache_Size c)"
    using none by (simp add: c' FDCache_Size_def length_alist_update)
  show "max_open_files c' = max_open_files c" "w' = w" "map_option ce_handle (map_of (fdc_cache c') i) = Some fd"
    by (simp_all add: c' w' update_conv')
qed

text \<open>Sequentially, \<^verbatim>\<open>GetOrOpen\<close> keeps the invariant and the bound on open files.\<close>

lemma GetOrOpen_keeps:
  assumes inv: "fdc_inv c" and bound: "FDCache_Size c \<le> fdc_bound c"
    and go: "FDCache_GetOrOpen E i path (c, w) = (r, (c', w'))"
  shows "fdc_inv c'" and "FDCache_Size c' \<le> fdc_bound c'" and "max_open_files c' = max_open_files c"
    and "r = Inr fd \<Longrightarrow> map_option ce_handle (map_of (fdc_cache c') i) = Some fd"
proof -
  have "fdc_inv c' \<and> FDCache_Size c' \<le> fdc_bound c' \<and> max_open_files c' = max_open_files c \<and>
    (\<forall>fd. r = Inr fd \<longrightarrow> map_option ce_handle (map_of (fdc_cache c') i) = Some fd)"
  proof (cases "map_of (fdc_cache c) i")
    case (Some e)
    let ?c = "c\<lparr>fdc_hits := sz_add (fdc_hits c) 1\<rparr>"
    have i: "fdc_inv ?c" using inv by (simp add: fdc_inv_def)
    have "c' = FDCache_Touch i ?c" "r = Inr (ce_handle e)"
      using go Some by (auto simp: FDCache_GetOrOpen_def GetOrOpen_begin_def)
    with Touch_inv [OF i] Touch_size [OF i, of i] Touch_simps [of i ?c] bound Some show ?thesis
      by (simp add: fdc_bound_def FDCache_Size_def)
  next
    case None
    let ?m = "c\<lparr>fdc_misses := sz_add (fdc_misses c) 1\<rparr>"
    obtain d v where b: "GetOrOpen_begin E i (c, w) = (None, (d, v))"
      using None by (cases "GetOrOpen_begin E i (c, w)") (auto simp: GetOrOpen_begin_def Let_def split: if_splits prod.splits)
    have m: "fdc_inv ?m" using inv by (simp add: fdc_inv_def)
    have d: "fdc_inv d \<and> FDCache_Size d < fdc_bound c \<and> max_open_files d = max_open_files c \<and> map_of (fdc_cache d) i = None"
    proof (cases "max_open_files c \<le> FDCache_Size c")
      case False
      then have "d = ?m" using b None by (auto simp: GetOrOpen_begin_def Let_def FDCache_Size_def)
      with False m None show ?thesis by (simp add: FDCache_Size_def fdc_bound_def)
    next
      case True
      then have ev: "FDCache_EvictOldest E (?m, w) = (d, v)"
        using b None by (auto simp: GetOrOpen_begin_def Let_def FDCache_Size_def)
      note k = Evict_inv [OF m ev]
      have "FDCache_Size d < fdc_bound c"
      proof (cases "lru_list c = []")
        case True
        then have "FDCache_Size d = 0"
          using ev fdc_inv_size [OF m] by (auto simp: FDCache_EvictOldest_def)
        then show ?thesis by (simp add: fdc_bound_def)
      next
        case False
        then have "0 < FDCache_Size c" using fdc_inv_size [OF inv] by (cases "lru_list c") auto
        moreover have "FDCache_Size d = FDCache_Size c - 1" using k(2) False by (simp add: FDCache_Size_def)
        ultimately show ?thesis using bound by linarith
      qed
      with k None show ?thesis by simp
    qed
    show ?thesis
    proof (cases "env_open E path O_RDONLY 0 v")
      case (Pair q v')
      show ?thesis
      proof (cases q)
        case (Inl e)
        with go b Pair d show ?thesis by (auto simp: FDCache_GetOrOpen_def fdc_bound_def)
      next
        case (Inr fd)
        then have "GetOrOpen_finish E i path fd (d, v') = (c', w')" "r = Inr fd"
          using go b Pair by (auto simp: FDCache_GetOrOpen_def)
        with finish_inv [of d i E path fd v' c' w'] d show ?thesis by (auto simp: fdc_bound_def)
      qed
    qed
  qed
  then show "fdc_inv c'" "FDCache_Size c' \<le> fdc_bound c'" "max_open_files c' = max_open_files c"
    "r = Inr fd \<Longrightarrow> map_option ce_handle (map_of (fdc_cache c') i) = Some fd" by auto
qed

lemma Remove_inv:
  assumes inv: "fdc_inv c" and rm: "FDCache_Remove E i (c, w) = (c', w')"
  shows "fdc_inv c'" and "map_of (fdc_cache c') i = None"
proof -
  have dk: "distinct (map fst (fdc_cache c))" using inv by (simp add: fdc_inv_def)
  have "fdc_inv c' \<and> map_of (fdc_cache c') i = None"
  proof (cases "map_of (fdc_cache c) i")
    case None
    with inv rm show ?thesis by (simp add: FDCache_Remove_def)
  next
    case (Some e)
    then have c': "c' = c\<lparr>lru_list := filter (\<lambda>(n, _). n \<noteq> ce_lru_iter e) (lru_list c), fdc_cache := AList.delete i (fdc_cache c)\<rparr>"
      using rm by (simp add: FDCache_Remove_def lru_erase_def Let_def)
    have "fdc_inv c'"
      by (rule fdc_inv_drop [OF inv Some]) (simp_all add: c' delete_conv' distinct_delete dk)
    then show ?thesis by (simp add: c' delete_conv')
  qed
  then show "fdc_inv c'" "map_of (fdc_cache c') i = None" by auto
qed

section \<open>Properties of the cache\<close>

datatype fdc_op = GetOrOpen_op u64 path | Remove_op u64 | Clear_op

fun fdc_step :: "'w env \<Rightarrow> fdc_op \<Rightarrow> FDCache \<times> 'w \<Rightarrow> FDCache \<times> 'w" where
  "fdc_step E (GetOrOpen_op i p) s = snd (FDCache_GetOrOpen E i p s)"
| "fdc_step E (Remove_op i) s = FDCache_Remove E i s"
| "fdc_step E Clear_op s = FDCache_Clear E s"

lemma fdc_step_keeps:
  assumes "fdc_inv c" and "FDCache_Size c \<le> fdc_bound c" and "fdc_step E f (c, w) = (c', w')"
  shows "fdc_inv c' \<and> FDCache_Size c' \<le> fdc_bound c' \<and> max_open_files c' = max_open_files c"
proof (cases f)
  case (GetOrOpen_op i p)
  then have "FDCache_GetOrOpen E i p (c, w) = (fst (FDCache_GetOrOpen E i p (c, w)), (c', w'))"
    using assms(3) by (simp add: prod_eq_iff)
  from GetOrOpen_keeps [OF assms(1,2) this] show ?thesis by blast
next
  case (Remove_op i)
  then have r: "FDCache_Remove E i (c, w) = (c', w')" using assms(3) by simp
  have "length (AList.delete i xs) \<le> length xs" for xs :: "(u64 \<times> CacheEntry) list"
    by (rule length_delete_le)
  then have "FDCache_Size c' \<le> FDCache_Size c" "max_open_files c' = max_open_files c"
    using r by (auto simp: FDCache_Remove_def FDCache_Size_def lru_erase_def Let_def split: option.splits)
  with Remove_inv [OF assms(1) r] assms(2) show ?thesis by (simp add: fdc_bound_def)
next
  case Clear_op
  with assms show ?thesis by (auto simp: FDCache_Clear_def FDCache_Size_def fdc_inv_def fdc_bound_def)
qed

text \<open>
  Starting from an empty cache, after any sequence of lookups, removals and clears,
  whether or not the opens succeed, the map and the list of recently used files agree
  (every entry's iterator names the one node of its file) and the number of open
  descriptors is within the configured limit, or one when the limit is zero.
\<close>

theorem fd_cache_bounded:
  "let (c, w') = fold (fdc_step E) ops (mk_FDCache n, w)
   in fdc_inv c \<and> FDCache_Size c \<le> max 1 n \<and> length (lru_list c) = FDCache_Size c"
proof -
  have "fdc_inv (fst s) \<and> FDCache_Size (fst s) \<le> fdc_bound (fst s) \<and> max_open_files (fst s) = n \<Longrightarrow>
      fdc_inv (fst (fold (fdc_step E) ops s)) \<and> FDCache_Size (fst (fold (fdc_step E) ops s)) \<le> fdc_bound (fst (fold (fdc_step E) ops s)) \<and>
      max_open_files (fst (fold (fdc_step E) ops s)) = n" for s
  proof (induction ops arbitrary: s)
    case (Cons f ops)
    obtain c w where s: "s = (c, w)" by fastforce
    obtain c' w' where f: "fdc_step E f (c, w) = (c', w')" by fastforce
    with fdc_step_keeps [of c E f w c' w'] Cons.prems have "fdc_inv c' \<and> FDCache_Size c' \<le> fdc_bound c' \<and> max_open_files c' = n"
      by (simp add: s)
    with Cons.IH [of "(c', w')"] f show ?case by (simp add: s)
  qed simp
  from this [of "(mk_FDCache n, w)"] show ?thesis
    by (auto simp: mk_FDCache_def fdc_inv_def fdc_bound_def FDCache_Size_def split_beta intro: fdc_inv_size [unfolded FDCache_Size_def fdc_inv_def])
qed

text \<open>
  Two coroutines that miss on the same file before either has opened it break the
  agreement: the descriptor handed to the first is closed when the second one finishes,
  while the first coroutine may still be reading from it, and the list of recently used
  files keeps a node that no entry refers to.
\<close>

theorem fd_cache_double_open:
  assumes "fdc_inv c" and "map_of (fdc_cache c) i = None" and "FDCache_Size c < max_open_files c" and "0 \<le> fd1"
    and "GetOrOpen_begin E i (c, w) = (r1, s1)" and "GetOrOpen_begin E i s1 = (r2, (c2, w2))"
    and "GetOrOpen_finish E i p fd1 (c2, w3) = (c3, w4)" and "GetOrOpen_finish E i p fd2 (c3, w5) = (c4, w6)"
  shows "r1 = None \<and> r2 = None \<and> w6 = env_sysclose E fd1 w5 \<and> \<not> fdc_inv c4 \<and>
    map_option ce_handle (map_of (fdc_cache c4) i) = Some fd2"
proof -
  from assms(2,3,5,6) have b: "r1 = None" "r2 = None" "fdc_cache c2 = fdc_cache c" "lru_list c2 = lru_list c"
    by (auto simp: GetOrOpen_begin_def Let_def FDCache_Size_def split: if_splits)
  have w6: "w6 = env_sysclose E fd1 w5" and l: "map snd (lru_list c4) = i # i # map snd (lru_list c)"
    and h: "map_option ce_handle (map_of (fdc_cache c4) i) = Some fd2"
    using assms(2,4,7,8) b(3,4)
    by (auto simp: GetOrOpen_finish_def lru_push_front_def Let_def update_conv' FileHandle_move_assign_def
        FileHandle_CloseFd_def)
  from l have "\<not> fdc_inv c4" by (simp add: fdc_inv_def)
  with b w6 h show ?thesis by simp
qed

theorem fd_cache_double_open_witness:
  "let c0 = mk_FDCache 4; w0 = empty_mem;
       (r1, s1) = GetOrOpen_begin mem_env 7 (c0, w0);
       (r2, (c2, w2)) = GetOrOpen_begin mem_env 7 s1;
       (c3, w4) = GetOrOpen_finish mem_env 7 ''f'' 3 (c2, w2);
       (c4, w6) = GetOrOpen_finish mem_env 7 ''f'' 4 (c3, w4)
   in r1 = None \<and> r2 = None \<and> \<not> fdc_inv c4 \<and> w6 = env_sysclose mem_env 3 w4"
proof -
  let ?c = "mk_FDCache 4"
  obtain r1 s1 where b1: "GetOrOpen_begin mem_env 7 (?c, empty_mem) = (r1, s1)" by (metis surj_pair)
  obtain r2 c2 w2 where b2: "GetOrOpen_begin mem_env 7 s1 = (r2, (c2, w2))" by (metis prod_cases3)
  obtain c3 w4 where f1: "GetOrOpen_finish mem_env 7 ''f'' 3 (c2, w2) = (c3, w4)" by (metis surj_pair)
  obtain c4 w6 where f2: "GetOrOpen_finish mem_env 7 ''f'' 4 (c3, w4) = (c4, w6)" by (metis surj_pair)
  have c: "fdc_inv ?c" "map_of (fdc_cache ?c) 7 = None" "FDCache_Size ?c < max_open_files ?c"
    by (simp_all add: mk_FDCache_def fdc_inv_def FDCache_Size_def)
  from fd_cache_double_open [OF c _ b1 b2 f1 f2] show ?thesis
    by (simp add: Let_def b1 b2 f1 f2)
qed

end
