(* ===== verification/Data_File.thy ===== *)
theory Data_File
  imports Fd_Cache
begin

text \<open>
  One append-only data file (\<^verbatim>\<open>bitcask/include/data_file.h\<close>, \<^verbatim>\<open>data_file.cpp\<close>). Both overloads of
  \<^verbatim>\<open>AsyncWrite\<close> reserve their region before they yield; the step relation at the end of the
  theory interleaves any number of writers between their reservation and their completion.
\<close>

record DataFile =
  df_file_id :: u64
  df_handle :: int
  df_size :: nat

definition thrown :: "string \<Rightarrow> Error" where
  "thrown msg = \<lparr>category = KApplication, error_val = Thrown msg\<rparr>"

definition mk_DataFile :: "'w env \<Rightarrow> int \<Rightarrow> u64 \<Rightarrow> 'w \<Rightarrow> Error + DataFile" where
  "mk_DataFile E fd file_id w =
     (if fd < 0 then Inl (thrown ''fd cannot be negative'')
      else case env_getfl E fd w of
        Inl e \<Rightarrow> Inl (thrown ''fcntl(F_GETFL) failed'')
      | Inr flags \<Rightarrow>
          if flags AND O_APPEND \<noteq> 0 then Inl (thrown ''DataFile cannot be opened with O_APPEND'')
          else Inr \<lparr>df_file_id = file_id, df_handle = fd, df_size = 0\<rparr>)"

definition ComputeCrc32c :: "'w env \<Rightarrow> u64 \<Rightarrow> u8 \<Rightarrow> u32 \<Rightarrow> u32 \<Rightarrow> bytes \<Rightarrow> bytes \<Rightarrow> u32" where
  "ComputeCrc32c E timestamp flag key_len val_len key val =
     (let meta_buf = replicate 17 0;
          meta_buf = WriteLe 0 timestamp meta_buf;
          meta_buf = WriteLe 8 flag meta_buf;
          meta_buf = WriteLe 9 key_len meta_buf;
          meta_buf = WriteLe 13 val_len meta_buf;
          crc = env_crc E meta_buf;
          crc = env_crc_extend E crc key
      in env_crc_extend E crc val)"

definition DataFile_AsyncClose :: "'w env \<Rightarrow> (DataFile \<times> 'w, unit) task" where
  "DataFile_AsyncClose E s =
     (case s of (df, w) \<Rightarrow>
        if FileHandle_IsValid (df_handle df) then
          let (fd, h) = FileHandle_Release (df_handle df);
              df = df\<lparr>df_handle := h\<rparr>
          in case env_close E fd w of (r, w') \<Rightarrow> (r, (df, w'))
        else (Inr (), (df, w)))"

text \<open>\<^verbatim>\<open>entry_offset = size_; size_ += entry_size\<close>, done before any \<^verbatim>\<open>co_await\<close>.\<close>

definition DataFile_reserve :: "nat \<Rightarrow> DataFile \<Rightarrow> nat \<times> DataFile" where
  "DataFile_reserve entry_size df = (df_size df, df\<lparr>df_size := sz_add (df_size df) entry_size\<rparr>)"

text \<open>The end of both overloads: \<^verbatim>\<open>fdatasync\<close> when the configuration asks for it.\<close>

definition DataFile_sync :: "'w env \<Rightarrow> BitcaskConfig \<Rightarrow> nat \<Rightarrow> (DataFile \<times> 'w, nat) task" where
  "DataFile_sync E cfg entry_offset s =
     (case s of (df, w) \<Rightarrow>
        if sync_on_write cfg then
          (case env_fdatasync E (df_handle df) w of
             (Inl e, w') \<Rightarrow> (Inl e, (df, w'))
           | (Inr _, w') \<Rightarrow> (Inr entry_offset, (df, w')))
        else (Inr entry_offset, (df, w)))"

definition DataFile_AsyncWriteEntry :: "'w env \<Rightarrow> BitcaskConfig \<Rightarrow> DataEntry \<Rightarrow> (DataFile \<times> 'w, nat) task" where
  "DataFile_AsyncWriteEntry E cfg entry s =
     (case s of (df, w) \<Rightarrow>
        let (entry_offset, df) = DataFile_reserve (DataEntry_Size entry) df
        in case env_write_exact_at E (df_handle df) (de_payload entry) entry_offset w of
             (Inl e, w') \<Rightarrow> (Inl e, (df, w'))
           | (Inr _, w') \<Rightarrow> DataFile_sync E cfg entry_offset (df, w'))"

definition entry_iov :: "'w env \<Rightarrow> bytes \<Rightarrow> bytes \<Rightarrow> u64 \<Rightarrow> u8 \<Rightarrow> bytes list" where
  "entry_iov E key val timestamp flag =
     (let key_len = of_nat (length key) :: u32;
          val_len = of_nat (length val) :: u32;
          crc = ComputeCrc32c E timestamp flag key_len val_len key val;
          header_buf = replicate kEntryFixedHeaderSize 0;
          header_buf = WriteLe 0 crc header_buf;
          header_buf = WriteLe 4 timestamp header_buf;
          header_buf = WriteLe 12 flag header_buf;
          header_buf = WriteLe 13 key_len header_buf;
          header_buf = WriteLe 17 val_len header_buf
      in [header_buf, key, val])"

definition eio :: Error where
  "eio = \<lparr>category = KFile, error_val = Errno 5\<rparr>"

definition DataFile_AsyncWrite ::
  "'w env \<Rightarrow> BitcaskConfig \<Rightarrow> bytes \<Rightarrow> bytes \<Rightarrow> u64 \<Rightarrow> u8 \<Rightarrow> (DataFile \<times> 'w, nat) task" where
  "DataFile_AsyncWrite E cfg key val timestamp flag s =
     (case s of (df, w) \<Rightarrow>
        let entry_size = kEntryFixedHeaderSize + unat (of_nat (length key) :: u32) + unat (of_nat (length val) :: u32);
            (entry_offset, df) = DataFile_reserve entry_size df
        in case env_writev E (df_handle df) (entry_iov E key val timestamp flag) entry_offset w of
             (Inl e, w') \<Rightarrow> (Inl e, (df, w'))
           | (Inr bytes_written, w') \<Rightarrow>
               if bytes_written \<noteq> int entry_size then (Inl eio, (df, w'))
               else DataFile_sync E cfg entry_offset (df, w'))"

definition DataFile_ShouldRotate :: "nat \<Rightarrow> DataFile \<Rightarrow> bool" where
  "DataFile_ShouldRotate max_size df \<longleftrightarrow> max_size \<le> df_size df"

section \<open>What is written\<close>

lemma WriteLe_fields17:
  "WriteLe 13 vl (WriteLe 9 kl (WriteLe 8 fl (WriteLe 0 ts (replicate 17 0)))) =
     le_bytes 8 (ts :: u64) @ le_bytes 1 (fl :: u8) @ le_bytes 4 (kl :: u32) @ le_bytes 4 (vl :: u32)"
proof -
  have "replicate 17 (0 :: byte) = replicate 8 0 @ replicate 1 0 @ replicate 4 0 @ replicate 4 0"
    by (simp only: replicate_add [symmetric]) simp
  then show ?thesis by (simp add: WriteLe_eq del: replicate.simps)
qed

lemma WriteLe_fields21:
  "WriteLe 17 vl (WriteLe 13 kl (WriteLe 12 fl (WriteLe 4 ts (WriteLe 0 crc (replicate 21 0))))) =
     le_bytes 4 (crc :: u32) @ le_bytes 8 (ts :: u64) @ le_bytes 1 (fl :: u8) @ le_bytes 4 (kl :: u32) @ le_bytes 4 (vl :: u32)"
proof -
  have "replicate 21 (0 :: byte) = replicate 4 0 @ replicate 8 0 @ replicate 1 0 @ replicate 4 0 @ replicate 4 0"
    by (simp only: replicate_add [symmetric]) simp
  then show ?thesis by (simp add: WriteLe_eq del: replicate.simps)
qed

context posix_env
begin

lemma ComputeCrc32c_body:
  "ComputeCrc32c E ts flag (of_nat (length key)) (of_nat (length val)) key val = env_crc E (entry_body key val flag ts)"
  by (simp only: ComputeCrc32c_def Let_def WriteLe_fields17 crc_extend) (simp add: entry_body_def)

lemma concat_entry_iov: "concat (entry_iov E key val ts flag) = entry_image (env_crc E) key val flag ts"
  by (simp only: entry_iov_def Let_def kEntryFixedHeaderSize_def WriteLe_fields21 ComputeCrc32c_body)
    (simp add: entry_image_def entry_body_def)

end

section \<open>Sequential writes\<close>

text \<open>The data file object and the world agree: its descriptor is open on its file.\<close>

context posix_env
begin

lemma DataFile_sync_any:
  assumes "DataFile_sync E cfg off (df, w) = (r, (df', w'))"
  shows "df' = df \<and> content w' = content w \<and> opened w' = opened w \<and> fpos w' = fpos w \<and> (\<forall>n. r = Inr n \<longrightarrow> n = off)"
proof (cases "env_fdatasync E (df_handle df) w")
  case (Pair q v)
  from fdatasync_any [OF Pair] assms Pair show ?thesis
    by (cases q) (auto simp: DataFile_sync_def split: if_splits)
qed

text \<open>
  Whatever happens, a write touches only its own reserved region; when it reports success the
  whole record is there.
\<close>

lemma AsyncWrite_any:
  assumes wr: "DataFile_AsyncWrite E cfg key val ts flag (df, w) = (r, (df', w'))"
    and len: "length key < 2 ^ 32" "length val < 2 ^ 32"
    and fd: "opened w (df_handle df) = Some p" "content w p = Some c"
  shows "df' = df\<lparr>df_size := sz_add (df_size df) (21 + length key + length val)\<rparr> \<and> opened w' = opened w \<and> fpos w' = fpos w \<and>
    (\<exists>n \<le> 21 + length key + length val.
       content w' = (content w)(p \<mapsto> pwrite (df_size df) (take n (entry_image (env_crc E) key val flag ts)) c) \<and>
       (\<forall>off. r = Inr off \<longrightarrow> off = df_size df \<and> n = 21 + length key + length val))"
proof -
  let ?n = "21 + length key + length val" and ?img = "entry_image (env_crc E) key val flag ts"
  let ?df = "df\<lparr>df_size := sz_add (df_size df) ?n\<rparr>"
  obtain q v where q: "env_writev E (df_handle df) (entry_iov E key val ts flag) (df_size df) w = (q, v)" by fastforce
  have v: "opened v = opened w" "fpos v = fpos w"
    using writev_any [OF q fd] by blast+
  obtain n where n: "n \<le> ?n" "content v = (content w)(p \<mapsto> pwrite (df_size df) (take n ?img) c)"
    "\<And>m. q = Inr m \<Longrightarrow> m = int n"
    using writev_any [OF q fd] by (auto simp: concat_entry_iov)
  have sz: "kEntryFixedHeaderSize + unat (of_nat (length key) :: u32) + unat (of_nat (length val) :: u32) = ?n"
    using len by (simp add: kEntryFixedHeaderSize_def)
  show ?thesis
  proof (cases "q = Inr (int ?n)")
    case True
    then have nn: "n = ?n" using n(3) [OF True] by simp
    from wr True q have s: "DataFile_sync E cfg (df_size df) (?df, v) = (r, (df', w'))"
      unfolding DataFile_AsyncWrite_def DataFile_reserve_def by (simp add: sz Let_def)
    from DataFile_sync_any [OF s] v n nn show ?thesis by (auto intro!: exI [of _ n])
  next
    case False
    then have "(\<exists>e. r = Inl e) \<and> df' = ?df \<and> w' = v"
      using wr q unfolding DataFile_AsyncWrite_def DataFile_reserve_def
      by (cases q) (auto simp: sz Let_def split: if_splits)
    with v n show ?thesis by (auto intro!: exI [of _ n])
  qed
qed

lemma AsyncWriteEntry_any:
  assumes wr: "DataFile_AsyncWriteEntry E cfg e (df, w) = (r, (df', w'))"
    and len: "length (de_payload e) < 2 ^ 32"
    and fd: "opened w (df_handle df) = Some p" "content w p = Some c"
  shows "df' = df\<lparr>df_size := sz_add (df_size df) (length (de_payload e))\<rparr> \<and> opened w' = opened w \<and> fpos w' = fpos w \<and>
    (\<exists>n \<le> length (de_payload e). content w' = (content w)(p \<mapsto> pwrite (df_size df) (take n (de_payload e)) c) \<and>
       (\<forall>off. r = Inr off \<longrightarrow> off = df_size df \<and> n = length (de_payload e)))"
proof -
  let ?df = "df\<lparr>df_size := sz_add (df_size df) (length (de_payload e))\<rparr>"
  have sz: "DataEntry_Size e = length (de_payload e)" using len by (simp add: DataEntry_Size_def trunc32_eq)
  obtain q v where q: "env_write_exact_at E (df_handle df) (de_payload e) (df_size df) w = (q, v)" by fastforce
  note v = write_exact_at_any [OF q fd]
  show ?thesis
  proof (cases q)
    case (Inl x)
    then have "r = Inl x \<and> df' = ?df \<and> w' = v"
      using wr q by (simp add: DataFile_AsyncWriteEntry_def DataFile_reserve_def Let_def sz)
    with v show ?thesis by auto
  next
    case (Inr u)
    then have s: "DataFile_sync E cfg (df_size df) (?df, v) = (r, (df', w'))"
      using wr q by (simp add: DataFile_AsyncWriteEntry_def DataFile_reserve_def Let_def sz)
    from DataFile_sync_any [OF s] v Inr show ?thesis by auto
  qed
qed

end

section \<open>Concurrent writers\<close>

text \<open>
  The coroutines of one worker that write to the same file: a writer reserves its region
  without yielding, and its bytes arrive at some later step, in any order; a failing write
  leaves any prefix of its bytes.
\<close>

record wstate =
  ws_file :: DataFile
  ws_bytes :: bytes
  ws_pending :: "(nat \<times> bytes) list"
  ws_written :: "(nat \<times> bytes) list"

inductive df_step :: "wstate \<Rightarrow> wstate \<Rightarrow> bool" where
  reserve: "bs \<noteq> [] \<Longrightarrow> df_size (ws_file s) + length bs < size_limit \<Longrightarrow>
    DataFile_reserve (length bs) (ws_file s) = (off, df) \<Longrightarrow>
    df_step s (s\<lparr>ws_file := df, ws_pending := (off, bs) # ws_pending s\<rparr>)"
| complete: "(off, bs) \<in> set (ws_pending s) \<Longrightarrow>
    df_step s (s\<lparr>ws_bytes := pwrite off bs (ws_bytes s), ws_pending := remove1 (off, bs) (ws_pending s),
                 ws_written := (off, bs) # ws_written s\<rparr>)"
| fail: "(off, bs) \<in> set (ws_pending s) \<Longrightarrow>
    df_step s (s\<lparr>ws_bytes := pwrite off (take n bs) (ws_bytes s), ws_pending := remove1 (off, bs) (ws_pending s)\<rparr>)"

lemma df_stepE [consumes 1, case_names reserve complete fail]:
  assumes "df_step s s'"
  obtains bs off df where "s' = s\<lparr>ws_file := df, ws_pending := (off, bs) # ws_pending s\<rparr>" "bs \<noteq> []"
      "df_size (ws_file s) + length bs < size_limit" "DataFile_reserve (length bs) (ws_file s) = (off, df)"
    | off bs where "s' = s\<lparr>ws_bytes := pwrite off bs (ws_bytes s), ws_pending := remove1 (off, bs) (ws_pending s),
                 ws_written := (off, bs) # ws_written s\<rparr>" "(off, bs) \<in> set (ws_pending s)"
    | off bs n where "s' = s\<lparr>ws_bytes := pwrite off (take n bs) (ws_bytes s), ws_pending := remove1 (off, bs) (ws_pending s)\<rparr>"
      "(off, bs) \<in> set (ws_pending s)"
  using assms by (cases rule: df_step.cases) blast+

definition apart :: "nat \<times> bytes \<Rightarrow> nat \<times> bytes \<Rightarrow> bool" where
  "apart a b \<longleftrightarrow> fst a + length (snd a) \<le> fst b \<or> fst b + length (snd b) \<le> fst a"

definition ws_inv :: "wstate \<Rightarrow> bool" where
  "ws_inv s \<longleftrightarrow>
     distinct (ws_pending s) \<and> set (ws_pending s) \<inter> set (ws_written s) = {} \<and>
     (\<forall>r \<in> set (ws_pending s) \<union> set (ws_written s). snd r \<noteq> [] \<and> fst r + length (snd r) \<le> df_size (ws_file s)) \<and>
     (\<forall>a \<in> set (ws_pending s) \<union> set (ws_written s). \<forall>b \<in> set (ws_pending s) \<union> set (ws_written s). a \<noteq> b \<longrightarrow> apart a b) \<and>
     (\<forall>(off, bs) \<in> set (ws_written s). off + length bs \<le> length (ws_bytes s) \<and> subspan off (length bs) (ws_bytes s) = bs)"

lemma written_kept:
  assumes "off' + length bs' \<le> length c" "subspan off' (length bs') c = bs'"
    and "apart (off, bs) (off', bs')" and "length xs \<le> length bs"
  shows "off' + length bs' \<le> length (pwrite off xs c) \<and> subspan off' (length bs') (pwrite off xs c) = bs'"
  using assms length_pwrite_ge [of c off xs]
  by (auto simp: apart_def subspan_pwrite_other)

lemma ws_invD:
  assumes "ws_inv s"
  shows "distinct (ws_pending s)" and "set (ws_pending s) \<inter> set (ws_written s) = {}"
    and "r \<in> set (ws_pending s) \<union> set (ws_written s) \<Longrightarrow> snd r \<noteq> [] \<and> fst r + length (snd r) \<le> df_size (ws_file s)"
    and "(off, bs) \<in> set (ws_written s) \<Longrightarrow>
      off + length bs \<le> length (ws_bytes s) \<and> subspan off (length bs) (ws_bytes s) = bs"
  using assms unfolding ws_inv_def by blast+

lemma ws_inv_region:
  assumes "ws_inv s" and "(off, bs) \<in> set (ws_pending s) \<union> set (ws_written s)"
  shows "bs \<noteq> []" and "off + length bs \<le> df_size (ws_file s)"
  using ws_invD(3) [OF assms] by simp_all

lemma ws_inv_apart:
  assumes "ws_inv s" and "a \<in> set (ws_pending s) \<union> set (ws_written s)" and "b \<in> set (ws_pending s) \<union> set (ws_written s)" and "a \<noteq> b"
  shows "apart a b"
  using assms unfolding ws_inv_def by blast

lemma ws_inv_pending_apart:
  assumes "ws_inv s" and "a \<in> set (ws_pending s)" and "b \<in> set (ws_written s)"
  shows "apart a b"
proof (rule ws_inv_apart [OF assms(1)])
  show "a \<noteq> b" using assms unfolding ws_inv_def by blast
qed (use assms(2,3) in simp_all)

lemma ws_invI:
  assumes "distinct (ws_pending s)" and "set (ws_pending s) \<inter> set (ws_written s) = {}"
    and "\<And>r. r \<in> set (ws_pending s) \<union> set (ws_written s) \<Longrightarrow> snd r \<noteq> [] \<and> fst r + length (snd r) \<le> df_size (ws_file s)"
    and "\<And>a b. a \<in> set (ws_pending s) \<union> set (ws_written s) \<Longrightarrow> b \<in> set (ws_pending s) \<union> set (ws_written s) \<Longrightarrow> a \<noteq> b \<Longrightarrow> apart a b"
    and "\<And>off bs. (off, bs) \<in> set (ws_written s) \<Longrightarrow>
      off + length bs \<le> length (ws_bytes s) \<and> subspan off (length bs) (ws_bytes s) = bs"
  shows "ws_inv s"
  using assms unfolding ws_inv_def by blast

lemma ws_inv_step:
  assumes "df_step s s'" and inv: "ws_inv s"
  shows "ws_inv s'"
  using assms(1)
proof (cases rule: df_stepE)
  case (reserve bs off df)
  have off: "off = df_size (ws_file s)" "df_size df = df_size (ws_file s) + length bs"
    using reserve(3,4) by (auto simp: DataFile_reserve_def sz_add_eq)
  have new: "apart (off, bs) r \<and> apart r (off, bs) \<and> r \<noteq> (off, bs)" if "r \<in> set (ws_pending s) \<union> set (ws_written s)" for r
    using ws_invD(3) [OF inv that] reserve(2) by (cases r) (auto simp: apart_def off(1))
  show ?thesis
  proof (rule ws_invI)
    show "distinct (ws_pending s')" "set (ws_pending s') \<inter> set (ws_written s') = {}"
      using ws_invD(1,2) [OF inv] new by (auto simp: reserve(1))
    show "snd r \<noteq> [] \<and> fst r + length (snd r) \<le> df_size (ws_file s')" if "r \<in> set (ws_pending s') \<union> set (ws_written s')" for r
      using that ws_invD(3) [OF inv, of r] reserve(2) by (auto simp: reserve(1) off)
    show "apart a b" if "a \<in> set (ws_pending s') \<union> set (ws_written s')" "b \<in> set (ws_pending s') \<union> set (ws_written s')" "a \<noteq> b" for a b
      using that new [of a] new [of b] ws_inv_apart [OF inv, of a b] by (auto simp: reserve(1))
    show "o' + length b \<le> length (ws_bytes s') \<and> subspan o' (length b) (ws_bytes s') = b" if "(o', b) \<in> set (ws_written s')" for o' b
      using that ws_invD(4) [OF inv] by (simp add: reserve(1))
  qed
next
  case (complete off bs)
  have mem: "(off, bs) \<in> set (ws_pending s) \<union> set (ws_written s)" using complete(2) by simp
  have rem: "set (remove1 (off, bs) (ws_pending s)) = set (ws_pending s) - {(off, bs)}"
    using ws_invD(1) [OF inv] by (rule set_remove1_eq)
  have R: "set (ws_pending s') \<union> set (ws_written s') = set (ws_pending s) \<union> set (ws_written s)"
    using complete(2) by (auto simp: complete(1) rem)
  show ?thesis
  proof (rule ws_invI, unfold R)
    show "distinct (ws_pending s')" "set (ws_pending s') \<inter> set (ws_written s') = {}"
      using ws_invD(1,2) [OF inv] by (auto simp: complete(1) rem)
    show "snd r \<noteq> [] \<and> fst r + length (snd r) \<le> df_size (ws_file s')" if "r \<in> set (ws_pending s) \<union> set (ws_written s)" for r
      using ws_invD(3) [OF inv that] by (simp add: complete(1))
    show "apart a b" if "a \<in> set (ws_pending s) \<union> set (ws_written s)" "b \<in> set (ws_pending s) \<union> set (ws_written s)" "a \<noteq> b" for a b
      using that by (rule ws_inv_apart [OF inv])
    show "o' + length b \<le> length (ws_bytes s') \<and> subspan o' (length b) (ws_bytes s') = b" if "(o', b) \<in> set (ws_written s')" for o' b
    proof (cases "(o', b) = (off, bs)")
      case True
      with ws_inv_region(1) [OF inv mem] subspan_pwrite_here [of off bs "ws_bytes s"] show ?thesis
        by (simp add: complete(1) length_pwrite)
    next
      case False
      with that have w: "(o', b) \<in> set (ws_written s)" by (auto simp: complete(1))
      from written_kept [OF _ _ ws_inv_pending_apart [OF inv complete(2) w]] ws_invD(4) [OF inv w] show ?thesis
        by (simp add: complete(1))
    qed
  qed
next
  case (fail off bs n)
  have rem: "set (remove1 (off, bs) (ws_pending s)) = set (ws_pending s) - {(off, bs)}"
    using ws_invD(1) [OF inv] by (rule set_remove1_eq)
  have R: "set (ws_pending s') \<union> set (ws_written s') \<subseteq> set (ws_pending s) \<union> set (ws_written s)"
    by (auto simp: fail(1) rem)
  show ?thesis
  proof (rule ws_invI)
    show "distinct (ws_pending s')" "set (ws_pending s') \<inter> set (ws_written s') = {}"
      using ws_invD(1,2) [OF inv] by (auto simp: fail(1) rem)
    show "snd r \<noteq> [] \<and> fst r + length (snd r) \<le> df_size (ws_file s')" if "r \<in> set (ws_pending s') \<union> set (ws_written s')" for r
      using ws_invD(3) [OF inv subsetD [OF R that]] by (simp add: fail(1))
    show "apart a b" if "a \<in> set (ws_pending s') \<union> set (ws_written s')" "b \<in> set (ws_pending s') \<union> set (ws_written s')" "a \<noteq> b" for a b
      by (rule ws_inv_apart [OF inv subsetD [OF R that(1)] subsetD [OF R that(2)] that(3)])
    show "o' + length b \<le> length (ws_bytes s') \<and> subspan o' (length b) (ws_bytes s') = b" if "(o', b) \<in> set (ws_written s')" for o' b
    proof -
      from that have w: "(o', b) \<in> set (ws_written s)" by (simp add: fail(1))
      from written_kept [OF _ _ ws_inv_pending_apart [OF inv fail(2) w]] ws_invD(4) [OF inv w] show ?thesis
        by (simp add: fail(1))
    qed
  qed
qed

lemma ws_inv_reachable: "df_step\<^sup>*\<^sup>* s s' \<Longrightarrow> ws_inv s \<Longrightarrow> ws_inv s'"
  by (induction rule: rtranclp_induct) (auto intro: ws_inv_step)

section \<open>Properties of data files\<close>

text \<open>
  The two ways to write a record produce the same bytes. The scatter-gather write, whose
  checksum is computed piece by piece over header, key and value, hands the worker exactly
  the payload that the in-memory constructor builds. The checksum package is assumed to
  extend a checksum as it documents.
\<close>

theorem writev_is_entry:
  assumes "\<And>a b. env_crc_extend E (env_crc E a) b = env_crc E (a @ b)"
    and "length key < 2 ^ 32" and "length val < 2 ^ 32"
  shows "concat (entry_iov E key val ts flag) = de_payload (mk_DataEntry (env_crc E) key val flag ts)"
proof -
  have "ComputeCrc32c E ts flag (of_nat (length key)) (of_nat (length val)) key val = env_crc E (entry_body key val flag ts)"
    by (simp only: ComputeCrc32c_def Let_def WriteLe_fields17 assms(1)) (simp add: entry_body_def)
  then have "concat (entry_iov E key val ts flag) = entry_image (env_crc E) key val flag ts"
    by (simp only: entry_iov_def Let_def kEntryFixedHeaderSize_def WriteLe_fields21)
      (simp add: entry_image_def entry_body_def)
  then show ?thesis by (simp add: payload_mk_DataEntry [OF assms(2,3)])
qed

theorem writev_is_entry_witness:
  "concat (entry_iov mem_env [1, 2] [3] 7 0) = de_payload (mk_DataEntry (env_crc mem_env) [1, 2] [3] 0 7)"
  using writev_is_entry [of mem_env "[1, 2]" "[3]" 7 0] mem_posix.crc_extend by simp

text \<open>
  A write that reports success has put the whole record at the offset it returns and
  changed no other byte of any file; a write that reports failure has changed nothing
  outside the region it reserved; in both cases the region stays reserved.
\<close>

theorem data_file_write:
  assumes env: "posix_env E content opened fpos"
    and "DataFile_AsyncWrite E cfg key val ts flag (df, w) = (r, (df', w'))"
    and "length key < 2 ^ 32" "length val < 2 ^ 32"
    and "opened w (df_handle df) = Some p" "content w p = Some c" "df_size df \<le> length c"
    and "df_size df + 21 + length key + length val < size_limit"
  shows "df_size df' = df_size df + 21 + length key + length val \<and> (\<forall>q. q \<noteq> p \<longrightarrow> content w' q = content w q) \<and>
    (\<exists>c'. content w' p = Some c' \<and> take (df_size df) c' = take (df_size df) c \<and> drop (df_size df') c' = drop (df_size df') c \<and>
       (\<forall>off. r = Inr off \<longrightarrow> off = df_size df \<and>
          subspan off (21 + length key + length val) c' = de_payload (mk_DataEntry (env_crc E) key val flag ts)))"
proof -
  let ?n = "21 + length key + length val" and ?img = "entry_image (env_crc E) key val flag ts"
  from posix_env.AsyncWrite_any [OF env assms(2-6)] obtain n where
    df: "df' = df\<lparr>df_size := sz_add (df_size df) ?n\<rparr>" and n: "n \<le> ?n"
    and c: "content w' = (content w)(p \<mapsto> pwrite (df_size df) (take n ?img) c)"
    and ok: "\<And>off. r = Inr off \<Longrightarrow> off = df_size df \<and> n = ?n" by blast
  have sz: "df_size df' = df_size df + ?n" using assms(8) by (simp add: df sz_add_eq)
  let ?c = "pwrite (df_size df) (take n ?img) c"
  have "take (df_size df) ?c = take (df_size df) c"
    using assms(7) subspan_pwrite_other [of 0 "df_size df" c "df_size df" "take n ?img"] by simp
  moreover have "drop (df_size df') ?c = drop (df_size df') c"
    using assms(7) n by (auto simp: pwrite_def memcpy_at_def sz ac_simps)
  moreover have "subspan off ?n ?c = ?img" if "r = Inr off" for off
    using ok [OF that] subspan_pwrite_here [of "df_size df" ?img c] by simp
  ultimately show ?thesis
    using ok sz by (auto simp: c payload_mk_DataEntry [OF assms(3,4)])
qed

theorem data_file_write_witness:
  "let (fdr, w) = env_open mem_env ''f'' (O_CREAT OR O_RDWR) 0 empty_mem;
       df = \<lparr>df_file_id = 1, df_handle = 3, df_size = 0\<rparr>;
       (r, (df', w')) = DataFile_AsyncWrite mem_env default_BitcaskConfig [1] [2, 3] 7 0 (df, w)
   in fdr = Inr 3 \<and> df_size df' = 24"
proof -
  obtain w where o: "env_open mem_env ''f'' (O_CREAT OR O_RDWR) 0 empty_mem = (Inr 3, w)"
    by (simp add: mem_env_def mem_open_def empty_mem_def Let_def)
  note v = mem_posix.open_ok [OF o]
  let ?df = "\<lparr>df_file_id = 1, df_handle = 3, df_size = 0\<rparr>"
  obtain r df' w' where wr: "DataFile_AsyncWrite mem_env default_BitcaskConfig [1] [2, 3] 7 0 (?df, w) = (r, (df', w'))"
    by (metis prod_cases3)
  have fd: "mem_opened w (df_handle ?df) = Some ''f''" "mem_content w ''f'' = Some []"
    using v by (simp_all add: empty_mem_def mem_content_def)
  from data_file_write [OF mem_posix.posix_env_axioms wr _ _ fd] show ?thesis
    by (simp add: o wr size_limit_def)
qed

text \<open>
  C9: writers that overlap in time never damage each other: from an empty file, after any
  interleaving of reservations, completions and failures, every record whose write has
  completed is in the file, byte for byte, at the offset that was reserved for it.
\<close>

theorem concurrent_writes_intact:
  assumes "df_step\<^sup>*\<^sup>* \<lparr>ws_file = \<lparr>df_file_id = i, df_handle = fd, df_size = 0\<rparr>, ws_bytes = c, ws_pending = [], ws_written = []\<rparr> s"
    and "(off, bs) \<in> set (ws_written s)"
  shows "subspan off (length bs) (ws_bytes s) = bs \<and> off + length bs \<le> df_size (ws_file s) \<and>
    (\<forall>(off', bs') \<in> set (ws_written s) \<union> set (ws_pending s).
       (off', bs') = (off, bs) \<or> off + length bs \<le> off' \<or> off' + length bs' \<le> off)"
proof -
  have inv: "ws_inv s" by (rule ws_inv_reachable [OF assms(1)]) (simp add: ws_inv_def)
  have "(off', bs') = (off, bs) \<or> off + length bs \<le> off' \<or> off' + length bs' \<le> off"
    if "(off', bs') \<in> set (ws_written s) \<union> set (ws_pending s)" for off' bs'
    using ws_inv_apart [OF inv, of "(off, bs)" "(off', bs')"] assms(2) that by (auto simp: apart_def)
  moreover have "off + length bs \<le> df_size (ws_file s)"
    using ws_inv_region(2) [OF inv, of off bs] assms(2) by simp
  moreover have "subspan off (length bs) (ws_bytes s) = bs"
    using inv assms(2) unfolding ws_inv_def by auto
  ultimately show ?thesis by blast
qed

theorem concurrent_writes_intact_witness:
  "\<exists>s. df_step\<^sup>*\<^sup>* \<lparr>ws_file = \<lparr>df_file_id = 1, df_handle = 3, df_size = 0\<rparr>, ws_bytes = [], ws_pending = [], ws_written = []\<rparr> s \<and>
     ws_bytes s = [1, 2, 3, 4, 5] \<and> subspan 2 3 (ws_bytes s) = [3, 4, 5]"
proof -
  let ?df = "\<lambda>n. \<lparr>df_file_id = 1, df_handle = 3, df_size = n\<rparr>"
  let ?s0 = "\<lparr>ws_file = ?df 0, ws_bytes = [], ws_pending = [], ws_written = []\<rparr>"
  let ?s1 = "\<lparr>ws_file = ?df 2, ws_bytes = [], ws_pending = [(0, [1, 2])], ws_written = []\<rparr>"
  let ?s2 = "\<lparr>ws_file = ?df 5, ws_bytes = [], ws_pending = [(2, [3, 4, 5]), (0, [1, 2])], ws_written = []\<rparr>"
  let ?s3 = "\<lparr>ws_file = ?df 5, ws_bytes = [0, 0, 3, 4, 5], ws_pending = [(0, [1, 2])], ws_written = [(2, [3, 4, 5])]\<rparr>"
  let ?s4 = "\<lparr>ws_file = ?df 5, ws_bytes = [1, 2, 3, 4, 5], ws_pending = [], ws_written = [(0, [1, 2]), (2, [3, 4, 5])]\<rparr>"
  have "df_step ?s0 ?s1"
    using df_step.reserve [of "[1, 2]" ?s0 0 "?df 2"] by (simp add: DataFile_reserve_def sz_add_def size_limit_def)
  moreover have "df_step ?s1 ?s2"
    using df_step.reserve [of "[3, 4, 5]" ?s1 2 "?df 5"] by (simp add: DataFile_reserve_def sz_add_def size_limit_def)
  moreover have "df_step ?s2 ?s3"
    using df_step.complete [of 2 "[3, 4, 5]" ?s2] by (simp add: pwrite_def memcpy_at_def numeral_2_eq_2)
  moreover have "df_step ?s3 ?s4"
    using df_step.complete [of 0 "[1, 2]" ?s3] by (simp add: pwrite_def memcpy_at_def)
  ultimately have r: "df_step\<^sup>*\<^sup>* ?s0 ?s4" by (meson converse_rtranclp_into_rtranclp rtranclp.rtrancl_refl)
  have "(2, [3, 4, 5]) \<in> set (ws_written ?s4)" by simp
  from concurrent_writes_intact [OF r this] r show ?thesis
    by (intro exI [of _ ?s4]) (simp add: numeral_3_eq_3)
qed

end
