(* ===== verification/Compactor.thy ===== *)
theory Compactor
  imports Data_File
begin

text \<open>
  Compaction (\<^verbatim>\<open>bitcask/include/compactor.h\<close>, \<^verbatim>\<open>compactor.cpp\<close>): the live records of a set of
  source files are copied into a new file and the key directory is redirected to the copies.
  The read buffer is the list of its unread bytes; how much a read may add is
  \<open>env_room\<close>. It is one buffer for all source files of a run, as in the code.
\<close>

definition kCompactionBufferSize :: nat where
  "kCompactionBufferSize = 4 * 1024 * 1024"

record CompactionContext =
  ctx_config :: BitcaskConfig
  ctx_partition_id :: nat
  ctx_dst_file_id :: u64
  ctx_src_file_ids :: "u64 list"

record 'w comp =
  cp_keydir :: KeyDir
  cp_dst :: DataFile
  cp_buffer :: bytes
  cp_reclaimed :: nat
  cp_copied :: nat
  cp_skipped :: nat
  cp_world :: 'w

definition diverges :: Error where
  "diverges = \<lparr>category = KApplication, error_val = Diverges\<rparr>"

text \<open>Undefined behaviour: a view of a key or value that runs past the read buffer.\<close>

definition out_of_bounds :: Error where
  "out_of_bounds = \<lparr>category = KApplication, error_val = Thrown ''out-of-bounds read''\<rparr>"

definition find_loc :: "KeyDir \<Rightarrow> bytes \<Rightarrow> ValueLocation option" where
  "find_loc kd key = map_of kd key"

text \<open>The directory entry that makes a record of the source file at an offset the live one.\<close>

definition is_live :: "KeyDir \<Rightarrow> bytes \<Rightarrow> u64 \<Rightarrow> nat \<Rightarrow> bool" where
  "is_live kd key src_id off \<longleftrightarrow>
     (case find_loc kd key of
        None \<Rightarrow> False
      | Some loc \<Rightarrow> loc_file_id loc = src_id \<and> loc_offset loc = off)"

text \<open>Copy one live record; the directory is changed only if it still names the old place.\<close>

definition copy_entry :: "'w env \<Rightarrow> CompactionContext \<Rightarrow> u64 \<Rightarrow> nat \<Rightarrow> bytes \<Rightarrow> bytes \<Rightarrow> u64 \<Rightarrow> ('w comp, unit) task" where
  "copy_entry E ctx src_id entry_start_offset key val timestamp s =
     (case DataFile_AsyncWrite E (ctx_config ctx) key val timestamp kFlagNone (cp_dst s, cp_world s) of
        (Inl e, (dst, w)) \<Rightarrow> (Inl e, s\<lparr>cp_dst := dst, cp_world := w\<rparr>)
      | (Inr new_offset, (dst, w)) \<Rightarrow>
          let s = s\<lparr>cp_dst := dst, cp_world := w\<rparr>;
              new_entry_size = trunc32 (kEntryFixedHeaderSize + length key + length val)
          in (Inr (),
              (if is_live (cp_keydir s) key src_id entry_start_offset
               then s\<lparr>cp_keydir := AList.update key
                      \<lparr>loc_file_id = ctx_dst_file_id ctx, loc_offset = new_offset,
                       loc_total_size = new_entry_size, loc_timestamp_ns = timestamp\<rparr> (cp_keydir s)\<rparr>
               else s)\<lparr>cp_copied := sz_add (cp_copied s) 1\<rparr>))"

function ProcessBufferEntries :: "'w env \<Rightarrow> CompactionContext \<Rightarrow> u64 \<Rightarrow> nat \<Rightarrow> ('w comp, unit) task" where
  "ProcessBufferEntries E ctx src_id file_offset_end s =
     (let span = cp_buffer s
      in if length span < kEntryFixedHeaderSize then (Inr (), s)
         else
           let key_len = unat (ReadLe 13 span :: u32);
               val_len = unat (ReadLe 17 span :: u32);
               entry_size = trunc32 (kEntryFixedHeaderSize + key_len + val_len)
           in if length span < entry_size then (Inr (), s)
              else if length span < kEntryFixedHeaderSize + key_len then (Inl out_of_bounds, s)
              else
                let key_view = subspan kEntryFixedHeaderSize key_len span;
                    entry_start_offset = sz_sub file_offset_end (length span)
                in if is_live (cp_keydir s) key_view src_id entry_start_offset then
                     if length span < kEntryFixedHeaderSize + key_len + val_len then (Inl out_of_bounds, s) else
                     let val_span = subspan (kEntryFixedHeaderSize + key_len) val_len span;
                         timestamp = ReadLe 4 span :: u64
                     in case copy_entry E ctx src_id entry_start_offset key_view val_span timestamp s of
                          (Inl e, s') \<Rightarrow> (Inl e, s')
                        | (Inr _, s') \<Rightarrow>
                            if entry_size = 0 then (Inl diverges, s')
                            else ProcessBufferEntries E ctx src_id file_offset_end (s'\<lparr>cp_buffer := drop entry_size span\<rparr>)
                   else if entry_size = 0 then (Inl diverges, s)
                   else
                     ProcessBufferEntries E ctx src_id file_offset_end
                       (s\<lparr>cp_reclaimed := sz_add (cp_reclaimed s) entry_size,
                          cp_skipped := sz_add (cp_skipped s) 1,
                          cp_buffer := drop entry_size span\<rparr>))"
  by pat_completeness auto
termination
  by (relation "measure (\<lambda>(E, ctx, src, pos, s). length (cp_buffer s))")
    (auto simp: kEntryFixedHeaderSize_def)

declare ProcessBufferEntries.simps [simp del]

definition partition_dir :: "BitcaskConfig \<Rightarrow> nat \<Rightarrow> path" where
  "partition_dir cfg pid =
     (let d = directory cfg
      in (if d = [] \<or> last d = CHR ''/'' then d else d @ ''/'') @ ''partition_'' @ to_chars (int pid))"

definition data_path :: "BitcaskConfig \<Rightarrow> nat \<Rightarrow> u64 \<Rightarrow> path" where
  "data_path cfg pid file_id = partition_dir cfg pid @ ''/data_'' @ to_chars (uint file_id) @ ''.db''"

definition hint_path :: "BitcaskConfig \<Rightarrow> nat \<Rightarrow> u64 \<Rightarrow> path" where
  "hint_path cfg pid file_id = partition_dir cfg pid @ ''/hint_'' @ to_chars (uint file_id) @ ''.ht''"

text \<open>The reading loop of one source file; every round reads at least one byte or stops.\<close>

function compact_read_loop :: "'w env \<Rightarrow> CompactionContext \<Rightarrow> u64 \<Rightarrow> int \<Rightarrow> nat \<Rightarrow> nat \<Rightarrow> ('w comp, unit) task" where
  "compact_read_loop E ctx src_id src_fd file_size file_offset s =
     (if file_size \<le> file_offset then (Inr (), s)
      else
        let bytes_to_read = min (env_room E (length (cp_buffer s)) (64 * 1024) (cp_world s)) (file_size - file_offset)
        in case env_read_at E src_fd bytes_to_read file_offset (cp_world s) of
             (Inl e, w) \<Rightarrow> (Inl e, s\<lparr>cp_world := w\<rparr>)
           | (Inr bs, w) \<Rightarrow>
               let s = s\<lparr>cp_world := w\<rparr>
               in if bs = [] then (Inr (), s)
                  else
                    let file_offset = file_offset + length bs
                    in case ProcessBufferEntries E ctx src_id file_offset (s\<lparr>cp_buffer := cp_buffer s @ bs\<rparr>) of
                         (Inl e, s') \<Rightarrow> (Inl e, s')
                       | (Inr _, s') \<Rightarrow> compact_read_loop E ctx src_id src_fd file_size file_offset s')"
  by pat_completeness auto
termination
  by (relation "measure (\<lambda>(E, ctx, src, fd, size, pos, s). size - pos)")
    (auto simp: neq_Nil_conv intro!: diff_less_mono2)

declare compact_read_loop.simps [simp del]

text \<open>The owning handle closes the source descriptor on every way out.\<close>

definition CompactSingleFile :: "'w env \<Rightarrow> CompactionContext \<Rightarrow> u64 \<Rightarrow> ('w comp, unit) task" where
  "CompactSingleFile E ctx src_id s =
     (case env_open E (data_path (ctx_config ctx) (ctx_partition_id ctx) src_id) (read_flags (ctx_config ctx))
             (file_mode (ctx_config ctx)) (cp_world s) of
        (Inl e, w) \<Rightarrow> (Inl e, s\<lparr>cp_world := w\<rparr>)
      | (Inr src_fd, w) \<Rightarrow>
          let s = s\<lparr>cp_world := w\<rparr>;
              (r, s) = (case env_fstat_size E src_fd w of
                          Inl e \<Rightarrow> (Inl e, s)
                        | Inr file_size \<Rightarrow> compact_read_loop E ctx src_id src_fd file_size 0 s)
          in (r, s\<lparr>cp_world := snd (FileHandle_CloseFd E src_fd (cp_world s))\<rparr>))"

fun compact_sources :: "'w env \<Rightarrow> CompactionContext \<Rightarrow> u64 list \<Rightarrow> ('w comp, unit) task" where
  "compact_sources E ctx [] s = (Inr (), s)"
| "compact_sources E ctx (src_id # rest) s =
     (case CompactSingleFile E ctx src_id s of
        (Inl e, s') \<Rightarrow>
          (case DataFile_AsyncClose E (cp_dst s', cp_world s') of
             (_, (dst, w)) \<Rightarrow> (Inl e, s'\<lparr>cp_dst := dst, cp_world := w\<rparr>))
      | (Inr _, s') \<Rightarrow> compact_sources E ctx rest s')"

text \<open>
  \<^verbatim>\<open>CompactFiles\<close>: on success the size and the number of records of the new file. The
  destination object is destroyed at the end, which closes what it still owns.
\<close>

definition CompactFiles ::
  "'w env \<Rightarrow> CompactionContext \<Rightarrow> KeyDir \<Rightarrow> PartitionStats \<Rightarrow> 'w \<Rightarrow> (Error + unit) \<times> KeyDir \<times> PartitionStats \<times> 'w" where
  "CompactFiles E ctx kd stats w =
     (let cfg = ctx_config ctx
      in case env_open E (data_path cfg (ctx_partition_id ctx) (ctx_dst_file_id ctx)) (write_flags cfg) (file_mode cfg) w of
           (Inl e, w) \<Rightarrow> (Inl e, kd, stats, w)
         | (Inr dst_fd, w) \<Rightarrow>
             (case mk_DataFile E dst_fd (ctx_dst_file_id ctx) w of
                Inl e \<Rightarrow> (Inl e, kd, stats, snd (FileHandle_CloseFd E dst_fd w))
              | Inr dst_file \<Rightarrow>
                  (case compact_sources E ctx (ctx_src_file_ids ctx)
                          \<lparr>cp_keydir = kd, cp_dst = dst_file, cp_buffer = [], cp_reclaimed = 0, cp_copied = 0,
                           cp_skipped = 0, cp_world = w\<rparr> of
                     (Inl e, s) \<Rightarrow>
                       (Inl e, cp_keydir s, stats, snd (FileHandle_CloseFd E (df_handle (cp_dst s)) (cp_world s)))
                   | (Inr _, s) \<Rightarrow>
                       let actual_size = df_size (cp_dst s);
                           (r, s') = co_try (\<lambda>s. case env_fsync E (df_handle (cp_dst s)) (cp_world s) of
                                                   (r, w) \<Rightarrow> (r, s\<lparr>cp_world := w\<rparr>))
                                      (\<lambda>_. co_try (\<lambda>s. case env_ftruncate E (df_handle (cp_dst s)) actual_size (cp_world s) of
                                                         (r, w) \<Rightarrow> (r, s\<lparr>cp_world := w\<rparr>))
                                      (\<lambda>_ s. case DataFile_AsyncClose E (cp_dst s, cp_world s) of
                                               (r, (dst, w)) \<Rightarrow> (r, s\<lparr>cp_dst := dst, cp_world := w\<rparr>))) s;
                           w' = snd (FileHandle_CloseFd E (df_handle (cp_dst s')) (cp_world s'))
                       in (case r of
                             Inl e \<Rightarrow> (Inl e, cp_keydir s', stats, w')
                           | Inr _ \<Rightarrow>
                               (Inr (), cp_keydir s',
                                set_file_stats (ctx_dst_file_id ctx)
                                  \<lparr>total_bytes = actual_size, live_bytes = actual_size, live_entries = cp_copied s'\<rparr> stats,
                                w')))))"

end
