(* ===== verification/Partition.thy ===== *)
theory Partition
  imports Compactor
begin

text \<open>
  One partition of the store (\<^verbatim>\<open>bitcask/include/partition.h\<close>, \<^verbatim>\<open>partition.cpp\<close>): the key directory,
  the active file, rotation, hint files, recovery, compaction and shutdown. The record holds
  the members of the class and the world its worker acts on. Every method is a task over
  that record; the clock readings it takes are arguments (\<open>ts\<close> in nanoseconds for records,
  \<open>now\<close> in seconds for file identifiers). The event objects of the class are booleans: posted
  or not. A method runs here without interruption; what can go wrong when others run at its
  suspension points is treated in \<open>Fd_Cache\<close> and \<open>Data_File\<close>.
\<close>

section \<open>State\<close>

record 'w Partition =
  p_keydir :: KeyDir
  p_active_file :: "DataFile option"
  p_fd_cache :: FDCache
  p_file_id_gen :: FileIdGenerator
  p_config :: BitcaskConfig
  p_partition_id :: nat
  p_stats :: PartitionStats
  p_compaction_trigger :: bool
  p_compaction_stop :: bool
  p_sync_job_stop :: bool
  p_shutting_down :: bool
  p_world :: 'w

definition mk_Partition :: "BitcaskConfig \<Rightarrow> nat \<Rightarrow> 'w \<Rightarrow> 'w Partition" where
  "mk_Partition config part_id w =
     \<lparr>p_keydir = [], p_active_file = None, p_fd_cache = mk_FDCache (max_open_sealed_files config),
      p_file_id_gen = mk_FileIdGenerator (of_nat part_id), p_config = config, p_partition_id = part_id,
      p_stats = zero_PartitionStats, p_compaction_trigger = False, p_compaction_stop = False,
      p_sync_job_stop = False, p_shutting_down = False, p_world = w\<rparr>"

definition assertion_failed :: Error where
  "assertion_failed = thrown ''assertion failed''"

text \<open>Tasks of the worker, of the active file and of the descriptor cache, run on the partition.\<close>

definition on_world :: "('w, 'a) task \<Rightarrow> ('w Partition, 'a) task" where
  "on_world m s = (case m (p_world s) of (r, w) \<Rightarrow> (r, s\<lparr>p_world := w\<rparr>))"

definition on_active :: "(DataFile \<times> 'w, 'a) task \<Rightarrow> ('w Partition, 'a) task" where
  "on_active m s =
     (case p_active_file s of
        None \<Rightarrow> (Inl assertion_failed, s)
      | Some df \<Rightarrow> (case m (df, p_world s) of (r, (df', w)) \<Rightarrow> (r, s\<lparr>p_active_file := Some df', p_world := w\<rparr>)))"

definition on_cache :: "(FDCache \<times> 'w, 'a) task \<Rightarrow> ('w Partition, 'a) task" where
  "on_cache m s =
     (case m (p_fd_cache s, p_world s) of (r, (c, w)) \<Rightarrow> (r, s\<lparr>p_fd_cache := c, p_world := w\<rparr>))"

definition upd_stats :: "(PartitionStats \<Rightarrow> PartitionStats) \<Rightarrow> 'w Partition \<Rightarrow> 'w Partition" where
  "upd_stats f s = s\<lparr>p_stats := f (p_stats s)\<rparr>"

definition GetDataFilePath :: "u64 \<Rightarrow> 'w Partition \<Rightarrow> path" where
  "GetDataFilePath file_id s = data_path (p_config s) (p_partition_id s) file_id"

definition GetHintFilePath :: "u64 \<Rightarrow> 'w Partition \<Rightarrow> path" where
  "GetHintFilePath file_id s = hint_path (p_config s) (p_partition_id s) file_id"

definition ActiveFileId :: "'w Partition \<Rightarrow> u64" where
  "ActiveFileId s = (case p_active_file s of None \<Rightarrow> 0 | Some df \<Rightarrow> df_file_id df)"

section \<open>Rotation and hint files\<close>

definition hints_of :: "u64 \<Rightarrow> KeyDir \<Rightarrow> HintEntry list" where
  "hints_of file_id kd =
     map (\<lambda>(key, loc). \<lparr>h_offset = of_nat (loc_offset loc), h_size = of_nat (loc_total_size loc),
                        h_timestamp_ns = loc_timestamp_ns loc, h_key = key\<rparr>)
       (filter (\<lambda>(key, loc). loc_file_id loc = file_id) kd)"

fun write_hints :: "'w env \<Rightarrow> int \<Rightarrow> HintEntry list \<Rightarrow> ('w, unit) task" where
  "write_hints E fd [] w = (Inr (), w)"
| "write_hints E fd (h # hs) w =
     co_try (env_write_exact E fd (HintEntry_Serialize h)) (\<lambda>_. write_hints E fd hs) w"

definition WriteHintFile :: "'w env \<Rightarrow> u64 \<Rightarrow> ('w Partition, unit) task" where
  "WriteHintFile E file_id s =
     co_try (on_world (env_open E (GetHintFilePath file_id s) (O_CREAT OR O_WRONLY OR O_TRUNC) (file_mode (p_config s))))
       (\<lambda>hint_fd. on_world (\<lambda>w.
          let hints = hints_of file_id (env_keydir_order E (p_keydir s));
              (r, w') = co_try (write_hints E hint_fd hints) (\<lambda>_. env_fsync E hint_fd) w
          in (r, snd (FileHandle_CloseFd E hint_fd w')))) s"

text \<open>
  The old active file object is destroyed by the assignment, which closes what it still
  owns; a constructor that throws has already taken the new descriptor and closes it.
\<close>

definition CreateAndSetActiveFile :: "'w env \<Rightarrow> u32 \<Rightarrow> ('w Partition, unit) task" where
  "CreateAndSetActiveFile E now s =
     (case FileIdGenerator_Next now (p_file_id_gen s) of
        (new_id, gen) \<Rightarrow>
          co_try (on_world (env_open E (GetDataFilePath new_id s) (write_flags (p_config s)) (file_mode (p_config s))))
            (\<lambda>new_fd s.
               case mk_DataFile E new_fd new_id (p_world s) of
                 Inl e \<Rightarrow> (Inl e, s\<lparr>p_world := snd (FileHandle_CloseFd E new_fd (p_world s))\<rparr>)
               | Inr df \<Rightarrow>
                   let w = (case p_active_file s of
                              None \<Rightarrow> p_world s
                            | Some old \<Rightarrow> snd (FileHandle_CloseFd E (df_handle old) (p_world s)));
                       w = snd (env_fallocate E new_fd 0 (max_file_size (p_config s)) w)
                   in (Inr (), upd_stats (set_file_stats new_id zero_FileStats)
                                 (s\<lparr>p_active_file := Some df, p_world := w\<rparr>)))
            (s\<lparr>p_file_id_gen := gen\<rparr>))"

definition RotateActiveFile :: "'w env \<Rightarrow> u32 \<Rightarrow> ('w Partition, unit) task" where
  "RotateActiveFile E now s =
     (case p_active_file s of
        None \<Rightarrow> (Inl assertion_failed, s)
      | Some active \<Rightarrow>
          co_try (on_world (env_fsync E (df_handle active)))
          (\<lambda>_. co_try (on_world (env_ftruncate E (df_handle active) (df_size active)))
          (\<lambda>_. co_try (WriteHintFile E (df_file_id active))
          (\<lambda>_. co_try (on_active (DataFile_AsyncClose E))
          (\<lambda>_. co_try (CreateAndSetActiveFile E now)
          (\<lambda>_ s. (Inr (), upd_stats (\<lambda>st. st\<lparr>file_rotations_total := sz_add (file_rotations_total st) 1\<rparr>) s)))))) s)"

section \<open>Put, Get, Del\<close>

definition release_stats :: "ValueLocation \<Rightarrow> PartitionStats \<Rightarrow> PartitionStats" where
  "release_stats old_loc st =
     upd_file_stats (loc_file_id old_loc)
       (\<lambda>f. f\<lparr>live_bytes := sz_sub (live_bytes f) (loc_total_size old_loc), live_entries := sz_sub (live_entries f) 1\<rparr>) st"

text \<open>The second half of \<^verbatim>\<open>Put\<close>, after the write: directory and statistics.\<close>

definition Put_index :: "bytes \<Rightarrow> nat \<Rightarrow> u64 \<Rightarrow> nat \<Rightarrow> ('w Partition, unit) task" where
  "Put_index key total_size ts offset s =
     (let new_loc = \<lparr>loc_file_id = ActiveFileId s, loc_offset = offset, loc_total_size = total_size, loc_timestamp_ns = ts\<rparr>;
          st = upd_file_stats (loc_file_id new_loc) (\<lambda>f. f) (p_stats s);
          st = (case find_loc (p_keydir s) key of None \<Rightarrow> st | Some old_loc \<Rightarrow> release_stats old_loc st);
          st = upd_file_stats (loc_file_id new_loc)
                 (\<lambda>f. f\<lparr>live_bytes := sz_add (live_bytes f) total_size, live_entries := sz_add (live_entries f) 1,
                        total_bytes := sz_add (total_bytes f) total_size\<rparr>) st
      in (Inr (), s\<lparr>p_keydir := AList.update key new_loc (p_keydir s),
                    p_stats := st\<lparr>puts_total := sz_add (puts_total st) 1\<rparr>\<rparr>))"

definition Put :: "'w env \<Rightarrow> bytes \<Rightarrow> bytes \<Rightarrow> u64 \<Rightarrow> u32 \<Rightarrow> ('w Partition, unit) task" where
  "Put E key val ts now s =
     (case p_active_file s of
        None \<Rightarrow> (Inl assertion_failed, s)
      | Some active \<Rightarrow>
          co_try (if DataFile_ShouldRotate (max_file_size (p_config s)) active then RotateActiveFile E now else co_return ())
          (\<lambda>_. co_try (on_active (DataFile_AsyncWrite E (p_config s) key val ts kFlagNone))
          (\<lambda>offset. Put_index key (trunc32 (kEntryFixedHeaderSize + length key + length val)) ts offset)) s)"

definition FindFd :: "'w env \<Rightarrow> u64 \<Rightarrow> ('w Partition, int) task" where
  "FindFd E file_id s =
     (case p_active_file s of
        None \<Rightarrow> (Inl assertion_failed, s)
      | Some active \<Rightarrow>
          if file_id = df_file_id active then (Inr (df_handle active), s)
          else on_cache (FDCache_GetOrOpen E file_id (GetDataFilePath file_id s)) s)"

definition AsyncReadEntry :: "'w env \<Rightarrow> int \<Rightarrow> nat \<Rightarrow> nat \<Rightarrow> ('w Partition, DataEntry) task" where
  "AsyncReadEntry E fd offset sz =
     co_try (on_world (env_read_exact_at E fd sz offset))
       (\<lambda>buffer s. (DataEntry_Deserialize (env_crc E) buffer, s))"

definition count_miss :: "'w Partition \<Rightarrow> 'w Partition" where
  "count_miss = upd_stats (\<lambda>st. st\<lparr>gets_miss_total := sz_add (gets_miss_total st) 1\<rparr>)"

definition Get :: "'w env \<Rightarrow> bytes \<Rightarrow> ('w Partition, bytes option) task" where
  "Get E key s =
     (case p_active_file s of
        None \<Rightarrow> (Inl assertion_failed, s)
      | Some _ \<Rightarrow>
          let s = upd_stats (\<lambda>st. st\<lparr>gets_total := sz_add (gets_total st) 1\<rparr>) s
          in case find_loc (p_keydir s) key of
               None \<Rightarrow> (Inr None, count_miss s)
             | Some loc \<Rightarrow>
                 co_try (FindFd E (loc_file_id loc))
                 (\<lambda>fd. co_try (AsyncReadEntry E fd (loc_offset loc) (loc_total_size loc))
                 (\<lambda>entry s.
                    if key_view entry \<noteq> key then (Inr None, count_miss s)
                    else if DataEntry_IsTombstone entry then (Inr None, count_miss s)
                    else (Inr (Some (value_view entry)), s))) s)"

definition ShouldCompactFile :: "u64 \<Rightarrow> 'w Partition \<Rightarrow> bool" where
  "ShouldCompactFile file_id s \<longleftrightarrow>
     (case map_of (data_files (p_stats s)) file_id of
        None \<Rightarrow> False
      | Some f \<Rightarrow> fragmentation_threshold (p_config s) \<le> Fragmentation f)"

definition SignalCompaction :: "u64 \<Rightarrow> 'w Partition \<Rightarrow> 'w Partition" where
  "SignalCompaction file_id s = (if ShouldCompactFile file_id s then s\<lparr>p_compaction_trigger := True\<rparr> else s)"

definition Del :: "'w env \<Rightarrow> bytes \<Rightarrow> u64 \<Rightarrow> ('w Partition, unit) task" where
  "Del E key ts s =
     (case p_active_file s of
        None \<Rightarrow> (Inl assertion_failed, s)
      | Some _ \<Rightarrow>
          let s = upd_stats (\<lambda>st. st\<lparr>deletes_total := sz_add (deletes_total st) 1\<rparr>) s
          in case find_loc (p_keydir s) key of
               None \<Rightarrow> (Inr (), s)
             | Some loc \<Rightarrow>
                 let s = upd_stats (release_stats loc) s;
                     old_file_id = loc_file_id loc;
                     s = s\<lparr>p_keydir := AList.delete key (p_keydir s)\<rparr>;
                     tombstone = mk_DataEntry (env_crc E) key [] kFlagTombstone ts
                 in co_try (on_active (DataFile_AsyncWriteEntry E (p_config s) tombstone))
                    (\<lambda>_ s.
                       let s = upd_stats (upd_file_stats (ActiveFileId s)
                                 (\<lambda>f. f\<lparr>total_bytes := sz_add (total_bytes f) (DataEntry_Size tombstone)\<rparr>)) s
                       in (Inr (), if ShouldCompactFile old_file_id s then SignalCompaction old_file_id s else s)) s)"

definition Partition_Sync :: "'w env \<Rightarrow> ('w Partition, unit) task" where
  "Partition_Sync E s =
     (case p_active_file s of
        None \<Rightarrow> (Inr (), s)
      | Some active \<Rightarrow> co_try (on_world (env_fsync E (df_handle active))) (\<lambda>_ s. (Inr (), s)) s)"

end
