(* ===== verification/Partition_Store.thy ===== *)
theory Partition_Store
  imports Partition
begin

text \<open>
  What a partition promises: it is a map from keys to values. The view of a partition is
  read off the key directory and the contents of the data files; the invariant says that
  every directory entry points at an intact record, that later writes cannot reach it, and
  that the descriptors the partition holds refer to the files they should.
\<close>

section \<open>Names of files\<close>

lemma nat_digits_inject [simp]: "nat_digits a = nat_digits b \<longleftrightarrow> a = b"
  by (metis digits_val_nat_digits)

lemma to_chars_inject: "0 \<le> i \<Longrightarrow> 0 \<le> j \<Longrightarrow> to_chars i = to_chars j \<longleftrightarrow> i = j"
  by (simp add: to_chars_def eq_nat_nat_iff)

lemma data_path_inject [simp]: "data_path cfg pid i = data_path cfg pid j \<longleftrightarrow> i = j"
  by (simp add: data_path_def to_chars_inject word_uint_eq_iff)

lemma hint_path_not_data [simp]: "hint_path cfg pid i \<noteq> data_path cfg pid j" "data_path cfg pid j \<noteq> hint_path cfg pid i"
  by (simp_all add: data_path_def hint_path_def)

section \<open>Descriptors held by the cache\<close>

definition cache_opens :: "(int \<Rightarrow> path option) \<Rightarrow> (u64 \<Rightarrow> path) \<Rightarrow> FDCache \<Rightarrow> bool" where
  "cache_opens fds name c \<longleftrightarrow> (\<forall>i e. map_of (fdc_cache c) i = Some e \<longrightarrow> 0 \<le> ce_handle e \<and> fds (ce_handle e) = Some (name i))"

definition cached :: "FDCache \<Rightarrow> u64 \<Rightarrow> bool" where
  "cached c i \<longleftrightarrow> map_of (fdc_cache c) i \<noteq> None"

lemma cache_opensD:
  "cache_opens fds name c \<Longrightarrow> map_of (fdc_cache c) i = Some e \<Longrightarrow> 0 \<le> ce_handle e \<and> fds (ce_handle e) = Some (name i)"
  by (simp add: cache_opens_def)

lemma cache_opens_handles:
  assumes "cache_opens fds name c" and "\<And>i. map_option ce_handle (map_of (fdc_cache c') i) = map_option ce_handle (map_of (fdc_cache c) i)"
  shows "cache_opens fds name c'"
  unfolding cache_opens_def
proof (intro allI impI)
  fix i e
  assume "map_of (fdc_cache c') i = Some e"
  then obtain e' where "map_of (fdc_cache c) i = Some e'" "ce_handle e' = ce_handle e"
    using assms(2) [of i] by (auto simp: map_option_case split: option.splits)
  with cache_opensD [OF assms(1)] show "0 \<le> ce_handle e \<and> fds (ce_handle e) = Some (name i)" by metis
qed

lemma Touch_cached [simp]: "cached (FDCache_Touch j c) i = cached c i"
  by (auto simp: cached_def FDCache_Touch_def lru_erase_def lru_push_front_def Let_def update_conv' split: option.splits)

context posix_env
begin

text \<open>An entry leaves the cache and its descriptor is closed: the others are not affected.\<close>

lemma cache_opens_close:
  assumes ok: "cache_opens (opened w) name c" and inj: "inj name" and e: "map_of (fdc_cache c) i = Some e"
    and cache: "map_of (fdc_cache c') = (map_of (fdc_cache c))(i := None)"
    and w': "w' = snd (FileHandle_CloseFd E (ce_handle e) w)"
  shows "cache_opens (opened w') name c'" and "content w' = content w"
    and "opened w g \<noteq> Some (name i) \<Longrightarrow> opened w' g = opened w g"
proof -
  have e': "0 \<le> ce_handle e" "opened w (ce_handle e) = Some (name i)" using cache_opensD [OF ok e] by auto
  then have w: "w' = env_sysclose E (ce_handle e) w" using w' by (simp add: FileHandle_CloseFd_def)
  show "content w' = content w" using sysclose_any [of "ce_handle e" w] by (simp add: w)
  have o: "opened w' = (opened w)(ce_handle e := None)" using sysclose_any [of "ce_handle e" w] by (simp add: w)
  show "opened w g \<noteq> Some (name i) \<Longrightarrow> opened w' g = opened w g" using e' by (auto simp: o)
  show "cache_opens (opened w') name c'"
    unfolding cache_opens_def
  proof (intro allI impI)
    fix j d
    assume "map_of (fdc_cache c') j = Some d"
    then have j: "j \<noteq> i" "map_of (fdc_cache c) j = Some d" by (auto simp: cache split: if_splits)
    note d = cache_opensD [OF ok j(2)]
    have "name j \<noteq> name i" using inj j(1) by (simp add: inj_eq)
    with d e' have "ce_handle d \<noteq> ce_handle e" by auto
    with d show "0 \<le> ce_handle d \<and> opened w' (ce_handle d) = Some (name j)" by (simp add: o)
  qed
qed

lemma Evict_opens:
  assumes ok: "cache_opens (opened w) name c" and inj: "inj name" and ev: "FDCache_EvictOldest E (c, w) = (c', w')"
  shows "cache_opens (opened w') name c' \<and> content w' = content w \<and>
    (\<forall>g q. opened w g = Some q \<longrightarrow> (\<forall>i. cached c i \<longrightarrow> q \<noteq> name i) \<longrightarrow> opened w' g = Some q) \<and>
    (\<forall>i. cached c' i \<longrightarrow> cached c i)"
proof (cases "lru_list c = []")
  case True
  with ev ok show ?thesis by (simp add: FDCache_EvictOldest_def)
next
  case False
  let ?i = "snd (last (lru_list c))"
  have c': "map_of (fdc_cache c') = (map_of (fdc_cache c))(?i := None)"
    using ev False by (auto simp: FDCache_EvictOldest_def Let_def delete_conv')
  show ?thesis
  proof (cases "map_of (fdc_cache c) ?i")
    case None
    then have "w' = w" "map_of (fdc_cache c') = map_of (fdc_cache c)"
      using ev False c' by (auto simp: FDCache_EvictOldest_def Let_def)
    with ok show ?thesis by (simp add: cache_opens_def cached_def)
  next
    case (Some e)
    then have "w' = snd (FileHandle_CloseFd E (ce_handle e) w)"
      using ev False by (auto simp: FDCache_EvictOldest_def Let_def)
    note k = cache_opens_close [OF ok inj Some c' this]
    have "opened w' g = Some q" if "opened w g = Some q" "\<forall>i. cached c i \<longrightarrow> q \<noteq> name i" for g q
      using k(3) [of g] that Some by (auto simp: cached_def)
    with k(1,2) show ?thesis by (auto simp: cached_def c' split: if_splits)
  qed
qed

text \<open>
  \<^verbatim>\<open>GetOrOpen\<close>: the descriptor it returns is open on the file asked for, the cache still holds
  open descriptors only, and descriptors of other files are left alone.
\<close>

lemma GetOrOpen_opens:
  assumes ok: "cache_opens (opened w) name c" and inj: "inj name"
    and go: "FDCache_GetOrOpen E i (name i) (c, w) = (r, (c', w'))" and ex: "content w (name i) \<noteq> None"
  shows "cache_opens (opened w') name c'" and "content w' = content w"
    and "opened w g = Some q \<Longrightarrow> (\<And>j. cached c j \<Longrightarrow> q \<noteq> name j) \<Longrightarrow> opened w' g = Some q"
    and "r = Inr fd \<Longrightarrow> opened w' fd = Some (name i)"
    and "cached c' j \<Longrightarrow> j = i \<or> cached c j"
proof -
  have "cache_opens (opened w') name c' \<and> content w' = content w \<and>
    (\<forall>g q. opened w g = Some q \<longrightarrow> (\<forall>j. cached c j \<longrightarrow> q \<noteq> name j) \<longrightarrow> opened w' g = Some q) \<and>
    (\<forall>fd. r = Inr fd \<longrightarrow> opened w' fd = Some (name i)) \<and> (\<forall>j. cached c' j \<longrightarrow> j = i \<or> cached c j)"
  proof (cases "map_of (fdc_cache c) i")
    case (Some e)
    let ?c = "c\<lparr>fdc_hits := sz_add (fdc_hits c) 1\<rparr>"
    from go Some have r: "r = Inr (ce_handle e)" "c' = FDCache_Touch i ?c" "w' = w"
      by (auto simp: FDCache_GetOrOpen_def GetOrOpen_begin_def)
    have "cache_opens (opened w) name c'"
      by (rule cache_opens_handles [OF ok]) (simp add: r Touch_simps)
    moreover have "opened w (ce_handle e) = Some (name i)" using cache_opensD [OF ok Some] by simp
    moreover have "cached c' j = cached c j" for j by (simp add: r) (simp add: cached_def)
    ultimately show ?thesis using r by simp
  next
    case None
    let ?c = "c\<lparr>fdc_misses := sz_add (fdc_misses c) 1\<rparr>"
    obtain c1 w1 where cw: "(c1, w1) = (if max_open_files ?c \<le> FDCache_Size ?c then FDCache_EvictOldest E (?c, w) else (?c, w))"
      by (metis surj_pair)
    have b: "GetOrOpen_begin E i (c, w) = (None, (c1, w1))"
      using None by (simp only: GetOrOpen_begin_def Let_def prod.case option.case cw)
    have c0: "cache_opens (opened w) name ?c" using ok by (simp add: cache_opens_def)
    have k: "cache_opens (opened w1) name c1 \<and> content w1 = content w \<and>
      (\<forall>g q. opened w g = Some q \<longrightarrow> (\<forall>j. cached c j \<longrightarrow> q \<noteq> name j) \<longrightarrow> opened w1 g = Some q) \<and> (\<forall>j. cached c1 j \<longrightarrow> cached c j)"
    proof (cases "max_open_files ?c \<le> FDCache_Size ?c")
      case True
      with cw have "FDCache_EvictOldest E (?c, w) = (c1, w1)" by simp
      from Evict_opens [OF c0 inj this] show ?thesis by (simp add: cached_def)
    next
      case False
      with cw have "c1 = ?c" "w1 = w" by simp_all
      with c0 show ?thesis by (simp add: cached_def)
    qed
    obtain q w2 where o: "env_open E (name i) O_RDONLY 0 w1 = (q, w2)" by (metis surj_pair)
    show ?thesis
    proof (cases q)
      case (Inl x)
      with go b o have "r = Inl x" "c' = c1" "w' = w2" by (auto simp: FDCache_GetOrOpen_def)
      with open_fail [OF o [unfolded Inl]] k show ?thesis by auto
    next
      case (Inr fd)
      note op = open_ok [OF o [unfolded Inr]]
      from go b o Inr have r: "r = Inr fd" and fin: "GetOrOpen_finish E i (name i) fd (c1, w2) = (c', w')"
        by (auto simp: FDCache_GetOrOpen_def)
      have none: "map_of (fdc_cache c1) i = None" using k None by (auto simp: cached_def)
      have c': "map_of (fdc_cache c') = (map_of (fdc_cache c1))(i \<mapsto> \<lparr>ce_handle = fd, ce_path = name i, ce_lru_iter = lru_fresh c1\<rparr>)"
        and w': "w' = w2"
        using fin none by (auto simp: GetOrOpen_finish_def lru_push_front_def Let_def update_conv')
      have "content w2 = content w1" using op ex k by (auto simp: O_RDONLY_def fun_eq_iff)
      moreover have "opened w2 g = opened w1 g" if "opened w1 g \<noteq> None" for g using op that by auto
      ultimately show ?thesis
        using k op by (auto simp: r c' w' cache_opens_def cached_def split: if_splits)
    qed
  qed
  then show "cache_opens (opened w') name c'" "content w' = content w"
    "opened w g = Some q \<Longrightarrow> (\<And>j. cached c j \<Longrightarrow> q \<noteq> name j) \<Longrightarrow> opened w' g = Some q"
    "r = Inr fd \<Longrightarrow> opened w' fd = Some (name i)" "cached c' j \<Longrightarrow> j = i \<or> cached c j" by blast+
qed

end

section \<open>The view and the invariant\<close>

text \<open>The record a directory entry points at, in the files \<open>files\<close>.\<close>

definition holds_entry :: "(bytes \<Rightarrow> u32) \<Rightarrow> (path \<Rightarrow> bytes option) \<Rightarrow> path \<Rightarrow> ValueLocation \<Rightarrow> bytes \<Rightarrow> bytes \<Rightarrow> bool" where
  "holds_entry crc files p loc key val \<longleftrightarrow>
     (\<exists>c. files p = Some c \<and> loc_offset loc + loc_total_size loc \<le> length c \<and>
        loc_total_size loc = 21 + length key + length val \<and> loc_total_size loc < 2 ^ 32 \<and>
        subspan (loc_offset loc) (loc_total_size loc) c = entry_image crc key val kFlagNone (loc_timestamp_ns loc))"

definition loc_path :: "'w Partition \<Rightarrow> ValueLocation \<Rightarrow> path" where
  "loc_path s loc = data_path (p_config s) (p_partition_id s) (loc_file_id loc)"

definition store_view :: "(path \<Rightarrow> bytes option) \<Rightarrow> 'w Partition \<Rightarrow> bytes \<Rightarrow> bytes option" where
  "store_view files s key =
     (case find_loc (p_keydir s) key of
        None \<Rightarrow> None
      | Some loc \<Rightarrow>
          map_option (\<lambda>c. drop (kEntryFixedHeaderSize + length key) (subspan (loc_offset loc) (loc_total_size loc) c))
            (files (loc_path s loc)))"

text \<open>
  \<open>sound_dir\<close>: every directory entry points at an intact live record, in a file whose
  identifier the generator has already handed out.
\<close>

definition sound_dir :: "(bytes \<Rightarrow> u32) \<Rightarrow> (path \<Rightarrow> bytes option) \<Rightarrow> 'w Partition \<Rightarrow> bool" where
  "sound_dir crc files s \<longleftrightarrow>
     (\<forall>key loc. find_loc (p_keydir s) key = Some loc \<longrightarrow>
        loc_file_id loc \<le> gen_current (p_file_id_gen s) \<and> (\<exists>val. holds_entry crc files (loc_path s loc) loc key val))"

text \<open>
  \<open>sound_fds\<close>: the active file is open, its directory entries lie below its write
  position, and the cached descriptors are open on files other than the active one.
\<close>

definition sound_fds :: "(path \<Rightarrow> bytes option) \<Rightarrow> (int \<Rightarrow> path option) \<Rightarrow> 'w Partition \<Rightarrow> bool" where
  "sound_fds files fds s \<longleftrightarrow>
     (\<exists>df. p_active_file s = Some df \<and> 0 \<le> df_handle df \<and> fds (df_handle df) = Some (GetDataFilePath (df_file_id df) s) \<and>
        files (GetDataFilePath (df_file_id df) s) \<noteq> None \<and> df_file_id df \<le> gen_current (p_file_id_gen s) \<and>
        (\<forall>key loc. find_loc (p_keydir s) key = Some loc \<and> loc_file_id loc = df_file_id df \<longrightarrow>
           loc_offset loc + loc_total_size loc \<le> df_size df) \<and>
        \<not> cached (p_fd_cache s) (df_file_id df)) \<and>
     (\<forall>i. cached (p_fd_cache s) i \<longrightarrow> i \<le> gen_current (p_file_id_gen s)) \<and>
     cache_opens fds (\<lambda>i. GetDataFilePath i s) (p_fd_cache s)"

text \<open>The active file has room below the 64-bit offset range for one more record.\<close>

definition has_room :: "'w Partition \<Rightarrow> nat \<Rightarrow> bool" where
  "has_room s n \<longleftrightarrow> (\<forall>df. p_active_file s = Some df \<longrightarrow> df_size df + n < size_limit)"

lemma holds_entry_value:
  assumes "holds_entry crc files p loc key val" and "files p = Some c"
  shows "drop (kEntryFixedHeaderSize + length key) (subspan (loc_offset loc) (loc_total_size loc) c) = val"
proof -
  have "drop (21 + length key) (entry_image crc key val kFlagNone ts) = val" for ts
    by (simp add: entry_image_def entry_body_def)
  with assms show ?thesis by (auto simp: holds_entry_def kEntryFixedHeaderSize_def)
qed

lemma store_view_entry:
  assumes "find_loc (p_keydir s) key = Some loc" and "holds_entry crc files (loc_path s loc) loc key val"
  shows "store_view files s key = Some val"
proof -
  obtain c where c: "files (loc_path s loc) = Some c" using assms(2) by (auto simp: holds_entry_def)
  with assms holds_entry_value [OF assms(2) c] show ?thesis by (simp add: store_view_def)
qed

lemma sound_dirD:
  assumes "sound_dir crc files s" and "find_loc (p_keydir s) key = Some loc"
  obtains val where "holds_entry crc files (loc_path s loc) loc key val" "store_view files s key = Some val"
    "loc_file_id loc \<le> gen_current (p_file_id_gen s)"
  using assms store_view_entry [OF assms(2)] unfolding sound_dir_def by blast

text \<open>A change of files that leaves the records in place changes neither the view nor soundness.\<close>

lemma sound_dir_frame:
  assumes ok: "sound_dir crc files s"
    and kd: "p_keydir s' = p_keydir s" "p_config s' = p_config s" "p_partition_id s' = p_partition_id s"
    and gen: "gen_current (p_file_id_gen s) \<le> gen_current (p_file_id_gen s')"
    and keep: "\<And>key loc val. find_loc (p_keydir s) key = Some loc \<Longrightarrow> holds_entry crc files (loc_path s loc) loc key val \<Longrightarrow>
      holds_entry crc files' (loc_path s loc) loc key val"
  shows "sound_dir crc files' s'" and "store_view files' s' = store_view files s"
proof -
  have p: "loc_path s' = loc_path s" by (simp add: loc_path_def kd fun_eq_iff)
  show "sound_dir crc files' s'"
    unfolding sound_dir_def kd p
  proof (intro allI impI)
    fix key loc
    assume l: "find_loc (p_keydir s) key = Some loc"
    obtain val where "holds_entry crc files (loc_path s loc) loc key val" "loc_file_id loc \<le> gen_current (p_file_id_gen s)"
      by (rule sound_dirD [OF ok l])
    with keep [OF l] gen show "loc_file_id loc \<le> gen_current (p_file_id_gen s') \<and>
        (\<exists>val. holds_entry crc files' (loc_path s loc) loc key val)" by (meson order_trans)
  qed
  show "store_view files' s' = store_view files s"
  proof
    fix key
    show "store_view files' s' key = store_view files s key"
    proof (cases "find_loc (p_keydir s) key")
      case None
      then show ?thesis by (simp add: store_view_def kd)
    next
      case (Some loc)
      obtain val where v: "holds_entry crc files (loc_path s loc) loc key val" "store_view files s key = Some val"
        by (rule sound_dirD [OF ok Some])
      from keep [OF Some v(1)] have "store_view files' s' key = Some val"
        using Some by (intro store_view_entry [of s' key loc]) (simp_all add: kd p)
      with v show ?thesis by simp
    qed
  qed
qed

text \<open>Two changes that leave a record in place: another file, or bytes outside the record.\<close>

lemma holds_entry_other: "files' p = files p \<Longrightarrow> holds_entry crc files p loc key val \<Longrightarrow> holds_entry crc files' p loc key val"
  by (simp add: holds_entry_def)

lemma holds_entry_pwrite:
  assumes "holds_entry crc files p loc key val" and "files p = Some c" and "files' p = Some (pwrite off bs c)"
    and "loc_offset loc + loc_total_size loc \<le> off"
  shows "holds_entry crc files' p loc key val"
  using assms subspan_pwrite_other [of "loc_offset loc" "loc_total_size loc" c off bs] length_pwrite_ge [of c off bs]
  by (auto simp: holds_entry_def)

lemma holds_entry_resize:
  assumes "holds_entry crc files p loc key val" and "files p = Some c" and "files' p = Some (resize n c)"
    and "loc_offset loc + loc_total_size loc \<le> n"
  shows "holds_entry crc files' p loc key val"
  using assms subspan_resize [of "loc_offset loc" "loc_total_size loc" n c]
  by (auto simp: holds_entry_def resize_def)

section \<open>The invariant of a partition\<close>

definition partition_ok :: "'w env \<Rightarrow> ('w \<Rightarrow> path \<Rightarrow> bytes option) \<Rightarrow> ('w \<Rightarrow> int \<Rightarrow> path option) \<Rightarrow> 'w Partition \<Rightarrow> bool" where
  "partition_ok E content opened s \<longleftrightarrow>
     sound_dir (env_crc E) (content (p_world s)) s \<and> sound_fds (content (p_world s)) (opened (p_world s)) s"

definition partition_view :: "('w \<Rightarrow> path \<Rightarrow> bytes option) \<Rightarrow> 'w Partition \<Rightarrow> bytes \<Rightarrow> bytes option" where
  "partition_view content s = store_view (content (p_world s)) s"

definition same_core :: "'w Partition \<Rightarrow> 'w Partition \<Rightarrow> bool" where
  "same_core s s' \<longleftrightarrow> p_keydir s' = p_keydir s \<and> p_config s' = p_config s \<and> p_partition_id s' = p_partition_id s \<and>
     p_file_id_gen s' = p_file_id_gen s"

lemma partition_view_same:
  assumes "same_core s s'" and "content (p_world s') = content (p_world s)"
  shows "partition_view content s' = partition_view content s"
proof
  fix key
  show "partition_view content s' key = partition_view content s key"
    using assms by (auto simp: partition_view_def store_view_def same_core_def loc_path_def split: option.splits)
qed

lemma upd_stats_core [simp]:
  "p_keydir (upd_stats f s) = p_keydir s" "p_active_file (upd_stats f s) = p_active_file s"
  "p_fd_cache (upd_stats f s) = p_fd_cache s" "p_file_id_gen (upd_stats f s) = p_file_id_gen s"
  "p_config (upd_stats f s) = p_config s" "p_partition_id (upd_stats f s) = p_partition_id s"
  "p_world (upd_stats f s) = p_world s"
  by (simp_all add: upd_stats_def)

lemma count_miss_core [simp]:
  "p_keydir (count_miss s) = p_keydir s" "p_active_file (count_miss s) = p_active_file s"
  "p_fd_cache (count_miss s) = p_fd_cache s" "p_file_id_gen (count_miss s) = p_file_id_gen s"
  "p_config (count_miss s) = p_config s" "p_partition_id (count_miss s) = p_partition_id s"
  "p_world (count_miss s) = p_world s"
  by (simp_all add: count_miss_def)

lemma partition_ok_cong:
  assumes "p_keydir s' = p_keydir s" "p_active_file s' = p_active_file s" "p_fd_cache s' = p_fd_cache s"
    "p_file_id_gen s' = p_file_id_gen s" "p_config s' = p_config s" "p_partition_id s' = p_partition_id s"
    "content (p_world s') = content (p_world s)" "opened (p_world s') = opened (p_world s)"
  shows "partition_ok E content opened s' = partition_ok E content opened s"
    and "partition_view content s' = partition_view content s"
proof -
  have "loc_path s' = loc_path s" "\<And>i. GetDataFilePath i s' = GetDataFilePath i s"
    by (simp_all add: loc_path_def GetDataFilePath_def assms fun_eq_iff)
  then show "partition_ok E content opened s' = partition_ok E content opened s"
    "partition_view content s' = partition_view content s"
    using partition_view_same [of s s' content]
    by (simp_all add: partition_ok_def sound_dir_def sound_fds_def same_core_def assms)
qed

lemma partition_ok_active:
  assumes "partition_ok E content opened s"
  obtains df c where "p_active_file s = Some df" "0 \<le> df_handle df"
    "opened (p_world s) (df_handle df) = Some (GetDataFilePath (df_file_id df) s)"
    "content (p_world s) (GetDataFilePath (df_file_id df) s) = Some c" "df_file_id df \<le> gen_current (p_file_id_gen s)"
    "\<And>key loc. find_loc (p_keydir s) key = Some loc \<Longrightarrow> loc_file_id loc = df_file_id df \<Longrightarrow>
       loc_offset loc + loc_total_size loc \<le> df_size df"
    "\<not> cached (p_fd_cache s) (df_file_id df)"
  using assms unfolding partition_ok_def sound_fds_def by (metis not_None_eq)

lemma on_worldE:
  assumes "on_world m s = (r, s')"
  obtains w where "m (p_world s) = (r, w)" "s' = s\<lparr>p_world := w\<rparr>"
  using assms by (auto simp: on_world_def split: prod.splits)

lemma on_activeE:
  assumes "on_active m s = (r, s')" and "p_active_file s = Some df"
  obtains df' w where "m (df, p_world s) = (r, (df', w))" "s' = s\<lparr>p_active_file := Some df', p_world := w\<rparr>"
  using assms by (auto simp: on_active_def split: prod.splits)

lemma on_cacheE:
  assumes "on_cache m s = (r, s')"
  obtains c w where "m (p_fd_cache s, p_world s) = (r, (c, w))" "s' = s\<lparr>p_fd_cache := c, p_world := w\<rparr>"
  using assms by (auto simp: on_cache_def split: prod.splits)

lemma co_try_cases:
  assumes "co_try m k s = (r, t)"
  obtains (fail) e where "m s = (Inl e, t)" "r = Inl e"
  | (ok) x s' where "m s = (Inr x, s')" "k x s' = (r, t)"
  using assms by (auto simp: co_try_def split: prod.splits sum.splits)

section \<open>Get\<close>

context posix_env
begin

lemma FindFd_any:
  assumes inv: "partition_ok E content opened s" and l: "find_loc (p_keydir s) key = Some loc"
    and f: "FindFd E (loc_file_id loc) s = (r, s')"
  shows "partition_ok E content opened s'" and "content (p_world s') = content (p_world s)" and "same_core s s'"
    and "r = Inr fd \<Longrightarrow> opened (p_world s') fd = Some (loc_path s loc)"
proof -
  obtain df c where a: "p_active_file s = Some df" "opened (p_world s) (df_handle df) = Some (GetDataFilePath (df_file_id df) s)"
    "\<not> cached (p_fd_cache s) (df_file_id df)"
    by (rule partition_ok_active [OF inv])
  have "partition_ok E content opened s' \<and> content (p_world s') = content (p_world s) \<and> same_core s s' \<and>
    (\<forall>fd. r = Inr fd \<longrightarrow> opened (p_world s') fd = Some (loc_path s loc))"
  proof (cases "loc_file_id loc = df_file_id df")
    case True
    with f a have "s' = s" "r = Inr (df_handle df)" by (auto simp: FindFd_def)
    with inv a True show ?thesis by (simp add: same_core_def loc_path_def GetDataFilePath_def)
  next
    case False
    let ?name = "\<lambda>i. GetDataFilePath i s"
    have inj: "inj ?name" by (rule injI) (simp add: GetDataFilePath_def)
    from False f a have "on_cache (FDCache_GetOrOpen E (loc_file_id loc) (?name (loc_file_id loc))) s = (r, s')"
      by (auto simp: FindFd_def)
    then obtain c' w where go: "FDCache_GetOrOpen E (loc_file_id loc) (?name (loc_file_id loc)) (p_fd_cache s, p_world s) = (r, (c', w))"
      and s': "s' = s\<lparr>p_fd_cache := c', p_world := w\<rparr>" by (rule on_cacheE)
    obtain val where v: "holds_entry (env_crc E) (content (p_world s)) (loc_path s loc) loc key val" "loc_file_id loc \<le> gen_current (p_file_id_gen s)"
      using inv sound_dirD [OF _ l] unfolding partition_ok_def by blast
    have ex: "content (p_world s) (?name (loc_file_id loc)) \<noteq> None"
      using v by (auto simp: holds_entry_def loc_path_def GetDataFilePath_def)
    have ok: "cache_opens (opened (p_world s)) ?name (p_fd_cache s)" using inv by (simp add: partition_ok_def sound_fds_def)
    note g = GetOrOpen_opens [OF ok inj go ex]
    have act: "opened w (df_handle df) = Some (?name (df_file_id df))"
      using a by (intro g(3)) (auto simp: GetDataFilePath_def)
    have nc: "\<not> cached c' (df_file_id df)" using g(5) [of "df_file_id df"] a(3) False by auto
    have n: "GetDataFilePath i s' = GetDataFilePath i s" for i by (simp add: s' GetDataFilePath_def)
    have fds: "sound_fds (content (p_world s)) (opened (p_world s)) s" using inv by (simp add: partition_ok_def)
    have "sound_fds (content w) (opened w) s'"
      unfolding sound_fds_def n
      using fds g(1) act nc g(5) v(2) a(1) by (auto simp: sound_fds_def s' g(2))
    moreover have "sound_dir (env_crc E) (content w) s'"
      using inv g(2) by (auto simp: partition_ok_def sound_dir_def s' loc_path_def)
    ultimately show ?thesis
      using g(2,4) by (simp add: partition_ok_def s' same_core_def loc_path_def GetDataFilePath_def)
  qed
  then show "partition_ok E content opened s'" "content (p_world s') = content (p_world s)" "same_core s s'"
    "r = Inr fd \<Longrightarrow> opened (p_world s') fd = Some (loc_path s loc)" by blast+
qed

lemma AsyncReadEntry_any:
  assumes r: "AsyncReadEntry E fd (loc_offset loc) (loc_total_size loc) s = (r, s')"
    and fd: "opened (p_world s) fd = Some p" and h: "holds_entry (env_crc E) (content (p_world s)) p loc key val"
  shows "\<exists>w. s' = s\<lparr>p_world := w\<rparr> \<and> content w = content (p_world s) \<and> opened w = opened (p_world s)"
    and "r = Inr e \<Longrightarrow> key_view e = key \<and> value_view e = val \<and> \<not> DataEntry_IsTombstone e"
proof -
  obtain q w where q: "env_read_exact_at E fd (loc_total_size loc) (loc_offset loc) (p_world s) = (q, w)" by (metis surj_pair)
  note rd = read_exact_at_any [OF q]
  have s': "s' = s\<lparr>p_world := w\<rparr>" and r': "r = (case q of Inl x \<Rightarrow> Inl x | Inr b \<Rightarrow> DataEntry_Deserialize (env_crc E) b)"
    using r q by (auto simp: AsyncReadEntry_def co_try_def on_world_def split: sum.splits)
  show "\<exists>w. s' = s\<lparr>p_world := w\<rparr> \<and> content w = content (p_world s) \<and> opened w = opened (p_world s)" using s' rd by auto
  obtain c where c: "content (p_world s) p = Some c" and len: "length key < 2 ^ 32" "length val < 2 ^ 32"
    and img: "subspan (loc_offset loc) (loc_total_size loc) c = entry_image (env_crc E) key val kFlagNone (loc_timestamp_ns loc)"
    using h by (auto simp: holds_entry_def)
  assume "r = Inr e"
  then obtain b where b: "q = Inr b" and de: "DataEntry_Deserialize (env_crc E) b = Inr e"
    using r' by (auto split: sum.splits)
  have "b = entry_image (env_crc E) key val kFlagNone (loc_timestamp_ns loc) @ []"
    using rd b fd c img by simp
  then have "e = mk_DataEntry (env_crc E) key val kFlagNone (loc_timestamp_ns loc)"
    using de by (simp only: DataEntry_Deserialize_image [OF len]) simp
  then show "key_view e = key \<and> value_view e = val \<and> \<not> DataEntry_IsTombstone e"
    using len by (simp add: DataEntry_views DataEntry_IsTombstone_def DataEntry_fields kFlagNone_def)
qed

lemma Get_any:
  assumes inv: "partition_ok E content opened s" and g: "Get E key s = (r, s')"
  shows "partition_ok E content opened s' \<and> content (p_world s') = content (p_world s) \<and> same_core s s' \<and>
    partition_view content s' = partition_view content s \<and> (\<forall>v. r = Inr v \<longrightarrow> v = partition_view content s key)"
proof -
  obtain df where a: "p_active_file s = Some df" by (rule partition_ok_active [OF inv])
  define s0 where "s0 = upd_stats (\<lambda>st. st\<lparr>gets_total := sz_add (gets_total st) 1\<rparr>) s"
  have core: "p_keydir s0 = p_keydir s" "p_world s0 = p_world s" "same_core s s0" by (simp_all add: s0_def same_core_def)
  have inv0: "partition_ok E content opened s0" "partition_view content s0 = partition_view content s"
    using inv partition_ok_cong [of s0 s] by (simp_all add: s0_def)
  show ?thesis
  proof (cases "find_loc (p_keydir s) key")
    case None
    with g a have "s' = count_miss s0" "r = Inr None" by (auto simp: Get_def Let_def s0_def)
    moreover have "partition_view content s key = None" by (simp add: partition_view_def store_view_def None)
    ultimately show ?thesis
      using inv0 core partition_ok_cong [of "count_miss s0" s0 content opened] by (auto simp: same_core_def)
  next
    case (Some loc)
    then have l: "find_loc (p_keydir s0) key = Some loc" by (simp add: core)
    let ?k = "\<lambda>fd. co_try (AsyncReadEntry E fd (loc_offset loc) (loc_total_size loc))
                 (\<lambda>entry s. if key_view entry \<noteq> key then (Inr None, count_miss s)
                    else if DataEntry_IsTombstone entry then (Inr None, count_miss s)
                    else (Inr (Some (value_view entry)), s))"
    from g a Some have "co_try (FindFd E (loc_file_id loc)) ?k s0 = (r, s')"
      by (simp add: Get_def Let_def s0_def)
    then show ?thesis
    proof (cases rule: co_try_cases)
      case (fail e)
      note f = FindFd_any [OF inv0(1) l fail(1)]
      have "partition_view content s' = partition_view content s0"
        by (rule partition_view_same [OF f(3,2)])
      with f inv0 core fail show ?thesis by (auto simp: same_core_def)
    next
      case (ok fd s1)
      note f = FindFd_any [OF inv0(1) l ok(1)]
      have c1: "content (p_world s1) = content (p_world s)" using f(2) core by simp
      obtain val where v: "holds_entry (env_crc E) (content (p_world s)) (loc_path s loc) loc key val" "store_view (content (p_world s)) s key = Some val"
        using inv sound_dirD [OF _ Some] unfolding partition_ok_def by blast
      have fd1: "opened (p_world s1) fd = Some (loc_path s loc)"
        using f(4) [of fd] by (simp add: s0_def loc_path_def)
      have h1: "holds_entry (env_crc E) (content (p_world s1)) (loc_path s loc) loc key val" using v(1) c1 by simp
      obtain q s2 where q: "AsyncReadEntry E fd (loc_offset loc) (loc_total_size loc) s1 = (q, s2)" by (metis surj_pair)
      obtain w where w: "s2 = s1\<lparr>p_world := w\<rparr>" "content w = content (p_world s1)" "opened w = opened (p_world s1)"
        using AsyncReadEntry_any(1) [OF q fd1 h1] by blast
      have "s' = s2 \<and> (\<forall>v. r = Inr v \<longrightarrow> v = Some val)"
        using ok(2) q AsyncReadEntry_any(2) [OF q fd1 h1]
        by (cases q) (auto simp: co_try_def)
      moreover have "partition_ok E content opened s2"
        using partition_ok_cong(1) [of s2 s1 content opened E] f(1) w by simp
      moreover have sc: "same_core s s2" using f(3) core w by (simp add: same_core_def)
      moreover have "partition_view content s2 = partition_view content s"
        by (rule partition_view_same [OF sc]) (simp add: w c1)
      ultimately show ?thesis using v(2) c1 w by (auto simp: partition_view_def)
    qed
  qed
qed

end

section \<open>Writes to the active file\<close>

context posix_env
begin

text \<open>
  Writing behind the reserved end of the active file, and reserving more of it, keeps the
  invariant and the view.
\<close>

lemma active_pwrite_ok:
  assumes inv: "partition_ok E content opened s" and a: "p_active_file s = Some df"
    and c: "content (p_world s) (GetDataFilePath (df_file_id df) s) = Some c"
    and w': "content w' = (content (p_world s))(GetDataFilePath (df_file_id df) s \<mapsto> pwrite (df_size df) bs c)"
      "opened w' = opened (p_world s)"
    and s': "s' = s\<lparr>p_active_file := Some (df\<lparr>df_size := df_size df + n\<rparr>), p_world := w'\<rparr>"
  shows "partition_ok E content opened s'" and "partition_view content s' = partition_view content s"
proof -
  let ?p = "GetDataFilePath (df_file_id df) s"
  have act: "\<And>key loc. find_loc (p_keydir s) key = Some loc \<Longrightarrow> loc_file_id loc = df_file_id df \<Longrightarrow>
       loc_offset loc + loc_total_size loc \<le> df_size df"
    using partition_ok_active [OF inv] a by (metis option.inject)
  have keep: "holds_entry (env_crc E) (content w') (loc_path s loc) loc key val"
    if "find_loc (p_keydir s) key = Some loc" "holds_entry (env_crc E) (content (p_world s)) (loc_path s loc) loc key val" for key loc val
  proof (cases "loc_file_id loc = df_file_id df")
    case True
    then have p: "loc_path s loc = ?p" by (simp add: loc_path_def GetDataFilePath_def)
    show ?thesis
      by (rule holds_entry_pwrite [OF that(2), of c _ "df_size df" bs]) (simp_all add: p c w'(1) act [OF that(1) True])
  next
    case False
    then show ?thesis
      by (intro holds_entry_other [OF _ that(2)]) (simp add: w' loc_path_def GetDataFilePath_def)
  qed
  have d: "sound_dir (env_crc E) (content (p_world s)) s" and f: "sound_fds (content (p_world s)) (opened (p_world s)) s"
    using inv by (simp_all add: partition_ok_def)
  have "sound_dir (env_crc E) (content w') s'" and v: "store_view (content w') s' = store_view (content (p_world s)) s"
    using sound_dir_frame [OF d _ _ _ _ keep, of s'] by (simp_all add: s')
  moreover have "sound_fds (content w') (opened w') s'"
    using f a by (auto simp: sound_fds_def s' w' GetDataFilePath_def dest: trans_le_add1)
  ultimately show "partition_ok E content opened s'" "partition_view content s' = partition_view content s"
    by (simp_all add: partition_ok_def partition_view_def s')
qed

lemma active_write_any:
  assumes inv: "partition_ok E content opened s" and a: "p_active_file s = Some df"
    and wr: "on_active (DataFile_AsyncWrite E cfg key val ts kFlagNone) s = (r, s')"
    and len: "21 + length key + length val < 2 ^ 32" and room: "has_room s (21 + length key + length val)"
  shows "partition_ok E content opened s'" and "partition_view content s' = partition_view content s" and "same_core s s'"
    and "p_active_file s' = Some (df\<lparr>df_size := df_size df + (21 + length key + length val)\<rparr>)"
    and "r = Inr off \<Longrightarrow> off = df_size df \<and>
      holds_entry (env_crc E) (content (p_world s')) (GetDataFilePath (df_file_id df) s)
        \<lparr>loc_file_id = df_file_id df, loc_offset = off, loc_total_size = 21 + length key + length val, loc_timestamp_ns = ts\<rparr> key val"
proof -
  let ?n = "21 + length key + length val" and ?p = "GetDataFilePath (df_file_id df) s"
  let ?img = "entry_image (env_crc E) key val kFlagNone ts"
  obtain c where fd: "opened (p_world s) (df_handle df) = Some ?p" "content (p_world s) ?p = Some c"
    using partition_ok_active [OF inv] a by (metis option.inject)
  obtain df' w' where w: "DataFile_AsyncWrite E cfg key val ts kFlagNone (df, p_world s) = (r, (df', w'))"
    and s': "s' = s\<lparr>p_active_file := Some df', p_world := w'\<rparr>" by (rule on_activeE [OF wr a])
  have l: "length key < 2 ^ 32" "length val < 2 ^ 32" using len by simp_all
  note any = AsyncWrite_any [OF w l fd]
  have sz: "df' = df\<lparr>df_size := df_size df + ?n\<rparr>" using any room a by (simp add: has_room_def sz_add_eq)
  obtain n where n: "content w' = (content (p_world s))(?p \<mapsto> pwrite (df_size df) (take n ?img) c)" "opened w' = opened (p_world s)"
    "\<And>off. r = Inr off \<Longrightarrow> off = df_size df \<and> n = ?n" using any by blast
  show "partition_ok E content opened s'" "partition_view content s' = partition_view content s"
    using active_pwrite_ok [OF inv a fd(2) n(1,2), of s' ?n] s' sz by simp_all
  show "same_core s s'" "p_active_file s' = Some (df\<lparr>df_size := df_size df + ?n\<rparr>)" by (simp_all add: s' sz same_core_def)
  assume r: "r = Inr off"
  from n(3) [OF r] have "take n ?img = ?img" by simp
  moreover have "subspan (df_size df) ?n (pwrite (df_size df) ?img c) = ?img"
    using subspan_pwrite_here [of "df_size df" ?img c] by simp
  moreover have "df_size df + ?n \<le> length (pwrite (df_size df) ?img c)"
  proof -
    have "?img \<noteq> []" by (simp add: entry_image_def entry_body_def flip: length_0_conv)
    then show ?thesis by (simp add: length_pwrite)
  qed
  ultimately show "off = df_size df \<and> holds_entry (env_crc E) (content (p_world s')) ?p
        \<lparr>loc_file_id = df_file_id df, loc_offset = off, loc_total_size = ?n, loc_timestamp_ns = ts\<rparr> key val"
    using n(3) [OF r] len by (simp add: holds_entry_def s' n(1))
qed

text \<open>Recording a fresh record of the active file in the directory.\<close>

lemma Put_index_ok:
  assumes inv: "partition_ok E content opened s" and a: "p_active_file s = Some df"
    and pi: "Put_index key n ts off s = (r, s')"
    and h: "holds_entry (env_crc E) (content (p_world s)) (GetDataFilePath (df_file_id df) s)
      \<lparr>loc_file_id = df_file_id df, loc_offset = off, loc_total_size = n, loc_timestamp_ns = ts\<rparr> key val"
    and le: "off + n \<le> df_size df"
  shows "r = Inr ()" and "partition_ok E content opened s'"
    and "partition_view content s' = (partition_view content s)(key \<mapsto> val)"
proof -
  let ?loc = "\<lparr>loc_file_id = df_file_id df, loc_offset = off, loc_total_size = n, loc_timestamp_ns = ts\<rparr>"
  show "r = Inr ()" using pi by (simp add: Put_index_def Let_def)
  have kd: "\<And>k. find_loc (p_keydir s') k = (if k = key then Some ?loc else find_loc (p_keydir s) k)"
    and core: "p_config s' = p_config s" "p_partition_id s' = p_partition_id s" "p_world s' = p_world s"
      "p_file_id_gen s' = p_file_id_gen s" "p_active_file s' = p_active_file s" "p_fd_cache s' = p_fd_cache s"
    using pi a by (auto simp: Put_index_def Let_def find_loc_def update_conv' ActiveFileId_def)
  have p: "loc_path s' = loc_path s" "GetDataFilePath i s' = GetDataFilePath i s" for i
    by (simp_all add: loc_path_def GetDataFilePath_def core fun_eq_iff)
  have lp: "loc_path s ?loc = GetDataFilePath (df_file_id df) s" by (simp add: loc_path_def GetDataFilePath_def)
  have d: "sound_dir (env_crc E) (content (p_world s)) s" and f: "sound_fds (content (p_world s)) (opened (p_world s)) s"
    using inv by (simp_all add: partition_ok_def)
  have gen: "df_file_id df \<le> gen_current (p_file_id_gen s)" using f a by (auto simp: sound_fds_def)
  have "sound_dir (env_crc E) (content (p_world s)) s'"
    using d h gen unfolding sound_dir_def kd core p by (auto simp: lp)
  moreover have "sound_fds (content (p_world s)) (opened (p_world s)) s'"
    using f a le unfolding sound_fds_def kd core p by auto
  ultimately show "partition_ok E content opened s'" by (simp add: partition_ok_def core)
  show "partition_view content s' = (partition_view content s)(key \<mapsto> val)"
  proof
    fix k
    show "partition_view content s' k = ((partition_view content s)(key \<mapsto> val)) k"
    proof (cases "k = key")
      case True
      have "store_view (content (p_world s)) s' key = Some val"
        by (rule store_view_entry [of s' key ?loc "env_crc E"]) (simp_all add: kd p lp h)
      with True show ?thesis by (simp add: partition_view_def core)
    next
      case False
      then show ?thesis by (simp add: partition_view_def store_view_def kd core p split: option.split)
    qed
  qed
qed

end

section \<open>Rotation\<close>

text \<open>What is left of the invariant while no file is active.\<close>

definition sealed_ok :: "'w env \<Rightarrow> ('w \<Rightarrow> path \<Rightarrow> bytes option) \<Rightarrow> ('w \<Rightarrow> int \<Rightarrow> path option) \<Rightarrow> 'w Partition \<Rightarrow> bool" where
  "sealed_ok E content opened s \<longleftrightarrow>
     sound_dir (env_crc E) (content (p_world s)) s \<and>
     (\<forall>i. cached (p_fd_cache s) i \<longrightarrow> i \<le> gen_current (p_file_id_gen s)) \<and>
     cache_opens (opened (p_world s)) (\<lambda>i. GetDataFilePath i s) (p_fd_cache s)"

lemma sealed_ok_of: "partition_ok E content opened s \<Longrightarrow> sealed_ok E content opened s"
  by (simp add: partition_ok_def sealed_ok_def sound_fds_def)

text \<open>A step that keeps the invariant, the view and the active file.\<close>

definition kept :: "'w env \<Rightarrow> ('w \<Rightarrow> path \<Rightarrow> bytes option) \<Rightarrow> ('w \<Rightarrow> int \<Rightarrow> path option) \<Rightarrow> 'w Partition \<Rightarrow> 'w Partition \<Rightarrow> bool" where
  "kept E content opened s t \<longleftrightarrow>
     partition_ok E content opened t \<and> partition_view content t = partition_view content s \<and> same_core s t \<and>
     p_active_file t = p_active_file s"

lemma kept_trans: "kept E content opened s t \<Longrightarrow> kept E content opened t u \<Longrightarrow> kept E content opened s u"
  by (simp add: kept_def same_core_def)

lemma co_try_kept:
  assumes "co_try m k s = (r, u)" and "\<And>r t. m s = (r, t) \<Longrightarrow> kept E content opened s t"
  obtains (fail) e where "r = Inl e" "kept E content opened s u"
  | (ok) x t where "kept E content opened s t" "k x t = (r, u)"
  using assms by (auto elim: co_try_cases)

context posix_env
begin

lemma write_hints_any:
  assumes "write_hints E fd hs w = (r, w')" and "opened w fd = Some p" and "content w p \<noteq> None"
  shows "opened w' = opened w \<and> content w' p \<noteq> None \<and> (\<forall>q. q \<noteq> p \<longrightarrow> content w' q = content w q)"
  using assms
proof (induction hs arbitrary: w)
  case (Cons h hs)
  obtain c where c: "content w p = Some c" using Cons.prems by blast
  obtain q v where q: "env_write_exact E fd (HintEntry_Serialize h) w = (q, v)" by (metis surj_pair)
  have v: "opened v = opened w" "content v p \<noteq> None" "\<forall>q. q \<noteq> p \<longrightarrow> content v q = content w q"
    using write_exact_any [OF q Cons.prems(2) c] by auto
  show ?case
  proof (cases q)
    case (Inl x)
    with Cons.prems(1) q have "w' = v" by (simp add: co_try_def)
    with v show ?thesis by simp
  next
    case (Inr x)
    with Cons.prems(1) q have "write_hints E fd hs v = (r, w')" by (simp add: co_try_def)
    from Cons.IH [OF this] v Cons.prems(2) show ?thesis by simp
  qed
qed simp

text \<open>A hint file is a file of its own: nothing else changes and no descriptor stays open.\<close>

lemma WriteHintFile_any:
  assumes "WriteHintFile E i s = (r, s')"
  shows "\<exists>w. s' = s\<lparr>p_world := w\<rparr> \<and> opened w = opened (p_world s) \<and>
    (\<forall>q. q \<noteq> GetHintFilePath i s \<longrightarrow> content w q = content (p_world s) q)"
proof -
  let ?p = "GetHintFilePath i s" and ?hs = "hints_of i (env_keydir_order E (p_keydir s))"
  obtain q v where o: "env_open E ?p (O_CREAT OR O_WRONLY OR O_TRUNC) (file_mode (p_config s)) (p_world s) = (q, v)" by (metis surj_pair)
  show ?thesis
  proof (cases q)
    case (Inl x)
    with assms o have "s' = s\<lparr>p_world := v\<rparr>" by (simp add: WriteHintFile_def co_try_def on_world_def)
    with open_fail [OF o [unfolded Inl]] show ?thesis by auto
  next
    case (Inr fd)
    note op = open_ok [OF o [unfolded Inr]]
    obtain q1 v1 where h: "write_hints E fd ?hs v = (q1, v1)" by (metis surj_pair)
    have fd: "opened v fd = Some ?p" "content v ?p \<noteq> None" using op by auto
    note wh = write_hints_any [OF h fd]
    obtain q2 v2 where f: "co_try (write_hints E fd ?hs) (\<lambda>_. env_fsync E fd) v = (q2, v2)" by (metis surj_pair)
    have v2: "opened v2 = opened v1" "content v2 = content v1"
      using f h fsync_any by (auto simp: co_try_def split: sum.splits)
    have s': "s' = s\<lparr>p_world := env_sysclose E fd v2\<rparr>"
      using assms o Inr f op by (simp add: WriteHintFile_def co_try_def on_world_def FileHandle_CloseFd_def split: prod.splits)
    have "opened (env_sysclose E fd v2) = opened (p_world s)"
      using sysclose_any [of fd v2] v2 wh op by (auto simp: fun_eq_iff)
    moreover have "content (env_sysclose E fd v2) x = content (p_world s) x" if "x \<noteq> ?p" for x
      using sysclose_any [of fd v2] v2 wh op that by auto
    ultimately show ?thesis using s' by auto
  qed
qed

text \<open>Changes confined to a file that no directory entry refers to.\<close>

lemma fresh_file_frame:
  assumes d: "sound_dir crc files s" and i: "gen_current (p_file_id_gen s) < i"
    and files: "\<And>q. q \<noteq> GetDataFilePath i s \<Longrightarrow> files' q = files q"
    and core: "p_keydir s' = p_keydir s" "p_config s' = p_config s" "p_partition_id s' = p_partition_id s"
    and gen: "gen_current (p_file_id_gen s) \<le> gen_current (p_file_id_gen s')"
  shows "sound_dir crc files' s'" and "store_view files' s' = store_view files s"
proof -
  have "holds_entry crc files' (loc_path s loc) loc key val"
    if l: "find_loc (p_keydir s) key = Some loc" and h: "holds_entry crc files (loc_path s loc) loc key val" for key loc val
  proof -
    have "loc_file_id loc \<le> gen_current (p_file_id_gen s)" using d l unfolding sound_dir_def by blast
    with i have "loc_file_id loc \<noteq> i" by auto
    then show ?thesis by (intro holds_entry_other [OF _ h] files) (simp add: loc_path_def GetDataFilePath_def)
  qed
  from sound_dir_frame [OF d core gen this]
  show "sound_dir crc files' s'" "store_view files' s' = store_view files s" by blast+
qed

lemma CreateAndSetActiveFile_any:
  assumes inv: "sealed_ok E content opened s" and cr: "CreateAndSetActiveFile E now s = (r, s')"
    and old: "\<And>df. p_active_file s = Some df \<Longrightarrow> df_handle df < 0" and room: "\<not> gen_exhausted now (p_file_id_gen s)"
  shows "sound_dir (env_crc E) (content (p_world s')) s'" and "partition_view content s' = partition_view content s"
    and "p_keydir s' = p_keydir s \<and> p_config s' = p_config s \<and> p_partition_id s' = p_partition_id s"
    and "r = Inr () \<Longrightarrow> partition_ok E content opened s' \<and> (\<exists>df. p_active_file s' = Some df \<and> df_size df = 0)"
proof -
  obtain i gen where nx: "FileIdGenerator_Next now (p_file_id_gen s) = (i, gen)" by (metis surj_pair)
  have lt: "gen_current (p_file_id_gen s) < i" by (rule Next_increases [OF nx room])
  have gi: "gen_current gen = i" by (rule Next_current [OF nx, symmetric])
  let ?p = "GetDataFilePath i s" and ?s0 = "s\<lparr>p_file_id_gen := gen\<rparr>"
  have d: "sound_dir (env_crc E) (content (p_world s)) s" using inv by (simp add: sealed_ok_def)
  obtain q v where o: "env_open E ?p (write_flags (p_config s)) (file_mode (p_config s)) (p_world s) = (q, v)" by (metis surj_pair)
  have "(\<forall>q. q \<noteq> ?p \<longrightarrow> content (p_world s') q = content (p_world s) q) \<and>
    p_keydir s' = p_keydir s \<and> p_config s' = p_config s \<and> p_partition_id s' = p_partition_id s \<and> p_file_id_gen s' = gen \<and>
    (r = Inr () \<longrightarrow> p_fd_cache s' = p_fd_cache s \<and> (\<exists>fd. 0 \<le> fd \<and> p_active_file s' = Some \<lparr>df_file_id = i, df_handle = fd, df_size = 0\<rparr> \<and>
       opened (p_world s) fd = None \<and> opened (p_world s') = (opened (p_world s))(fd \<mapsto> ?p) \<and> content (p_world s') ?p \<noteq> None))"
  proof (cases q)
    case (Inl x)
    with cr o nx have "s' = ?s0\<lparr>p_world := v\<rparr>" "r = Inl x"
      by (simp_all add: CreateAndSetActiveFile_def co_try_def on_world_def GetDataFilePath_def)
    with open_fail [OF o [unfolded Inl]] show ?thesis by simp
  next
    case (Inr fd)
    note op = open_ok [OF o [unfolded Inr]]
    show ?thesis
    proof (cases "mk_DataFile E fd i v")
      case (Inl x)
      with cr o nx Inr op have "s' = ?s0\<lparr>p_world := env_sysclose E fd v\<rparr>" "r = Inl x"
        by (simp_all add: CreateAndSetActiveFile_def co_try_def on_world_def GetDataFilePath_def FileHandle_CloseFd_def)
      with op sysclose_any [of fd v] show ?thesis by simp
    next
      case (Inr df)
      then have df: "df = \<lparr>df_file_id = i, df_handle = fd, df_size = 0\<rparr>"
        by (auto simp: mk_DataFile_def split: if_splits sum.splits)
      obtain fr v1 where fa: "env_fallocate E fd 0 (max_file_size (p_config s)) v = (fr, v1)" by (metis surj_pair)
      have w: "(case p_active_file s of None \<Rightarrow> v | Some old \<Rightarrow> snd (FileHandle_CloseFd E (df_handle old) v)) = v"
        using old by (auto simp: FileHandle_CloseFd_def not_le split: option.splits)
      have s': "s' = upd_stats (set_file_stats i zero_FileStats) (?s0\<lparr>p_active_file := Some df, p_world := v1\<rparr>)"
        using cr o nx \<open>q = Inr fd\<close> Inr fa w
        by (auto simp: CreateAndSetActiveFile_def co_try_def on_world_def GetDataFilePath_def Let_def upd_stats_def split: option.splits)
      obtain c where "content v ?p = Some c" "opened v fd = Some ?p" using op by auto
      from fallocate_any [OF fa this(2,1)] op show ?thesis by (auto simp: s' df)
    qed
  qed
  then have files: "\<And>q. q \<noteq> ?p \<Longrightarrow> content (p_world s') q = content (p_world s) q"
    and core: "p_keydir s' = p_keydir s" "p_config s' = p_config s" "p_partition_id s' = p_partition_id s" "p_file_id_gen s' = gen"
    and act: "r = Inr () \<Longrightarrow> p_fd_cache s' = p_fd_cache s \<and> (\<exists>fd. 0 \<le> fd \<and> p_active_file s' = Some \<lparr>df_file_id = i, df_handle = fd, df_size = 0\<rparr> \<and>
       opened (p_world s) fd = None \<and> opened (p_world s') = (opened (p_world s))(fd \<mapsto> ?p) \<and> content (p_world s') ?p \<noteq> None)"
    by blast+
  have le: "gen_current (p_file_id_gen s) \<le> gen_current (p_file_id_gen s')" using lt gi core by simp
  note fr = fresh_file_frame [OF d lt files core(1-3) le]
  show "sound_dir (env_crc E) (content (p_world s')) s'" by (rule fr(1))
  show "partition_view content s' = partition_view content s" using fr(2) by (simp add: partition_view_def)
  show "p_keydir s' = p_keydir s \<and> p_config s' = p_config s \<and> p_partition_id s' = p_partition_id s" using core by simp
  assume "r = Inr ()"
  then obtain fd where a: "p_fd_cache s' = p_fd_cache s" "0 \<le> fd" "p_active_file s' = Some \<lparr>df_file_id = i, df_handle = fd, df_size = 0\<rparr>"
    "opened (p_world s) fd = None" "opened (p_world s') = (opened (p_world s))(fd \<mapsto> ?p)" "content (p_world s') ?p \<noteq> None"
    using act by blast
  have n: "GetDataFilePath j s' = GetDataFilePath j s" for j by (simp add: GetDataFilePath_def core)
  have small: "loc_file_id loc \<noteq> i" if "find_loc (p_keydir s) key = Some loc" for key loc
    using d that lt unfolding sound_dir_def by (metis leD)
  have cs: "cached (p_fd_cache s) j \<Longrightarrow> j \<le> gen_current (p_file_id_gen s)" for j using inv by (simp add: sealed_ok_def)
  have "cache_opens (opened (p_world s')) (\<lambda>i. GetDataFilePath i s) (p_fd_cache s)"
    using inv a(4) by (auto simp: sealed_ok_def a(5) cache_opens_def)
  moreover have "\<not> cached (p_fd_cache s) i" using cs [of i] lt by auto
  moreover have "cached (p_fd_cache s) j \<Longrightarrow> j \<le> i" for j using cs [of j] lt by simp
  ultimately have "sound_fds (content (p_world s')) (opened (p_world s')) s'"
    using a(2,6) small by (auto simp: sound_fds_def n core a(1,3,5) gi)
  with fr(1) a(3) show "partition_ok E content opened s' \<and> (\<exists>df. p_active_file s' = Some df \<and> df_size df = 0)"
    by (simp add: partition_ok_def)
qed


text \<open>Sealing steps: the file is cut at its write position, then its descriptor is given up.\<close>

lemma truncate_active_ok:
  assumes inv: "partition_ok E content opened s" and a: "p_active_file s = Some df"
    and tr: "on_world (env_ftruncate E (df_handle df) (df_size df)) s = (r, s')"
  shows "kept E content opened s s'"
proof -
  let ?p = "GetDataFilePath (df_file_id df) s"
  obtain c where fd: "opened (p_world s) (df_handle df) = Some ?p" "content (p_world s) ?p = Some c"
    using partition_ok_active [OF inv] a by (metis option.inject)
  have act: "\<And>key loc. find_loc (p_keydir s) key = Some loc \<Longrightarrow> loc_file_id loc = df_file_id df \<Longrightarrow>
       loc_offset loc + loc_total_size loc \<le> df_size df"
    using partition_ok_active [OF inv] a by (metis option.inject)
  obtain w where w: "env_ftruncate E (df_handle df) (df_size df) (p_world s) = (r, w)" and s': "s' = s\<lparr>p_world := w\<rparr>"
    by (rule on_worldE [OF tr])
  note t = ftruncate_any [OF w fd]
  have keep: "holds_entry (env_crc E) (content w) (loc_path s loc) loc key val"
    if "find_loc (p_keydir s) key = Some loc" "holds_entry (env_crc E) (content (p_world s)) (loc_path s loc) loc key val" for key loc val
  proof (cases "loc_file_id loc = df_file_id df \<and> r = Inr ()")
    case True
    then have p: "loc_path s loc = ?p" by (simp add: loc_path_def GetDataFilePath_def)
    have "loc_offset loc + loc_total_size loc \<le> df_size df" using act that(1) True by blast
    with True t show ?thesis by (intro holds_entry_resize [OF that(2), of c _ "df_size df"]) (simp_all add: p fd)
  next
    case False
    then show ?thesis
      using t fd by (intro holds_entry_other [OF _ that(2)]) (auto simp: loc_path_def GetDataFilePath_def)
  qed
  have d: "sound_dir (env_crc E) (content (p_world s)) s" and f: "sound_fds (content (p_world s)) (opened (p_world s)) s"
    using inv by (simp_all add: partition_ok_def)
  note fr = sound_dir_frame [OF d _ _ _ _ keep, of s']
  have "sound_fds (content w) (opened w) s'"
    using f a t by (auto simp: sound_fds_def s' GetDataFilePath_def)
  with fr show ?thesis by (simp add: kept_def partition_ok_def partition_view_def s' same_core_def)
qed

lemma hint_file_ok:
  assumes inv: "partition_ok E content opened s" and h: "WriteHintFile E i s = (r, s')"
  shows "kept E content opened s s'"
proof -
  obtain w where s': "s' = s\<lparr>p_world := w\<rparr>" and w: "opened w = opened (p_world s)"
    "\<And>q. q \<noteq> GetHintFilePath i s \<Longrightarrow> content w q = content (p_world s) q" using WriteHintFile_any [OF h] by blast
  have keep: "content w (data_path (p_config s) (p_partition_id s) j) = content (p_world s) (data_path (p_config s) (p_partition_id s) j)" for j
    by (rule w) (simp add: GetHintFilePath_def)
  have d: "sound_dir (env_crc E) (content (p_world s)) s" and f: "sound_fds (content (p_world s)) (opened (p_world s)) s"
    using inv by (simp_all add: partition_ok_def)
  have "holds_entry (env_crc E) (content w) (loc_path s loc) loc key val"
    if "find_loc (p_keydir s) key = Some loc" "holds_entry (env_crc E) (content (p_world s)) (loc_path s loc) loc key val" for key loc val
    using that(2) by (rule holds_entry_other [rotated]) (simp add: loc_path_def keep)
  note fr = sound_dir_frame [OF d _ _ _ _ this, of s']
  have "sound_fds (content w) (opened w) s'"
    using f by (simp add: sound_fds_def s' GetDataFilePath_def keep w(1))
  with fr show ?thesis by (simp add: kept_def partition_ok_def partition_view_def s' same_core_def)
qed

lemma close_active_ok:
  assumes inv: "partition_ok E content opened s" and cl: "on_active (DataFile_AsyncClose E) s = (r, s')"
  shows "sealed_ok E content opened s'" and "partition_view content s' = partition_view content s" and "same_core s s'"
    and "\<exists>df. p_active_file s' = Some df \<and> df_handle df < 0"
proof -
  obtain df where a: "p_active_file s = Some df" "0 \<le> df_handle df"
    "opened (p_world s) (df_handle df) = Some (GetDataFilePath (df_file_id df) s)" "\<not> cached (p_fd_cache s) (df_file_id df)"
    by (rule partition_ok_active [OF inv])
  obtain df' w where c: "DataFile_AsyncClose E (df, p_world s) = (r, (df', w))"
    and s': "s' = s\<lparr>p_active_file := Some df', p_world := w\<rparr>" by (rule on_activeE [OF cl a(1)])
  have df': "df' = df\<lparr>df_handle := - 1\<rparr>" and e: "env_close E (df_handle df) (p_world s) = (r, w)"
    using c a(2) by (auto simp: DataFile_AsyncClose_def FileHandle_IsValid_def FileHandle_Release_def split: prod.splits)
  note k = close_any [OF e]
  have ok: "cache_opens (opened (p_world s)) (\<lambda>i. GetDataFilePath i s) (p_fd_cache s)"
    using inv by (simp add: partition_ok_def sound_fds_def)
  have co: "cache_opens (opened w) (\<lambda>i. GetDataFilePath i s) (p_fd_cache s)"
    unfolding cache_opens_def
  proof (intro allI impI)
    fix i e
    assume i: "map_of (fdc_cache (p_fd_cache s)) i = Some e"
    note ce = cache_opensD [OF ok i]
    have "i \<noteq> df_file_id df" using a(4) i by (auto simp: cached_def)
    then have "ce_handle e \<noteq> df_handle df" using ce a(3) by (auto simp: GetDataFilePath_def)
    with k ce show "0 \<le> ce_handle e \<and> opened w (ce_handle e) = Some (GetDataFilePath i s)" by simp
  qed
  show sc: "same_core s s'" by (simp add: s' same_core_def)
  show "partition_view content s' = partition_view content s"
    by (rule partition_view_same [OF sc]) (use k in \<open>simp add: s'\<close>)
  show "sealed_ok E content opened s'"
    using inv co k by (simp add: sealed_ok_def partition_ok_def sound_fds_def sound_dir_def s' loc_path_def GetDataFilePath_def)
  show "\<exists>df. p_active_file s' = Some df \<and> df_handle df < 0" by (simp add: s' df')
qed

lemma fsync_active_ok:
  assumes inv: "partition_ok E content opened s" and f: "on_world (env_fsync E fd) s = (r, s')"
  shows "kept E content opened s s'"
proof -
  obtain w where w: "env_fsync E fd (p_world s) = (r, w)" "s' = s\<lparr>p_world := w\<rparr>" by (rule on_worldE [OF f])
  from partition_ok_cong [of s' s content opened] fsync_any [OF w(1)] inv w(2)
  show ?thesis by (simp add: kept_def same_core_def)
qed

lemma seal_active_ok:
  assumes inv: "partition_ok E content opened s" and a: "p_active_file s = Some df"
    and m: "co_try (on_world (env_fsync E (df_handle df)))
      (\<lambda>_. co_try (on_world (env_ftruncate E (df_handle df) (df_size df))) (\<lambda>_. co_try (WriteHintFile E (df_file_id df)) k)) s = (r, u)"
  obtains (fail) e where "r = Inl e" "kept E content opened s u"
  | (ok) x t where "kept E content opened s t" "k x t = (r, u)"
proof -
  from m show thesis
  proof (rule co_try_kept)
    fix t1
    assume k1: "kept E content opened s t1" and m1: "co_try (on_world (env_ftruncate E (df_handle df) (df_size df)))
        (\<lambda>_. co_try (WriteHintFile E (df_file_id df)) k) t1 = (r, u)"
    then have i1: "partition_ok E content opened t1" and a1: "p_active_file t1 = Some df" using a by (simp_all add: kept_def)
    from m1 show thesis
    proof (rule co_try_kept)
      fix t2
      assume k2: "kept E content opened t1 t2" and m2: "co_try (WriteHintFile E (df_file_id df)) k t2 = (r, u)"
      then have i2: "partition_ok E content opened t2" by (simp add: kept_def)
      from m2 show thesis
        by (rule co_try_kept) (auto intro: hint_file_ok [OF i2] that kept_trans [OF kept_trans [OF k1 k2]])
    qed (auto intro: truncate_active_ok [OF i1 a1] fail kept_trans [OF k1])
  qed (auto intro: fsync_active_ok [OF inv] fail)
qed

text \<open>A rotation that fails loses no data; one that succeeds leaves an empty active file.\<close>

lemma Rotate_any:
  assumes inv: "partition_ok E content opened s" and ro: "RotateActiveFile E now s = (r, s')"
    and room: "\<not> gen_exhausted now (p_file_id_gen s)"
  shows "sound_dir (env_crc E) (content (p_world s')) s' \<and> partition_view content s' = partition_view content s \<and>
    p_config s' = p_config s \<and>
    (r = Inr () \<longrightarrow> partition_ok E content opened s' \<and> (\<exists>df. p_active_file s' = Some df \<and> df_size df = 0))"
proof -
  obtain df where a: "p_active_file s = Some df" by (rule partition_ok_active [OF inv])
  from ro [unfolded RotateActiveFile_def a option.case] show ?thesis
  proof (cases rule: seal_active_ok [OF inv a, consumes 1, case_names fail ok])
    case (fail e)
    then show ?thesis by (simp add: kept_def partition_ok_def same_core_def)
  next
    case (ok x t)
    then have it: "partition_ok E content opened t" by (simp add: kept_def)
    from ok(2) show ?thesis
    proof (cases rule: co_try_cases)
      case (fail e)
      from close_active_ok [OF it fail(1)] ok(1) fail(2) show ?thesis by (simp add: kept_def same_core_def sealed_ok_def)
    next
      case (ok y u)
      note cl = close_active_ok [OF it ok(1)]
      have g: "\<not> gen_exhausted now (p_file_id_gen u)" using room \<open>kept E content opened s t\<close> cl(3) by (simp add: kept_def same_core_def)
      have h: "\<And>df. p_active_file u = Some df \<Longrightarrow> df_handle df < 0" using cl(4) by auto
      have v: "partition_view content u = partition_view content s" "p_config u = p_config s"
        using \<open>kept E content opened s t\<close> cl by (simp_all add: kept_def same_core_def)
      from ok(2) show ?thesis
      proof (cases rule: co_try_cases)
        case (fail e)
        from CreateAndSetActiveFile_any [OF cl(1) fail(1) h g] v fail(2) show ?thesis by simp
      next
        case (ok z s5)
        let ?t = "upd_stats (\<lambda>st. st\<lparr>file_rotations_total := sz_add (file_rotations_total st) 1\<rparr>) s5"
        note f5 = CreateAndSetActiveFile_any [OF cl(1) ok(1) h g]
        have "partition_ok E content opened ?t = partition_ok E content opened s5"
          "partition_view content ?t = partition_view content s5"
          by (rule partition_ok_cong; simp)+
        with f5 ok v show ?thesis by (auto simp: partition_ok_def)
      qed
    qed
  qed
qed

end

section \<open>Put and Del\<close>

context posix_env
begin

lemma Put_write_any:
  assumes inv: "partition_ok E content opened s" and a: "p_active_file s = Some df"
    and len: "21 + length key + length val < 2 ^ 32" and room: "has_room s (21 + length key + length val)"
    and m: "co_try (on_active (DataFile_AsyncWrite E cfg key val ts kFlagNone))
          (\<lambda>offset. Put_index key (trunc32 (kEntryFixedHeaderSize + length key + length val)) ts offset) s = (r, s')"
  shows "partition_ok E content opened s'" and "p_config s' = p_config s"
    and "partition_view content s' = (if r = Inr () then (partition_view content s)(key \<mapsto> val) else partition_view content s)"
proof -
  let ?n = "21 + length key + length val"
  have n: "trunc32 (kEntryFixedHeaderSize + length key + length val) = ?n" using len by (simp add: trunc32_eq kEntryFixedHeaderSize_def)
  from m have "partition_ok E content opened s' \<and> p_config s' = p_config s \<and>
    partition_view content s' = (if r = Inr () then (partition_view content s)(key \<mapsto> val) else partition_view content s)"
  proof (cases rule: co_try_cases)
    case (fail e)
    from active_write_any [OF inv a fail(1) len room] fail(2) show ?thesis by (simp add: same_core_def)
  next
    case (ok off t)
    note w = active_write_any [OF inv a ok(1) len room]
    have pi: "Put_index key ?n ts off t = (r, s')" using ok(2) n by simp
    have p: "GetDataFilePath (df_file_id df) t = GetDataFilePath (df_file_id df) s" using w(3) by (simp add: GetDataFilePath_def same_core_def)
    note w5 = w(5) [of off, OF refl]
    have h: "holds_entry (env_crc E) (content (p_world t)) (GetDataFilePath (df_file_id (df\<lparr>df_size := df_size df + ?n\<rparr>)) t)
      \<lparr>loc_file_id = df_file_id (df\<lparr>df_size := df_size df + ?n\<rparr>), loc_offset = off, loc_total_size = ?n, loc_timestamp_ns = ts\<rparr> key val"
      using conjunct2 [OF w5] by (simp add: p)
    have le: "off + ?n \<le> df_size (df\<lparr>df_size := df_size df + ?n\<rparr>)" using conjunct1 [OF w5] by simp
    have "p_config s' = p_config t" using pi by (auto simp: Put_index_def Let_def)
    with Put_index_ok [OF w(1,4) pi h le] w(2,3) show ?thesis by (simp add: same_core_def)
  qed
  then show "partition_ok E content opened s'" "p_config s' = p_config s"
    "partition_view content s' = (if r = Inr () then (partition_view content s)(key \<mapsto> val) else partition_view content s)" by blast+
qed

text \<open>
  \<^verbatim>\<open>Put\<close>: all or nothing. The invariant about open descriptors survives unless a rotation failed
  halfway.
\<close>

lemma Put_any:
  assumes inv: "partition_ok E content opened s" and pu: "Put E key val ts now s = (r, s')"
    and len: "21 + length key + length val < 2 ^ 32" and room: "has_room s (21 + length key + length val)"
    and ids: "\<not> gen_exhausted now (p_file_id_gen s)"
  shows "sound_dir (env_crc E) (content (p_world s')) s' \<and>
    partition_view content s' = (if r = Inr () then (partition_view content s)(key \<mapsto> val) else partition_view content s) \<and>
    p_config s' = p_config s \<and> (r = Inr () \<longrightarrow> partition_ok E content opened s')"
proof -
  obtain df where a: "p_active_file s = Some df" by (rule partition_ok_active [OF inv])
  note P = pu [unfolded Put_def a option.case]
  show ?thesis
  proof (cases "DataFile_ShouldRotate (max_file_size (p_config s)) df")
    case False
    with P have m: "co_try (on_active (DataFile_AsyncWrite E (p_config s) key val ts kFlagNone))
          (\<lambda>offset. Put_index key (trunc32 (kEntryFixedHeaderSize + length key + length val)) ts offset) s = (r, s')"
      by (simp add: co_try_def co_return_def)
    from Put_write_any [OF inv a len room m] show ?thesis by (simp add: partition_ok_def)
  next
    case True
    with P have "co_try (RotateActiveFile E now) (\<lambda>_. co_try (on_active (DataFile_AsyncWrite E (p_config s) key val ts kFlagNone))
          (\<lambda>offset. Put_index key (trunc32 (kEntryFixedHeaderSize + length key + length val)) ts offset)) s = (r, s')" by simp
    then show ?thesis
    proof (cases rule: co_try_cases)
      case (fail e)
      from Rotate_any [OF inv fail(1) ids] fail(2) show ?thesis by simp
    next
      case (ok x t)
      from Rotate_any [OF inv ok(1) ids] obtain df' where t: "partition_ok E content opened t" "p_config t = p_config s"
        "partition_view content t = partition_view content s" and a': "p_active_file t = Some df'" "df_size df' = 0" by auto
      have room': "has_room t (21 + length key + length val)" using a' len by (simp add: has_room_def size_limit_def)
      from Put_write_any [OF t(1) a'(1) len room' ok(2)] t show ?thesis by (simp add: partition_ok_def)
    qed
  qed
qed

lemma forget_key_ok:
  assumes inv: "partition_ok E content opened s"
    and s': "p_keydir s' = AList.delete key (p_keydir s)" "p_active_file s' = p_active_file s" "p_fd_cache s' = p_fd_cache s"
    "p_file_id_gen s' = p_file_id_gen s" "p_config s' = p_config s" "p_partition_id s' = p_partition_id s" "p_world s' = p_world s"
  shows "partition_ok E content opened s'" and "partition_view content s' = (partition_view content s)(key := None)"
proof -
  have kd: "find_loc (p_keydir s') k = (if k = key then None else find_loc (p_keydir s) k)" for k
    by (simp add: s' find_loc_def delete_conv')
  have p: "loc_path s' = loc_path s" "GetDataFilePath i s' = GetDataFilePath i s" for i
    by (simp_all add: loc_path_def GetDataFilePath_def s' fun_eq_iff)
  show "partition_ok E content opened s'"
    using inv by (auto simp: partition_ok_def sound_dir_def sound_fds_def kd p s'(2-))
  show "partition_view content s' = (partition_view content s)(key := None)"
  proof
    fix k
    show "partition_view content s' k = ((partition_view content s)(key := None)) k"
      by (simp add: partition_view_def store_view_def kd p s'(7) split: option.split)
  qed
qed

text \<open>\<^verbatim>\<open>Del\<close>: the key is gone, whether or not the tombstone reaches the disk.\<close>

lemma Del_any:
  assumes inv: "partition_ok E content opened s" and de: "Del E key ts s = (r, s')"
    and len: "21 + length key < 2 ^ 32" and room: "has_room s (21 + length key)"
  shows "partition_ok E content opened s' \<and> partition_view content s' = (partition_view content s)(key := None) \<and> p_config s' = p_config s"
proof -
  obtain df c where a: "p_active_file s = Some df" "opened (p_world s) (df_handle df) = Some (GetDataFilePath (df_file_id df) s)"
    "content (p_world s) (GetDataFilePath (df_file_id df) s) = Some c" by (rule partition_ok_active [OF inv])
  let ?s0 = "upd_stats (\<lambda>st. st\<lparr>deletes_total := sz_add (deletes_total st) 1\<rparr>) s"
  show ?thesis
  proof (cases "find_loc (p_keydir s) key")
    case None
    with de a have s': "s' = ?s0" by (simp add: Del_def Let_def)
    have "partition_ok E content opened ?s0 = partition_ok E content opened s" "partition_view content ?s0 = partition_view content s"
      by (rule partition_ok_cong; simp)+
    moreover have "partition_view content s key = None" by (simp add: partition_view_def store_view_def None)
    ultimately show ?thesis using inv s' by auto
  next
    case (Some loc)
    define s1 where "s1 = (upd_stats (release_stats loc) ?s0)\<lparr>p_keydir := AList.delete key (p_keydir s)\<rparr>"
    have core: "p_active_file s1 = p_active_file s" "p_world s1 = p_world s" "p_config s1 = p_config s" "p_partition_id s1 = p_partition_id s"
      by (simp_all add: s1_def)
    have i1: "partition_ok E content opened s1" "partition_view content s1 = (partition_view content s)(key := None)"
      by (rule forget_key_ok [OF inv]; simp add: s1_def)+
    let ?t = "mk_DataEntry (env_crc E) key [] kFlagTombstone ts"
    have plen: "length (de_payload ?t) = 21 + length key" using len by (simp add: payload_mk_DataEntry)
    obtain q df' w where wr: "DataFile_AsyncWriteEntry E (p_config s) ?t (df, p_world s) = (q, (df', w))" by (metis surj_pair)
    let ?s2 = "s1\<lparr>p_active_file := Some df', p_world := w\<rparr>"
    have s': "p_keydir s' = p_keydir ?s2 \<and> p_active_file s' = Some df' \<and> p_world s' = w \<and> p_config s' = p_config s \<and>
      p_partition_id s' = p_partition_id s \<and> p_file_id_gen s' = p_file_id_gen s1 \<and> p_fd_cache s' = p_fd_cache s1"
      using de a Some wr
      by (auto simp: Del_def Let_def co_try_def on_active_def s1_def SignalCompaction_def split: sum.splits if_splits)
    from AsyncWriteEntry_any [OF wr _ a(2,3)] len plen obtain n where
      w: "df' = df\<lparr>df_size := df_size df + (21 + length key)\<rparr>" "opened w = opened (p_world s)"
      "content w = (content (p_world s))(GetDataFilePath (df_file_id df) s \<mapsto> pwrite (df_size df) (take n (de_payload ?t)) c)"
      using room a(1) by (auto simp: has_room_def sz_add_eq)
    have p: "GetDataFilePath (df_file_id df) s1 = GetDataFilePath (df_file_id df) s" by (simp add: GetDataFilePath_def core)
    have i2: "partition_ok E content opened ?s2" "partition_view content ?s2 = partition_view content s1"
      by (rule active_pwrite_ok [OF i1(1), where df = df and c = c and bs = "take n (de_payload ?t)" and n = "21 + length key"];
        use a w p core in simp)+
    have "partition_ok E content opened s' = partition_ok E content opened ?s2" "partition_view content s' = partition_view content ?s2"
      by (rule partition_ok_cong; use s' core in simp)+
    with i1 i2 s' show ?thesis by simp
  qed
qed

end

section \<open>On a device that does not fail\<close>

context reliable_env
begin

lemma GetOrOpen_total: "\<exists>fd t. FDCache_GetOrOpen E i p (c, w) = (Inr fd, t)"
proof -
  obtain q c1 w1 where b: "GetOrOpen_begin E i (c, w) = (q, (c1, w1))" by (metis surj_pair)
  obtain fd w2 where "env_open E p O_RDONLY 0 w1 = (Inr fd, w2)" using open_succeeds by blast
  with b show ?thesis by (cases q) (simp_all add: FDCache_GetOrOpen_def)
qed

lemma FindFd_total:
  assumes "p_active_file s = Some df"
  shows "\<exists>fd s'. FindFd E i s = (Inr fd, s')"
proof -
  obtain fd c w where "FDCache_GetOrOpen E i (GetDataFilePath i s) (p_fd_cache s, p_world s) = (Inr fd, (c, w))"
    using GetOrOpen_total by (metis surj_pair)
  with assms show ?thesis by (simp add: FindFd_def on_cache_def)
qed

lemma Get_total:
  assumes inv: "partition_ok E content opened s"
  shows "\<exists>s'. Get E key s = (Inr (partition_view content s key), s')"
proof -
  obtain df where a: "p_active_file s = Some df" by (rule partition_ok_active [OF inv])
  let ?s0 = "upd_stats (\<lambda>st. st\<lparr>gets_total := sz_add (gets_total st) 1\<rparr>) s"
  have i0: "partition_ok E content opened ?s0" using inv partition_ok_cong(1) [of ?s0 s content opened E] by simp
  have "\<exists>v s'. Get E key s = (Inr v, s')"
  proof (cases "find_loc (p_keydir s) key")
    case None
    with a show ?thesis by (simp add: Get_def Let_def)
  next
    case (Some loc)
    then have l: "find_loc (p_keydir ?s0) key = Some loc" by simp
    obtain r s1 where f: "FindFd E (loc_file_id loc) ?s0 = (r, s1)" by (metis surj_pair)
    obtain fd where fd: "r = Inr fd" using FindFd_total [of ?s0 df "loc_file_id loc"] a f by auto
    note F = FindFd_any [OF i0 l f]
    obtain val where "holds_entry (env_crc E) (content (p_world ?s0)) (loc_path ?s0 loc) loc key val"
      using i0 sound_dirD [OF _ l] unfolding partition_ok_def by blast
    then have h: "holds_entry (env_crc E) (content (p_world s1)) (loc_path ?s0 loc) loc key val" using F(2) by simp
    have o: "opened (p_world s1) fd = Some (loc_path ?s0 loc)" using F(4) fd by blast
    obtain c where c: "content (p_world s1) (loc_path ?s0 loc) = Some c" "loc_offset loc + loc_total_size loc \<le> length c"
      and len: "length key < 2 ^ 32" "length val < 2 ^ 32"
      and img: "subspan (loc_offset loc) (loc_total_size loc) c = entry_image (env_crc E) key val kFlagNone (loc_timestamp_ns loc)"
      using h by (auto simp: holds_entry_def)
    obtain b w where b: "env_read_exact_at E fd (loc_total_size loc) (loc_offset loc) (p_world s1) = (Inr b, w)"
      using read_succeeds [OF o c] by blast
    have "b = entry_image (env_crc E) key val kFlagNone (loc_timestamp_ns loc) @ []"
      using read_exact_at_any [OF b] o c img by simp
    then have "AsyncReadEntry E fd (loc_offset loc) (loc_total_size loc) s1 =
        (Inr (mk_DataEntry (env_crc E) key val kFlagNone (loc_timestamp_ns loc)), s1\<lparr>p_world := w\<rparr>)"
      using b by (simp only: AsyncReadEntry_def co_try_def on_world_def prod.case sum.case DataEntry_Deserialize_image [OF len])
    with a Some f fd show ?thesis by (simp add: Get_def Let_def co_try_def)
  qed
  with Get_any [OF inv] show ?thesis by blast
qed

lemma AsyncWrite_total:
  assumes "opened w (df_handle df) = Some p" and "content w p = Some c"
    and "length key < 2 ^ 32" and "length val < 2 ^ 32"
  shows "\<exists>off t. DataFile_AsyncWrite E cfg key val ts flag (df, w) = (Inr off, t)"
proof -
  obtain w' where wv: "env_writev E (df_handle df) (entry_iov E key val ts flag) (df_size df) w =
      (Inr (int (length (concat (entry_iov E key val ts flag)))), w')"
    using writev_succeeds [OF assms(1)] assms(2) by blast
  then have "opened w' (df_handle df) \<noteq> None" using writev_any [OF wv assms(1,2)] assms(1) by simp
  from fdatasync_succeeds [OF this] obtain w'' where "env_fdatasync E (df_handle df) w' = (Inr (), w'')" by blast
  with wv assms(3,4) show ?thesis
    by (simp add: DataFile_AsyncWrite_def DataFile_reserve_def Let_def concat_entry_iov kEntryFixedHeaderSize_def DataFile_sync_def)
qed

lemma write_hints_total:
  assumes "opened w fd = Some p" and "content w p \<noteq> None"
  shows "\<exists>w'. write_hints E fd hs w = (Inr (), w')"
  using assms
proof (induction hs arbitrary: w)
  case (Cons h hs)
  obtain w1 where w1: "env_write_exact E fd (HintEntry_Serialize h) w = (Inr (), w1)"
    using write_exact_succeeds Cons.prems by blast
  have "write_hints E fd [h] w = (Inr (), w1)" using w1 by (simp add: co_try_def)
  from write_hints_any [OF this Cons.prems] have "opened w1 fd = Some p" "content w1 p \<noteq> None" using Cons.prems by simp_all
  from Cons.IH [OF this] w1 show ?case by (simp add: co_try_def)
qed simp

lemma WriteHintFile_total: "\<exists>s'. WriteHintFile E i s = (Inr (), s')"
proof -
  let ?p = "GetHintFilePath i s" and ?hs = "hints_of i (env_keydir_order E (p_keydir s))"
  obtain fd v where o: "env_open E ?p (O_CREAT OR O_WRONLY OR O_TRUNC) (file_mode (p_config s)) (p_world s) = (Inr fd, v)"
    using open_succeeds by blast
  then have fd: "opened v fd = Some ?p" "content v ?p \<noteq> None" using open_ok [OF o] by auto
  obtain w1 where h: "write_hints E fd ?hs v = (Inr (), w1)" using write_hints_total [OF fd] by blast
  then have "opened w1 fd \<noteq> None" using write_hints_any [OF h fd] fd by simp
  from fsync_succeeds [OF this] obtain w2 where "env_fsync E fd w1 = (Inr (), w2)" by blast
  with o h show ?thesis by (simp add: WriteHintFile_def co_try_def on_world_def)
qed

lemma Create_total:
  assumes "write_flags (p_config s) AND O_APPEND = 0"
  shows "\<exists>s'. CreateAndSetActiveFile E now s = (Inr (), s')"
proof -
  obtain i gen where nx: "FileIdGenerator_Next now (p_file_id_gen s) = (i, gen)" by (metis surj_pair)
  obtain fd v where o: "env_open E (GetDataFilePath i s) (write_flags (p_config s)) (file_mode (p_config s)) (p_world s) = (Inr fd, v)"
    using open_succeeds by blast
  obtain flags where "env_getfl E fd v = Inr flags" "flags AND O_APPEND = 0" using getfl_succeeds [OF o assms] by blast
  then have "mk_DataFile E fd i v = Inr \<lparr>df_file_id = i, df_handle = fd, df_size = 0\<rparr>"
    using open_ok [OF o] by (simp add: mk_DataFile_def)
  with nx o show ?thesis
    by (simp add: CreateAndSetActiveFile_def co_try_def on_world_def GetDataFilePath_def Let_def)
qed

lemma Rotate_total:
  assumes inv: "partition_ok E content opened s" and fl: "write_flags (p_config s) AND O_APPEND = 0"
  shows "\<exists>s'. RotateActiveFile E now s = (Inr (), s')"
proof -
  obtain df where a: "p_active_file s = Some df" and o: "opened (p_world s) (df_handle df) \<noteq> None"
    by (rule partition_ok_active [OF inv]) auto
  obtain s1 where s1: "on_world (env_fsync E (df_handle df)) s = (Inr (), s1)"
    using fsync_succeeds [OF o] by (auto simp: on_world_def)
  have k1: "kept E content opened s s1" by (rule fsync_active_ok [OF inv s1])
  then have i1: "partition_ok E content opened s1" and a1: "p_active_file s1 = Some df" using a by (simp_all add: kept_def)
  from partition_ok_active [OF i1] a1
  have o1: "opened (p_world s1) (df_handle df) = Some (GetDataFilePath (df_file_id df) s1)"
    "content (p_world s1) (GetDataFilePath (df_file_id df) s1) \<noteq> None" by (metis option.inject option.simps(3))+
  obtain s2 where s2: "on_world (env_ftruncate E (df_handle df) (df_size df)) s1 = (Inr (), s2)"
    using ftruncate_succeeds [OF o1, of "df_size df"] by (auto simp: on_world_def)
  have k2: "kept E content opened s1 s2" by (rule truncate_active_ok [OF i1 a1 s2])
  obtain s3 where s3: "WriteHintFile E (df_file_id df) s2 = (Inr (), s3)" using WriteHintFile_total by blast
  have k3: "kept E content opened s2 s3" using k2 s3 by (auto simp: kept_def [of _ _ _ s1] intro: hint_file_ok)
  have i3: "partition_ok E content opened s3" and a3: "p_active_file s3 = Some df" and c3: "p_config s3 = p_config s"
    using k1 k2 k3 a by (simp_all add: kept_def same_core_def)
  obtain o3: "opened (p_world s3) (df_handle df) \<noteq> None" "0 \<le> df_handle df"
    using partition_ok_active [OF i3] a3 by (metis option.inject option.simps(3))
  obtain s4 where s4: "on_active (DataFile_AsyncClose E) s3 = (Inr (), s4)"
    using close_succeeds [OF o3(1)] o3(2) a3
    by (auto simp: on_active_def DataFile_AsyncClose_def FileHandle_IsValid_def FileHandle_Release_def)
  have "p_config s4 = p_config s" using close_active_ok(3) [OF i3 s4] c3 by (simp add: same_core_def)
  with Create_total [of s4] fl obtain s5 where "CreateAndSetActiveFile E now s4 = (Inr (), s5)" by auto
  with s1 s2 s3 s4 show ?thesis by (simp add: RotateActiveFile_def a co_try_def)
qed

lemma Put_write_total:
  assumes inv: "partition_ok E content opened s" and len: "21 + length key + length val < 2 ^ 32"
  shows "\<exists>s'. co_try (on_active (DataFile_AsyncWrite E cfg key val ts kFlagNone)) (\<lambda>offset. Put_index key n ts offset) s = (Inr (), s')"
proof -
  obtain df c where a: "p_active_file s = Some df" "opened (p_world s) (df_handle df) = Some (GetDataFilePath (df_file_id df) s)"
    "content (p_world s) (GetDataFilePath (df_file_id df) s) = Some c" by (rule partition_ok_active [OF inv])
  obtain off df' w where "DataFile_AsyncWrite E cfg key val ts kFlagNone (df, p_world s) = (Inr off, (df', w))"
    using AsyncWrite_total [OF a(2,3), of key val cfg ts kFlagNone] len by (metis add_lessD1 add.commute surj_pair)
  with a(1) show ?thesis by (simp add: co_try_def on_active_def Put_index_def Let_def)
qed

lemma Put_total:
  assumes inv: "partition_ok E content opened s" and len: "21 + length key + length val < 2 ^ 32"
    and ids: "\<not> gen_exhausted now (p_file_id_gen s)" and fl: "write_flags (p_config s) AND O_APPEND = 0"
  shows "\<exists>s'. Put E key val ts now s = (Inr (), s')"
proof -
  obtain df where a: "p_active_file s = Some df" by (rule partition_ok_active [OF inv])
  let ?m = "if DataFile_ShouldRotate (max_file_size (p_config s)) df then RotateActiveFile E now else co_return ()"
  have "\<exists>t. ?m s = (Inr (), t) \<and> partition_ok E content opened t"
  proof (cases "DataFile_ShouldRotate (max_file_size (p_config s)) df")
    case True
    obtain t where t: "RotateActiveFile E now s = (Inr (), t)" using Rotate_total [OF inv fl] by blast
    with Rotate_any [OF inv t ids] True show ?thesis by simp
  next
    case False
    with inv show ?thesis by (simp add: co_return_def)
  qed
  then obtain t where t: "?m s = (Inr (), t)" "partition_ok E content opened t" by blast
  from Put_write_total [OF t(2) len] obtain s' where
    "co_try (on_active (DataFile_AsyncWrite E (p_config s) key val ts kFlagNone))
      (\<lambda>offset. Put_index key (trunc32 (kEntryFixedHeaderSize + length key + length val)) ts offset) t = (Inr (), s')" by blast
  then have "co_try ?m (\<lambda>_. co_try (on_active (DataFile_AsyncWrite E (p_config s) key val ts kFlagNone))
      (\<lambda>offset. Put_index key (trunc32 (kEntryFixedHeaderSize + length key + length val)) ts offset)) s = (Inr (), s')"
    using t(1) by (simp add: co_try_def)
  then show ?thesis by (auto simp: Put_def a)
qed

lemma Del_total:
  assumes inv: "partition_ok E content opened s" and len: "21 + length key < 2 ^ 32"
  shows "\<exists>s'. Del E key ts s = (Inr (), s')"
proof -
  obtain df c where a: "p_active_file s = Some df" "opened (p_world s) (df_handle df) = Some (GetDataFilePath (df_file_id df) s)"
    "content (p_world s) (GetDataFilePath (df_file_id df) s) = Some c" by (rule partition_ok_active [OF inv])
  let ?t = "mk_DataEntry (env_crc E) key [] kFlagTombstone ts"
  obtain w where w: "env_write_exact_at E (df_handle df) (de_payload ?t) (df_size df) (p_world s) = (Inr (), w)"
    using write_exact_at_succeeds [OF a(2)] a(3) by blast
  then have "opened w (df_handle df) \<noteq> None" using write_exact_at_any [OF w a(2,3)] a(2) by simp
  from fdatasync_succeeds [OF this] obtain w' where "env_fdatasync E (df_handle df) w = (Inr (), w')" by blast
  with w a(1) show ?thesis
    by (cases "find_loc (p_keydir s) key")
      (auto simp: Del_def Let_def co_try_def on_active_def DataFile_AsyncWriteEntry_def DataFile_reserve_def DataFile_sync_def)
qed

end

section \<open>The contract of a key-value store\<close>

text \<open>
  The interface the clients of a partition rely on: a state with a view as a map, and
  operations that act on the view. \<open>fits\<close> is what a caller has to respect; \<open>'c\<close> is what an
  operation takes from the environment, here the clocks.
\<close>

datatype ('c, 'k, 'v) kv_op = KvGet 'k | KvPut 'c 'k 'v | KvDel 'c 'k

text \<open>A sequence of operations on a store, on a map, and that every step fits.\<close>

fun kv_run :: "('k \<Rightarrow> ('s, 'v option) task) \<Rightarrow> ('c \<Rightarrow> 'k \<Rightarrow> 'v \<Rightarrow> ('s, unit) task) \<Rightarrow> ('c \<Rightarrow> 'k \<Rightarrow> ('s, unit) task) \<Rightarrow>
    ('c, 'k, 'v) kv_op list \<Rightarrow> 's \<Rightarrow> (Error + 'v option) list \<times> 's" where
  "kv_run get put del [] s = ([], s)"
| "kv_run get put del (KvGet k # ops) s =
     (case get k s of (r, s') \<Rightarrow> case kv_run get put del ops s' of (rs, t) \<Rightarrow> (r # rs, t))"
| "kv_run get put del (KvPut c k v # ops) s =
     (case put c k v s of (r, s') \<Rightarrow> case kv_run get put del ops s' of (rs, t) \<Rightarrow> (map_sum id (\<lambda>_. None) r # rs, t))"
| "kv_run get put del (KvDel c k # ops) s =
     (case del c k s of (r, s') \<Rightarrow> case kv_run get put del ops s' of (rs, t) \<Rightarrow> (map_sum id (\<lambda>_. None) r # rs, t))"

fun map_run :: "('c, 'k, 'v) kv_op list \<Rightarrow> ('k \<Rightarrow> 'v option) \<Rightarrow> (Error + 'v option) list \<times> ('k \<Rightarrow> 'v option)" where
  "map_run [] m = ([], m)"
| "map_run (KvGet k # ops) m = (case map_run ops m of (rs, m') \<Rightarrow> (Inr (m k) # rs, m'))"
| "map_run (KvPut c k v # ops) m = (case map_run ops (m(k \<mapsto> v)) of (rs, m') \<Rightarrow> (Inr None # rs, m'))"
| "map_run (KvDel c k # ops) m = (case map_run ops (m(k := None)) of (rs, m') \<Rightarrow> (Inr None # rs, m'))"

fun kv_fits :: "('k \<Rightarrow> ('s, 'v option) task) \<Rightarrow> ('c \<Rightarrow> 'k \<Rightarrow> 'v \<Rightarrow> ('s, unit) task) \<Rightarrow> ('c \<Rightarrow> 'k \<Rightarrow> ('s, unit) task) \<Rightarrow>
    ('c \<Rightarrow> 'k \<Rightarrow> 'v option \<Rightarrow> 's \<Rightarrow> bool) \<Rightarrow> ('c, 'k, 'v) kv_op list \<Rightarrow> 's \<Rightarrow> bool" where
  "kv_fits get put del fits [] s = True"
| "kv_fits get put del fits (KvGet k # ops) s = kv_fits get put del fits ops (snd (get k s))"
| "kv_fits get put del fits (KvPut c k v # ops) s =
     (fits c k (Some v) s \<and> kv_fits get put del fits ops (snd (put c k v s)))"
| "kv_fits get put del fits (KvDel c k # ops) s = (fits c k None s \<and> kv_fits get put del fits ops (snd (del c k s)))"

locale kv_store =
  fixes get :: "'k \<Rightarrow> ('s, 'v option) task"
    and put :: "'c \<Rightarrow> 'k \<Rightarrow> 'v \<Rightarrow> ('s, unit) task"
    and del :: "'c \<Rightarrow> 'k \<Rightarrow> ('s, unit) task"
    and view :: "'s \<Rightarrow> 'k \<Rightarrow> 'v option"
    and inv :: "'s \<Rightarrow> bool"
    and fits :: "'c \<Rightarrow> 'k \<Rightarrow> 'v option \<Rightarrow> 's \<Rightarrow> bool"
  assumes get_view: "inv s \<Longrightarrow> \<exists>s'. get k s = (Inr (view s k), s') \<and> inv s' \<and> view s' = view s"
    and put_view: "inv s \<Longrightarrow> fits c k (Some v) s \<Longrightarrow> \<exists>s'. put c k v s = (Inr (), s') \<and> inv s' \<and> view s' = (view s)(k \<mapsto> v)"
    and del_view: "inv s \<Longrightarrow> fits c k None s \<Longrightarrow> \<exists>s'. del c k s = (Inr (), s') \<and> inv s' \<and> view s' = (view s)(k := None)"
begin

text \<open>Every sequence of operations answers as a map would, and ends with the map's contents.\<close>

lemma run_refines:
  assumes "inv s" and "kv_fits get put del fits ops s" and "kv_run get put del ops s = (rs, t)"
  shows "inv t \<and> (rs, view t) = map_run ops (view s)"
  using assms
proof (induction ops arbitrary: s rs)
  case Nil
  then show ?case by simp
next
  case (Cons op ops)
  show ?case
  proof (cases op)
    case (KvGet k)
    obtain s' where s': "get k s = (Inr (view s k), s')" "inv s'" "view s' = view s" using get_view [OF Cons.prems(1)] by blast
    with Cons.prems KvGet Cons.IH [of s'] show ?thesis by (auto split: prod.splits)
  next
    case (KvPut c k v)
    with Cons.prems have "fits c k (Some v) s" by simp
    then obtain s' where s': "put c k v s = (Inr (), s')" "inv s'" "view s' = (view s)(k \<mapsto> v)"
      using put_view [OF Cons.prems(1)] by blast
    with Cons.prems KvPut Cons.IH [of s'] show ?thesis by (auto simp del: fun_upd_apply split: prod.splits)
  next
    case (KvDel c k)
    with Cons.prems have "fits c k None s" by simp
    then obtain s' where s': "del c k s = (Inr (), s')" "inv s'" "view s' = (view s)(k := None)"
      using del_view [OF Cons.prems(1)] by blast
    with Cons.prems KvDel Cons.IH [of s'] show ?thesis by (auto simp del: fun_upd_apply split: prod.splits)
  qed
qed

end

text \<open>A partition on a device that does not fail provides the contract.\<close>

definition partition_inv :: "'w env \<Rightarrow> ('w \<Rightarrow> path \<Rightarrow> bytes option) \<Rightarrow> ('w \<Rightarrow> int \<Rightarrow> path option) \<Rightarrow> 'w Partition \<Rightarrow> bool" where
  "partition_inv E content opened s \<longleftrightarrow> partition_ok E content opened s \<and> write_flags (p_config s) AND O_APPEND = 0"

definition partition_fits :: "u64 \<times> u32 \<Rightarrow> bytes \<Rightarrow> bytes option \<Rightarrow> 'w Partition \<Rightarrow> bool" where
  "partition_fits c key v s \<longleftrightarrow>
     (let n = 21 + length key + (case v of None \<Rightarrow> 0 | Some val \<Rightarrow> length val)
      in n < 2 ^ 32 \<and> has_room s n \<and> \<not> gen_exhausted (snd c) (p_file_id_gen s))"

definition clocked_put :: "'w env \<Rightarrow> u64 \<times> u32 \<Rightarrow> bytes \<Rightarrow> bytes \<Rightarrow> ('w Partition, unit) task" where
  "clocked_put E c key val = Put E key val (fst c) (snd c)"

definition clocked_del :: "'w env \<Rightarrow> u64 \<times> u32 \<Rightarrow> bytes \<Rightarrow> ('w Partition, unit) task" where
  "clocked_del E c key = Del E key (fst c)"

sublocale reliable_env \<subseteq> kv: kv_store "Get E" "clocked_put E" "clocked_del E" "partition_view content"
    "partition_inv E content opened" partition_fits
proof unfold_locales
  fix s k
  assume i: "partition_inv E content opened s"
  then have ok: "partition_ok E content opened s" by (simp add: partition_inv_def)
  obtain s' where g: "Get E k s = (Inr (partition_view content s k), s')" using Get_total [OF ok] by blast
  from Get_any [OF ok g] i g
  show "\<exists>s'. Get E k s = (Inr (partition_view content s k), s') \<and> partition_inv E content opened s' \<and>
      partition_view content s' = partition_view content s"
    by (auto simp: partition_inv_def same_core_def)
next
  fix s c k v
  assume i: "partition_inv E content opened s" and f: "partition_fits c k (Some v) s"
  then have ok: "partition_ok E content opened s" and fl: "write_flags (p_config s) AND O_APPEND = 0"
    and len: "21 + length k + length v < 2 ^ 32" and room: "has_room s (21 + length k + length v)"
    and ids: "\<not> gen_exhausted (snd c) (p_file_id_gen s)"
    by (simp_all add: partition_inv_def partition_fits_def Let_def)
  obtain s' where p: "Put E k v (fst c) (snd c) s = (Inr (), s')" using Put_total [OF ok len ids fl] by blast
  from Put_any [OF ok p len room ids] p fl
  show "\<exists>s'. clocked_put E c k v s = (Inr (), s') \<and> partition_inv E content opened s' \<and>
      partition_view content s' = (partition_view content s)(k \<mapsto> v)"
    by (auto simp: partition_inv_def clocked_put_def)
next
  fix s c k
  assume i: "partition_inv E content opened s" and f: "partition_fits c k None s"
  then have ok: "partition_ok E content opened s" and fl: "write_flags (p_config s) AND O_APPEND = 0"
    and len: "21 + length k < 2 ^ 32" and room: "has_room s (21 + length k)"
    by (simp_all add: partition_inv_def partition_fits_def Let_def)
  obtain s' where d: "Del E k (fst c) s = (Inr (), s')" using Del_total [OF ok len] by blast
  from Del_any [OF ok d len room] d fl
  show "\<exists>s'. clocked_del E c k s = (Inr (), s') \<and> partition_inv E content opened s' \<and>
      partition_view content s' = (partition_view content s)(k := None)"
    by (auto simp: partition_inv_def clocked_del_def)
qed

context reliable_env
begin

lemmas partition_run = kv.run_refines

end

section \<open>Properties of a partition\<close>

text \<open>A freshly created partition on the file system in memory, for the witnesses.\<close>

definition demo_partition :: "mem Partition" where
  "demo_partition =
     (let p = data_path default_BitcaskConfig 0 0
      in (mk_Partition default_BitcaskConfig 0 \<lparr>mem_files = [(p, [])], mem_fds = [(3, (p, 0))], mem_next = 4\<rparr>)
           \<lparr>p_active_file := Some \<lparr>df_file_id = 0, df_handle = 3, df_size = 0\<rparr>\<rparr>)"

lemma demo_partition_ok: "partition_ok mem_env mem_content mem_opened demo_partition"
  by (simp add: partition_ok_def sound_dir_def sound_fds_def demo_partition_def Let_def mk_Partition_def find_loc_def
      GetDataFilePath_def mem_opened_def mem_content_def cached_def cache_opens_def mk_FDCache_def)

lemma demo_partition_fits:
  "\<not> gen_exhausted now (p_file_id_gen demo_partition)" "n < size_limit \<Longrightarrow> has_room demo_partition n"
  "write_flags (p_config demo_partition) AND O_APPEND = 0" "partition_view mem_content demo_partition = Map.empty"
  by (simp_all add: demo_partition_def Let_def mk_Partition_def gen_exhausted_def mk_FileIdGenerator_def has_room_def
      default_BitcaskConfig_def O_CREAT_def O_RDWR_def O_APPEND_def partition_view_def store_view_def find_loc_def fun_eq_iff)



text \<open>
  C29: \<^verbatim>\<open>Get\<close> never lies, whatever fails underneath: it changes no file and no directory entry,
  and if it reports success its answer is the current value of the key.
\<close>

theorem partition_get_sound:
  assumes "posix_env E content opened fpos" and "partition_ok E content opened s" and "Get E key s = (r, s')"
  shows "partition_ok E content opened s' \<and> content (p_world s') = content (p_world s) \<and> p_keydir s' = p_keydir s \<and>
    (\<forall>v. r = Inr v \<longrightarrow> v = partition_view content s key)"
  using posix_env.Get_any [OF assms] by (simp add: same_core_def)

theorem partition_get_sound_witness:
  "fst (Get mem_env [7] (snd (Put mem_env [7] [1, 2] 5 9 demo_partition))) = Inr (Some [1, 2])"
proof -
  let ?s = "snd (Put mem_env [7] [1, 2] 5 9 demo_partition)"
  obtain s where p: "Put mem_env [7] [1, 2] 5 9 demo_partition = (Inr (), s)"
    using mem_reliable.Put_total [OF demo_partition_ok, of "[7]" "[1, 2]" 9] demo_partition_fits(1,3) by auto
  from mem_posix.Put_any [OF demo_partition_ok p] demo_partition_fits(1) [of 9] demo_partition_fits(2) [of 24]
  have ok: "partition_ok mem_env mem_content mem_opened s" and v: "partition_view mem_content s [7] = Some [1, 2]"
    by (simp_all add: size_limit_def)
  obtain r where g: "Get mem_env [7] s = (Inr (partition_view mem_content s [7]), r)" using mem_reliable.Get_total [OF ok] by blast
  from partition_get_sound [OF mem_posix.posix_env_axioms ok g] g v p show ?thesis by simp
qed

text \<open>
  C5: \<^verbatim>\<open>Put\<close> is all or nothing, also when a write, a rotation or a synchronisation fails: on
  success exactly this key has the new value, on failure every key has the value it had
  before, and in both cases every directory entry points at an intact record.
\<close>

theorem partition_put_atomic:
  assumes "posix_env E content opened fpos" and "partition_ok E content opened s" and "Put E key val ts now s = (r, s')"
    and "21 + length key + length val < 2 ^ 32" and "has_room s (21 + length key + length val)"
    and "\<not> gen_exhausted now (p_file_id_gen s)"
  shows "sound_dir (env_crc E) (content (p_world s')) s' \<and>
    partition_view content s' = (if r = Inr () then (partition_view content s)(key \<mapsto> val) else partition_view content s) \<and>
    (r = Inr () \<longrightarrow> partition_ok E content opened s')"
  using posix_env.Put_any [OF assms] by simp

text \<open>
  C30: \<^verbatim>\<open>Del\<close> makes the key unreadable and touches no other key. This holds even if it reports
  an error: the directory entry is dropped before the tombstone is written, so a failed
  deletion is visible until the next restart, when the old value comes back.
\<close>

theorem partition_del_forgets:
  assumes "posix_env E content opened fpos" and "partition_ok E content opened s" and "Del E key ts s = (r, s')"
    and "21 + length key < 2 ^ 32" and "has_room s (21 + length key)"
  shows "partition_ok E content opened s' \<and> partition_view content s' = (partition_view content s)(key := None)"
  using posix_env.Del_any [OF assms] by simp

theorem partition_put_atomic_witness:
  "let (r, s') = Put mem_env [7] [1, 2] 5 9 demo_partition in r = Inr () \<and> partition_view mem_content s' = [[7] \<mapsto> [1, 2]]"
proof -
  obtain s where p: "Put mem_env [7] [1, 2] 5 9 demo_partition = (Inr (), s)"
    using mem_reliable.Put_total [OF demo_partition_ok, of "[7]" "[1, 2]" 9] demo_partition_fits(1,3) by auto
  from partition_put_atomic [OF mem_posix.posix_env_axioms demo_partition_ok p] p
    demo_partition_fits(1) [of 9] demo_partition_fits(2) [of 24] demo_partition_fits(4)
  show ?thesis by (simp add: size_limit_def)
qed

theorem partition_del_forgets_witness:
  "\<exists>s. partition_view mem_content s [7] = Some [1, 2] \<and> partition_view mem_content (snd (Del mem_env [7] 6 s)) [7] = None"
proof -
  obtain s where p: "Put mem_env [7] [1, 2] 5 9 demo_partition = (Inr (), s)"
    using mem_reliable.Put_total [OF demo_partition_ok, of "[7]" "[1, 2]" 9] demo_partition_fits(1,3) by auto
  from mem_posix.Put_any [OF demo_partition_ok p] demo_partition_fits(1) [of 9] demo_partition_fits(2) [of 24]
  have ok: "partition_ok mem_env mem_content mem_opened s" and v: "partition_view mem_content s [7] = Some [1, 2]"
    by (simp_all add: size_limit_def)
  have room: "has_room s 22"
    using p by (auto simp: Put_def demo_partition_def mk_Partition_def Let_def DataFile_ShouldRotate_def default_BitcaskConfig_def
        co_try_def co_return_def on_active_def DataFile_AsyncWrite_def DataFile_reserve_def kEntryFixedHeaderSize_def sz_add_def
        DataFile_sync_def Put_index_def has_room_def size_limit_def split: prod.splits sum.splits if_splits)
  obtain r s' where d: "Del mem_env [7] 6 s = (r, s')" by (metis surj_pair)
  from partition_del_forgets [OF mem_posix.posix_env_axioms ok d] room v d show ?thesis
    by (intro exI [of _ s]) simp
qed

end
