(* ===== verification/Partition_Recovery.thy ===== *)
theory Partition_Recovery
  imports Partition_Store
begin

text \<open>
  Opening a partition (\<^verbatim>\<open>partition.cpp\<close>): the directory scan, replay of data files in chunks,
  hint files, the statistics and the new active file. The read buffer of a replay is the
  list of its unread bytes. A loop that stops making progress, which needs a record of a
  multiple of 4 GiB, is the outcome \<open>Diverges\<close>, which no caller catches.
\<close>

section \<open>Directory scan\<close>

definition is_space :: "char \<Rightarrow> bool" where
  "is_space c \<longleftrightarrow> c = CHR '' '' \<or> (9 \<le> (of_char c :: nat) \<and> (of_char c :: nat) \<le> 13)"

text \<open>\<^verbatim>\<open>std::stoull\<close>: \<open>None\<close> is the exception. A minus sign negates modulo \<open>2 ^ 64\<close>.\<close>

definition stoull :: "string \<Rightarrow> u64 option" where
  "stoull str =
     (let t = dropWhile is_space str;
          neg = (t \<noteq> [] \<and> hd t = CHR ''-'');
          body = (if t \<noteq> [] \<and> (hd t = CHR ''-'' \<or> hd t = CHR ''+'') then tl t else t);
          ds = takeWhile is_digit body;
          v = digits_val ds
      in if ds = [] then None
         else if 2 ^ 64 \<le> v then None
         else Some (if neg then - of_nat v else of_nat v))"

definition parse_data_name :: "string \<Rightarrow> u64 option" where
  "parse_data_name filename =
     (let prefix_len = length kDataFilePrefix;
          ext_len = length kDataFileExtension
      in if length filename \<le> prefix_len + ext_len then None
         else if take prefix_len filename \<noteq> kDataFilePrefix \<or>
                 drop (length filename - ext_len) filename \<noteq> kDataFileExtension then None
         else stoull (subspan prefix_len (length filename - prefix_len - ext_len) filename))"

definition replay_rank :: "u64 \<Rightarrow> nat" where
  "replay_rank i = unat (fid_timestamp_sec (FileID_Decode i)) * 2 ^ 16 + unat (fid_sequence (FileID_Decode i))"

definition ScanDataFiles :: "'w env \<Rightarrow> 'w Partition \<Rightarrow> u64 list" where
  "ScanDataFiles E s =
     (case env_list_dir E (partition_dir (p_config s) (p_partition_id s)) (p_world s) of
        None \<Rightarrow> []
      | Some names \<Rightarrow> sort_key replay_rank (List.map_filter parse_data_name names))"

section \<open>Replaying a data file\<close>

definition replay_loc :: "u64 \<Rightarrow> nat \<Rightarrow> DataEntry \<Rightarrow> ValueLocation" where
  "replay_loc file_id entry_offset e =
     \<lparr>loc_file_id = file_id, loc_offset = entry_offset, loc_total_size = DataEntry_Size e,
      loc_timestamp_ns = DataEntry_GetTimestamp e\<rparr>"

function RecoverDataFromBuffer ::
  "(bytes \<Rightarrow> u32) \<Rightarrow> u64 \<Rightarrow> nat \<Rightarrow> nat \<Rightarrow> nat \<Rightarrow> KeyDir \<times> bytes \<Rightarrow> (Error + nat \<times> nat) \<times> KeyDir \<times> bytes" where
  "RecoverDataFromBuffer crc file_id file_read_position entries_recovered entries_skipped (kd, buffer) =
     (if length buffer < kEntryFixedHeaderSize then (Inr (entries_recovered, entries_skipped), (kd, buffer))
      else
        case DataEntry_Deserialize crc buffer of
          Inl e \<Rightarrow>
            if error_val e = KIoNeedMoreData then (Inr (entries_recovered, entries_skipped), (kd, buffer))
            else (Inl e, (kd, buffer))
        | Inr entry \<Rightarrow>
            let entry_offset = sz_sub file_read_position (length buffer);
                rest = drop (DataEntry_Size entry) buffer
            in if DataEntry_Size entry = 0 then (Inl diverges, (kd, buffer))
               else if DataEntry_IsTombstone entry then
                 RecoverDataFromBuffer crc file_id file_read_position entries_recovered (sz_add entries_skipped 1)
                   (AList.delete (key_view entry) kd, rest)
               else
                 RecoverDataFromBuffer crc file_id file_read_position (sz_add entries_recovered 1) entries_skipped
                   (AList.update (key_view entry) (replay_loc file_id entry_offset entry) kd, rest))"
  by pat_completeness auto
termination
  by (relation "measure (\<lambda>(crc, i, pos, a, b, kd, buffer). length buffer)") (auto simp: kEntryFixedHeaderSize_def)

declare RecoverDataFromBuffer.simps [simp del]

function recover_read_loop :: "'w env \<Rightarrow> u64 \<Rightarrow> int \<Rightarrow> nat \<Rightarrow> nat \<Rightarrow> bytes \<Rightarrow> ('w Partition, unit) task" where
  "recover_read_loop E file_id fd file_size file_read_position buffer s =
     (if file_size \<le> file_read_position then (Inr (), s)
      else
        let bytes_to_read = min (env_room E (length buffer) (read_buffer_size (p_config s)) (p_world s))
              (file_size - file_read_position)
        in case env_read_at E fd bytes_to_read file_read_position (p_world s) of
             (Inl e, w) \<Rightarrow> (Inl e, s\<lparr>p_world := w\<rparr>)
           | (Inr bs, w) \<Rightarrow>
               if bs = [] then (Inr (), s\<lparr>p_world := w\<rparr>)
               else
                 let file_read_position = file_read_position + length bs
                 in case RecoverDataFromBuffer (env_crc E) file_id file_read_position 0 0 (p_keydir s, buffer @ bs) of
                      (Inl e, (kd, _)) \<Rightarrow>
                        (if error_val e = Diverges then Inl e else Inr (), s\<lparr>p_keydir := kd, p_world := w\<rparr>)
                    | (Inr _, (kd, rest)) \<Rightarrow>
                        recover_read_loop E file_id fd file_size file_read_position rest (s\<lparr>p_keydir := kd, p_world := w\<rparr>))"
  by pat_completeness auto
termination
  by (relation "measure (\<lambda>(E, i, fd, size, pos, b, s). size - pos)") (auto simp: neq_Nil_conv intro!: diff_less_mono2)

declare recover_read_loop.simps [simp del]

definition RecoverFromDataFile :: "'w env \<Rightarrow> int \<Rightarrow> u64 \<Rightarrow> ('w Partition, unit) task" where
  "RecoverFromDataFile E fd file_id s =
     (case env_fstat_size E fd (p_world s) of
        Inl e \<Rightarrow> (Inl e, s)
      | Inr file_size \<Rightarrow> if file_size = 0 then (Inr (), s) else recover_read_loop E file_id fd file_size 0 [] s)"

section \<open>Hint files\<close>

text \<open>\<^verbatim>\<open>ReadFileContent\<close> and the whole-file read of \<^verbatim>\<open>RecoverFromHintFile\<close>.\<close>

definition ReadFileContent :: "'w env \<Rightarrow> int \<Rightarrow> ('w, bytes) task" where
  "ReadFileContent E fd w =
     (case env_fstat_size E fd w of
        Inl e \<Rightarrow> (Inl e, w)
      | Inr n \<Rightarrow> if n = 0 then (Inr [], w) else env_read_exact_at E fd n 0 w)"

definition hint_loc :: "u64 \<Rightarrow> HintEntry \<Rightarrow> ValueLocation" where
  "hint_loc file_id h =
     \<lparr>loc_file_id = file_id, loc_offset = unat (h_offset h), loc_total_size = unat (h_size h), loc_timestamp_ns = h_timestamp_ns h\<rparr>"

function recover_hints :: "u64 \<Rightarrow> bytes \<Rightarrow> KeyDir \<Rightarrow> (Error + unit) \<times> KeyDir" where
  "recover_hints file_id remaining kd =
     (if length remaining < kHintHeaderSize then (Inr (), kd)
      else
        case HintEntry_Deserialize remaining of
          Inl e \<Rightarrow> if error_val e = KIoNeedMoreData then (Inr (), kd) else (Inl e, kd)
        | Inr (hint, consumed) \<Rightarrow>
            recover_hints file_id (drop consumed remaining) (AList.update (h_key hint) (hint_loc file_id hint) kd))"
  by pat_completeness auto
termination
  by (relation "measure (\<lambda>(i, bs, kd). length bs)")
    (auto simp: HintEntry_Deserialize_def Let_def kHintHeaderSize_def split: if_splits)

declare recover_hints.simps [simp del]

definition RecoverFromHintFile :: "'w env \<Rightarrow> int \<Rightarrow> u64 \<Rightarrow> ('w Partition, unit) task" where
  "RecoverFromHintFile E fd file_id s =
     (case env_fstat_size E fd (p_world s) of
        Inl e \<Rightarrow> (Inl e, s)
      | Inr file_size \<Rightarrow>
          if file_size = 0 then (Inr (), s)
          else co_try (on_world (env_read_exact_at E fd file_size 0))
                 (\<lambda>buffer s. case recover_hints file_id buffer (p_keydir s) of (r, kd) \<Rightarrow> (r, s\<lparr>p_keydir := kd\<rparr>)) s)"

definition TryRecoverFromHint :: "'w env \<Rightarrow> u64 \<Rightarrow> 'w Partition \<Rightarrow> bool \<times> 'w Partition" where
  "TryRecoverFromHint E file_id s =
     (let path = GetHintFilePath file_id s
      in if \<not> env_exists E path (p_world s) then (False, s)
         else case env_open E path (read_flags (p_config s)) (file_mode (p_config s)) (p_world s) of
           (Inl e, w) \<Rightarrow> (False, s\<lparr>p_world := w\<rparr>)
         | (Inr fd, w) \<Rightarrow>
             (case RecoverFromHintFile E fd file_id (s\<lparr>p_world := w\<rparr>) of
                (r, s') \<Rightarrow> ((case r of Inl _ \<Rightarrow> False | Inr _ \<Rightarrow> True),
                           s'\<lparr>p_world := snd (FileHandle_CloseFd E fd (p_world s'))\<rparr>)))"

section \<open>Recovery\<close>

definition init_stats :: "'w env \<Rightarrow> u64 list \<Rightarrow> 'w Partition \<Rightarrow> 'w Partition" where
  "init_stats E files s =
     foldl (\<lambda>s file_id.
        if env_exists E (GetDataFilePath file_id s) (p_world s)
        then upd_stats (upd_file_stats file_id (\<lambda>f. f\<lparr>total_bytes := env_file_size E (GetDataFilePath file_id s) (p_world s)\<rparr>)) s
        else s) s files"

fun recover_files :: "'w env \<Rightarrow> u64 list \<Rightarrow> ('w Partition, unit) task" where
  "recover_files E [] s = (Inr (), s)"
| "recover_files E (file_id # files) s =
     (case TryRecoverFromHint E file_id s of
        (True, s) \<Rightarrow> recover_files E files s
      | (False, s) \<Rightarrow>
          co_try (on_world (env_open E (GetDataFilePath file_id s) (read_flags (p_config s)) (file_mode (p_config s))))
            (\<lambda>fd s.
               case RecoverFromDataFile E fd file_id s of
                 (r, s) \<Rightarrow>
                   if r = Inl diverges then (r, s)
                   else recover_files E files (s\<lparr>p_world := snd (FileHandle_CloseFd E fd (p_world s))\<rparr>)) s)"

definition live_stats :: "KeyDir \<Rightarrow> PartitionStats \<Rightarrow> PartitionStats" where
  "live_stats kd st =
     foldl (\<lambda>st (_, loc). upd_file_stats (loc_file_id loc)
       (\<lambda>f. f\<lparr>live_bytes := sz_add (live_bytes f) (loc_total_size loc), live_entries := sz_add (live_entries f) 1\<rparr>) st) st kd"

definition max_id :: "u64 list \<Rightarrow> u64" where
  "max_id files = foldl max 0 files"

definition Recover :: "'w env \<Rightarrow> u32 \<Rightarrow> ('w Partition, unit) task" where
  "Recover E now s =
     (let files = ScanDataFiles E s
      in co_try (recover_files E files)
           (\<lambda>_ s.
              let s = upd_stats (live_stats (p_keydir s)) s;
                  max_file_id = max_id files;
                  s = (if 0 < max_file_id
                       then let decoded = FileID_Decode max_file_id
                            in s\<lparr>p_file_id_gen := FileIdGenerator_UpdateState (fid_timestamp_sec decoded)
                                   (fid_sequence decoded) (p_file_id_gen s)\<rparr>
                       else s)
              in CreateAndSetActiveFile E now s)
           (init_stats E files s))"

text \<open>
  \<^verbatim>\<open>Open\<close>: the recovered partition, and which background loops it has started (compaction,
  periodic synchronisation).
\<close>

definition Partition_Open :: "'w env \<Rightarrow> BitcaskConfig \<Rightarrow> nat \<Rightarrow> u32 \<Rightarrow> 'w \<Rightarrow> (Error + 'w Partition \<times> bool \<times> bool) \<times> 'w" where
  "Partition_Open E config part_id now w =
     (case Recover E now (mk_Partition config part_id w) of
        (Inl e, s) \<Rightarrow> (Inl e, p_world s)
      | (Inr _, s) \<Rightarrow> (Inr (s, auto_compact config, \<not> sync_on_write config), p_world s))"

section \<open>Replay does not depend on how the file is cut into reads\<close>

text \<open>What the decoder decides about a buffer it keeps deciding when more bytes follow.\<close>

lemma ReadLe_append:
  assumes "off + LENGTH('a::len) div 8 \<le> length xs"
  shows "(ReadLe off (xs @ ys) :: 'a word) = ReadLe off xs"
  using ReadLe_prefix [of off "length xs" "xs @ ys", where 'a = 'a] assms by simp

lemma Deserialize_append:
  assumes "DataEntry_Deserialize crc xs = r" and "r \<noteq> Inl need_more_data"
  shows "DataEntry_Deserialize crc (xs @ ys) = r"
proof -
  from assms have l: "21 \<le> length xs" by (auto simp: DataEntry_Deserialize_def kEntryFixedHeaderSize_def split: if_splits)
  have f: "(ReadLe 0 (xs @ ys) :: u32) = ReadLe 0 xs" "(ReadLe 4 (xs @ ys) :: u64) = ReadLe 4 xs"
    "(ReadLe 12 (xs @ ys) :: u8) = ReadLe 12 xs" "(ReadLe 13 (xs @ ys) :: u32) = ReadLe 13 xs"
    "(ReadLe 17 (xs @ ys) :: u32) = ReadLe 17 xs"
    using l by (simp_all add: ReadLe_append)
  let ?k = "unat (ReadLe 13 xs :: u32)" and ?v = "unat (ReadLe 17 xs :: u32)"
  from assms l have n: "21 + ?k + ?v \<le> length xs"
    by (auto simp: DataEntry_Deserialize_def kEntryFixedHeaderSize_def Let_def split: if_splits)
  have "subspan 4 (17 + ?k + ?v) (xs @ ys) = subspan 4 (17 + ?k + ?v) xs" "subspan 21 ?k (xs @ ys) = subspan 21 ?k xs"
    "subspan (21 + ?k) ?v (xs @ ys) = subspan (21 + ?k) ?v xs"
    using n by (simp_all add: subspan_append1)
  with n show ?thesis
    unfolding assms(1) [symmetric] by (simp add: DataEntry_Deserialize_def kEntryFixedHeaderSize_def Let_def f)
qed

lemma Deserialize_size:
  assumes "DataEntry_Deserialize crc xs = Inr e"
  shows "DataEntry_Size e \<le> length xs"
proof -
  from DataEntry_Deserialize_sound [OF assms] obtain key val flag ts where
    e: "length key < 2 ^ 32" "length val < 2 ^ 32" "e = mk_DataEntry crc key val flag ts" "21 + length key + length val \<le> length xs"
    by blast
  have "trunc32 (21 + length key + length val) \<le> 21 + length key + length val" by (simp add: trunc32_def)
  with e show ?thesis by (simp add: DataEntry_Size_def payload_mk_DataEntry)
qed

lemma Deserialize_error: "DataEntry_Deserialize crc xs = Inl e \<Longrightarrow> e = need_more_data \<or> e = data_corrupted"
  by (auto simp: DataEntry_Deserialize_def Let_def split: if_splits)

lemma sz_sub_shift:
  assumes "b \<le> a" and "a + n < size_limit"
  shows "sz_sub (a + n) (b + n) = sz_sub a b"
  using assms by (simp add: sz_sub_eq)

text \<open>The three ways one round of the replay loop goes.\<close>

definition replay_entry :: "u64 \<Rightarrow> nat \<Rightarrow> DataEntry \<Rightarrow> KeyDir \<Rightarrow> KeyDir" where
  "replay_entry file_id off e kd =
     (if DataEntry_IsTombstone e then AList.delete (key_view e) kd
      else AList.update (key_view e) (replay_loc file_id off e) kd)"

lemma Recover_need_more:
  assumes "DataEntry_Deserialize crc xs = Inl need_more_data"
  shows "RecoverDataFromBuffer crc i pos a b (kd, xs) = (Inr (a, b), (kd, xs))"
  using assms by (simp add: RecoverDataFromBuffer.simps)

lemma Recover_corrupted:
  assumes "DataEntry_Deserialize crc xs = Inl data_corrupted"
  shows "RecoverDataFromBuffer crc i pos a b (kd, xs) = (Inl data_corrupted, (kd, xs))"
  using assms
  by (cases "length xs < kEntryFixedHeaderSize") (simp_all add: RecoverDataFromBuffer.simps, simp add: DataEntry_Deserialize_def)

lemma Recover_entry:
  assumes "DataEntry_Deserialize crc xs = Inr e"
  shows "RecoverDataFromBuffer crc i pos a b (kd, xs) =
    (if DataEntry_Size e = 0 then (Inl diverges, (kd, xs))
     else RecoverDataFromBuffer crc i pos (if DataEntry_IsTombstone e then a else sz_add a 1)
            (if DataEntry_IsTombstone e then sz_add b 1 else b)
            (replay_entry i (sz_sub pos (length xs)) e kd, drop (DataEntry_Size e) xs))"
proof -
  have "\<not> length xs < kEntryFixedHeaderSize" using assms by (auto simp: DataEntry_Deserialize_def split: if_splits)
  with assms show ?thesis
    by (subst RecoverDataFromBuffer.simps) (simp add: Let_def replay_entry_def)
qed

text \<open>Induction along the replay loop.\<close>

lemma Recover_induct [case_names need bad stuck entry]:
  assumes need: "\<And>a b kd xs. DataEntry_Deserialize crc xs = Inl need_more_data \<Longrightarrow> P a b kd xs"
    and bad: "\<And>a b kd xs. DataEntry_Deserialize crc xs = Inl data_corrupted \<Longrightarrow> P a b kd xs"
    and stuck: "\<And>a b kd xs e. DataEntry_Deserialize crc xs = Inr e \<Longrightarrow> DataEntry_Size e = 0 \<Longrightarrow> P a b kd xs"
    and entry: "\<And>a b kd xs e. DataEntry_Deserialize crc xs = Inr e \<Longrightarrow> DataEntry_Size e \<noteq> 0 \<Longrightarrow> DataEntry_Size e \<le> length xs \<Longrightarrow>
      P (if DataEntry_IsTombstone e then a else sz_add a 1) (if DataEntry_IsTombstone e then sz_add b 1 else b)
        (replay_entry i (sz_sub pos (length xs)) e kd) (drop (DataEntry_Size e) xs) \<Longrightarrow> P a b kd xs"
  shows "P a b kd xs"
proof (induction "length xs" arbitrary: a b kd xs rule: less_induct)
  case less
  show ?case
  proof (cases "DataEntry_Deserialize crc xs")
    case (Inl e)
    with Deserialize_error [OF Inl] need bad show ?thesis by blast
  next
    case (Inr e)
    note sz = Deserialize_size [OF Inr]
    show ?thesis
    proof (cases "DataEntry_Size e = 0")
      case True
      with Inr show ?thesis by (rule stuck)
    next
      case False
      then have "length (drop (DataEntry_Size e) xs) < length xs" using sz by (cases xs) auto
      with entry [OF Inr False sz] less show ?thesis by blast
    qed
  qed
qed

text \<open>
  One pass over a buffer and a second one after more bytes have arrived do the same as a
  single pass over all of them.
\<close>

lemma RecoverDataFromBuffer_append:
  assumes "RecoverDataFromBuffer crc i pos a b (kd, xs) = (r, (kd', rest))"
    and "length xs \<le> pos" and "pos + length zs < size_limit"
  shows "case r of
      Inl e \<Rightarrow> RecoverDataFromBuffer crc i (pos + length zs) a b (kd, xs @ zs) = (Inl e, (kd', rest @ zs))
    | Inr (a', b') \<Rightarrow> RecoverDataFromBuffer crc i (pos + length zs) a b (kd, xs @ zs) =
        RecoverDataFromBuffer crc i (pos + length zs) a' b' (kd', rest @ zs)"
  using assms(1,2)
proof (induction a b kd xs rule: Recover_induct [of crc _ i pos])
  case (need a b kd xs)
  then show ?case by (auto simp: Recover_need_more)
next
  case (bad a b kd xs)
  then have "DataEntry_Deserialize crc (xs @ zs) = Inl data_corrupted" by (intro Deserialize_append) simp_all
  with bad show ?case by (auto simp: Recover_corrupted)
next
  case (stuck a b kd xs e)
  have app: "DataEntry_Deserialize crc (xs @ zs) = Inr e" using stuck(1) by (rule Deserialize_append) simp
  from stuck have "r = Inl diverges" "kd' = kd" "rest = xs" by (simp_all add: Recover_entry [OF stuck(1)])
  with stuck(2) show ?case by (simp add: Recover_entry [OF app])
next
  case (entry a b kd xs e)
  let ?a = "if DataEntry_IsTombstone e then a else sz_add a 1" and ?b = "if DataEntry_IsTombstone e then sz_add b 1 else b"
  let ?kd = "replay_entry i (sz_sub pos (length xs)) e kd" and ?n = "DataEntry_Size e"
  have app: "DataEntry_Deserialize crc (xs @ zs) = Inr e" using entry(1) by (rule Deserialize_append) simp
  have off: "sz_sub (pos + length zs) (length xs + length zs) = sz_sub pos (length xs)"
    using entry.prems(2) assms(3) by (intro sz_sub_shift)
  have r: "RecoverDataFromBuffer crc i pos ?a ?b (?kd, drop ?n xs) = (r, (kd', rest))"
    using entry(2) entry.prems(1) by (simp only: Recover_entry [OF entry(1)] if_False)
  have eq: "RecoverDataFromBuffer crc i (pos + length zs) a b (kd, xs @ zs) =
      RecoverDataFromBuffer crc i (pos + length zs) ?a ?b (?kd, drop ?n xs @ zs)"
    using entry(2,3) by (simp only: Recover_entry [OF app] if_False length_append off) simp
  have "length (drop ?n xs) \<le> pos" using entry.prems(2) by simp
  from entry.IH [OF r this] show ?case unfolding eq .
qed

text \<open>The counters are only reported.\<close>

lemma Recover_counters:
  "RecoverDataFromBuffer crc i pos a b (kd, xs) = (r, t) \<Longrightarrow>
     \<exists>r'. RecoverDataFromBuffer crc i pos a' b' (kd, xs) = (r', t) \<and> (\<forall>e. r' = Inl e \<longleftrightarrow> r = Inl e)"
proof (induction a b kd xs arbitrary: a' b' rule: Recover_induct [of crc _ i pos])
  case (entry a b kd xs e)
  from entry.IH entry.prems entry(2) show ?case by (simp add: Recover_entry [OF entry(1)])
qed (auto simp: Recover_need_more Recover_corrupted Recover_entry)

text \<open>What is left in the buffer is the beginning of a record.\<close>

lemma Recover_rest:
  "RecoverDataFromBuffer crc i pos a b (kd, xs) = (r, (kd', rest)) \<Longrightarrow>
     length rest \<le> length xs \<and> (\<forall>n. r = Inr n \<longrightarrow> DataEntry_Deserialize crc rest = Inl need_more_data)"
proof (induction a b kd xs rule: Recover_induct [of crc _ i pos])
  case (entry a b kd xs e)
  then have "RecoverDataFromBuffer crc i pos (if DataEntry_IsTombstone e then a else sz_add a 1)
      (if DataEntry_IsTombstone e then sz_add b 1 else b)
      (replay_entry i (sz_sub pos (length xs)) e kd, drop (DataEntry_Size e) xs) = (r, (kd', rest))"
    by (simp only: Recover_entry [OF entry(1)] if_False)
  from entry.IH [OF this] show ?case by auto
qed (auto simp: Recover_need_more Recover_corrupted Recover_entry)

lemma Recover_errors:
  "RecoverDataFromBuffer crc i pos a b (kd, xs) = (Inl e, t) \<Longrightarrow> e = data_corrupted \<or> e = diverges"
proof (induction a b kd xs rule: Recover_induct [of crc _ i pos])
  case (entry a b kd xs x)
  from entry.IH entry.prems entry(2) show ?case by (simp add: Recover_entry [OF entry(1)])
qed (auto simp: Recover_need_more Recover_corrupted Recover_entry)

context posix_env
begin

text \<open>
  The reading loop, whatever the sizes of its reads: if it ends without an error, the
  directory is the one a single pass over the file gives; an error is that of a read, or
  the single pass would not end.
\<close>

lemma recover_read_loop_any:
  assumes "recover_read_loop E i fd (length c) pos buffer s = (r, s')"
    and "opened (p_world s) fd = Some p" and "content (p_world s) p = Some c" and "length c < size_limit"
    and "0 < read_buffer_size (p_config s)" and "pos \<le> length c" and "length buffer \<le> pos"
    and "DataEntry_Deserialize (env_crc E) buffer = Inl need_more_data"
  shows "(\<exists>kd w. s' = s\<lparr>p_keydir := kd, p_world := w\<rparr> \<and> content w = content (p_world s) \<and> opened w = opened (p_world s)) \<and>
    (r = Inr () \<longrightarrow> (\<exists>q rest. RecoverDataFromBuffer (env_crc E) i (length c) 0 0 (p_keydir s, buffer @ drop pos c) = (q, (p_keydir s', rest)) \<and>
       q \<noteq> Inl diverges)) \<and>
    (\<forall>e. r = Inl e \<longrightarrow> (\<exists>n off v v'. env_read_at E fd n off v = (Inl e, v') \<and> opened v fd = Some p \<and> content v p = Some c) \<or>
       (\<exists>t. RecoverDataFromBuffer (env_crc E) i (length c) 0 0 (p_keydir s, buffer @ drop pos c) = (Inl diverges, t)))"
  using assms
proof (induction "length c - pos" arbitrary: pos buffer s rule: less_induct)
  case less
  note R = less.prems(1) [unfolded recover_read_loop.simps [of E i fd _ pos]]
  show ?case
  proof (cases "length c \<le> pos")
    case True
    with R have s': "s' = s" "r = Inr ()" by simp_all
    with True less.prems(8) show ?thesis
      by (auto simp: Recover_need_more diverges_def intro!: exI [of _ "p_keydir s"] exI [of _ "p_world s"])
  next
    case False
    let ?n = "min (env_room E (length buffer) (read_buffer_size (p_config s)) (p_world s)) (length c - pos)"
    obtain q w where rd: "env_read_at E fd ?n pos (p_world s) = (q, w)" by (metis surj_pair)
    note rda = read_at_any [OF rd]
    have w: "content w = content (p_world s)" "opened w = opened (p_world s)" using rda by blast+
    show ?thesis
    proof (cases q)
      case (Inl e)
      with R rd False have "r = Inl e" "s' = s\<lparr>p_world := w\<rparr>" by (simp_all add: Let_def)
      moreover have "\<exists>n off v v'. env_read_at E fd n off v = (Inl e, v') \<and> opened v fd = Some p \<and> content v p = Some c"
        using rd Inl less.prems(2,3) by blast
      ultimately show ?thesis using w by (auto intro!: exI [of _ "p_keydir s"])
    next
      case (Inr bs)
      have "0 < ?n" using room [of "read_buffer_size (p_config s)" "length buffer" "p_world s"] less.prems(5) False by auto
      with rda Inr less.prems(2,3) False obtain n where n: "bs = subspan pos n c" "n \<le> length c - pos" "bs \<noteq> []" by auto
      have bl: "length bs = n" "0 < length bs" using n(1,2) n(3) [folded length_greater_0_conv] by simp_all
      have split: "drop pos c = bs @ drop (pos + length bs) c" using n bl by (simp add: subspan_def add.commute flip: drop_drop)
      obtain k kd1 rest1 where p1: "RecoverDataFromBuffer (env_crc E) i (pos + length bs) 0 0 (p_keydir s, buffer @ bs) = (k, (kd1, rest1))"
        by (metis surj_pair)
      have pos1: "pos + length bs + length (drop (pos + length bs) c) = length c" using bl(1) n(2) False by simp
      have ap: "case k of
            Inl e \<Rightarrow> RecoverDataFromBuffer (env_crc E) i (length c) 0 0 (p_keydir s, buffer @ drop pos c) = (Inl e, (kd1, rest1 @ drop (pos + length bs) c))
          | Inr (a', b') \<Rightarrow> RecoverDataFromBuffer (env_crc E) i (length c) 0 0 (p_keydir s, buffer @ drop pos c) =
              RecoverDataFromBuffer (env_crc E) i (length c) a' b' (kd1, rest1 @ drop (pos + length bs) c)"
        using RecoverDataFromBuffer_append [OF p1, of "drop (pos + length bs) c"] less.prems(4,7) unfolding pos1 split append_assoc by simp
      let ?s1 = "s\<lparr>p_keydir := kd1, p_world := w\<rparr>"
      show ?thesis
      proof (cases k)
        case (Inl e)
        with R rd \<open>q = Inr bs\<close> False n(3) p1 have "s' = ?s1" "r = (if error_val e = Diverges then Inl e else Inr ())"
          by (simp_all add: Let_def)
        moreover have "e = data_corrupted \<or> e = diverges" using Recover_errors p1 Inl by blast
        ultimately show ?thesis using ap Inl w by (auto simp: diverges_def data_corrupted_def split: if_splits)
      next
        case (Inr ab)
        obtain a' b' where ab: "ab = (a', b')" by (cases ab)
        from R rd \<open>q = Inr bs\<close> False n(3) p1 Inr have loop: "recover_read_loop E i fd (length c) (pos + length bs) rest1 ?s1 = (r, s')"
          by (simp add: Let_def)
        have rest: "length rest1 \<le> length (buffer @ bs)" "DataEntry_Deserialize (env_crc E) rest1 = Inl need_more_data"
          using Recover_rest [OF p1] Inr by blast+
        have lt: "length c - (pos + length bs) < length c - pos" using bl(2) False by linarith
        note IH = less.hyps [OF lt loop]
        have I: "((\<exists>kd v. s' = ?s1\<lparr>p_keydir := kd, p_world := v\<rparr> \<and> content v = content (p_world ?s1) \<and> opened v = opened (p_world ?s1)) \<and>
          (r = Inr () \<longrightarrow> (\<exists>q rest. RecoverDataFromBuffer (env_crc E) i (length c) 0 0 (p_keydir ?s1, rest1 @ drop (pos + length bs) c) = (q, (p_keydir s', rest)) \<and> q \<noteq> Inl diverges))) \<and>
          (\<forall>e. r = Inl e \<longrightarrow> (\<exists>n off v v'. env_read_at E fd n off v = (Inl e, v') \<and> opened v fd = Some p \<and> content v p = Some c) \<or>
            (\<exists>t. RecoverDataFromBuffer (env_crc E) i (length c) 0 0 (p_keydir ?s1, rest1 @ drop (pos + length bs) c) = (Inl diverges, t)))"
          unfolding conj_assoc by (rule IH) (use w less.prems rest bl n(2) False in simp_all)
        have "\<exists>q rest. RecoverDataFromBuffer (env_crc E) i (length c) 0 0 (p_keydir s, buffer @ drop pos c) = (q, (p_keydir s', rest)) \<and> q \<noteq> Inl diverges"
          if "r = Inr ()"
        proof -
          from I that obtain q2 rest2 where "RecoverDataFromBuffer (env_crc E) i (length c) 0 0 (kd1, rest1 @ drop (pos + length bs) c) = (q2, (p_keydir s', rest2))"
            "q2 \<noteq> Inl diverges" by auto
          with Recover_counters [OF this(1), of a' b'] ap Inr ab show ?thesis by auto
        qed
        moreover have "\<exists>t. RecoverDataFromBuffer (env_crc E) i (length c) 0 0 (p_keydir s, buffer @ drop pos c) = (Inl diverges, t)"
          if "RecoverDataFromBuffer (env_crc E) i (length c) 0 0 (kd1, rest1 @ drop (pos + length bs) c) = (Inl diverges, t)" for t
          using Recover_counters [OF that, of a' b'] ap Inr ab by auto
        ultimately show ?thesis using I w by auto
      qed
    qed
  qed
qed

end

section \<open>Replay of a sequence of records\<close>

text \<open>A record as it was written: key, value, flag, timestamp.\<close>

type_synonym log_record = "bytes \<times> bytes \<times> u8 \<times> u64"

definition is_tombstone :: "u8 \<Rightarrow> bool" where
  "is_tombstone f \<longleftrightarrow> f AND kFlagTombstone \<noteq> 0"

fun replay :: "u64 \<Rightarrow> nat \<Rightarrow> log_record list \<Rightarrow> KeyDir \<Rightarrow> KeyDir" where
  "replay i off [] kd = kd"
| "replay i off ((k, v, f, t) # rs) kd =
     replay i (off + 21 + length k + length v) rs
       (if is_tombstone f then AList.delete k kd
        else AList.update k \<lparr>loc_file_id = i, loc_offset = off, loc_total_size = 21 + length k + length v, loc_timestamp_ns = t\<rparr> kd)"

definition record_fits :: "log_record \<Rightarrow> bool" where
  "record_fits r \<longleftrightarrow> (case r of (k, v, f, t) \<Rightarrow> 21 + length k + length v < 2 ^ 32)"

definition log_bytes :: "(bytes \<Rightarrow> u32) \<Rightarrow> log_record list \<Rightarrow> bytes" where
  "log_bytes crc rs = concat (map (entry_enc crc) rs)"

lemma log_bytes_simps [simp]:
  "log_bytes crc [] = []" "log_bytes crc (r # rs) = entry_enc crc r @ log_bytes crc rs"
  by (simp_all add: log_bytes_def)

lemma entry_enc_image: "record_fits (k, v, f, t) \<Longrightarrow> entry_enc crc (k, v, f, t) = entry_image crc k v f t"
  by (simp add: record_fits_def entry_enc_def payload_mk_DataEntry)

lemma Recover_records:
  assumes "\<forall>r \<in> set rs. record_fits r" and "pos = off + length (log_bytes crc rs @ tail)" and "pos < size_limit"
    and "DataEntry_Deserialize crc tail = Inl e"
  shows "\<exists>q. RecoverDataFromBuffer crc i pos a b (kd, log_bytes crc rs @ tail) = (q, (replay i off rs kd, tail)) \<and> q \<noteq> Inl diverges"
  using assms(1,2)
proof (induction rs arbitrary: off a b kd)
  case Nil
  with Deserialize_error [OF assms(4)] assms(4) show ?case
    by (auto simp: Recover_need_more Recover_corrupted diverges_def data_corrupted_def)
next
  case (Cons r rs)
  obtain k v f t where r: "r = (k, v, f, t)" by (cases r)
  have fit: "record_fits (k, v, f, t)" using Cons.prems r by simp
  then have len: "length k < 2 ^ 32" "length v < 2 ^ 32" "21 + length k + length v < 2 ^ 32" by (simp_all add: record_fits_def)
  let ?e = "mk_DataEntry crc k v f t" and ?n = "21 + length k + length v"
  let ?xs = "log_bytes crc (r # rs) @ tail"
  have img: "?xs = entry_image crc k v f t @ log_bytes crc rs @ tail" by (simp add: r entry_enc_image [OF fit])
  have d: "DataEntry_Deserialize crc ?xs = Inr ?e" unfolding img by (rule DataEntry_Deserialize_image [OF len(1,2)])
  have sz: "DataEntry_Size ?e = ?n" using len by (simp add: DataEntry_Size_def payload_mk_DataEntry trunc32_eq)
  have off: "sz_sub pos (length ?xs) = off" using Cons.prems(2) assms(3) by (simp add: sz_sub_eq)
  have ent: "replay_entry i off ?e kd = (if is_tombstone f then AList.delete k kd
        else AList.update k \<lparr>loc_file_id = i, loc_offset = off, loc_total_size = ?n, loc_timestamp_ns = t\<rparr> kd)"
    using len by (simp add: replay_entry_def replay_loc_def DataEntry_IsTombstone_def is_tombstone_def DataEntry_fields DataEntry_views sz)
  have drop: "drop ?n ?xs = log_bytes crc rs @ tail" unfolding img by simp
  have "pos = (off + ?n) + length (log_bytes crc rs @ tail)" using Cons.prems(2) img by simp
  with Cons.prems(1) obtain q where
    "RecoverDataFromBuffer crc i pos (if DataEntry_IsTombstone ?e then a else sz_add a 1) (if DataEntry_IsTombstone ?e then sz_add b 1 else b)
      (replay_entry i off ?e kd, log_bytes crc rs @ tail) = (q, (replay i (off + ?n) rs (replay_entry i off ?e kd), tail)) \<and> q \<noteq> Inl diverges"
    using Cons.IH by (metis list.set_intros(2))
  then show ?case
    unfolding Recover_entry [OF d, of i pos a b kd] off drop sz by (simp add: r ent add.assoc)
qed

text \<open>What the records mean for the contents of the store.\<close>

fun apply_record :: "(bytes \<Rightarrow> bytes option) \<Rightarrow> log_record \<Rightarrow> bytes \<Rightarrow> bytes option" where
  "apply_record m (k, v, f, t) = (if is_tombstone f then m(k := None) else m(k \<mapsto> v))"

text \<open>Every entry of a directory points at an intact record that was written as live data.\<close>

definition dir_holds :: "(bytes \<Rightarrow> u32) \<Rightarrow> (path \<Rightarrow> bytes option) \<Rightarrow> (u64 \<Rightarrow> path) \<Rightarrow> KeyDir \<Rightarrow> (bytes \<Rightarrow> bytes option) \<Rightarrow> bool" where
  "dir_holds crc files name kd m \<longleftrightarrow>
     (\<forall>key. case find_loc kd key of
        None \<Rightarrow> m key = None
      | Some loc \<Rightarrow> \<exists>val. m key = Some val \<and> holds_entry crc files (name (loc_file_id loc)) loc key val)"

lemma dir_holds_view:
  assumes "dir_holds crc files (\<lambda>i. GetDataFilePath i s) (p_keydir s) m"
  shows "store_view files s = m"
proof
  fix key
  show "store_view files s key = m key"
  proof (cases "find_loc (p_keydir s) key")
    case None
    with assms show ?thesis by (auto simp: dir_holds_def store_view_def dest!: spec [of _ key])
  next
    case (Some loc)
    with assms obtain val where "m key = Some val" "holds_entry crc files (loc_path s loc) loc key val"
      by (auto simp: dir_holds_def loc_path_def GetDataFilePath_def dest!: spec [of _ key])
    with store_view_entry [OF Some] show ?thesis by simp
  qed
qed

text \<open>The flag of a live record in the files of the engine is exactly \<^verbatim>\<open>kFlagNone\<close>.\<close>

definition record_plain :: "log_record \<Rightarrow> bool" where
  "record_plain r \<longleftrightarrow> (case r of (k, v, f, t) \<Rightarrow> is_tombstone f \<or> f = kFlagNone)"

lemma replay_holds:
  assumes "\<forall>r \<in> set rs. record_fits r \<and> record_plain r" and "files (name i) = Some (pre @ log_bytes crc rs @ tail)"
    and "dir_holds crc files name kd m"
  shows "dir_holds crc files name (replay i (length pre) rs kd) (foldl apply_record m rs)"
  using assms
proof (induction rs arbitrary: pre kd m)
  case (Cons r rs)
  obtain k v f t where r: "r = (k, v, f, t)" by (cases r)
  have fit: "record_fits (k, v, f, t)" and pl: "record_plain (k, v, f, t)" using Cons.prems r by simp_all
  let ?loc = "\<lparr>loc_file_id = i, loc_offset = length pre, loc_total_size = 21 + length k + length v, loc_timestamp_ns = t\<rparr>"
  let ?kd = "if is_tombstone f then AList.delete k kd else AList.update k ?loc kd"
  have c: "files (name i) = Some (pre @ entry_image crc k v f t @ log_bytes crc rs @ tail)"
    using Cons.prems(2) by (simp add: r entry_enc_image [OF fit])
  have h: "holds_entry crc files (name i) ?loc k v" if "\<not> is_tombstone f"
    using that pl fit c by (simp add: holds_entry_def record_plain_def record_fits_def subspan_append1)
  have find: "find_loc ?kd key = (if key = k then if is_tombstone f then None else Some ?loc else find_loc kd key)" for key
    by (simp add: find_loc_def update_conv' delete_conv')
  have "dir_holds crc files name ?kd (apply_record m r)"
    unfolding dir_holds_def find r
  proof (rule allI)
    fix key
    show "case if key = k then if is_tombstone f then None else Some ?loc else find_loc kd key of
        None \<Rightarrow> apply_record m (k, v, f, t) key = None
      | Some loc \<Rightarrow> \<exists>val. apply_record m (k, v, f, t) key = Some val \<and> holds_entry crc files (name (loc_file_id loc)) loc key val"
      using Cons.prems(3) [unfolded dir_holds_def, rule_format, of key] h by (simp split: option.splits)
  qed
  moreover have "files (name i) = Some ((pre @ entry_image crc k v f t) @ log_bytes crc rs @ tail)" using c by simp
  ultimately have "dir_holds crc files name (replay i (length (pre @ entry_image crc k v f t)) rs ?kd) (foldl apply_record (apply_record m r) rs)"
    using Cons.prems(1) by (intro Cons.IH) simp_all
  then show ?case by (simp add: r add.assoc)
qed simp

section \<open>Hint files\<close>

lemma HintEntry_Deserialize_error: "HintEntry_Deserialize xs = Inl e \<Longrightarrow> e = need_more_data"
  by (auto simp: HintEntry_Deserialize_def Let_def split: if_splits)

lemma recover_hints_records:
  assumes "\<forall>h \<in> set hs. hint_fits h" and "HintEntry_Deserialize tail = Inl e"
  shows "recover_hints i (concat (map HintEntry_Serialize hs) @ tail) kd =
    (Inr (), foldl (\<lambda>kd h. AList.update (h_key h) (hint_loc i h) kd) kd hs)"
  using assms(1)
proof (induction hs arbitrary: kd)
  case Nil
  show ?case
    using assms(2) HintEntry_Deserialize_error [OF assms(2)] by (simp add: recover_hints.simps)
next
  case (Cons h hs)
  let ?xs = "HintEntry_Serialize h @ concat (map HintEntry_Serialize hs) @ tail"
  have h: "length (h_key h) < 2 ^ 32" using Cons.prems by (simp add: hint_fits_def)
  have d: "HintEntry_Deserialize ?xs = Inr (h, HintEntry_Size h)"
    using HintEntry_Deserialize_image [OF h] by (simp add: HintEntry_Serialize_eq [OF h])
  have n: "(length ?xs < kHintHeaderSize) = False" "drop (HintEntry_Size h) ?xs = concat (map HintEntry_Serialize hs) @ tail"
    by (simp_all add: HintEntry_Serialize_eq [OF h] kHintHeaderSize_def HintEntry_Size_def)
  have "recover_hints i ?xs kd = recover_hints i (concat (map HintEntry_Serialize hs) @ tail) (AList.update (h_key h) (hint_loc i h) kd)"
    by (subst recover_hints.simps) (simp only: d n if_False sum.case prod.case)
  with Cons show ?case by simp
qed

lemma find_loc_hints:
  "find_loc (foldl (\<lambda>kd h. AList.update (h_key h) (hint_loc i h) kd) kd hs) key =
     (case find (\<lambda>h. h_key h = key) (rev hs) of None \<Rightarrow> find_loc kd key | Some h \<Rightarrow> Some (hint_loc i h))"
proof (induction hs rule: rev_induct)
  case (snoc h hs)
  then show ?case by (simp add: find_loc_def update_conv')
qed simp

section \<open>Recovery of a whole partition\<close>

context reliable_env
begin

lemma RecoverFromDataFile_log:
  assumes fd: "opened (p_world s) fd = Some p" "content (p_world s) p = Some (log_bytes (env_crc E) rs @ tail)"
    and fit: "\<forall>r \<in> set rs. record_fits r" and len: "length (log_bytes (env_crc E) rs @ tail) < size_limit"
    and tail: "DataEntry_Deserialize (env_crc E) tail = Inl e" and buf: "0 < read_buffer_size (p_config s)"
  shows "\<exists>w. RecoverFromDataFile E fd i s = (Inr (), s\<lparr>p_keydir := replay i 0 rs (p_keydir s), p_world := w\<rparr>) \<and>
    content w = content (p_world s) \<and> opened w = opened (p_world s)"
proof (cases "log_bytes (env_crc E) rs @ tail = []")
  case True
  have "rs = []"
  proof (cases rs)
    case (Cons r rs')
    with True fit have "entry_enc (env_crc E) r = []" "record_fits r" by simp_all
    then show ?thesis by (cases r) (simp add: entry_enc_image entry_image_def entry_body_def flip: length_0_conv)
  qed
  with True fd fstat_succeeds [OF fd] show ?thesis
    by (intro exI [of _ "p_world s"]) (simp add: RecoverFromDataFile_def)
next
  case False
  let ?c = "log_bytes (env_crc E) rs @ tail"
  obtain r s' where l: "recover_read_loop E i fd (length ?c) 0 [] s = (r, s')" by (metis surj_pair)
  have st: "DataEntry_Deserialize (env_crc E) [] = Inl need_more_data" by (simp add: DataEntry_Deserialize_def kEntryFixedHeaderSize_def)
  obtain q where q: "RecoverDataFromBuffer (env_crc E) i (length ?c) 0 0 (p_keydir s, ?c) = (q, (replay i 0 rs (p_keydir s), tail))"
    "q \<noteq> Inl diverges"
    using Recover_records [OF fit _ len tail, where off = 0 and i = i and a = 0 and b = 0 and kd = "p_keydir s"] by auto
  note any = recover_read_loop_any [OF l fd len buf _ _ st, simplified]
  have "r = Inr ()"
  proof (cases r)
    case (Inl x)
    with any q have "\<exists>n off v v'. env_read_at E fd n off v = (Inl x, v') \<and> opened v fd = Some p \<and> content v p = Some ?c" by auto
    with read_at_succeeds show ?thesis by (metis Inl_Inr_False Pair_inject)
  qed simp
  with any q obtain kd w where "s' = s\<lparr>p_keydir := kd, p_world := w\<rparr>" "content w = content (p_world s)" "opened w = opened (p_world s)"
    "p_keydir s' = replay i 0 rs (p_keydir s)" by auto
  moreover have "RecoverFromDataFile E fd i s = (Inr (), s')"
    using fstat_succeeds [OF fd] False l \<open>r = Inr ()\<close> by (auto simp: RecoverFromDataFile_def)
  ultimately show ?thesis by auto
qed

end

text \<open>A file that is a sequence of whole records and something undecodable behind them.\<close>

definition log_file :: "(bytes \<Rightarrow> u32) \<Rightarrow> (path \<Rightarrow> bytes option) \<Rightarrow> path \<Rightarrow> log_record list \<Rightarrow> bytes \<Rightarrow> bool" where
  "log_file crc files p rs tail \<longleftrightarrow>
     files p = Some (log_bytes crc rs @ tail) \<and> length (log_bytes crc rs @ tail) < size_limit \<and>
     (\<forall>r \<in> set rs. record_fits r \<and> record_plain r) \<and> (\<exists>e. DataEntry_Deserialize crc tail = Inl e)"

lemma replay_ids:
  "find_loc (replay i off rs kd) key = Some loc \<Longrightarrow> loc_file_id loc = i \<or> find_loc kd key = Some loc"
proof (induction i off rs kd rule: replay.induct)
  case (2 i off k v f t rs kd)
  from 2(2) have "find_loc (replay i (off + 21 + length k + length v) rs (if is_tombstone f then AList.delete k kd
      else AList.update k \<lparr>loc_file_id = i, loc_offset = off, loc_total_size = 21 + length k + length v, loc_timestamp_ns = t\<rparr> kd)) key = Some loc"
    by simp
  from 2(1) [OF this] show ?case by (auto simp: find_loc_def update_conv' delete_conv' split: if_splits)
qed simp

context reliable_env
begin

lemma recover_one_file:
  assumes lf: "log_file (env_crc E) (content (p_world s)) (GetDataFilePath i s) rs tail"
    and hint: "content (p_world s) (GetHintFilePath i s) = None"
    and cfg: "0 < read_buffer_size (p_config s)" "read_flags (p_config s) AND O_TRUNC = 0"
  shows "\<exists>w. recover_files E (i # ids) s = recover_files E ids (s\<lparr>p_keydir := replay i 0 rs (p_keydir s), p_world := w\<rparr>) \<and>
    content w = content (p_world s) \<and> opened w = opened (p_world s)"
proof -
  let ?p = "GetDataFilePath i s"
  have no: "TryRecoverFromHint E i s = (False, s)" using hint exists_iff by (simp add: TryRecoverFromHint_def Let_def)
  obtain fd v where o: "env_open E ?p (read_flags (p_config s)) (file_mode (p_config s)) (p_world s) = (Inr fd, v)"
    using open_succeeds by blast
  note op = open_ok [OF o]
  obtain e where e: "DataEntry_Deserialize (env_crc E) tail = Inl e" using lf by (auto simp: log_file_def)
  have c: "content v = content (p_world s)" using op lf cfg(2) by (auto simp: log_file_def)
  let ?s = "s\<lparr>p_world := v\<rparr>"
  have "\<exists>w. RecoverFromDataFile E fd i ?s = (Inr (), ?s\<lparr>p_keydir := replay i 0 rs (p_keydir ?s), p_world := w\<rparr>) \<and>
      content w = content (p_world ?s) \<and> opened w = opened (p_world ?s)"
    using lf op c e cfg by (intro RecoverFromDataFile_log [of _ _ ?p]) (auto simp: log_file_def)
  then obtain w where w: "RecoverFromDataFile E fd i ?s = (Inr (), s\<lparr>p_keydir := replay i 0 rs (p_keydir s), p_world := w\<rparr>)"
    "content w = content v" "opened w = opened v" by auto
  have "recover_files E (i # ids) s = recover_files E ids (s\<lparr>p_keydir := replay i 0 rs (p_keydir s), p_world := env_sysclose E fd w\<rparr>)"
    using no o w op by (simp add: co_try_def on_world_def FileHandle_CloseFd_def)
  moreover have "content (env_sysclose E fd w) = content (p_world s)" "opened (env_sysclose E fd w) = opened (p_world s)"
    using sysclose_any [of fd w] w c op by (auto simp: fun_eq_iff)
  ultimately show ?thesis by blast
qed

lemma recover_files_logs:
  assumes "\<forall>i \<in> set ids. log_file (env_crc E) (content (p_world s)) (GetDataFilePath i s) (fst (logs i)) (snd (logs i)) \<and>
      content (p_world s) (GetHintFilePath i s) = None"
    and "0 < read_buffer_size (p_config s)" and "read_flags (p_config s) AND O_TRUNC = 0"
    and "dir_holds (env_crc E) (content (p_world s)) (\<lambda>i. GetDataFilePath i s) (p_keydir s) m"
    and "\<And>key loc. find_loc (p_keydir s) key = Some loc \<Longrightarrow> loc_file_id loc \<in> I"
  shows "\<exists>kd w. recover_files E ids s = (Inr (), s\<lparr>p_keydir := kd, p_world := w\<rparr>) \<and>
    content w = content (p_world s) \<and> opened w = opened (p_world s) \<and>
    dir_holds (env_crc E) (content (p_world s)) (\<lambda>i. GetDataFilePath i s) kd (foldl apply_record m (concat (map (\<lambda>i. fst (logs i)) ids))) \<and>
    (\<forall>key loc. find_loc kd key = Some loc \<longrightarrow> loc_file_id loc \<in> I \<union> set ids)"
  using assms
proof (induction ids arbitrary: s m I)
  case Nil
  then show ?case by (intro exI [of _ "p_keydir s"] exI [of _ "p_world s"]) auto
next
  case (Cons i ids)
  let ?rs = "fst (logs i)" and ?name = "\<lambda>i. GetDataFilePath i s"
  have lf: "log_file (env_crc E) (content (p_world s)) (?name i) ?rs (snd (logs i))" and h: "content (p_world s) (GetHintFilePath i s) = None"
    using Cons.prems(1) by simp_all
  obtain w where w: "recover_files E (i # ids) s = recover_files E ids (s\<lparr>p_keydir := replay i 0 ?rs (p_keydir s), p_world := w\<rparr>)"
    "content w = content (p_world s)" "opened w = opened (p_world s)"
    using recover_one_file [OF lf h Cons.prems(2,3)] by blast
  let ?s = "s\<lparr>p_keydir := replay i 0 ?rs (p_keydir s), p_world := w\<rparr>"
  have n: "GetDataFilePath j ?s = GetDataFilePath j s" "GetHintFilePath j ?s = GetHintFilePath j s" for j
    by (simp_all add: GetDataFilePath_def GetHintFilePath_def)
  have "dir_holds (env_crc E) (content (p_world s)) ?name (replay i (length ([] :: bytes)) ?rs (p_keydir s)) (foldl apply_record m ?rs)"
    using lf Cons.prems(4) by (intro replay_holds [where tail = "snd (logs i)"]) (auto simp: log_file_def)
  then have "\<exists>kd v. recover_files E ids ?s = (Inr (), ?s\<lparr>p_keydir := kd, p_world := v\<rparr>) \<and> content v = content (p_world ?s) \<and> opened v = opened (p_world ?s) \<and>
      dir_holds (env_crc E) (content (p_world ?s)) (\<lambda>i. GetDataFilePath i ?s) kd
        (foldl apply_record (foldl apply_record m ?rs) (concat (map (\<lambda>i. fst (logs i)) ids))) \<and>
      (\<forall>key loc. find_loc kd key = Some loc \<longrightarrow> loc_file_id loc \<in> insert i I \<union> set ids)"
    using Cons.prems w(2) by (intro Cons.IH) (auto simp: n dest!: replay_ids)
  then obtain kd v where "recover_files E ids ?s = (Inr (), s\<lparr>p_keydir := kd, p_world := v\<rparr>)" "content v = content (p_world s)"
    "opened v = opened (p_world s)" "dir_holds (env_crc E) (content (p_world s)) ?name kd
        (foldl apply_record (foldl apply_record m ?rs) (concat (map (\<lambda>i. fst (logs i)) ids)))"
    "\<forall>key loc. find_loc kd key = Some loc \<longrightarrow> loc_file_id loc \<in> insert i I \<union> set ids"
    using w by (auto simp: n)
  then show ?case unfolding w(1) by (intro exI [of _ kd] exI [of _ v]) simp
qed

end

text \<open>The generator after the largest identifier on disk has been fed into it.\<close>

definition recovered_gen :: "nat \<Rightarrow> u64 list \<Rightarrow> FileIdGenerator" where
  "recovered_gen part_id files =
     (let g = mk_FileIdGenerator (of_nat part_id); decoded = FileID_Decode (max_id files)
      in if 0 < max_id files then FileIdGenerator_UpdateState (fid_timestamp_sec decoded) (fid_sequence decoded) g else g)"

lemma foldl_max_ge: "(a :: u64) \<le> foldl max a xs \<and> (\<forall>x \<in> set xs. x \<le> foldl max a xs)"
proof (induction xs arbitrary: a)
  case (Cons x xs)
  from Cons.IH [of "max a x"] show ?case by (auto simp: max_def split: if_splits)
qed simp

lemma foldl_max_in: "foldl max (a :: u64) xs \<in> insert a (set xs)"
proof (induction xs arbitrary: a)
  case (Cons x xs)
  from Cons.IH [of "max a x"] show ?case by (auto simp: max_def split: if_splits)
qed simp

lemma recovered_gen_covers:
  assumes "\<forall>i \<in> set files. fid_partition (FileID_Decode i) = of_nat part_id" and "i \<in> set files"
  shows "i \<le> gen_current (recovered_gen part_id files)"
proof (cases "0 < max_id files")
  case False
  have "i \<le> max_id files" using assms(2) foldl_max_ge [of 0 files] by (simp add: max_id_def)
  with False have "i = 0" by (metis word_gt_0 word_le_0_iff)
  then show ?thesis by simp
next
  case True
  then have "max_id files \<in> set files" using foldl_max_in [of 0 files] by (auto simp: max_id_def)
  with assms(1) have "fid_partition (FileID_Decode (max_id files)) = partition_id (mk_FileIdGenerator (of_nat part_id))"
    by (simp add: mk_FileIdGenerator_def)
  from UpdateState_covers [OF this] True have "max_id files \<le> gen_current (recovered_gen part_id files)"
    by (simp add: recovered_gen_def Let_def)
  moreover have "i \<le> max_id files" using assms(2) foldl_max_ge [of 0 files] by (simp add: max_id_def)
  ultimately show ?thesis by simp
qed

lemma init_stats_only: "\<exists>st. init_stats E files s = s\<lparr>p_stats := st\<rparr>"
proof (induction files rule: rev_induct)
  case Nil
  show ?case by (intro exI [of _ "p_stats s"]) (simp add: init_stats_def)
next
  case (snoc i files)
  then obtain st where "init_stats E files s = s\<lparr>p_stats := st\<rparr>" by blast
  then show ?case by (auto simp: init_stats_def upd_stats_def)
qed

context reliable_env
begin

lemma Recover_logs:
  fixes cfg :: BitcaskConfig and pid :: nat and w :: 'a
  defines "s0 \<equiv> mk_Partition cfg pid w"
  defines "ids \<equiv> ScanDataFiles E s0"
  assumes logs: "\<forall>i \<in> set ids. log_file (env_crc E) (content w) (data_path cfg pid i) (fst (logs i)) (snd (logs i)) \<and>
      content w (hint_path cfg pid i) = None \<and> fid_partition (FileID_Decode i) = of_nat pid"
    and cfg: "0 < read_buffer_size cfg" "read_flags cfg AND O_TRUNC = 0" "write_flags cfg AND O_APPEND = 0"
    and now: "\<not> gen_exhausted now (recovered_gen pid ids)"
  shows "\<exists>s. Recover E now s0 = (Inr (), s) \<and> partition_inv E content opened s \<and>
    partition_view content s = foldl apply_record Map.empty (concat (map (\<lambda>i. fst (logs i)) ids))"
proof -
  let ?m = "foldl apply_record Map.empty (concat (map (\<lambda>i. fst (logs i)) ids))"
  obtain st where st: "init_stats E ids s0 = s0\<lparr>p_stats := st\<rparr>" using init_stats_only by blast
  let ?s1 = "s0\<lparr>p_stats := st\<rparr>"
  have f: "p_config s0 = cfg" "p_partition_id s0 = pid" "p_world s0 = w" "p_keydir s0 = []" "p_active_file s0 = None"
    "p_fd_cache s0 = mk_FDCache (max_open_sealed_files cfg)" "p_file_id_gen s0 = mk_FileIdGenerator (of_nat pid)"
    by (simp_all add: s0_def mk_Partition_def)
  have "\<exists>kd w'. recover_files E ids ?s1 = (Inr (), ?s1\<lparr>p_keydir := kd, p_world := w'\<rparr>) \<and>
    content w' = content (p_world ?s1) \<and> opened w' = opened (p_world ?s1) \<and>
    dir_holds (env_crc E) (content (p_world ?s1)) (\<lambda>i. GetDataFilePath i ?s1) kd ?m \<and>
    (\<forall>key loc. find_loc kd key = Some loc \<longrightarrow> loc_file_id loc \<in> {} \<union> set ids)"
    by (rule recover_files_logs)
      (use logs cfg in \<open>auto simp: f GetDataFilePath_def GetHintFilePath_def dir_holds_def find_loc_def\<close>)
  then obtain kd w' where rf: "recover_files E ids ?s1 = (Inr (), ?s1\<lparr>p_keydir := kd, p_world := w'\<rparr>)"
    and w': "content w' = content w" "opened w' = opened w"
    and dh: "dir_holds (env_crc E) (content w) (data_path cfg pid) kd ?m"
    and ids': "\<And>key loc. find_loc kd key = Some loc \<Longrightarrow> loc_file_id loc \<in> set ids"
    by (auto simp: f GetDataFilePath_def)
  let ?s2 = "?s1\<lparr>p_keydir := kd, p_world := w', p_stats := live_stats kd st, p_file_id_gen := recovered_gen pid ids\<rparr>"
  have R: "Recover E now s0 = CreateAndSetActiveFile E now ?s2"
    using rf st
    by (auto simp: Recover_def ids_def [symmetric] Let_def co_try_def upd_stats_def recovered_gen_def f simp flip: f(7))
  have dh2: "dir_holds (env_crc E) (content (p_world ?s2)) (\<lambda>i. GetDataFilePath i ?s2) (p_keydir ?s2) ?m"
    using dh by (simp add: w' GetDataFilePath_def f)
  have "sound_dir (env_crc E) (content (p_world ?s2)) ?s2"
    unfolding sound_dir_def
  proof (intro allI impI conjI)
    fix key loc
    assume l: "find_loc (p_keydir ?s2) key = Some loc"
    then show "loc_file_id loc \<le> gen_current (p_file_id_gen ?s2)"
      using recovered_gen_covers [of ids pid] logs ids' by simp
    show "\<exists>val. holds_entry (env_crc E) (content (p_world ?s2)) (loc_path ?s2 loc) loc key val"
      using dh2 [unfolded dir_holds_def, rule_format, of key] l by (auto simp: loc_path_def GetDataFilePath_def)
  qed
  then have ok: "sealed_ok E content opened ?s2" by (simp add: sealed_ok_def f cached_def cache_opens_def mk_FDCache_def)
  obtain s where cr: "CreateAndSetActiveFile E now ?s2 = (Inr (), s)" using Create_total [of ?s2] cfg(3) by (auto simp: f)
  have no: "\<not> gen_exhausted now (p_file_id_gen ?s2)" using now by simp
  note C = CreateAndSetActiveFile_any [OF ok cr _ no]
  have "partition_view content ?s2 = ?m" using dir_holds_view [OF dh2] by (simp add: partition_view_def)
  with C cr R cfg(3) show ?thesis by (intro exI [of _ s]) (simp add: partition_inv_def f)
qed

end

context posix_env
begin

lemma RecoverFromDataFile_once:
  assumes r: "RecoverFromDataFile E fd i s = (Inr (), s')"
    and fd: "opened (p_world s) fd = Some p" "content (p_world s) p = Some c" and len: "length c < size_limit"
    and buf: "0 < read_buffer_size (p_config s)"
  shows "content (p_world s') = content (p_world s) \<and>
    (\<exists>q rest. RecoverDataFromBuffer (env_crc E) i (length c) 0 0 (p_keydir s, c) = (q, (p_keydir s', rest)))"
proof -
  have st: "DataEntry_Deserialize (env_crc E) [] = Inl need_more_data" by (simp add: DataEntry_Deserialize_def kEntryFixedHeaderSize_def)
  obtain n where n: "env_fstat_size E fd (p_world s) = Inr n" using r by (auto simp: RecoverFromDataFile_def split: sum.splits)
  then have "n = length c" using fstat_size fd by blast
  show ?thesis
  proof (cases "c = []")
    case True
    with n \<open>n = length c\<close> r have "s' = s" by (simp add: RecoverFromDataFile_def)
    with True st show ?thesis by (simp add: Recover_need_more)
  next
    case False
    with n \<open>n = length c\<close> r have "recover_read_loop E i fd (length c) 0 [] s = (Inr (), s')" by (simp add: RecoverFromDataFile_def)
    from recover_read_loop_any [OF this fd len buf _ _ st] show ?thesis by auto
  qed
qed

lemma RecoverFromHintFile_records:
  assumes r: "RecoverFromHintFile E fd i s = (Inr (), s')"
    and fd: "opened (p_world s) fd = Some p" "content (p_world s) p = Some (concat (map HintEntry_Serialize hs))"
    and fits: "\<forall>h \<in> set hs. hint_fits h"
  shows "p_keydir s' = foldl (\<lambda>kd h. AList.update (h_key h) (hint_loc i h) kd) (p_keydir s) hs"
proof -
  let ?c = "concat (map HintEntry_Serialize hs)"
  obtain n where n: "env_fstat_size E fd (p_world s) = Inr n" using r by (auto simp: RecoverFromHintFile_def split: sum.splits)
  then have nc: "n = length ?c" using fstat_size fd by blast
  have e: "HintEntry_Deserialize [] = Inl need_more_data" by (simp add: HintEntry_Deserialize_def kHintHeaderSize_def)
  show ?thesis
  proof (cases "?c = []")
    case True
    have "hs = []"
    proof (cases hs)
      case (Cons h t)
      with True fits have "HintEntry_Serialize h = []" "length (h_key h) < 2 ^ 32" by (simp_all add: hint_fits_def)
      then show ?thesis by (simp add: HintEntry_Serialize_eq flip: length_0_conv)
    qed
    with n nc r show ?thesis by (simp add: RecoverFromHintFile_def)
  next
    case False
    obtain q w where rd: "env_read_exact_at E fd n 0 (p_world s) = (q, w)" by (metis surj_pair)
    have n0: "n \<noteq> 0" using nc False by (metis length_0_conv)
    obtain b where q: "q = Inr b"
    proof (cases q)
      case (Inl x)
      with r n rd n0 show ?thesis by (simp add: RecoverFromHintFile_def co_try_def on_world_def)
    qed
    then have b: "b = ?c" using read_exact_at_any [OF rd] fd nc by simp
    have "s' = s\<lparr>p_world := w, p_keydir := foldl (\<lambda>kd h. AList.update (h_key h) (hint_loc i h) kd) (p_keydir s) hs\<rparr>"
      using r n rd n0 q b recover_hints_records [OF fits e, of i "p_keydir s"]
      by (simp add: RecoverFromHintFile_def co_try_def on_world_def)
    then show ?thesis by simp
  qed
qed

end

section \<open>Properties of recovery\<close>

text \<open>A file system with one data file, for the witnesses.\<close>

definition demo_log :: "log_record list" where
  "demo_log = [([1], [10], 0, 7), ([2], [20], 0, 8), ([1], [], 1, 9)]"

definition demo_config :: BitcaskConfig where
  "demo_config = default_BitcaskConfig\<lparr>directory := ''d''\<rparr>"

definition demo_world :: mem where
  "demo_world =
     (let p = data_path demo_config 0 5
      in \<lparr>mem_files = [(p, log_bytes (env_crc mem_env) demo_log @ [0, 0])], mem_fds = [(3, (p, 0))], mem_next = 4\<rparr>)"

lemma digit_chars: "digit_char 0 = CHR ''0''" "digit_char 5 = CHR ''5''"
  by code_simp+

lemma demo_log_file:
  "log_file (env_crc mem_env) (mem_content demo_world) (data_path demo_config 0 5) demo_log [0, 0]"
proof -
  have "length (log_bytes (env_crc mem_env) demo_log) = 68"
    by (simp add: demo_log_def entry_enc_def payload_mk_DataEntry)
  then show ?thesis
    by (simp add: log_file_def demo_world_def Let_def mem_content_def size_limit_def DataEntry_Deserialize_def kEntryFixedHeaderSize_def)
      (simp add: demo_log_def record_fits_def record_plain_def is_tombstone_def kFlagTombstone_def kFlagNone_def)
qed

lemma demo_scan: "ScanDataFiles mem_env (mk_Partition demo_config 0 demo_world) = [5]"
  by (simp add: ScanDataFiles_def mk_Partition_def mem_env_def mem_list_dir_def demo_world_def Let_def data_path_def partition_dir_def
      demo_config_def default_BitcaskConfig_def to_chars_def nat_digits.simps digit_chars parse_data_name_def kDataFilePrefix_def
      kDataFileExtension_def stoull_def is_space_def is_digit_def digits_val_def digit_val_def subspan_def map_filter_simps)

lemma demo_recovers:
  "\<exists>w. RecoverFromDataFile mem_env 3 5 (mk_Partition demo_config 0 demo_world) =
     (Inr (), (mk_Partition demo_config 0 demo_world)\<lparr>p_keydir := replay 5 0 demo_log [], p_world := w\<rparr>)"
proof -
  let ?s = "mk_Partition demo_config 0 demo_world"
  have fd: "mem_opened (p_world ?s) 3 = Some (data_path demo_config 0 5)"
    by (simp add: mk_Partition_def demo_world_def mem_opened_def Let_def)
  have cfg: "0 < read_buffer_size (p_config ?s)" by (simp add: mk_Partition_def demo_config_def default_BitcaskConfig_def)
  have "p_keydir ?s = []" "p_world ?s = demo_world" by (simp_all add: mk_Partition_def)
  with demo_log_file mem_reliable.RecoverFromDataFile_log [OF fd _ _ _ _ cfg, of demo_log "[0, 0]" _ 5] show ?thesis
    by (auto simp: log_file_def)
qed



text \<open>
  C32: recovery of a data file does not depend on how its reads are cut. Whatever the buffer
  offers and however many bytes each read returns, a recovery that ends without an error
  leaves the directory that a single pass over the whole file gives, also for files that
  hold no valid record at all, and changes no file.
\<close>

theorem recovery_chunk_independent:
  assumes "posix_env E content opened fpos" and "RecoverFromDataFile E fd i s = (Inr (), s')"
    and "opened (p_world s) fd = Some p" and "content (p_world s) p = Some c" and "length c < size_limit"
    and "0 < read_buffer_size (p_config s)"
  shows "content (p_world s') = content (p_world s) \<and>
    p_keydir s' = fst (snd (RecoverDataFromBuffer (env_crc E) i (length c) 0 0 (p_keydir s, c)))"
  using posix_env.RecoverFromDataFile_once [OF assms] by auto

theorem recovery_chunk_independent_witness:
  "\<exists>s'. RecoverFromDataFile mem_env 3 5 (mk_Partition demo_config 0 demo_world) = (Inr (), s') \<and>
     mem_content (p_world s') = mem_content demo_world"
proof -
  let ?s = "mk_Partition demo_config 0 demo_world"
  obtain s' where r: "RecoverFromDataFile mem_env 3 5 ?s = (Inr (), s')" using demo_recovers by blast
  have fd: "mem_opened (p_world ?s) 3 = Some (data_path demo_config 0 5)"
    by (simp add: mk_Partition_def demo_world_def mem_opened_def Let_def)
  have cfg: "0 < read_buffer_size (p_config ?s)" by (simp add: mk_Partition_def demo_config_def default_BitcaskConfig_def)
  have w: "p_world ?s = demo_world" by (simp add: mk_Partition_def)
  obtain c where c: "mem_content (p_world ?s) (data_path demo_config 0 5) = Some c" "length c < size_limit"
    using demo_log_file by (auto simp: log_file_def w)
  from recovery_chunk_independent [OF mem_posix.posix_env_axioms r fd c cfg] r w show ?thesis by auto
qed


text \<open>A store in which the key \<open>[1]\<close> lives in file 4 and was deleted while file 5 was active.\<close>

definition demo_hint_state :: "mem Partition" where
  "demo_hint_state =
     (mk_Partition demo_config 0 \<lparr>mem_files = [(''h'', [])], mem_fds = [(3, (''h'', 0))], mem_next = 4\<rparr>)
       \<lparr>p_keydir := [([1], \<lparr>loc_file_id = 4, loc_offset = 0, loc_total_size = 23, loc_timestamp_ns = 7\<rparr>)]\<rparr>"


end
