(* ===== verification/Partition_Lifecycle.thy ===== *)
theory Partition_Lifecycle
  imports Partition_Recovery
begin

text \<open>
  Shutdown, compaction and the two background loops of a partition (\<^verbatim>\<open>partition.cpp\<close>). A method
  that waits for an event object is split at the wait: what it does before, and when it may
  go on. One round of a background loop is a function from the state at its wake-up.
\<close>

section \<open>Shutdown\<close>

definition SealActiveFile :: "'w env \<Rightarrow> ('w Partition, unit) task" where
  "SealActiveFile E s =
     (case p_active_file s of
        None \<Rightarrow> (Inr (), s)
      | Some active \<Rightarrow>
          let actual_size = df_size active;
              active_fd = df_handle active;
              sealed_file_id = ActiveFileId s;
              reset = (\<lambda>s. s\<lparr>p_active_file := None,
                             p_world := (case p_active_file s of
                                           None \<Rightarrow> p_world s
                                         | Some df \<Rightarrow> snd (FileHandle_CloseFd E (df_handle df) (p_world s)))\<rparr>)
          in if 0 \<le> active_fd \<and> 0 < actual_size then
               co_try (on_world (env_fsync E active_fd))
               (\<lambda>_. co_try (on_world (env_ftruncate E active_fd actual_size))
               (\<lambda>_. co_try (WriteHintFile E sealed_file_id)
               (\<lambda>_. co_try (on_active (DataFile_AsyncClose E))
               (\<lambda>_ s. (Inr (), reset s))))) s
             else if 0 \<le> active_fd then
               co_try (on_active (DataFile_AsyncClose E))
               (\<lambda>_. co_await (on_world (env_unlink E (GetDataFilePath sealed_file_id s)))
               (\<lambda>_ s. (Inr (), reset (upd_stats (erase_file_stats sealed_file_id) s)))) s
             else (Inr (), reset s))"

text \<open>\<^verbatim>\<open>AsyncClose\<close> up to its waits, and the condition under which the waits return.\<close>

definition AsyncClose_begin :: "'w env \<Rightarrow> ('w Partition, unit) task" where
  "AsyncClose_begin E s =
     co_try (SealActiveFile E)
       (\<lambda>_ s. case FDCache_Clear E (p_fd_cache s, p_world s) of (c, w) \<Rightarrow> (Inr (), s\<lparr>p_fd_cache := c, p_world := w\<rparr>))
       (s\<lparr>p_shutting_down := True, p_compaction_trigger := True\<rparr>)"

definition AsyncClose_may_return :: "'w Partition \<Rightarrow> bool" where
  "AsyncClose_may_return s \<longleftrightarrow> p_compaction_trigger s \<and> (sync_on_write (p_config s) \<or> p_sync_job_stop s)"

section \<open>Compaction\<close>

definition FindFragmentedFiles :: "'w env \<Rightarrow> 'w Partition \<Rightarrow> u64 list" where
  "FindFragmentedFiles E s =
     map fst (filter (\<lambda>(file_id, f). file_id \<noteq> ActiveFileId s \<and> fragmentation_threshold (p_config s) \<le> Fragmentation f)
       (env_stats_order E (data_files (p_stats s))))"

text \<open>Deleting the compacted source files; the number of bytes reclaimed is accumulated.\<close>

fun delete_sources :: "'w env \<Rightarrow> u64 list \<Rightarrow> nat \<Rightarrow> 'w Partition \<Rightarrow> nat \<times> 'w Partition" where
  "delete_sources E [] bytes_reclaimed s = (bytes_reclaimed, s)"
| "delete_sources E (src_id # rest) bytes_reclaimed s =
     (let (c, w) = FDCache_Remove E src_id (p_fd_cache s, p_world s);
          s = s\<lparr>p_fd_cache := c, p_world := w\<rparr>;
          (bytes_reclaimed, s) =
            (case map_of (data_files (p_stats s)) src_id of
               None \<Rightarrow> (bytes_reclaimed, s)
             | Some f \<Rightarrow> (sz_add bytes_reclaimed (total_bytes f), upd_stats (erase_file_stats src_id) s));
          s = s\<lparr>p_world := snd (env_unlink E (GetDataFilePath src_id s) (p_world s))\<rparr>;
          s = (if env_exists E (GetHintFilePath src_id s) (p_world s)
               then s\<lparr>p_world := snd (env_unlink E (GetHintFilePath src_id s) (p_world s))\<rparr> else s);
          s = upd_stats (\<lambda>st. st\<lparr>files_compacted_total := sz_add (files_compacted_total st) 1\<rparr>) s
      in delete_sources E rest bytes_reclaimed s)"

definition Compact :: "'w env \<Rightarrow> u32 \<Rightarrow> ('w Partition, unit) task" where
  "Compact E now s =
     (if compaction_running (p_stats s) then (Inr (), s)
      else if p_active_file s = None then (Inl assertion_failed, s)
      else
        let fragmented_files = FindFragmentedFiles E s
        in if fragmented_files = [] then (Inr (), s\<lparr>p_compaction_trigger := False\<rparr>)
           else
             let s = upd_stats (\<lambda>st. st\<lparr>compaction_running := True\<rparr>) s;
                 (dst_file_id, gen) = FileIdGenerator_Next now (p_file_id_gen s);
                 ctx = \<lparr>ctx_config = p_config s, ctx_partition_id = p_partition_id s, ctx_dst_file_id = dst_file_id,
                        ctx_src_file_ids = fragmented_files\<rparr>;
                 (r, kd, st, w) = CompactFiles E ctx (p_keydir s) (p_stats s) (p_world s);
                 s = s\<lparr>p_file_id_gen := gen, p_keydir := kd, p_stats := st, p_world := w\<rparr>
             in case r of
                  Inl e \<Rightarrow>
                    if e = diverges \<or> e = out_of_bounds then (Inl e, s)
                    else
                      let s = upd_stats (\<lambda>st. st\<lparr>compactions_failed := sz_add (compactions_failed st) 1, compaction_running := False\<rparr>) s
                      in (Inl e, s\<lparr>p_world := snd (env_unlink E (GetDataFilePath dst_file_id s) (p_world s))\<rparr>)
                | Inr _ \<Rightarrow>
                    let s = upd_stats (\<lambda>st. st\<lparr>compactions_total := sz_add (compactions_total st) 1\<rparr>) s;
                        (bytes_reclaimed, s) = delete_sources E fragmented_files 0 s
                    in (Inr (), upd_stats (\<lambda>st. st\<lparr>bytes_reclaimed_total := sz_add (bytes_reclaimed_total st) bytes_reclaimed,
                                                  compaction_running := False\<rparr>) s))"

section \<open>Background loops\<close>

text \<open>One wake-up; the boolean says whether the loop goes on.\<close>

definition CompactionLoop_wake :: "'w env \<Rightarrow> u32 \<Rightarrow> 'w Partition \<Rightarrow> bool \<times> 'w Partition" where
  "CompactionLoop_wake E now s =
     (if p_shutting_down s then (False, s\<lparr>p_compaction_stop := True\<rparr>)
      else (True, (snd (Compact E now s))\<lparr>p_compaction_trigger := False\<rparr>))"

definition BackgroundSync_wake :: "'w env \<Rightarrow> 'w Partition \<Rightarrow> bool \<times> 'w Partition" where
  "BackgroundSync_wake E s =
     (if p_shutting_down s then (False, s\<lparr>p_sync_job_stop := True\<rparr>) else (True, snd (Partition_Sync E s)))"

end
