(* ===== verification/Compaction.thy ===== *)
theory Compaction
  imports Partition_Lifecycle
begin

text \<open>
  What compaction does to the contents of a partition. For source files that are sequences
  of whole records, the live records move to the new file and the view of the partition
  stays the same. Two further results describe runs that go wrong: a failed run deletes
  the file to which it has already redirected keys, and bytes left in the read buffer by
  one source file make the next one unreadable.
\<close>

section \<open>Files of records\<close>

lemma log_bytes_append [simp]: "log_bytes crc (xs @ ys) = log_bytes crc xs @ log_bytes crc ys"
  by (simp add: log_bytes_def)

text \<open>A strict prefix of one record: what is left in the buffer between two reads.\<close>

definition torn :: "(bytes \<Rightarrow> u32) \<Rightarrow> log_record list \<Rightarrow> bytes \<Rightarrow> bool" where
  "torn crc rs part \<longleftrightarrow> part = [] \<or> (\<exists>r rs' n. rs = r # rs' \<and> record_fits r \<and> n < length (entry_enc crc r) \<and> part = take n (entry_enc crc r))"

lemma log_bytes_take:
  assumes "\<forall>r \<in> set rs. record_fits r"
  shows "\<exists>ra rb part. rs = ra @ rb \<and> take m (log_bytes crc rs) = log_bytes crc ra @ part \<and> torn crc rb part"
  using assms
proof (induction rs arbitrary: m)
  case Nil
  show ?case by (simp add: torn_def)
next
  case (Cons r rs)
  show ?case
  proof (cases "m < length (entry_enc crc r)")
    case True
    then have "torn crc (r # rs) (take m (entry_enc crc r))" using Cons.prems by (auto simp: torn_def)
    with True show ?thesis by (intro exI [of _ "[]"] exI [of _ "r # rs"] exI [of _ "take m (entry_enc crc r)"]) simp
  next
    case False
    let ?e = "entry_enc crc r"
    have "\<exists>ra rb part. rs = ra @ rb \<and> take (m - length ?e) (log_bytes crc rs) = log_bytes crc ra @ part \<and> torn crc rb part"
      using Cons.prems by (intro Cons.IH) simp
    then obtain ra rb part where i: "rs = ra @ rb" "take (m - length ?e) (log_bytes crc rs) = log_bytes crc ra @ part" "torn crc rb part"
      by blast
    have "take m (log_bytes crc (r # rs)) = ?e @ take (m - length ?e) (log_bytes crc rs)"
      using False by (simp only: log_bytes_simps take_append) simp
    then have "take m (log_bytes crc (r # rs)) = log_bytes crc (r # ra) @ part" unfolding i(2) by simp
    with i(1,3) show ?thesis by (metis append_Cons)
  qed
qed

lemma torn_whole:
  assumes "torn crc rs (log_bytes crc rs)"
  shows "rs = [] \<or> (\<forall>r \<in> set rs. \<not> record_fits r)"
proof (cases rs)
  case (Cons r rs')
  show ?thesis
  proof (cases "log_bytes crc rs = []")
    case True
    with Cons have "entry_enc crc r = []" by simp
    moreover have "log_bytes crc rs' = []" using True Cons by simp
    moreover have "\<not> record_fits x" if "entry_enc crc x = []" for x
      using that by (cases x) (auto simp: entry_enc_image entry_image_def entry_body_def simp flip: length_0_conv)
    ultimately show ?thesis using Cons by (auto simp: log_bytes_def)
  next
    case False
    with assms Cons obtain n where "n < length (entry_enc crc r)" "entry_enc crc r @ log_bytes crc rs' = take n (entry_enc crc r)"
      by (auto simp: torn_def)
    then have "length (entry_enc crc r @ log_bytes crc rs') \<le> n" by (metis length_take min.cobounded2)
    with \<open>n < length (entry_enc crc r)\<close> show ?thesis by simp
  qed
qed simp

lemma torn_all:
  assumes "torn crc rs (log_bytes crc rs)" and "\<forall>r \<in> set rs. record_fits r"
  shows "rs = []"
  using torn_whole [OF assms(1)] assms(2) by (cases rs) auto

text \<open>Two records that start at the same place of a file are the same record.\<close>

lemma image_unique:
  assumes "entry_image crc k v f t @ x = entry_image crc k' v' f' t' @ y"
    and "length k < 2 ^ 32" "length v < 2 ^ 32" "length k' < 2 ^ 32" "length v' < 2 ^ 32"
  shows "k = k' \<and> v = v' \<and> f = f' \<and> t = t'"
proof -
  have "mk_DataEntry crc k v f t = mk_DataEntry crc k' v' f' t'"
    using DataEntry_Deserialize_image [OF assms(2,3), of crc f t x] DataEntry_Deserialize_image [OF assms(4,5), of crc f' t' y]
    by (simp only: assms(1)) simp
  then show ?thesis
    by (metis DataEntry_views [OF assms(2,3)] DataEntry_views [OF assms(4,5)] DataEntry_fields(1,2) [OF assms(2,3)] DataEntry_fields(1,2) [OF assms(4,5)])
qed

section \<open>One pass over the read buffer\<close>

lemma Process_short:
  assumes "length (cp_buffer s) < kEntryFixedHeaderSize \<or>
    length (cp_buffer s) < trunc32 (kEntryFixedHeaderSize + unat (ReadLe 13 (cp_buffer s) :: u32) + unat (ReadLe 17 (cp_buffer s) :: u32))"
  shows "ProcessBufferEntries E ctx src pos s = (Inr (), s)"
  using assms by (subst ProcessBufferEntries.simps) (auto simp: Let_def)

lemma Process_torn:
  assumes "torn crc rs (cp_buffer s)"
  shows "ProcessBufferEntries E ctx src pos s = (Inr (), s)"
proof -
  from assms consider "cp_buffer s = []"
    | r n where "record_fits r" "n < length (entry_enc crc r)" "cp_buffer s = take n (entry_enc crc r)"
    by (auto simp: torn_def)
  then show ?thesis
  proof cases
    case 1
    then show ?thesis by (intro Process_short) (simp add: kEntryFixedHeaderSize_def)
  next
    case 2
    obtain k v f t where r: "r = (k, v, f, t)" by (cases r)
    let ?img = "entry_image crc k v f t"
    have b: "cp_buffer s = take n ?img" "n < 21 + length k + length v" "21 + length k + length v < 2 ^ 32"
      using 2 by (auto simp: r entry_enc_image record_fits_def)
    show ?thesis
    proof (cases "n < 21")
      case True
      then show ?thesis by (intro Process_short) (simp add: b kEntryFixedHeaderSize_def)
    next
      case False
      then have "ReadLe 13 (take n ?img) = (of_nat (length k) :: u32)" "ReadLe 17 (take n ?img) = (of_nat (length v) :: u32)"
        using b(2) entry_image_fields(4,5) [of crc k v f t "[]"] by (simp_all add: ReadLe_prefix)
      with b show ?thesis by (intro Process_short) (simp add: kEntryFixedHeaderSize_def trunc32_eq)
    qed
  qed
qed

lemma Process_record:
  assumes b: "cp_buffer s = entry_image crc k v f t @ rest" and n: "21 + length k + length v < 2 ^ 32"
  shows "ProcessBufferEntries E ctx src pos s =
    (let off = sz_sub pos (length (cp_buffer s))
     in if is_live (cp_keydir s) k src off then
          (case copy_entry E ctx src off k v t s of
             (Inl e, s') \<Rightarrow> (Inl e, s')
           | (Inr _, s') \<Rightarrow> ProcessBufferEntries E ctx src pos (s'\<lparr>cp_buffer := rest\<rparr>))
        else ProcessBufferEntries E ctx src pos
               (s\<lparr>cp_reclaimed := sz_add (cp_reclaimed s) (21 + length k + length v), cp_skipped := sz_add (cp_skipped s) 1, cp_buffer := rest\<rparr>))"
proof -
  have len: "length k < 2 ^ 32" "length v < 2 ^ 32" using n by simp_all
  have f: "ReadLe 13 (cp_buffer s) = (of_nat (length k) :: u32)" "ReadLe 17 (cp_buffer s) = (of_nat (length v) :: u32)"
    "ReadLe 4 (cp_buffer s) = t" unfolding b by (simp_all add: entry_image_fields)
  have kv: "subspan 21 (length k) (cp_buffer s) = k" "subspan (21 + length k) (length v) (cp_buffer s) = v"
    unfolding b by (rule subspan_entry_key, rule subspan_entry_value)
  have d: "drop (21 + length k + length v) (cp_buffer s) = rest" unfolding b by simp
  have u: "unat (of_nat (length k) :: u32) = length k" "unat (of_nat (length v) :: u32) = length v" using len by simp_all
  have l: "(length (cp_buffer s) < 21) = False" "(length (cp_buffer s) < 21 + length k + length v) = False"
    "(length (cp_buffer s) < 21 + length k) = False" "(21 + length k + length v = 0) = False" by (simp_all add: b)
  show ?thesis
    by (subst ProcessBufferEntries.simps)
      (simp only: Let_def f u kv l d kEntryFixedHeaderSize_def trunc32_eq [OF n] if_False)
qed

section \<open>The invariant of a run\<close>

text \<open>
  \<open>comp_ok\<close>: the directory describes the map \<open>m\<close>, the destination is open, its directory
  entries lie below its write position, no other file has changed and there is room for the
  \<open>R\<close> bytes of the sources that are still to be read.
\<close>

definition comp_ok :: "'w env \<Rightarrow> ('w \<Rightarrow> path \<Rightarrow> bytes option) \<Rightarrow> ('w \<Rightarrow> int \<Rightarrow> path option) \<Rightarrow> (u64 \<Rightarrow> path) \<Rightarrow> u64 \<Rightarrow> int \<Rightarrow>
    (path \<Rightarrow> bytes option) \<Rightarrow> (int \<Rightarrow> path option) \<Rightarrow> (bytes \<Rightarrow> bytes option) \<Rightarrow> nat \<Rightarrow> 'w comp \<Rightarrow> bool" where
  "comp_ok E content opened name dst h F O' m R s \<longleftrightarrow>
     dir_holds (env_crc E) (content (cp_world s)) name (cp_keydir s) m \<and>
     opened (cp_world s) = O' \<and> df_handle (cp_dst s) = h \<and> O' h = Some (name dst) \<and>
     content (cp_world s) (name dst) \<noteq> None \<and> (\<forall>p. p \<noteq> name dst \<longrightarrow> content (cp_world s) p = F p) \<and>
     (\<forall>key loc. find_loc (cp_keydir s) key = Some loc \<and> loc_file_id loc = dst \<longrightarrow>
        loc_offset loc + loc_total_size loc \<le> df_size (cp_dst s)) \<and>
     df_size (cp_dst s) + R < size_limit"

lemma comp_ok_counters [simp]:
  "comp_ok E content opened name dst h F O' m R (s\<lparr>cp_buffer := b\<rparr>) = comp_ok E content opened name dst h F O' m R s"
  "comp_ok E content opened name dst h F O' m R (s\<lparr>cp_reclaimed := a\<rparr>) = comp_ok E content opened name dst h F O' m R s"
  "comp_ok E content opened name dst h F O' m R (s\<lparr>cp_skipped := a\<rparr>) = comp_ok E content opened name dst h F O' m R s"
  unfolding comp_ok_def by simp_all

lemma comp_ok_world:
  "content w = content (cp_world s) \<Longrightarrow> opened w = O2 \<Longrightarrow> O2 h = O1 h \<Longrightarrow>
    comp_ok E content opened name dst h F O1 m R s \<Longrightarrow> comp_ok E content opened name dst h F O2 m R (s\<lparr>cp_world := w\<rparr>)"
  unfolding comp_ok_def by (elim conjE, intro conjI) simp_all

lemma comp_ok_less: "comp_ok E content opened name dst h F O' m (n + R) s \<Longrightarrow> comp_ok E content opened name dst h F O' m R s"
  unfolding comp_ok_def by (elim conjE, intro conjI) simp_all

text \<open>Entries are redirected to the destination or left alone.\<close>

definition redirected :: "u64 \<Rightarrow> KeyDir \<Rightarrow> KeyDir \<Rightarrow> bool" where
  "redirected dst kd kd' \<longleftrightarrow> (\<forall>key loc. find_loc kd' key = Some loc \<longrightarrow> loc_file_id loc = dst \<or> find_loc kd key = Some loc)"

lemma redirected_refl [simp]: "redirected dst kd kd"
  by (simp add: redirected_def)

lemma redirected_trans: "redirected dst a b \<Longrightarrow> redirected dst b c \<Longrightarrow> redirected dst a c"
  by (fastforce simp: redirected_def)

text \<open>The entries for a file point at the beginnings of its records \<open>rs\<close>, which start at \<open>off\<close>.\<close>

definition at_records :: "(bytes \<Rightarrow> u32) \<Rightarrow> u64 \<Rightarrow> nat \<Rightarrow> log_record list \<Rightarrow> KeyDir \<Rightarrow> bool" where
  "at_records crc src off rs kd \<longleftrightarrow>
     (\<forall>key loc. find_loc kd key = Some loc \<and> loc_file_id loc = src \<longrightarrow>
        (\<exists>ra rb. rs = ra @ rb \<and> rb \<noteq> [] \<and> loc_offset loc = off + length (log_bytes crc ra)))"

lemma at_records_redirected:
  "at_records crc src off rs kd \<Longrightarrow> redirected dst kd kd' \<Longrightarrow> src \<noteq> dst \<Longrightarrow> at_records crc src off rs kd'"
  unfolding at_records_def redirected_def by blast

lemma at_records_none: "at_records crc src off [] kd \<Longrightarrow> find_loc kd key = Some loc \<Longrightarrow> loc_file_id loc \<noteq> src"
  unfolding at_records_def by blast

text \<open>The record at the position reached has been dealt with: the rest lies behind it.\<close>

lemma at_records_next:
  assumes at: "at_records crc src off (r # rs) kd" and r: "record_fits r" "r = (k, v, f, t)"
    and gone: "\<And>key loc. find_loc kd key = Some loc \<Longrightarrow> loc_file_id loc = src \<Longrightarrow> loc_offset loc \<noteq> off"
  shows "at_records crc src (off + (21 + length k + length v)) rs kd"
  unfolding at_records_def
proof (intro allI impI, elim conjE)
  fix key loc
  assume l: "find_loc kd key = Some loc" "loc_file_id loc = src"
  with at obtain ra rb where s: "r # rs = ra @ rb" "rb \<noteq> []" "loc_offset loc = off + length (log_bytes crc ra)"
    unfolding at_records_def by blast
  from gone [OF l] s(3) have "ra \<noteq> []" by auto
  then obtain ra' where ra': "ra = r # ra'" "rs = ra' @ rb" using s(1) by (cases ra) auto
  have "length (entry_enc crc r) = 21 + length k + length v" using r by (simp add: entry_enc_image)
  with ra' s show "\<exists>ra rb. rs = ra @ rb \<and> rb \<noteq> [] \<and> loc_offset loc = off + (21 + length k + length v) + length (log_bytes crc ra)"
    by (intro exI [of _ ra'] exI [of _ rb]) simp
qed

text \<open>The directory entry that points at the record at the position reached is that of its key.\<close>

lemma entry_at_record:
  assumes dir: "dir_holds crc files name kd m" and l: "find_loc kd key = Some loc" "loc_file_id loc = src" "loc_offset loc = length pre"
    and c: "files (name src) = Some (pre @ entry_image crc k v f t @ rest)" and n: "21 + length k + length v < 2 ^ 32"
  shows "key = k \<and> m k = Some v \<and> f = kFlagNone"
proof -
  obtain val where m: "m key = Some val" and h: "holds_entry crc files (name src) loc key val"
    using dir l(1,2) by (auto simp: dir_holds_def dest!: spec [of _ key])
  let ?c = "entry_image crc k v f t @ rest" and ?n = "21 + length key + length val"
  from h c l(3) have img: "take ?n ?c = entry_image crc key val kFlagNone (loc_timestamp_ns loc)" and fit: "?n < 2 ^ 32"
    by (auto simp: holds_entry_def subspan_def)
  have "entry_image crc k v f t @ rest = entry_image crc key val kFlagNone (loc_timestamp_ns loc) @ drop ?n ?c"
    unfolding img [symmetric] by (rule append_take_drop_id [symmetric])
  from image_unique [OF this] n fit m show ?thesis by auto
qed

text \<open>Changes of the files that leave the records of a directory in place.\<close>

lemma dir_holds_frame:
  assumes "dir_holds crc files name kd m"
    and "\<And>key loc val. find_loc kd key = Some loc \<Longrightarrow> holds_entry crc files (name (loc_file_id loc)) loc key val \<Longrightarrow>
      holds_entry crc files' (name (loc_file_id loc)) loc key val"
  shows "dir_holds crc files' name kd m"
  unfolding dir_holds_def
proof (rule allI)
  fix key
  show "case find_loc kd key of None \<Rightarrow> m key = None
      | Some loc \<Rightarrow> \<exists>val. m key = Some val \<and> holds_entry crc files' (name (loc_file_id loc)) loc key val"
    using assms(1) [unfolded dir_holds_def, rule_format, of key] assms(2) [of key] by (auto split: option.splits)
qed

lemma dir_holds_update:
  assumes "dir_holds crc files name kd m" and "m key = Some val" and "holds_entry crc files (name (loc_file_id loc)) loc key val"
  shows "dir_holds crc files name (AList.update key loc kd) m"
  using assms unfolding dir_holds_def by (auto simp: find_loc_def update_conv')

section \<open>Copying one record\<close>

context reliable_env
begin

lemma copy_live:
  assumes inv: "comp_ok E content opened name dst h F O' m (n + R) s" and inj: "inj name" and dst: "dst = ctx_dst_file_id ctx"
    and live: "is_live (cp_keydir s) k src off" "m k = Some v" and n: "n = 21 + length k + length v" "n < 2 ^ 32"
  shows "\<exists>s1 loc. copy_entry E ctx src off k v t s = (Inr (), s1) \<and> comp_ok E content opened name dst h F O' m R s1 \<and>
    cp_buffer s1 = cp_buffer s \<and> cp_keydir s1 = AList.update k loc (cp_keydir s) \<and> loc_file_id loc = dst"
proof -
  let ?w = "cp_world s" and ?df = "cp_dst s" and ?img = "entry_image (env_crc E) k v kFlagNone t"
  let ?loc = "\<lparr>loc_file_id = dst, loc_offset = df_size ?df, loc_total_size = n, loc_timestamp_ns = t\<rparr>"
  have fd: "opened ?w (df_handle ?df) = Some (name dst)" using inv by (simp add: comp_ok_def)
  obtain c where c: "content ?w (name dst) = Some c" using inv by (auto simp: comp_ok_def)
  have len: "length k < 2 ^ 32" "length v < 2 ^ 32" using n by simp_all
  obtain o' df' w' where wr: "DataFile_AsyncWrite E (ctx_config ctx) k v t kFlagNone (?df, ?w) = (Inr o', (df', w'))"
    using AsyncWrite_total [OF fd c len] by (metis surj_pair)
  have sz: "sz_add (df_size ?df) n = df_size ?df + n" using inv by (simp add: comp_ok_def sz_add_eq)
  from AsyncWrite_any [OF wr len fd c] n sz
  have df': "df' = ?df\<lparr>df_size := df_size ?df + n\<rparr>" and op: "opened w' = opened ?w" and o': "o' = df_size ?df"
    and w': "content w' = (content ?w)(name dst \<mapsto> pwrite (df_size ?df) ?img c)"
    by auto
  let ?s = "s\<lparr>cp_dst := df', cp_world := w', cp_keydir := AList.update k ?loc (cp_keydir s), cp_copied := sz_add (cp_copied s) 1\<rparr>"
  have e: "copy_entry E ctx src off k v t s = (Inr (), ?s)"
    using live(1) n by (simp add: copy_entry_def wr Let_def o' dst kEntryFixedHeaderSize_def trunc32_eq)
  have find: "find_loc (AList.update k ?loc (cp_keydir s)) key = (if key = k then Some ?loc else find_loc (cp_keydir s) key)" for key
    by (simp add: find_loc_def update_conv')
  have here: "holds_entry (env_crc E) (content w') (name dst) ?loc k v"
    using n subspan_pwrite_here [of "df_size ?df" ?img c] by (simp add: holds_entry_def w' length_pwrite flip: length_greater_0_conv)
  have old: "holds_entry (env_crc E) (content w') (name (loc_file_id loc)) loc key val"
    if l: "find_loc (cp_keydir s) key = Some loc" and h: "holds_entry (env_crc E) (content ?w) (name (loc_file_id loc)) loc key val" for key loc val
  proof (cases "loc_file_id loc = dst")
    case True
    with inv l have "loc_offset loc + loc_total_size loc \<le> df_size ?df" unfolding comp_ok_def by blast
    moreover have "content w' (name (loc_file_id loc)) = Some (pwrite (df_size ?df) ?img c)" by (simp add: True w')
    moreover have "content ?w (name (loc_file_id loc)) = Some c" by (simp add: True c)
    ultimately show ?thesis by (intro holds_entry_pwrite [OF h])
  next
    case False
    then have "name (loc_file_id loc) \<noteq> name dst" using inj by (simp add: inj_eq)
    then show ?thesis by (intro holds_entry_other [OF _ h]) (simp add: w')
  qed
  have "dir_holds (env_crc E) (content (cp_world s)) name (cp_keydir s) m" using inv by (simp add: comp_ok_def)
  from dir_holds_update [OF dir_holds_frame [OF this old] live(2), of ?loc] here
  have "dir_holds (env_crc E) (content w') name (AList.update k ?loc (cp_keydir s)) m" by simp
  then have "comp_ok E content opened name dst h F O' m R ?s"
    using inv by (auto simp: comp_ok_def df' op w' find trans_le_add1 split: if_splits)
  with e show ?thesis by (intro exI [of _ ?s] exI [of _ ?loc]) simp
qed

text \<open>One round of the loop over the buffer: copied or skipped, the record is dealt with.\<close>

lemma Process_one:
  assumes inv: "comp_ok E content opened name dst h F O' m (n + R) s" and inj: "inj name" and dst: "dst = ctx_dst_file_id ctx" "src \<noteq> dst"
    and r: "r = (k, v, f, t)" "record_fits r" "n = 21 + length k + length v"
    and b: "cp_buffer s = entry_enc (env_crc E) r @ rest" and off: "sz_sub pos (length (cp_buffer s)) = length pre"
    and c: "F (name src) = Some (pre @ entry_enc (env_crc E) r @ post)" and at: "at_records (env_crc E) src (length pre) (r # rs) (cp_keydir s)"
  shows "\<exists>s1. ProcessBufferEntries E ctx src pos s = ProcessBufferEntries E ctx src pos s1 \<and> cp_buffer s1 = rest \<and>
    comp_ok E content opened name dst h F O' m R s1 \<and> redirected dst (cp_keydir s) (cp_keydir s1) \<and>
    at_records (env_crc E) src (length pre + n) rs (cp_keydir s1)"
proof -
  let ?img = "entry_image (env_crc E) k v f t"
  have n: "n < 2 ^ 32" and img: "entry_enc (env_crc E) r = ?img" using r by (auto simp: record_fits_def entry_enc_image)
  note step = Process_record [of s "env_crc E" k v f t rest E ctx src pos, unfolded Let_def off, OF b [unfolded img] n [unfolded r(3)]]
  have ne: "name src \<noteq> name dst" using inj dst(2) by (simp add: inj_eq)
  then have src: "content (cp_world s) (name src) = Some (pre @ ?img @ post)" using inv c by (simp add: comp_ok_def img)
  have dir: "dir_holds (env_crc E) (content (cp_world s)) name (cp_keydir s) m" using inv by (simp add: comp_ok_def)
  have only: "key = k \<and> m k = Some v \<and> f = kFlagNone"
    if "find_loc (cp_keydir s) key = Some loc" "loc_file_id loc = src" "loc_offset loc = length pre" for key loc
    by (rule entry_at_record [OF dir that src]) (use n r in simp)
  show ?thesis
  proof (cases "is_live (cp_keydir s) k src (length pre)")
    case True
    then obtain l where l: "find_loc (cp_keydir s) k = Some l" "loc_file_id l = src" "loc_offset l = length pre"
      by (auto simp: is_live_def split: option.splits)
    with only have mk: "m k = Some v" by blast
    obtain s1 loc where s1: "copy_entry E ctx src (length pre) k v t s = (Inr (), s1)" "comp_ok E content opened name dst h F O' m R s1"
      "cp_keydir s1 = AList.update k loc (cp_keydir s)" "loc_file_id loc = dst"
      using copy_live [OF inv inj dst(1) True mk r(3) n, of t] by blast
    have find: "find_loc (cp_keydir s1) key = (if key = k then Some loc else find_loc (cp_keydir s) key)" for key
      by (simp add: find_loc_def update_conv' s1(3))
    have red: "redirected dst (cp_keydir s) (cp_keydir s1)" using s1(4) by (simp add: redirected_def find)
    let ?s = "s1\<lparr>cp_buffer := rest\<rparr>"
    have "loc_offset l' \<noteq> length pre" if "find_loc (cp_keydir s1) key = Some l'" "loc_file_id l' = src" for key l'
      using that only [of key l'] s1(4) dst(2) by (auto simp: find split: if_splits)
    from at_records_next [OF at_records_redirected [OF at red dst(2)] r(2,1) this]
    have "at_records (env_crc E) src (length pre + n) rs (cp_keydir ?s)" by (simp add: r(3))
    moreover have "comp_ok E content opened name dst h F O' m R ?s" using s1(2) by simp
    moreover have "ProcessBufferEntries E ctx src pos s = ProcessBufferEntries E ctx src pos ?s" using step True s1(1) by simp
    ultimately show ?thesis using red by (intro exI [of _ ?s]) simp
  next
    case False
    let ?s = "s\<lparr>cp_reclaimed := sz_add (cp_reclaimed s) (21 + length k + length v), cp_skipped := sz_add (cp_skipped s) 1, cp_buffer := rest\<rparr>"
    have "loc_offset l' \<noteq> length pre" if "find_loc (cp_keydir s) key = Some l'" "loc_file_id l' = src" for key l'
      using that only [OF that] False by (auto simp: is_live_def)
    from at_records_next [OF at r(2,1) this]
    have "at_records (env_crc E) src (length pre + n) rs (cp_keydir ?s)" by (simp add: r(3))
    moreover have "comp_ok E content opened name dst h F O' m R ?s" using comp_ok_less [OF inv] by simp
    moreover have "ProcessBufferEntries E ctx src pos s = ProcessBufferEntries E ctx src pos ?s" using step False by simp
    ultimately show ?thesis by (intro exI [of _ ?s]) simp
  qed
qed

text \<open>A pass over the buffer deals with all whole records and leaves the torn one.\<close>

lemma Process_records:
  assumes "comp_ok E content opened name dst h F O' m (length (log_bytes (env_crc E) ra) + R) s" and inj: "inj name"
    and dst: "dst = ctx_dst_file_id ctx" "src \<noteq> dst"
    and "\<forall>r \<in> set ra. record_fits r" and "cp_buffer s = log_bytes (env_crc E) ra @ part" and part: "torn (env_crc E) rb part"
    and "pos = length pre + length (cp_buffer s)" and pos: "pos < size_limit"
    and "F (name src) = Some (pre @ log_bytes (env_crc E) (ra @ rb))" and "at_records (env_crc E) src (length pre) (ra @ rb) (cp_keydir s)"
  shows "\<exists>s1. ProcessBufferEntries E ctx src pos s = (Inr (), s1) \<and> cp_buffer s1 = part \<and>
    comp_ok E content opened name dst h F O' m R s1 \<and> redirected dst (cp_keydir s) (cp_keydir s1) \<and>
    at_records (env_crc E) src (length pre + length (log_bytes (env_crc E) ra)) rb (cp_keydir s1)"
  using assms(1,5,6,8,10,11)
proof (induction ra arbitrary: s pre)
  case Nil
  then show ?case using Process_torn [of "env_crc E" rb s E ctx src pos] part by (intro exI [of _ s]) simp
next
  case (Cons r ra)
  obtain k v f t where r: "r = (k, v, f, t)" by (cases r)
  let ?n = "21 + length k + length v" and ?rest = "log_bytes (env_crc E) ra @ part"
  have fit: "record_fits r" using Cons.prems(2) by simp
  have len: "length (entry_enc (env_crc E) r) = ?n" using fit r by (simp add: entry_enc_image)
  have off: "sz_sub pos (length (cp_buffer s)) = length pre" using Cons.prems(4) pos by (simp add: sz_sub_eq)
  have "\<exists>s1. ProcessBufferEntries E ctx src pos s = ProcessBufferEntries E ctx src pos s1 \<and> cp_buffer s1 = ?rest \<and>
    comp_ok E content opened name dst h F O' m (length (log_bytes (env_crc E) ra) + R) s1 \<and> redirected dst (cp_keydir s) (cp_keydir s1) \<and>
    at_records (env_crc E) src (length pre + ?n) (ra @ rb) (cp_keydir s1)"
    using Cons.prems(1,3,5,6) len by (intro Process_one [OF _ inj dst r fit refl _ off, where post = "log_bytes (env_crc E) (ra @ rb)"]) (simp_all add: add.assoc)
  then obtain s1 where s1: "ProcessBufferEntries E ctx src pos s = ProcessBufferEntries E ctx src pos s1" "cp_buffer s1 = ?rest"
    "comp_ok E content opened name dst h F O' m (length (log_bytes (env_crc E) ra) + R) s1" "redirected dst (cp_keydir s) (cp_keydir s1)"
    "at_records (env_crc E) src (length pre + ?n) (ra @ rb) (cp_keydir s1)" by blast
  have "\<exists>s2. ProcessBufferEntries E ctx src pos s1 = (Inr (), s2) \<and> cp_buffer s2 = part \<and>
    comp_ok E content opened name dst h F O' m R s2 \<and> redirected dst (cp_keydir s1) (cp_keydir s2) \<and>
    at_records (env_crc E) src (length (pre @ entry_enc (env_crc E) r) + length (log_bytes (env_crc E) ra)) rb (cp_keydir s2)"
    using Cons.prems(2-5) s1(2,3,5) len by (intro Cons.IH) simp_all
  then show ?case using s1(1,4) len by (auto intro: redirected_trans simp: add.assoc)
qed

section \<open>One source file\<close>

lemma compact_read_loop_ok:
  assumes "comp_ok E content opened name dst h F O' m (length (log_bytes (env_crc E) rs) + R) s" and inj: "inj name"
    and dst: "dst = ctx_dst_file_id ctx" "src \<noteq> dst" and fd: "O' fd = Some (name src)"
    and c: "F (name src) = Some c" "length c < size_limit"
    and "c = pre @ log_bytes (env_crc E) rs" and "at_records (env_crc E) src (length pre) rs (cp_keydir s)"
    and "\<forall>r \<in> set rs. record_fits r" and "torn (env_crc E) rs (cp_buffer s)" and "pos = length pre + length (cp_buffer s)"
    and "cp_buffer s @ drop pos c = log_bytes (env_crc E) rs" and "pos \<le> length c"
  shows "\<exists>s1. compact_read_loop E ctx src fd (length c) pos s = (Inr (), s1) \<and> cp_buffer s1 = [] \<and>
    comp_ok E content opened name dst h F O' m R s1 \<and> redirected dst (cp_keydir s) (cp_keydir s1) \<and>
    (\<forall>key loc. find_loc (cp_keydir s1) key = Some loc \<longrightarrow> loc_file_id loc \<noteq> src)"
  using assms(1,8-14)
proof (induction "length c - pos" arbitrary: pos s pre rs rule: less_induct)
  case less
  let ?crc = "env_crc E"
  note R = compact_read_loop.simps [of E ctx src fd "length c" pos s]
  show ?case
  proof (cases "length c \<le> pos")
    case True
    with less.prems(7,8) have b: "cp_buffer s = log_bytes ?crc rs" by simp
    have "rs = []" using torn_all less.prems(5,4) unfolding b by blast
    moreover have "compact_read_loop E ctx src fd (length c) pos s = (Inr (), s)" using True by (simp add: R)
    ultimately show ?thesis using less.prems b at_records_none [of ?crc src "length pre" "cp_keydir s"]
      by (intro exI [of _ s]) auto
  next
    case False
    let ?n = "min (env_room E (length (cp_buffer s)) (64 * 1024) (cp_world s)) (length c - pos)"
    have ne: "name src \<noteq> name dst" using inj dst(2) by (simp add: inj_eq)
    have o: "opened (cp_world s) fd = Some (name src)" "content (cp_world s) (name src) = Some c" "opened (cp_world s) = O'"
      using less.prems(1) fd c ne by (simp_all add: comp_ok_def)
    obtain bs w where rd: "env_read_at E fd ?n pos (cp_world s) = (Inr bs, w)" using read_at_succeeds [OF o(1,2)] by blast
    note rda = read_at_any [OF rd]
    have w: "content w = content (cp_world s)" "opened w = O'" using rda o(3) by simp_all
    have "0 < ?n" using room [of "64 * 1024" "length (cp_buffer s)" "cp_world s"] False by auto
    with rda o False obtain n where n: "bs = subspan pos n c" "n \<le> length c - pos" "bs \<noteq> []" by auto
    have bl: "length bs = n" "0 < length bs" using n(1,2) n(3) [folded length_greater_0_conv] by simp_all
    have dc: "drop pos c = bs @ drop (pos + length bs) c" using n bl by (simp add: subspan_def add.commute flip: drop_drop)
    let ?b = "cp_buffer s @ bs"
    have all: "?b @ drop (pos + length bs) c = log_bytes ?crc rs" using less.prems(7) dc by simp
    then have "take (length ?b) (log_bytes ?crc rs) = ?b" by (metis append_eq_conv_conj)
    with log_bytes_take [OF less.prems(4), of "length ?b" ?crc] obtain ra rb part where
      sp: "rs = ra @ rb" "?b = log_bytes ?crc ra @ part" "torn ?crc rb part" by auto
    let ?s = "s\<lparr>cp_world := w, cp_buffer := ?b\<rparr>" and ?pos = "pos + length bs"
    have inv: "comp_ok E content opened name dst h F O' m (length (log_bytes ?crc ra) + (length (log_bytes ?crc rb) + R)) ?s"
      using comp_ok_world [OF w(1,2) refl less.prems(1)] sp(1) by (simp add: add.assoc)
    have le: "?pos \<le> length c" using bl n False by simp
    have pl: "length (cp_buffer s) + length bs = length (log_bytes ?crc ra) + length part" using arg_cong [OF sp(2), of length] by simp
    have "\<exists>s1. ProcessBufferEntries E ctx src ?pos ?s = (Inr (), s1) \<and> cp_buffer s1 = part \<and>
      comp_ok E content opened name dst h F O' m (length (log_bytes ?crc rb) + R) s1 \<and> redirected dst (cp_keydir ?s) (cp_keydir s1) \<and>
      at_records ?crc src (length pre + length (log_bytes ?crc ra)) rb (cp_keydir s1)"
      by (rule Process_records [OF inv inj dst _ _ sp(3)]) (use less.prems sp c le pl in simp_all)
    then obtain s1 where s1: "ProcessBufferEntries E ctx src ?pos ?s = (Inr (), s1)" "cp_buffer s1 = part"
      "comp_ok E content opened name dst h F O' m (length (log_bytes ?crc rb) + R) s1" "redirected dst (cp_keydir s) (cp_keydir s1)"
      "at_records ?crc src (length (pre @ log_bytes ?crc ra)) rb (cp_keydir s1)" by auto
    have step: "compact_read_loop E ctx src fd (length c) pos s = compact_read_loop E ctx src fd (length c) ?pos s1"
      using rd n(3) s1(1) False by (simp add: R Let_def)
    have "log_bytes ?crc ra @ part @ drop ?pos c = log_bytes ?crc ra @ log_bytes ?crc rb" using all sp by simp
    then have rest: "part @ drop ?pos c = log_bytes ?crc rb" by simp
    have lt: "length c - ?pos < length c - pos" using bl(2) False by linarith
    have "\<exists>s2. compact_read_loop E ctx src fd (length c) ?pos s1 = (Inr (), s2) \<and> cp_buffer s2 = [] \<and>
      comp_ok E content opened name dst h F O' m R s2 \<and> redirected dst (cp_keydir s1) (cp_keydir s2) \<and>
      (\<forall>key loc. find_loc (cp_keydir s2) key = Some loc \<longrightarrow> loc_file_id loc \<noteq> src)"
      by (rule less.hyps [OF lt s1(3) _ s1(5)]) (use less.prems sp s1(2) rest le pl in simp_all)
    then show ?thesis unfolding step using s1(4) by (metis redirected_trans)
  qed
qed

lemma CompactSingleFile_ok:
  assumes inv: "comp_ok E content opened name dst h F O' m (length c + R) s" and inj: "inj name"
    and name: "name = data_path (ctx_config ctx) (ctx_partition_id ctx)" and fl: "read_flags (ctx_config ctx) AND O_TRUNC = 0"
    and dst: "dst = ctx_dst_file_id ctx" "src \<noteq> dst"
    and c: "F (name src) = Some c" "length c < size_limit" "c = log_bytes (env_crc E) rs" "\<forall>r \<in> set rs. record_fits r"
    and at: "at_records (env_crc E) src 0 rs (cp_keydir s)" and b: "cp_buffer s = []"
  shows "\<exists>s1. CompactSingleFile E ctx src s = (Inr (), s1) \<and> cp_buffer s1 = [] \<and>
    comp_ok E content opened name dst h F O' m R s1 \<and> redirected dst (cp_keydir s) (cp_keydir s1) \<and>
    (\<forall>key loc. find_loc (cp_keydir s1) key = Some loc \<longrightarrow> loc_file_id loc \<noteq> src)"
proof -
  obtain fd v where o: "env_open E (name src) (read_flags (ctx_config ctx)) (file_mode (ctx_config ctx)) (cp_world s) = (Inr fd, v)"
    using open_succeeds by blast
  note op = open_ok [OF o]
  have ne: "name src \<noteq> name dst" using inj dst(2) by (simp add: inj_eq)
  have cs: "content (cp_world s) (name src) = Some c" "opened (cp_world s) = O'" using inv c ne by (simp_all add: comp_ok_def)
  let ?O = "O'(fd \<mapsto> name src)" and ?s = "s\<lparr>cp_world := v\<rparr>"
  have v: "content v = content (cp_world s)" "opened v = ?O" using op cs fl by (auto simp: fun_eq_iff)
  have "O' fd = None" using op cs(2) by simp
  then have h: "fd \<noteq> h" using inv by (auto simp: comp_ok_def)
  have inv1: "comp_ok E content opened name dst h F ?O m (length (log_bytes (env_crc E) rs) + R) ?s"
    using comp_ok_world [OF v(1,2) _ inv] h c(3) by simp
  have fs: "env_fstat_size E fd v = Inr (length c)" using op cs v by (intro fstat_succeeds [of _ _ "name src"]) simp_all
  have "\<exists>s1. compact_read_loop E ctx src fd (length c) 0 ?s = (Inr (), s1) \<and> cp_buffer s1 = [] \<and>
    comp_ok E content opened name dst h F ?O m R s1 \<and> redirected dst (cp_keydir ?s) (cp_keydir s1) \<and>
    (\<forall>key loc. find_loc (cp_keydir s1) key = Some loc \<longrightarrow> loc_file_id loc \<noteq> src)"
    by (rule compact_read_loop_ok [OF inv1 inj dst _ c(1,2), where pre = "[]"]) (use c(3,4) at b in \<open>simp_all add: torn_def\<close>)
  then obtain s1 where s1: "compact_read_loop E ctx src fd (length c) 0 ?s = (Inr (), s1)" "cp_buffer s1 = []"
    "comp_ok E content opened name dst h F ?O m R s1" "redirected dst (cp_keydir s) (cp_keydir s1)"
    "\<forall>key loc. find_loc (cp_keydir s1) key = Some loc \<longrightarrow> loc_file_id loc \<noteq> src" by auto
  let ?w = "env_sysclose E fd (cp_world s1)"
  have cl: "content ?w = content (cp_world s1)" "opened ?w = O'"
    using sysclose_any [of fd "cp_world s1"] s1(3) \<open>O' fd = None\<close> by (auto simp: comp_ok_def fun_eq_iff)
  have e: "CompactSingleFile E ctx src s = (Inr (), s1\<lparr>cp_world := ?w\<rparr>)"
    using o fs s1(1) op by (simp add: CompactSingleFile_def name FileHandle_CloseFd_def)
  have "O' h = ?O h" using h by simp
  from comp_ok_world [OF cl this s1(3)] s1 e show ?thesis by (intro exI [of _ "s1\<lparr>cp_world := ?w\<rparr>"]) simp
qed

end

section \<open>A whole run\<close>

text \<open>A source file: whole records only, and the directory points at their beginnings.\<close>

definition source_file :: "(bytes \<Rightarrow> u32) \<Rightarrow> (path \<Rightarrow> bytes option) \<Rightarrow> (u64 \<Rightarrow> path) \<Rightarrow> KeyDir \<Rightarrow> u64 \<Rightarrow> bool" where
  "source_file crc files name kd src \<longleftrightarrow>
     (\<exists>rs. files (name src) = Some (log_bytes crc rs) \<and> (\<forall>r \<in> set rs. record_fits r) \<and> at_records crc src 0 rs kd)"

definition source_size :: "(path \<Rightarrow> bytes option) \<Rightarrow> (u64 \<Rightarrow> path) \<Rightarrow> u64 list \<Rightarrow> nat" where
  "source_size files name srcs = (\<Sum>i \<leftarrow> srcs. length (the (files (name i))))"

definition no_entry_in :: "u64 set \<Rightarrow> KeyDir \<Rightarrow> bool" where
  "no_entry_in I kd \<longleftrightarrow> (\<forall>key loc. find_loc kd key = Some loc \<longrightarrow> loc_file_id loc \<notin> I)"

lemma no_entry_in_redirected: "no_entry_in I kd \<Longrightarrow> redirected dst kd kd' \<Longrightarrow> dst \<notin> I \<Longrightarrow> no_entry_in I kd'"
  unfolding no_entry_in_def redirected_def by blast

context reliable_env
begin

lemma compact_sources_ok:
  assumes "comp_ok E content opened name dst h F O' m (source_size F name srcs) s" and inj: "inj name"
    and name: "name = data_path (ctx_config ctx) (ctx_partition_id ctx)" and fl: "read_flags (ctx_config ctx) AND O_TRUNC = 0"
    and dst: "dst = ctx_dst_file_id ctx" and "dst \<notin> set srcs"
    and "\<forall>i \<in> set srcs. source_file (env_crc E) F name (cp_keydir s) i" and "cp_buffer s = []"
  shows "\<exists>s1. compact_sources E ctx srcs s = (Inr (), s1) \<and> comp_ok E content opened name dst h F O' m 0 s1 \<and>
    redirected dst (cp_keydir s) (cp_keydir s1) \<and> no_entry_in (set srcs) (cp_keydir s1)"
  using assms(1,6-8)
proof (induction srcs arbitrary: s)
  case Nil
  then show ?case by (simp add: source_size_def no_entry_in_def)
next
  case (Cons i srcs)
  obtain rs where rs: "F (name i) = Some (log_bytes (env_crc E) rs)" "\<forall>r \<in> set rs. record_fits r" "at_records (env_crc E) i 0 rs (cp_keydir s)"
    using Cons.prems(3) by (auto simp: source_file_def)
  have sz: "source_size F name (i # srcs) = length (log_bytes (env_crc E) rs) + source_size F name srcs" using rs(1) by (simp add: source_size_def)
  have lim: "length (log_bytes (env_crc E) rs) < size_limit" using Cons.prems(1) unfolding sz comp_ok_def by linarith
  have ne: "i \<noteq> dst" using Cons.prems(2) by auto
  obtain s1 where s1: "CompactSingleFile E ctx i s = (Inr (), s1)" "cp_buffer s1 = []"
    "comp_ok E content opened name dst h F O' m (source_size F name srcs) s1" "redirected dst (cp_keydir s) (cp_keydir s1)"
    "\<forall>key loc. find_loc (cp_keydir s1) key = Some loc \<longrightarrow> loc_file_id loc \<noteq> i"
    using CompactSingleFile_ok [OF Cons.prems(1) [unfolded sz] inj name fl dst ne rs(1) lim refl rs(2,3) Cons.prems(4)] by blast
  have "source_file (env_crc E) F name (cp_keydir s1) j" if "j \<in> set srcs" for j
  proof -
    have "j \<noteq> dst" "source_file (env_crc E) F name (cp_keydir s) j" using that Cons.prems(2,3) by auto
    then show ?thesis using at_records_redirected [OF _ s1(4)] unfolding source_file_def by blast
  qed
  with Cons.IH [OF s1(3)] s1(2) Cons.prems(2) obtain s2 where s2: "compact_sources E ctx srcs s1 = (Inr (), s2)"
    "comp_ok E content opened name dst h F O' m 0 s2" "redirected dst (cp_keydir s1) (cp_keydir s2)" "no_entry_in (set srcs) (cp_keydir s2)" by auto
  have "no_entry_in {i} (cp_keydir s2)"
    using s1(5) ne by (intro no_entry_in_redirected [OF _ s2(3)]) (auto simp: no_entry_in_def)
  with s2(4) have "no_entry_in (set (i # srcs)) (cp_keydir s2)" by (auto simp: no_entry_in_def)
  with s1(1) s2 redirected_trans [OF s1(4) s2(3)] show ?case by simp
qed

lemma CompactFiles_ok:
  assumes dir: "dir_holds (env_crc E) (content w) name kd m" and inj: "inj name"
    and name: "name = data_path (ctx_config ctx) (ctx_partition_id ctx)"
    and fl: "read_flags (ctx_config ctx) AND O_TRUNC = 0" "write_flags (ctx_config ctx) AND O_APPEND = 0"
    and dst: "dst = ctx_dst_file_id ctx" "no_entry_in {dst} kd" "dst \<notin> set (ctx_src_file_ids ctx)"
    and src: "\<forall>i \<in> set (ctx_src_file_ids ctx). source_file (env_crc E) (content w) name kd i"
    and lim: "source_size (content w) name (ctx_src_file_ids ctx) < size_limit"
  shows "\<exists>kd' st' w'. CompactFiles E ctx kd st w = (Inr (), kd', st', w') \<and> dir_holds (env_crc E) (content w') name kd' m \<and>
    opened w' = opened w \<and> (\<forall>p. p \<noteq> name dst \<longrightarrow> content w' p = content w p) \<and> redirected dst kd kd' \<and>
    no_entry_in (set (ctx_src_file_ids ctx)) kd'"
proof -
  let ?cfg = "ctx_config ctx" and ?srcs = "ctx_src_file_ids ctx" and ?crc = "env_crc E"
  obtain fd v where o: "env_open E (name dst) (write_flags ?cfg) (file_mode ?cfg) w = (Inr fd, v)" using open_succeeds by blast
  note op = open_ok [OF o]
  obtain flags where "env_getfl E fd v = Inr flags" "flags AND O_APPEND = 0" using getfl_succeeds [OF o fl(2)] by blast
  then have df: "mk_DataFile E fd dst v = Inr \<lparr>df_file_id = dst, df_handle = fd, df_size = 0\<rparr>" using op by (simp add: mk_DataFile_def)
  have other: "\<And>p. p \<noteq> name dst \<Longrightarrow> content v p = content w p" using op by simp
  have dirv: "dir_holds ?crc (content v) name kd m"
    by (rule dir_holds_frame [OF dir], rule holds_entry_other, rule other)
      (use dst(2) inj in \<open>auto simp: no_entry_in_def inj_eq\<close>)
  let ?s = "\<lparr>cp_keydir = kd, cp_dst = \<lparr>df_file_id = dst, df_handle = fd, df_size = 0\<rparr>, cp_buffer = [], cp_reclaimed = 0, cp_copied = 0,
    cp_skipped = 0, cp_world = v\<rparr>"
  have inv: "comp_ok E content opened name dst fd (content w) (opened v) m (source_size (content w) name ?srcs) ?s"
    using op dirv dst(2) lim by (auto simp: comp_ok_def no_entry_in_def)
  obtain s1 where s1: "compact_sources E ctx ?srcs ?s = (Inr (), s1)" "comp_ok E content opened name dst fd (content w) (opened v) m 0 s1"
    "redirected dst kd (cp_keydir s1)" "no_entry_in (set ?srcs) (cp_keydir s1)"
    using compact_sources_ok [OF inv inj name fl(1) dst(1,3)] src by auto
  let ?n = "df_size (cp_dst s1)" and ?kd = "cp_keydir s1"
  have h: "df_handle (cp_dst s1) = fd" "opened v fd = Some (name dst)" "opened (cp_world s1) = opened v" using s1(2) by (simp_all add: comp_ok_def)
  obtain c where c: "content (cp_world s1) (name dst) = Some c" using s1(2) by (auto simp: comp_ok_def)
  obtain w2 where w2: "env_fsync E fd (cp_world s1) = (Inr (), w2)" using fsync_succeeds [of "cp_world s1" fd] h by auto
  have v2: "content w2 = content (cp_world s1)" "opened w2 = opened v" using fsync_any [OF w2] h by auto
  obtain w3 where w3: "env_ftruncate E fd ?n w2 = (Inr (), w3)" using ftruncate_succeeds [of w2 fd "name dst" ?n] v2 h c by auto
  have v3: "content w3 = (content (cp_world s1))(name dst \<mapsto> resize ?n c)" "opened w3 = opened v"
    using ftruncate_any [OF w3, of "name dst" c] v2 h c by auto
  obtain w4 where w4: "env_close E fd w3 = (Inr (), w4)" using close_succeeds [of w3 fd] v3 h by auto
  have "opened w4 g = opened w g" for g using close_any [OF w4] v3(2) op by (cases "g = fd") auto
  then have v4: "content w4 = content w3" "opened w4 = opened w" using close_any [OF w4] by auto
  have run: "\<exists>st'. CompactFiles E ctx kd st w = (Inr (), ?kd, st', w4)"
    using o df s1(1) w2 w3 w4 h(1) op
    by (simp add: CompactFiles_def name dst(1) co_try_def DataFile_AsyncClose_def FileHandle_IsValid_def FileHandle_Release_def
        FileHandle_CloseFd_def Let_def)
  have "holds_entry ?crc (content w4) (name (loc_file_id loc)) loc key val"
    if l: "find_loc ?kd key = Some loc" and hd: "holds_entry ?crc (content (cp_world s1)) (name (loc_file_id loc)) loc key val" for key loc val
  proof (cases "loc_file_id loc = dst")
    case True
    with s1(2) l have "loc_offset loc + loc_total_size loc \<le> ?n" unfolding comp_ok_def by blast
    moreover have "content w4 (name (loc_file_id loc)) = Some (resize ?n c)" by (simp add: True v4 v3)
    moreover have "content (cp_world s1) (name (loc_file_id loc)) = Some c" by (simp add: True c)
    ultimately show ?thesis by (intro holds_entry_resize [OF hd])
  next
    case False
    then have "name (loc_file_id loc) \<noteq> name dst" using inj by (simp add: inj_eq)
    then show ?thesis by (intro holds_entry_other [OF _ hd]) (simp add: v4 v3)
  qed
  moreover have "dir_holds ?crc (content (cp_world s1)) name ?kd m" using s1(2) by (simp add: comp_ok_def)
  ultimately have "dir_holds ?crc (content w4) name ?kd m" by (rule dir_holds_frame [rotated])
  moreover have "content w4 p = content w p" if "p \<noteq> name dst" for p using that s1(2) v4(1) v3(1) by (simp add: comp_ok_def)
  ultimately show ?thesis using run v4(2) s1(3,4) by blast
qed

end

section \<open>Deleting the sources\<close>

context posix_env
begin

text \<open>A data file that no entry refers to and that is not the active one can be removed.\<close>

lemma remove_file_ok:
  assumes inv: "partition_ok E content opened s" and none: "no_entry_in {i} (p_keydir s)" and act: "i \<noteq> ActiveFileId s"
    and core: "same_core s s'" "p_active_file s' = p_active_file s" "p_fd_cache s' = p_fd_cache s"
    and w: "opened (p_world s') = opened (p_world s)"
      "\<And>q. q \<noteq> GetDataFilePath i s \<Longrightarrow> (\<And>j. q = GetDataFilePath j s \<Longrightarrow> content (p_world s') q = content (p_world s) q)"
  shows "partition_ok E content opened s' \<and> partition_view content s' = partition_view content s"
proof -
  have p: "p_keydir s' = p_keydir s" "p_config s' = p_config s" "p_partition_id s' = p_partition_id s" "p_file_id_gen s' = p_file_id_gen s"
    using core by (simp_all add: same_core_def)
  have n: "GetDataFilePath j s' = GetDataFilePath j s" for j by (simp add: GetDataFilePath_def p)
  have keep: "content (p_world s') (GetDataFilePath j s) = content (p_world s) (GetDataFilePath j s)" if "j \<noteq> i" for j
    using w(2) [OF _ refl, of j] that by (simp add: GetDataFilePath_def)
  have "holds_entry (env_crc E) (content (p_world s')) (loc_path s loc) loc key val"
    if l: "find_loc (p_keydir s) key = Some loc" and h: "holds_entry (env_crc E) (content (p_world s)) (loc_path s loc) loc key val" for key loc val
    using none l keep [of "loc_file_id loc"]
    by (intro holds_entry_other [OF _ h]) (auto simp: no_entry_in_def loc_path_def GetDataFilePath_def)
  from sound_dir_frame [of "env_crc E" "content (p_world s)" s s', OF _ p(1-3) _ this] inv p
  have d: "sound_dir (env_crc E) (content (p_world s')) s'" "store_view (content (p_world s')) s' = store_view (content (p_world s)) s"
    by (simp_all add: partition_ok_def)
  obtain df where a: "p_active_file s = Some df" using inv by (auto simp: partition_ok_def sound_fds_def)
  with act have "df_file_id df \<noteq> i" by (simp add: ActiveFileId_def)
  from keep [OF this] a inv have "sound_fds (content (p_world s')) (opened (p_world s')) s'"
    by (auto simp: partition_ok_def sound_fds_def core w(1) n p)
  with d show ?thesis by (simp add: partition_ok_def partition_view_def)
qed

lemma cache_remove_ok:
  assumes inv: "partition_ok E content opened s" and act: "i \<noteq> ActiveFileId s"
    and rm: "FDCache_Remove E i (p_fd_cache s, p_world s) = (c, w)"
  shows "partition_ok E content opened (s\<lparr>p_fd_cache := c, p_world := w\<rparr>)" and "content w = content (p_world s)"
proof -
  let ?name = "\<lambda>i. GetDataFilePath i s"
  obtain df where a: "p_active_file s = Some df" "opened (p_world s) (df_handle df) = Some (?name (df_file_id df))"
    using inv by (auto simp: partition_ok_def sound_fds_def)
  have inj: "inj ?name" by (simp add: inj_def GetDataFilePath_def)
  have co: "cache_opens (opened (p_world s)) ?name (p_fd_cache s)" using inv by (simp add: partition_ok_def sound_fds_def)
  have "cache_opens (opened w) ?name c \<and> content w = content (p_world s) \<and> opened w (df_handle df) = Some (?name (df_file_id df)) \<and>
    (\<forall>j. cached c j \<longrightarrow> cached (p_fd_cache s) j)"
  proof (cases "map_of (fdc_cache (p_fd_cache s)) i")
    case None
    with rm co a show ?thesis by (simp add: FDCache_Remove_def)
  next
    case (Some e)
    with rm have c: "map_of (fdc_cache c) = (map_of (fdc_cache (p_fd_cache s)))(i := None)"
      and w: "w = snd (FileHandle_CloseFd E (ce_handle e) (p_world s))"
      by (auto simp: FDCache_Remove_def Let_def delete_conv' lru_erase_def)
    note k = cache_opens_close [OF co inj Some c w]
    have "?name (df_file_id df) \<noteq> ?name i" using act a by (simp add: GetDataFilePath_def ActiveFileId_def)
    with k(3) [of "df_handle df"] a(2) have "opened w (df_handle df) = Some (?name (df_file_id df))" by simp
    with k(1,2) c show ?thesis by (simp add: cached_def)
  qed
  then have k: "cache_opens (opened w) ?name c" "content w = content (p_world s)" "opened w (df_handle df) = Some (?name (df_file_id df))"
    "\<And>j. cached c j \<Longrightarrow> cached (p_fd_cache s) j" by blast+
  show "content w = content (p_world s)" by (rule k(2))
  let ?s = "s\<lparr>p_fd_cache := c, p_world := w\<rparr>"
  have n: "GetDataFilePath j ?s = GetDataFilePath j s" for j by (simp add: GetDataFilePath_def)
  have "sound_dir (env_crc E) (content w) ?s"
    using inv by (simp add: partition_ok_def sound_dir_def loc_path_def k(2))
  moreover have "sound_fds (content w) (opened w) ?s"
    using inv k a by (auto simp: partition_ok_def sound_fds_def n)
  ultimately show "partition_ok E content opened ?s" by (simp add: partition_ok_def)
qed

lemma delete_sources_ok:
  assumes "partition_ok E content opened s" and "no_entry_in (set srcs) (p_keydir s)" and "ActiveFileId s \<notin> set srcs"
  shows "partition_ok E content opened (snd (delete_sources E srcs b s)) \<and>
    partition_view content (snd (delete_sources E srcs b s)) = partition_view content s"
  using assms
proof (induction srcs arbitrary: b s)
  case (Cons i srcs)
  obtain c w where rm: "FDCache_Remove E i (p_fd_cache s, p_world s) = (c, w)" by (metis surj_pair)
  have act: "i \<noteq> ActiveFileId s" using Cons.prems(3) by auto
  note rmo = cache_remove_ok [OF Cons.prems(1) act rm]
  let ?s1 = "s\<lparr>p_fd_cache := c, p_world := w\<rparr>"
  have "\<exists>b' st. (case map_of (data_files (p_stats ?s1)) i of None \<Rightarrow> (b, ?s1)
      | Some f \<Rightarrow> (sz_add b (total_bytes f), upd_stats (erase_file_stats i) ?s1)) = (b', ?s1\<lparr>p_stats := st\<rparr>)"
    by (cases "map_of (data_files (p_stats ?s1)) i") (auto simp: upd_stats_def intro: exI [of _ "p_stats ?s1"])
  then obtain b' st where b': "(case map_of (data_files (p_stats ?s1)) i of None \<Rightarrow> (b, ?s1)
      | Some f \<Rightarrow> (sz_add b (total_bytes f), upd_stats (erase_file_stats i) ?s1)) = (b', ?s1\<lparr>p_stats := st\<rparr>)" by blast
  let ?p = "GetDataFilePath i s" and ?h = "GetHintFilePath i s"
  obtain q w1 where u1: "env_unlink E ?p w = (q, w1)" by (metis surj_pair)
  obtain q2 w2 where u2: "env_unlink E ?h w1 = (q2, w2)" by (metis surj_pair)
  let ?w = "if env_exists E ?h w1 then w2 else w1"
  let ?st = "st\<lparr>files_compacted_total := sz_add (files_compacted_total st) 1\<rparr>"
  have "delete_sources E (i # srcs) b s = delete_sources E srcs b' (?s1\<lparr>p_world := ?w, p_stats := ?st\<rparr>)"
    unfolding delete_sources.simps rm Let_def prod.case b'
    using u1 u2 by (simp add: upd_stats_def GetDataFilePath_def GetHintFilePath_def)
  then obtain st' where d: "delete_sources E (i # srcs) b s = delete_sources E srcs b' (?s1\<lparr>p_world := ?w, p_stats := st'\<rparr>)" by blast
  let ?s2 = "?s1\<lparr>p_world := ?w, p_stats := st'\<rparr>"
  have "partition_ok E content opened ?s2 \<and> partition_view content ?s2 = partition_view content ?s1"
    using act Cons.prems(2) unlink_any [OF u1] unlink_any [OF u2]
    by (intro remove_file_ok [OF rmo(1), of i]) (auto simp: no_entry_in_def ActiveFileId_def same_core_def GetDataFilePath_def GetHintFilePath_def)
  moreover have "partition_view content ?s1 = partition_view content s"
    by (simp add: partition_view_def store_view_def loc_path_def rmo(2) fun_eq_iff split: option.splits)
  moreover have "no_entry_in (set srcs) (p_keydir ?s2)" "ActiveFileId ?s2 \<notin> set srcs"
    using Cons.prems by (auto simp: no_entry_in_def ActiveFileId_def)
  ultimately show ?case unfolding d using Cons.IH [of ?s2 b'] by simp
qed simp

end

section \<open>Compaction of a partition\<close>

definition compactable :: "'w env \<Rightarrow> ('w \<Rightarrow> path \<Rightarrow> bytes option) \<Rightarrow> 'w Partition \<Rightarrow> bool" where
  "compactable E content s \<longleftrightarrow>
     (\<forall>i \<in> set (FindFragmentedFiles E s).
        source_file (env_crc E) (content (p_world s)) (\<lambda>i. GetDataFilePath i s) (p_keydir s) i \<and> i \<le> gen_current (p_file_id_gen s)) \<and>
     source_size (content (p_world s)) (\<lambda>i. GetDataFilePath i s) (FindFragmentedFiles E s) < size_limit \<and>
     read_flags (p_config s) AND O_TRUNC = 0 \<and> write_flags (p_config s) AND O_APPEND = 0"

lemma sound_dir_holds:
  assumes "sound_dir crc files s"
  shows "dir_holds crc files (\<lambda>i. GetDataFilePath i s) (p_keydir s) (store_view files s)"
  unfolding dir_holds_def
proof (rule allI)
  fix key
  show "case find_loc (p_keydir s) key of None \<Rightarrow> store_view files s key = None
      | Some loc \<Rightarrow> \<exists>val. store_view files s key = Some val \<and> holds_entry crc files (GetDataFilePath (loc_file_id loc) s) loc key val"
  proof (cases "find_loc (p_keydir s) key")
    case (Some loc)
    from sound_dirD [OF assms Some] show ?thesis using Some by (auto simp: loc_path_def GetDataFilePath_def)
  qed (simp add: store_view_def)
qed

lemma fragmented_not_active: "ActiveFileId s \<notin> set (FindFragmentedFiles E s)"
  by (auto simp: FindFragmentedFiles_def)

context reliable_env
begin

lemma Compact_ok:
  assumes inv: "partition_ok E content opened s" and cp: "compactable E content s" and room: "\<not> gen_exhausted now (p_file_id_gen s)"
  shows "\<exists>s'. Compact E now s = (Inr (), s') \<and> partition_ok E content opened s' \<and> partition_view content s' = partition_view content s"
proof (cases "compaction_running (p_stats s) \<or> FindFragmentedFiles E s = []")
  case True
  obtain df where "p_active_file s = Some df" using inv by (rule partition_ok_active)
  with True have "Compact E now s = (Inr (), s) \<or> Compact E now s = (Inr (), s\<lparr>p_compaction_trigger := False\<rparr>)"
    by (auto simp: Compact_def Let_def)
  then show ?thesis using inv partition_ok_cong [of "s\<lparr>p_compaction_trigger := False\<rparr>" s content opened] by auto
next
  case False
  let ?srcs = "FindFragmentedFiles E s" and ?name = "\<lambda>i. GetDataFilePath i s"
  obtain df c where a: "p_active_file s = Some df" "0 \<le> df_handle df" "opened (p_world s) (df_handle df) = Some (?name (df_file_id df))"
    "content (p_world s) (?name (df_file_id df)) = Some c" "df_file_id df \<le> gen_current (p_file_id_gen s)"
    "\<And>key loc. find_loc (p_keydir s) key = Some loc \<Longrightarrow> loc_file_id loc = df_file_id df \<Longrightarrow> loc_offset loc + loc_total_size loc \<le> df_size df"
    "\<not> cached (p_fd_cache s) (df_file_id df)" using partition_ok_active [OF inv] by blast
  obtain i gen where nx: "FileIdGenerator_Next now (p_file_id_gen s) = (i, gen)" by (metis surj_pair)
  have lt: "gen_current (p_file_id_gen s) < i" by (rule Next_increases [OF nx room])
  have gi: "gen_current gen = i" by (rule Next_current [OF nx, symmetric])
  let ?ctx = "\<lparr>ctx_config = p_config s, ctx_partition_id = p_partition_id s, ctx_dst_file_id = i, ctx_src_file_ids = ?srcs\<rparr>"
  have sd: "sound_dir (env_crc E) (content (p_world s)) s" using inv by (simp add: partition_ok_def)
  have old: "loc_file_id loc \<le> gen_current (p_file_id_gen s)" if "find_loc (p_keydir s) key = Some loc" for key loc
    using sd that unfolding sound_dir_def by blast
  then have fresh: "no_entry_in {i} (p_keydir s)" using lt by (fastforce simp: no_entry_in_def)
  let ?st = "(p_stats s)\<lparr>compaction_running := True\<rparr>"
  have "\<exists>kd' st' w'. CompactFiles E ?ctx (p_keydir s) ?st (p_world s) = (Inr (), kd', st', w') \<and>
    dir_holds (env_crc E) (content w') ?name kd' (store_view (content (p_world s)) s) \<and>
    opened w' = opened (p_world s) \<and> (\<forall>p. p \<noteq> ?name i \<longrightarrow> content w' p = content (p_world s) p) \<and> redirected i (p_keydir s) kd' \<and>
    no_entry_in (set (ctx_src_file_ids ?ctx)) kd'"
    using cp lt fresh
    by (intro CompactFiles_ok [OF sound_dir_holds [OF sd]]) (auto simp: compactable_def inj_def GetDataFilePath_def fun_eq_iff)
  then obtain kd' st' w' where r: "CompactFiles E ?ctx (p_keydir s) ?st (p_world s) = (Inr (), kd', st', w')"
    and d: "dir_holds (env_crc E) (content w') ?name kd' (store_view (content (p_world s)) s)"
    and o: "opened w' = opened (p_world s)" and f: "\<And>p. p \<noteq> ?name i \<Longrightarrow> content w' p = content (p_world s) p"
    and red: "redirected i (p_keydir s) kd'" and none: "no_entry_in (set ?srcs) kd'" by auto
  let ?s1 = "s\<lparr>p_file_id_gen := gen, p_keydir := kd', p_world := w', p_stats := st'\<lparr>compactions_total := sz_add (compactions_total st') 1\<rparr>\<rparr>"
  have n: "GetDataFilePath j (s\<lparr>p_file_id_gen := gen, p_keydir := kd', p_world := w', p_stats := st2\<rparr>) = GetDataFilePath j s" for j st2
    by (simp add: GetDataFilePath_def)
  have v1: "store_view (content w') ?s1 = store_view (content (p_world s)) s"
    by (rule dir_holds_view [of "env_crc E"]) (use d in \<open>simp add: GetDataFilePath_def\<close>)
  have ids: "loc_file_id loc \<le> i" if "find_loc kd' key = Some loc" for key loc
  proof -
    have "loc_file_id loc = i \<or> find_loc (p_keydir s) key = Some loc" using red that unfolding redirected_def by blast
    with old [of key loc] lt show ?thesis by auto
  qed
  have "\<exists>val. holds_entry (env_crc E) (content w') (?name (loc_file_id loc)) loc key val" if "find_loc kd' key = Some loc" for key loc
    using d [unfolded dir_holds_def, rule_format, of key] that by auto
  with ids have sd1: "sound_dir (env_crc E) (content w') ?s1" by (simp add: sound_dir_def gi loc_path_def GetDataFilePath_def)
  have ne: "df_file_id df \<noteq> i" using a(5) lt by auto
  then have act: "content w' (?name (df_file_id df)) = Some c" using f a(4) by (simp add: GetDataFilePath_def)
  have low: "loc_offset loc + loc_total_size loc \<le> df_size df" if "find_loc kd' key = Some loc" "loc_file_id loc = df_file_id df" for key loc
    using red that a(6) ne unfolding redirected_def by metis
  have cs: "cached (p_fd_cache s) j \<Longrightarrow> j \<le> i" for j using inv lt by (force simp: partition_ok_def sound_fds_def)
  have co: "cache_opens (opened w') ?name (p_fd_cache s)" using inv o by (simp add: partition_ok_def sound_fds_def)
  have fd1: "sound_fds (content w') (opened w') ?s1"
    using a(1,2,3,5,7) lt act low cs co by (auto simp: sound_fds_def n gi o)
  have ok1: "partition_ok E content opened ?s1" using sd1 fd1 by (simp add: partition_ok_def)
  obtain b s2 where ds: "delete_sources E ?srcs 0 ?s1 = (b, s2)" by (metis surj_pair)
  have "partition_ok E content opened s2 \<and> partition_view content s2 = partition_view content ?s1"
    using delete_sources_ok [OF ok1, of ?srcs 0] none fragmented_not_active [of s E] ds by (simp add: ActiveFileId_def)
  moreover have "Compact E now s = (Inr (), upd_stats (\<lambda>st. st\<lparr>bytes_reclaimed_total := sz_add (bytes_reclaimed_total st) b,
      compaction_running := False\<rparr>) s2)"
    using False a(1) nx r ds by (simp add: Compact_def Let_def upd_stats_def)
  moreover have "partition_view content ?s1 = partition_view content s" using v1 by (simp add: partition_view_def)
  ultimately show ?thesis by (simp add: partition_ok_cong [of "upd_stats _ s2" s2])
qed

end

section \<open>Properties of compaction\<close>

text \<open>A partition with one sealed file, half of it dead, for the witnesses.\<close>

definition demo_records :: "log_record list" where
  "demo_records = [([1], [10], 0, 7), ([1], [11], 0, 8)]"

definition demo_sealed :: "mem Partition" where
  "demo_sealed =
     (let p = data_path demo_config 0 5; q = data_path demo_config 0 6
      in (mk_Partition demo_config 0
            \<lparr>mem_files = [(p, log_bytes (env_crc mem_env) demo_records), (q, [])], mem_fds = [(3, (q, 0))], mem_next = 4\<rparr>)
           \<lparr>p_keydir := [([1], \<lparr>loc_file_id = 5, loc_offset = 23, loc_total_size = 23, loc_timestamp_ns = 8\<rparr>)],
            p_active_file := Some \<lparr>df_file_id = 6, df_handle = 3, df_size = 0\<rparr>,
            p_file_id_gen := \<lparr>partition_id = 0, last_timestamp = 0, gen_sequence = 6\<rparr>,
            p_stats := zero_PartitionStats\<lparr>data_files := [(5, \<lparr>total_bytes = 46, live_bytes = 23, live_entries = 1\<rparr>)]\<rparr>\<rparr>)"

lemma demo_fragmentation: "Fragmentation \<lparr>total_bytes = 46, live_bytes = 23, live_entries = n\<rparr> = 1 / 2"
proof -
  have "fragmentation_of 23 46 = 1 / 2" by code_simp
  then show ?thesis by (simp add: Fragmentation_def)
qed

lemma demo_sealed_fields:
  "p_keydir demo_sealed = [([1], \<lparr>loc_file_id = 5, loc_offset = 23, loc_total_size = 23, loc_timestamp_ns = 8\<rparr>)]"
  "p_active_file demo_sealed = Some \<lparr>df_file_id = 6, df_handle = 3, df_size = 0\<rparr>" "gen_current (p_file_id_gen demo_sealed) = 6"
  "p_config demo_sealed = demo_config" "p_partition_id demo_sealed = 0" "p_fd_cache demo_sealed = mk_FDCache 100"
  "mem_opened (p_world demo_sealed) 3 = Some (data_path demo_config 0 6)"
  "mem_content (p_world demo_sealed) (data_path demo_config 0 5) = Some (log_bytes (env_crc mem_env) demo_records)"
  "mem_content (p_world demo_sealed) (data_path demo_config 0 6) = Some []"
  "FindFragmentedFiles mem_env demo_sealed = [5]" "\<not> gen_exhausted now (p_file_id_gen demo_sealed)"
  by (simp_all add: demo_sealed_def mk_Partition_def Let_def gen_current_def FileID_Encode_def mem_opened_def mem_content_def
      demo_config_def default_BitcaskConfig_def FindFragmentedFiles_def ActiveFileId_def mem_env_def zero_PartitionStats_def demo_fragmentation
      gen_exhausted_def)

lemma demo_records_bytes:
  "length (log_bytes (env_crc mem_env) demo_records) = 46"
  "subspan 23 23 (log_bytes (env_crc mem_env) demo_records) = entry_image (env_crc mem_env) [1] [11] kFlagNone 8"
  "\<forall>r \<in> set demo_records. record_fits r"
proof -
  have f: "record_fits ([1], [10], 0, 7)" "record_fits ([1], [11], 0, 8)" by (simp_all add: record_fits_def)
  then show "\<forall>r \<in> set demo_records. record_fits r" by (simp add: demo_records_def)
  have b: "log_bytes (env_crc mem_env) demo_records =
      entry_image (env_crc mem_env) [1] [10] 0 7 @ entry_image (env_crc mem_env) [1] [11] 0 8"
    by (simp add: demo_records_def entry_enc_image [OF f(1)] entry_enc_image [OF f(2)])
  show "length (log_bytes (env_crc mem_env) demo_records) = 46" by (simp add: b)
  show "subspan 23 23 (log_bytes (env_crc mem_env) demo_records) = entry_image (env_crc mem_env) [1] [11] kFlagNone 8"
    by (simp add: b subspan_def kFlagNone_def)
qed

lemma demo_sealed_ok:
  "partition_ok mem_env mem_content mem_opened demo_sealed" "partition_view mem_content demo_sealed [1] = Some [11]"
proof -
  let ?loc = "\<lparr>loc_file_id = 5, loc_offset = 23, loc_total_size = 23, loc_timestamp_ns = 8\<rparr>"
  have h: "holds_entry (env_crc mem_env) (mem_content (p_world demo_sealed)) (loc_path demo_sealed ?loc) ?loc [1] [11]"
    by (simp add: holds_entry_def loc_path_def demo_sealed_fields demo_records_bytes)
  have f: "find_loc (p_keydir demo_sealed) k = (if k = [1] then Some ?loc else None)" for k
    by (simp add: find_loc_def demo_sealed_fields)
  show "partition_view mem_content demo_sealed [1] = Some [11]"
    using store_view_entry [OF _ h] f by (simp add: partition_view_def)
  have "sound_dir (env_crc mem_env) (mem_content (p_world demo_sealed)) demo_sealed"
    using h by (auto simp: sound_dir_def f demo_sealed_fields(3))
  moreover have "sound_fds (mem_content (p_world demo_sealed)) (mem_opened (p_world demo_sealed)) demo_sealed"
    by (simp add: sound_fds_def demo_sealed_fields(2-) GetDataFilePath_def f cached_def cache_opens_def mk_FDCache_def)
  ultimately show "partition_ok mem_env mem_content mem_opened demo_sealed" by (simp add: partition_ok_def)
qed

lemma demo_sealed_compactable: "compactable mem_env mem_content demo_sealed"
proof -
  have "at_records (env_crc mem_env) 5 0 demo_records (p_keydir demo_sealed)"
    unfolding at_records_def
  proof (intro allI impI)
    fix key loc
    assume "find_loc (p_keydir demo_sealed) key = Some loc \<and> loc_file_id loc = 5"
    then have "loc_offset loc = 23" by (auto simp: find_loc_def demo_sealed_fields split: if_splits)
    moreover have "length (log_bytes (env_crc mem_env) [([1], [10], 0, 7)]) = 23" by (simp add: entry_enc_image record_fits_def)
    ultimately show "\<exists>ra rb. demo_records = ra @ rb \<and> rb \<noteq> [] \<and> loc_offset loc = 0 + length (log_bytes (env_crc mem_env) ra)"
      by (intro exI [of _ "[([1], [10], 0, 7)]"] exI [of _ "[([1], [11], 0, 8)]"]) (simp add: demo_records_def)
  qed
  moreover have "read_flags demo_config AND O_TRUNC = 0" "write_flags demo_config AND O_APPEND = 0"
    by (simp_all add: demo_config_def default_BitcaskConfig_def O_RDONLY_def O_CREAT_def O_RDWR_def O_APPEND_def)
  ultimately show ?thesis
    using demo_records_bytes
    by (auto simp: compactable_def demo_sealed_fields source_file_def source_size_def GetDataFilePath_def size_limit_def)
qed



section \<open>Runs that go wrong\<close>

text \<open>Whatever the environment does, a run only ever redirects entries to its destination.\<close>

lemma copy_entry_redirected:
  "copy_entry E ctx src off k v t s = (r, s') \<Longrightarrow> redirected (ctx_dst_file_id ctx) (cp_keydir s) (cp_keydir s')"
  by (auto simp: copy_entry_def Let_def redirected_def find_loc_def update_conv' split: prod.splits sum.splits if_splits)

lemma Process_redirected:
  "ProcessBufferEntries E ctx src pos s = (r, s') \<Longrightarrow> redirected (ctx_dst_file_id ctx) (cp_keydir s) (cp_keydir s')"
proof (induction "length (cp_buffer s)" arbitrary: s rule: less_induct)
  case less
  note R = less.prems [unfolded ProcessBufferEntries.simps [of E ctx src pos s] Let_def]
  have IH: "redirected (ctx_dst_file_id ctx) (cp_keydir t) (cp_keydir s')"
    if "ProcessBufferEntries E ctx src pos (t\<lparr>cp_buffer := drop n (cp_buffer s)\<rparr>) = (r, s')" "n \<noteq> 0"
      "\<not> length (cp_buffer s) < kEntryFixedHeaderSize" for t n
    using less.hyps [OF _ that(1)] that(2,3) by (simp add: kEntryFixedHeaderSize_def)
  show ?case
    using R IH by (fastforce split: if_splits prod.splits sum.splits dest: copy_entry_redirected elim: redirected_trans)
qed

lemma read_loop_redirected:
  "compact_read_loop E ctx src fd n pos s = (r, s') \<Longrightarrow> redirected (ctx_dst_file_id ctx) (cp_keydir s) (cp_keydir s')"
proof (induction "n - pos" arbitrary: s pos rule: less_induct)
  case less
  note R = less.prems [unfolded compact_read_loop.simps [of E ctx src fd n pos s] Let_def]
  have IH: "redirected (ctx_dst_file_id ctx) (cp_keydir t) (cp_keydir s')"
    if "compact_read_loop E ctx src fd n (pos + length bs) t = (r, s')" "bs \<noteq> []" "\<not> n \<le> pos" for t and bs :: bytes
    using that(2,3) by (intro less.hyps [OF _ that(1)]) (simp add: diff_less_mono2 flip: length_greater_0_conv)
  show ?case
    using R IH by (fastforce split: if_splits prod.splits sum.splits dest: Process_redirected elim: redirected_trans)
qed

lemma CompactSingleFile_redirected:
  "CompactSingleFile E ctx src s = (r, s') \<Longrightarrow> redirected (ctx_dst_file_id ctx) (cp_keydir s) (cp_keydir s')"
  by (fastforce simp: CompactSingleFile_def Let_def split: prod.splits sum.splits dest: read_loop_redirected)

lemma compact_sources_redirected:
  "compact_sources E ctx srcs s = (r, s') \<Longrightarrow> redirected (ctx_dst_file_id ctx) (cp_keydir s) (cp_keydir s')"
  by (induction srcs arbitrary: s)
    (fastforce split: prod.splits sum.splits dest: CompactSingleFile_redirected elim: redirected_trans)+

lemma CompactFiles_redirected:
  assumes "CompactFiles E ctx kd st w = (r, kd', st', w')"
  shows "redirected (ctx_dst_file_id ctx) kd kd'"
  using assms
  by (auto simp: CompactFiles_def Let_def co_try_def split: prod.splits sum.splits dest!: compact_sources_redirected)

lemma delete_sources_core:
  "delete_sources E srcs b s = (b', s') \<Longrightarrow> p_keydir s' = p_keydir s \<and> p_config s' = p_config s \<and> p_partition_id s' = p_partition_id s"
  by (induction srcs arbitrary: b s) (fastforce simp: Let_def upd_stats_def split: prod.splits option.splits if_splits)+

lemma Compact_redirected:
  assumes "Compact E now s = (r, s')"
  shows "redirected (fst (FileIdGenerator_Next now (p_file_id_gen s))) (p_keydir s) (p_keydir s') \<and>
    p_config s' = p_config s \<and> p_partition_id s' = p_partition_id s"
proof -
  obtain i gen where nx: "FileIdGenerator_Next now (p_file_id_gen s) = (i, gen)" by (metis surj_pair)
  let ?ctx = "\<lparr>ctx_config = p_config s, ctx_partition_id = p_partition_id s, ctx_dst_file_id = i, ctx_src_file_ids = FindFragmentedFiles E s\<rparr>"
  let ?st = "(p_stats s)\<lparr>compaction_running := True\<rparr>"
  obtain q kd st w where cf: "CompactFiles E ?ctx (p_keydir s) ?st (p_world s) = (q, kd, st, w)" by (metis surj_pair)
  have red: "redirected i (p_keydir s) kd" using CompactFiles_redirected [OF cf] by simp
  have "p_keydir s' \<in> {p_keydir s, kd} \<and> p_config s' = p_config s \<and> p_partition_id s' = p_partition_id s"
    using assms nx cf
    by (auto simp: Compact_def Let_def upd_stats_def split: if_splits prod.splits sum.splits dest!: delete_sources_core)
  with red nx show ?thesis by auto
qed


text \<open>A device on which a file cannot be truncated, otherwise in order.\<close>

definition no_truncate :: "'w env \<Rightarrow> 'w env" where
  "no_truncate E = E\<lparr>env_ftruncate := (\<lambda>fd n w. (Inl eio, w))\<rparr>"

lemma no_truncate_calls:
  "env_crc (no_truncate E) = env_crc E" "env_crc_extend (no_truncate E) = env_crc_extend E" "env_open (no_truncate E) = env_open E"
  "env_writev (no_truncate E) = env_writev E" "env_fdatasync (no_truncate E) = env_fdatasync E" "env_read_at (no_truncate E) = env_read_at E"
  "env_room (no_truncate E) = env_room E" "env_fstat_size (no_truncate E) = env_fstat_size E" "env_sysclose (no_truncate E) = env_sysclose E"
  "env_close (no_truncate E) = env_close E" "env_stats_order (no_truncate E) = env_stats_order E"
  "env_unlink (no_truncate E) = env_unlink E"
  by (simp_all add: no_truncate_def)

lemma no_truncate_steps:
  "DataFile_AsyncWrite (no_truncate E) = DataFile_AsyncWrite E" "FileHandle_CloseFd (no_truncate E) = FileHandle_CloseFd E"
  "DataFile_AsyncClose (no_truncate E) = DataFile_AsyncClose E" "copy_entry (no_truncate E) = copy_entry E"
  "FindFragmentedFiles (no_truncate E) = FindFragmentedFiles E"
proof -
  show a: "DataFile_AsyncWrite (no_truncate E) = DataFile_AsyncWrite E"
    unfolding DataFile_AsyncWrite_def [abs_def] entry_iov_def ComputeCrc32c_def DataFile_sync_def no_truncate_calls ..
  show "FileHandle_CloseFd (no_truncate E) = FileHandle_CloseFd E"
    unfolding FileHandle_CloseFd_def [abs_def] no_truncate_calls ..
  show "DataFile_AsyncClose (no_truncate E) = DataFile_AsyncClose E"
    unfolding DataFile_AsyncClose_def [abs_def] no_truncate_calls ..
  show "copy_entry (no_truncate E) = copy_entry E" unfolding copy_entry_def [abs_def] a ..
  show "FindFragmentedFiles (no_truncate E) = FindFragmentedFiles E" unfolding FindFragmentedFiles_def [abs_def] no_truncate_calls ..
qed

lemma no_truncate_process: "ProcessBufferEntries (no_truncate E) ctx src pos s = ProcessBufferEntries E ctx src pos s"
proof (induction "length (cp_buffer s)" arbitrary: s rule: less_induct)
  case less
  have IH: "ProcessBufferEntries (no_truncate E) ctx src pos (t\<lparr>cp_buffer := drop n (cp_buffer s)\<rparr>) =
      ProcessBufferEntries E ctx src pos (t\<lparr>cp_buffer := drop n (cp_buffer s)\<rparr>)"
    if "n \<noteq> 0" "\<not> length (cp_buffer s) < kEntryFixedHeaderSize" for t n
    using that by (intro less) (simp add: kEntryFixedHeaderSize_def)
  show ?case
    unfolding ProcessBufferEntries.simps [of _ ctx src pos s] no_truncate_steps Let_def
    using IH by (auto split: prod.splits sum.splits)
qed

lemma no_truncate_read_loop: "compact_read_loop (no_truncate E) ctx src fd n pos s = compact_read_loop E ctx src fd n pos s"
proof (induction "n - pos" arbitrary: s pos rule: less_induct)
  case less
  have IH: "compact_read_loop (no_truncate E) ctx src fd n (pos + length bs) t = compact_read_loop E ctx src fd n (pos + length bs) t"
    if "bs \<noteq> []" "\<not> n \<le> pos" for t and bs :: bytes
    using that by (intro less) (simp add: diff_less_mono2 flip: length_greater_0_conv)
  show ?case
    unfolding compact_read_loop.simps [of _ ctx src fd n pos s] no_truncate_calls no_truncate_process Let_def
    using IH by (auto split: prod.splits sum.splits)
qed

lemma no_truncate_sources: "compact_sources (no_truncate E) ctx srcs s = compact_sources E ctx srcs s"
proof (induction srcs arbitrary: s)
  case (Cons i srcs)
  have "CompactSingleFile (no_truncate E) ctx i = CompactSingleFile E ctx i"
    unfolding CompactSingleFile_def [abs_def] no_truncate_calls no_truncate_read_loop no_truncate_steps ..
  then show ?case unfolding compact_sources.simps Cons.IH no_truncate_steps by simp
qed simp

text \<open>On that device a run redirects what it would redirect otherwise, and then fails.\<close>

lemma no_truncate_fails:
  assumes "CompactFiles E ctx kd st w = (Inr (), kd', st', w')"
  shows "\<exists>w2. CompactFiles (no_truncate E) ctx kd st w = (Inl eio, kd', st, w2)"
proof -
  have ft: "env_ftruncate (no_truncate E) = (\<lambda>fd n w. (Inl eio, w))" "env_fsync (no_truncate E) = env_fsync E"
    by (simp_all add: no_truncate_def)
  have mk: "mk_DataFile (no_truncate E) = mk_DataFile E"
    by (simp add: mk_DataFile_def no_truncate_def fun_eq_iff)
  show ?thesis
    using assms unfolding CompactFiles_def no_truncate_sources no_truncate_calls no_truncate_steps mk ft Let_def co_try_def
    by (fastforce split: prod.splits sum.splits)
qed


section \<open>Bytes left in the read buffer\<close>

context reliable_env
begin

lemma stale_read_loop:
  assumes "opened (cp_world s) fd = Some p" "content (cp_world s) p = Some c" "pos \<le> length c"
    and "cp_buffer s = stale @ take pos c" and hdr: "kEntryFixedHeaderSize \<le> length stale"
      "length stale + length c < trunc32 (kEntryFixedHeaderSize + unat (ReadLe 13 stale :: u32) + unat (ReadLe 17 stale :: u32))"
  shows "\<exists>w. compact_read_loop E ctx src fd (length c) pos s = (Inr (), s\<lparr>cp_buffer := stale @ c, cp_world := w\<rparr>) \<and>
    content w = content (cp_world s) \<and> opened w = opened (cp_world s)"
  using assms(1-4)
proof (induction "length c - pos" arbitrary: s pos rule: less_induct)
  case less
  note R = compact_read_loop.simps [of E ctx src fd "length c" pos s]
  show ?case
  proof (cases "length c \<le> pos")
    case True
    with less.prems(4) show ?thesis by (intro exI [of _ "cp_world s"]) (simp add: R)
  next
    case False
    let ?n = "min (env_room E (length (cp_buffer s)) (64 * 1024) (cp_world s)) (length c - pos)"
    obtain bs w where rd: "env_read_at E fd ?n pos (cp_world s) = (Inr bs, w)" using read_at_succeeds [OF less.prems(1,2)] by blast
    note rda = read_at_any [OF rd]
    have w: "content w = content (cp_world s)" "opened w = opened (cp_world s)" using rda by simp_all
    have "0 < ?n" using room [of "64 * 1024" "length (cp_buffer s)" "cp_world s"] False by auto
    with rda less.prems(1,2) False obtain n where n: "bs = subspan pos n c" "n \<le> length c - pos" "bs \<noteq> []" by auto
    have bl: "length bs = n" "0 < length bs" using n(1,2) n(3) [folded length_greater_0_conv] by simp_all
    let ?pos = "pos + length bs"
    let ?s = "s\<lparr>cp_world := w, cp_buffer := stale @ take ?pos c\<rparr>"
    have tk: "take ?pos c = take pos c @ bs" using n bl by (simp add: subspan_def take_add)
    have pr: "ProcessBufferEntries E ctx src ?pos ?s = (Inr (), ?s)"
      using hdr by (intro Process_short disjI2) (simp add: ReadLe_append kEntryFixedHeaderSize_def)
    have step: "compact_read_loop E ctx src fd (length c) pos s = compact_read_loop E ctx src fd (length c) ?pos ?s"
      using rd n(3) pr False less.prems(4) by (simp add: R Let_def tk)
    have "\<exists>v. compact_read_loop E ctx src fd (length c) ?pos ?s = (Inr (), ?s\<lparr>cp_buffer := stale @ c, cp_world := v\<rparr>) \<and>
        content v = content (cp_world ?s) \<and> opened v = opened (cp_world ?s)"
      using less.prems w n bl False by (intro less.hyps) (auto simp: diff_less_mono2)
    then show ?thesis unfolding step using w by auto
  qed
qed

lemma stale_file:
  assumes c: "content (cp_world s) (data_path (ctx_config ctx) (ctx_partition_id ctx) src) = Some c"
    and fl: "read_flags (ctx_config ctx) AND O_TRUNC = 0" and hdr: "kEntryFixedHeaderSize \<le> length (cp_buffer s)"
      "length (cp_buffer s) + length c <
        trunc32 (kEntryFixedHeaderSize + unat (ReadLe 13 (cp_buffer s) :: u32) + unat (ReadLe 17 (cp_buffer s) :: u32))"
  shows "\<exists>w. CompactSingleFile E ctx src s = (Inr (), s\<lparr>cp_buffer := cp_buffer s @ c, cp_world := w\<rparr>) \<and> content w = content (cp_world s)"
proof -
  let ?p = "data_path (ctx_config ctx) (ctx_partition_id ctx) src"
  obtain fd v where o: "env_open E ?p (read_flags (ctx_config ctx)) (file_mode (ctx_config ctx)) (cp_world s) = (Inr fd, v)"
    using open_succeeds by blast
  note op = open_ok [OF o]
  have v: "content v = content (cp_world s)" "opened v fd = Some ?p" using op c fl by (auto simp: fun_eq_iff)
  have fs: "env_fstat_size E fd v = Inr (length c)" using v c by (intro fstat_succeeds [of _ _ ?p]) simp_all
  let ?s = "s\<lparr>cp_world := v\<rparr>"
  have "\<exists>w. compact_read_loop E ctx src fd (length c) 0 ?s = (Inr (), ?s\<lparr>cp_buffer := cp_buffer s @ c, cp_world := w\<rparr>) \<and>
    content w = content (cp_world ?s) \<and> opened w = opened (cp_world ?s)"
    using v c hdr by (intro stale_read_loop [of _ _ ?p]) simp_all
  then obtain w where w: "compact_read_loop E ctx src fd (length c) 0 ?s = (Inr (), s\<lparr>cp_buffer := cp_buffer s @ c, cp_world := w\<rparr>)"
    "content w = content (cp_world s)" using v by auto
  have "CompactSingleFile E ctx src s = (Inr (), s\<lparr>cp_buffer := cp_buffer s @ c, cp_world := env_sysclose E fd w\<rparr>)"
    using o fs w op by (simp add: CompactSingleFile_def FileHandle_CloseFd_def)
  then show ?thesis using sysclose_any [of fd w] w by auto
qed

end

text \<open>
  Bytes of one source file swallow the next. The read buffer of a run is not emptied between
  source files. If what the previous file left in it looks like the header of a record
  that is longer than the whole next file, then compaction of the next file reports success
  without copying a single record: the directory is unchanged and the bytes of the file have
  only been appended to the buffer. The caller then deletes the file.
\<close>

theorem stale_buffer_skips_file:
  assumes "reliable_env E content opened fpos"
    and "content (cp_world s) (data_path (ctx_config ctx) (ctx_partition_id ctx) src) = Some c"
    and "read_flags (ctx_config ctx) AND O_TRUNC = 0" and "kEntryFixedHeaderSize \<le> length (cp_buffer s)"
    and "length (cp_buffer s) + length c <
      trunc32 (kEntryFixedHeaderSize + unat (ReadLe 13 (cp_buffer s) :: u32) + unat (ReadLe 17 (cp_buffer s) :: u32))"
  shows "\<exists>s'. CompactSingleFile E ctx src s = (Inr (), s') \<and> cp_keydir s' = cp_keydir s \<and> cp_dst s' = cp_dst s \<and>
    content (cp_world s') = content (cp_world s) \<and> cp_buffer s' = cp_buffer s @ c"
  using reliable_env.stale_file [OF assms] by (force simp: fun_eq_iff)

text \<open>The beginning of a record with a value of 1000 bytes, cut off behind the header.\<close>

definition demo_stale :: "mem comp" where
  "demo_stale =
     \<lparr>cp_keydir = p_keydir demo_sealed, cp_dst = \<lparr>df_file_id = 7, df_handle = 9, df_size = 0\<rparr>,
      cp_buffer = replicate 17 0 @ [232, 3, 0, 0], cp_reclaimed = 0, cp_copied = 0, cp_skipped = 0, cp_world = p_world demo_sealed\<rparr>"

theorem stale_buffer_skips_file_witness:
  "\<exists>s'. CompactSingleFile mem_env
       \<lparr>ctx_config = demo_config, ctx_partition_id = 0, ctx_dst_file_id = 7, ctx_src_file_ids = [5]\<rparr> 5 demo_stale = (Inr (), s') \<and>
     find_loc (cp_keydir s') [1] = find_loc (p_keydir demo_sealed) [1] \<and> loc_file_id (the (find_loc (cp_keydir s') [1])) = 5"
proof -
  let ?ctx = "\<lparr>ctx_config = demo_config, ctx_partition_id = 0, ctx_dst_file_id = 7, ctx_src_file_ids = [5]\<rparr>"
  let ?c = "log_bytes (env_crc mem_env) demo_records"
  have c: "mem_content (cp_world demo_stale) (data_path (ctx_config ?ctx) (ctx_partition_id ?ctx) 5) = Some ?c"
    by (simp add: demo_stale_def demo_sealed_fields)
  have fl: "read_flags (ctx_config ?ctx) AND O_TRUNC = 0" by (simp add: demo_config_def default_BitcaskConfig_def O_RDONLY_def)
  have r: "unat (ReadLe 13 (cp_buffer demo_stale) :: u32) = 0" "unat (ReadLe 17 (cp_buffer demo_stale) :: u32) = 1000"
    by (simp_all add: demo_stale_def, code_simp+)
  have l: "length (cp_buffer demo_stale) = 21" by (simp add: demo_stale_def)
  from stale_buffer_skips_file [OF mem_reliable.reliable_env_axioms c fl] obtain s' where
    "CompactSingleFile mem_env ?ctx 5 demo_stale = (Inr (), s')" "cp_keydir s' = cp_keydir demo_stale"
    by (auto simp: r l demo_records_bytes kEntryFixedHeaderSize_def trunc32_eq)
  then show ?thesis by (intro exI [of _ s']) (simp add: demo_stale_def demo_sealed_fields find_loc_def)
qed

end
