(* ===== verification/Xxh3.thy ===== *)
theory Xxh3
  imports Byte_Codec
begin

text \<open>
  The hash that routes keys to partitions: \<^verbatim>\<open>XXH3_64bits\<close> of
  \<^verbatim>\<open>external_libraries/xxhash/xxhash.h\<close>, one-shot, with the default secret. The header selects
  different code at compile time; the choices are the fields of the record \<open>platform\<close>: the byte order of
  the host, loads by shifting bytes or by \<^verbatim>\<open>memcpy\<close>, a \<^verbatim>\<open>__uint128_t\<close> product or four 32-bit products,
  loops or unrolled code, and the scalar, SSE2 or AVX2 inner loops. A pointer is a buffer and an
  offset into it. A vector register is the list of its 64-bit lanes, lowest first, and an intrinsic is the
  function its documentation gives on them.

  The vector loads are little-endian, the byte order of the machines that have these instructions.
  The theory \<open>Xxh3_Platform\<close> holds the theorems.
\<close>

section \<open>Platforms and constants\<close>

datatype vectors = XXH_SCALAR | XXH_SSE2 | XXH_AVX2

record platform =
  cpu :: endian
  byteshift :: bool
  int128 :: bool
  size_opt :: bool
  XXH_VECTOR :: vectors

definition XXH_PRIME32_1 :: u32 where "XXH_PRIME32_1 = 0x9E3779B1"
definition XXH_PRIME32_2 :: u32 where "XXH_PRIME32_2 = 0x85EBCA77"
definition XXH_PRIME32_3 :: u32 where "XXH_PRIME32_3 = 0xC2B2AE3D"
definition XXH_PRIME64_1 :: u64 where "XXH_PRIME64_1 = 0x9E3779B185EBCA87"
definition XXH_PRIME64_2 :: u64 where "XXH_PRIME64_2 = 0xC2B2AE3D27D4EB4F"
definition XXH_PRIME64_3 :: u64 where "XXH_PRIME64_3 = 0x165667B19E3779F9"
definition XXH_PRIME64_4 :: u64 where "XXH_PRIME64_4 = 0x85EBCA77C2B2AE63"
definition XXH_PRIME64_5 :: u64 where "XXH_PRIME64_5 = 0x27D4EB2F165667C5"
definition PRIME_MX1 :: u64 where "PRIME_MX1 = 0x165667919E3779F9"
definition PRIME_MX2 :: u64 where "PRIME_MX2 = 0x9FB21C651E98DF25"

definition XXH3_SECRET_SIZE_MIN :: nat where "XXH3_SECRET_SIZE_MIN = 136"
definition XXH3_MIDSIZE_MAX :: nat where "XXH3_MIDSIZE_MAX = 240"
definition XXH3_MIDSIZE_STARTOFFSET :: nat where "XXH3_MIDSIZE_STARTOFFSET = 3"
definition XXH3_MIDSIZE_LASTOFFSET :: nat where "XXH3_MIDSIZE_LASTOFFSET = 17"
definition XXH_STRIPE_LEN :: nat where "XXH_STRIPE_LEN = 64"
definition XXH_SECRET_CONSUME_RATE :: nat where "XXH_SECRET_CONSUME_RATE = 8"
definition XXH_SECRET_LASTACC_START :: nat where "XXH_SECRET_LASTACC_START = 7"
definition XXH_SECRET_MERGEACCS_START :: nat where "XXH_SECRET_MERGEACCS_START = 11"

lemmas xxh_sizes = XXH3_SECRET_SIZE_MIN_def XXH3_MIDSIZE_MAX_def XXH3_MIDSIZE_STARTOFFSET_def
  XXH3_MIDSIZE_LASTOFFSET_def XXH_STRIPE_LEN_def XXH_SECRET_CONSUME_RATE_def XXH_SECRET_LASTACC_START_def
  XXH_SECRET_MERGEACCS_START_def

definition XXH3_kSecret :: bytes where
  "XXH3_kSecret =
    [0xb8, 0xfe, 0x6c, 0x39, 0x23, 0xa4, 0x4b, 0xbe, 0x7c, 0x01, 0x81, 0x2c, 0xf7, 0x21, 0xad, 0x1c,
     0xde, 0xd4, 0x6d, 0xe9, 0x83, 0x90, 0x97, 0xdb, 0x72, 0x40, 0xa4, 0xa4, 0xb7, 0xb3, 0x67, 0x1f,
     0xcb, 0x79, 0xe6, 0x4e, 0xcc, 0xc0, 0xe5, 0x78, 0x82, 0x5a, 0xd0, 0x7d, 0xcc, 0xff, 0x72, 0x21,
     0xb8, 0x08, 0x46, 0x74, 0xf7, 0x43, 0x24, 0x8e, 0xe0, 0x35, 0x90, 0xe6, 0x81, 0x3a, 0x26, 0x4c,
     0x3c, 0x28, 0x52, 0xbb, 0x91, 0xc3, 0x00, 0xcb, 0x88, 0xd0, 0x65, 0x8b, 0x1b, 0x53, 0x2e, 0xa3,
     0x71, 0x64, 0x48, 0x97, 0xa2, 0x0d, 0xf9, 0x4e, 0x38, 0x19, 0xef, 0x46, 0xa9, 0xde, 0xac, 0xd8,
     0xa8, 0xfa, 0x76, 0x3f, 0xe3, 0x9c, 0x34, 0x3f, 0xf9, 0xdc, 0xbb, 0xc7, 0xc7, 0x0b, 0x4f, 0x1d,
     0x8a, 0x51, 0xe0, 0x4b, 0xcd, 0xb4, 0x59, 0x31, 0xc8, 0x9f, 0x7e, 0xc9, 0xd9, 0x78, 0x73, 0x64,
     0xea, 0xc5, 0xac, 0x83, 0x34, 0xd3, 0xeb, 0xc3, 0xc5, 0x81, 0xa0, 0xff, 0xfa, 0x13, 0x63, 0xeb,
     0x17, 0x0d, 0xdd, 0x51, 0xb7, 0xf0, 0xda, 0x49, 0xd3, 0x16, 0x55, 0x26, 0x29, 0xd4, 0x68, 0x9e,
     0x2b, 0x16, 0xbe, 0x58, 0x7d, 0x47, 0xa1, 0xfc, 0x8f, 0xf8, 0xb8, 0xd1, 0x7a, 0xd0, 0x31, 0xce,
     0x45, 0xcb, 0x3a, 0x8f, 0x95, 0x16, 0x04, 0x28, 0xaf, 0xd7, 0xfb, 0xca, 0xbb, 0x4b, 0x40, 0x7e]"

section \<open>Memory reads\<close>

definition XXH_swap32 :: "u32 \<Rightarrow> u32" where
  "XXH_swap32 x =
     (push_bit 24 x AND 0xff000000) OR (push_bit 8 x AND 0x00ff0000) OR
     (drop_bit 8 x AND 0x0000ff00) OR (drop_bit 24 x AND 0x000000ff)"

definition XXH_swap64 :: "u64 \<Rightarrow> u64" where
  "XXH_swap64 x =
     (push_bit 56 x AND 0xff00000000000000) OR (push_bit 40 x AND 0x00ff000000000000) OR
     (push_bit 24 x AND 0x0000ff0000000000) OR (push_bit 8 x AND 0x000000ff00000000) OR
     (drop_bit 8 x AND 0x00000000ff000000) OR (drop_bit 24 x AND 0x0000000000ff0000) OR
     (drop_bit 40 x AND 0x000000000000ff00) OR (drop_bit 56 x AND 0x00000000000000ff)"

definition XXH_read32 :: "platform \<Rightarrow> bytes \<Rightarrow> nat \<Rightarrow> u32" where
  "XXH_read32 P m p = native_word (cpu P) (subspan p 4 m)"

definition XXH_read64 :: "platform \<Rightarrow> bytes \<Rightarrow> nat \<Rightarrow> u64" where
  "XXH_read64 P m p = native_word (cpu P) (subspan p 8 m)"

definition XXH_readLE32 :: "platform \<Rightarrow> bytes \<Rightarrow> nat \<Rightarrow> u32" where
  "XXH_readLE32 P m p =
     (if byteshift P then
        ucast (m ! p) OR push_bit 8 (ucast (m ! (p + 1))) OR push_bit 16 (ucast (m ! (p + 2))) OR
        push_bit 24 (ucast (m ! (p + 3)))
      else case cpu P of Little \<Rightarrow> XXH_read32 P m p | Big \<Rightarrow> XXH_swap32 (XXH_read32 P m p))"

definition XXH_readLE64 :: "platform \<Rightarrow> bytes \<Rightarrow> nat \<Rightarrow> u64" where
  "XXH_readLE64 P m p =
     (if byteshift P then
        ucast (m ! p) OR push_bit 8 (ucast (m ! (p + 1))) OR push_bit 16 (ucast (m ! (p + 2))) OR
        push_bit 24 (ucast (m ! (p + 3))) OR push_bit 32 (ucast (m ! (p + 4))) OR
        push_bit 40 (ucast (m ! (p + 5))) OR push_bit 48 (ucast (m ! (p + 6))) OR
        push_bit 56 (ucast (m ! (p + 7)))
      else case cpu P of Little \<Rightarrow> XXH_read64 P m p | Big \<Rightarrow> XXH_swap64 (XXH_read64 P m p))"

section \<open>Mixing\<close>

definition XXH_rotl64 :: "u64 \<Rightarrow> nat \<Rightarrow> u64" where
  "XXH_rotl64 x r = push_bit r x OR drop_bit (64 - r) x"

definition XXH64_avalanche :: "u64 \<Rightarrow> u64" where
  "XXH64_avalanche hash =
     (let hash = hash XOR drop_bit 33 hash;
          hash = hash * XXH_PRIME64_2;
          hash = hash XOR drop_bit 29 hash;
          hash = hash * XXH_PRIME64_3
      in hash XOR drop_bit 32 hash)"

definition XXH_mult32to64 :: "u64 \<Rightarrow> u64 \<Rightarrow> u64" where
  "XXH_mult32to64 x y = ucast (ucast x :: u32) * ucast (ucast y :: u32)"

text \<open>The pair is the low and the high half of the product.\<close>

definition XXH_mult64to128 :: "platform \<Rightarrow> u64 \<Rightarrow> u64 \<Rightarrow> u64 \<times> u64" where
  "XXH_mult64to128 P lhs rhs =
     (if int128 P then
        let product = (ucast lhs :: 128 word) * ucast rhs
        in (ucast product, ucast (drop_bit 64 product))
      else
        let lo_lo = XXH_mult32to64 (lhs AND 0xFFFFFFFF) (rhs AND 0xFFFFFFFF);
            hi_lo = XXH_mult32to64 (drop_bit 32 lhs) (rhs AND 0xFFFFFFFF);
            lo_hi = XXH_mult32to64 (lhs AND 0xFFFFFFFF) (drop_bit 32 rhs);
            hi_hi = XXH_mult32to64 (drop_bit 32 lhs) (drop_bit 32 rhs);
            cross = drop_bit 32 lo_lo + (hi_lo AND 0xFFFFFFFF) + lo_hi;
            upper = drop_bit 32 hi_lo + drop_bit 32 cross + hi_hi;
            lower = push_bit 32 cross OR (lo_lo AND 0xFFFFFFFF)
        in (lower, upper))"

definition XXH3_mul128_fold64 :: "platform \<Rightarrow> u64 \<Rightarrow> u64 \<Rightarrow> u64" where
  "XXH3_mul128_fold64 P lhs rhs = (let product = XXH_mult64to128 P lhs rhs in fst product XOR snd product)"

definition XXH_xorshift64 :: "u64 \<Rightarrow> nat \<Rightarrow> u64" where
  "XXH_xorshift64 v shift = v XOR drop_bit shift v"

definition XXH3_avalanche :: "u64 \<Rightarrow> u64" where
  "XXH3_avalanche h =
     (let h = XXH_xorshift64 h 37;
          h = h * PRIME_MX1
      in XXH_xorshift64 h 32)"

definition XXH3_rrmxmx :: "u64 \<Rightarrow> u64 \<Rightarrow> u64" where
  "XXH3_rrmxmx h len =
     (let h = h XOR (XXH_rotl64 h 49 XOR XXH_rotl64 h 24);
          h = h * PRIME_MX2;
          h = h XOR (drop_bit 35 h + len);
          h = h * PRIME_MX2
      in XXH_xorshift64 h 28)"

section \<open>Short keys\<close>

definition XXH3_len_1to3_64b :: "platform \<Rightarrow> bytes \<Rightarrow> nat \<Rightarrow> bytes \<Rightarrow> u64 \<Rightarrow> u64" where
  "XXH3_len_1to3_64b P input len secret seed =
     (let c1 = input ! 0;
          c2 = input ! (len div 2);
          c3 = input ! (len - 1);
          combined = push_bit 16 (ucast c1) OR push_bit 24 (ucast c2) OR ucast c3 OR push_bit 8 (of_nat len) :: u32;
          bitflip = ucast (XXH_readLE32 P secret 0 XOR XXH_readLE32 P secret 4) + seed;
          keyed = ucast combined XOR bitflip
      in XXH64_avalanche keyed)"

definition XXH3_len_4to8_64b :: "platform \<Rightarrow> bytes \<Rightarrow> nat \<Rightarrow> bytes \<Rightarrow> u64 \<Rightarrow> u64" where
  "XXH3_len_4to8_64b P input len secret seed =
     (let seed = seed XOR push_bit 32 (ucast (XXH_swap32 (ucast seed)));
          input1 = XXH_readLE32 P input 0;
          input2 = XXH_readLE32 P input (len - 4);
          bitflip = (XXH_readLE64 P secret 8 XOR XXH_readLE64 P secret 16) - seed;
          input64 = ucast input2 + push_bit 32 (ucast input1);
          keyed = input64 XOR bitflip
      in XXH3_rrmxmx keyed (of_nat len))"

definition XXH3_len_9to16_64b :: "platform \<Rightarrow> bytes \<Rightarrow> nat \<Rightarrow> bytes \<Rightarrow> u64 \<Rightarrow> u64" where
  "XXH3_len_9to16_64b P input len secret seed =
     (let bitflip1 = (XXH_readLE64 P secret 24 XOR XXH_readLE64 P secret 32) + seed;
          bitflip2 = (XXH_readLE64 P secret 40 XOR XXH_readLE64 P secret 48) - seed;
          input_lo = XXH_readLE64 P input 0 XOR bitflip1;
          input_hi = XXH_readLE64 P input (len - 8) XOR bitflip2;
          acc = of_nat len + XXH_swap64 input_lo + input_hi + XXH3_mul128_fold64 P input_lo input_hi
      in XXH3_avalanche acc)"

definition XXH3_len_0to16_64b :: "platform \<Rightarrow> bytes \<Rightarrow> nat \<Rightarrow> bytes \<Rightarrow> u64 \<Rightarrow> u64" where
  "XXH3_len_0to16_64b P input len secret seed =
     (if len > 8 then XXH3_len_9to16_64b P input len secret seed
      else if len \<ge> 4 then XXH3_len_4to8_64b P input len secret seed
      else if len \<noteq> 0 then XXH3_len_1to3_64b P input len secret seed
      else XXH64_avalanche (seed XOR (XXH_readLE64 P secret 56 XOR XXH_readLE64 P secret 64)))"

section \<open>Medium keys\<close>

definition XXH3_mix16B :: "platform \<Rightarrow> bytes \<Rightarrow> nat \<Rightarrow> bytes \<Rightarrow> nat \<Rightarrow> u64 \<Rightarrow> u64" where
  "XXH3_mix16B P input i secret s seed =
     (let input_lo = XXH_readLE64 P input i;
          input_hi = XXH_readLE64 P input (i + 8)
      in XXH3_mul128_fold64 P (input_lo XOR (XXH_readLE64 P secret s + seed))
           (input_hi XOR (XXH_readLE64 P secret (s + 8) - seed)))"

text \<open>The loop of the size-optimised variant, from \<open>i\<close> down to zero.\<close>

fun mix_down :: "platform \<Rightarrow> bytes \<Rightarrow> nat \<Rightarrow> bytes \<Rightarrow> u64 \<Rightarrow> nat \<Rightarrow> u64 \<Rightarrow> u64" where
  "mix_down P input len secret seed i acc =
     (let acc = acc + XXH3_mix16B P input (16 * i) secret (32 * i) seed;
          acc = acc + XXH3_mix16B P input (len - 16 * (i + 1)) secret (32 * i + 16) seed
      in case i of 0 \<Rightarrow> acc | Suc i' \<Rightarrow> mix_down P input len secret seed i' acc)"

declare mix_down.simps [simp del]

definition XXH3_len_17to128_64b :: "platform \<Rightarrow> bytes \<Rightarrow> nat \<Rightarrow> bytes \<Rightarrow> u64 \<Rightarrow> u64" where
  "XXH3_len_17to128_64b P input len secret seed =
     (let acc = of_nat len * XXH_PRIME64_1;
          acc = (if size_opt P then mix_down P input len secret seed ((len - 1) div 32) acc
                 else
                   let acc = (if len > 32 then
                                let acc = (if len > 64 then
                                             let acc = (if len > 96 then
                                                          acc + XXH3_mix16B P input 48 secret 96 seed
                                                          + XXH3_mix16B P input (len - 64) secret 112 seed
                                                        else acc)
                                             in acc + XXH3_mix16B P input 32 secret 64 seed
                                                + XXH3_mix16B P input (len - 48) secret 80 seed
                                           else acc)
                                in acc + XXH3_mix16B P input 16 secret 32 seed
                                   + XXH3_mix16B P input (len - 32) secret 48 seed
                              else acc)
                   in acc + XXH3_mix16B P input 0 secret 0 seed + XXH3_mix16B P input (len - 16) secret 16 seed)
      in XXH3_avalanche acc)"

definition XXH3_len_129to240_64b :: "platform \<Rightarrow> bytes \<Rightarrow> nat \<Rightarrow> bytes \<Rightarrow> u64 \<Rightarrow> u64" where
  "XXH3_len_129to240_64b P input len secret seed =
     (let acc = of_nat len * XXH_PRIME64_1;
          nbRounds = len div 16;
          acc = foldl (\<lambda>acc i. acc + XXH3_mix16B P input (16 * i) secret (16 * i) seed) acc [0..<8];
          acc_end = XXH3_mix16B P input (len - 16) secret (XXH3_SECRET_SIZE_MIN - XXH3_MIDSIZE_LASTOFFSET) seed;
          acc = XXH3_avalanche acc;
          acc_end = foldl (\<lambda>acc_end i. acc_end + XXH3_mix16B P input (16 * i) secret (16 * (i - 8) + XXH3_MIDSIZE_STARTOFFSET) seed)
                      acc_end [8..<nbRounds]
      in XXH3_avalanche (acc + acc_end))"

section \<open>Long keys, scalar\<close>

definition XXH_mult32to64_add64 :: "u64 \<Rightarrow> u64 \<Rightarrow> u64 \<Rightarrow> u64" where
  "XXH_mult32to64_add64 lhs rhs acc = XXH_mult32to64 lhs rhs + acc"

text \<open>The neighbour of a lane, \<^verbatim>\<open>lane ^ 1\<close>.\<close>

definition other_lane :: "nat \<Rightarrow> nat" where
  "other_lane lane = lane XOR 1"

definition XXH3_scalarRound :: "platform \<Rightarrow> bytes \<Rightarrow> nat \<Rightarrow> bytes \<Rightarrow> nat \<Rightarrow> u64 list \<Rightarrow> nat \<Rightarrow> u64 list" where
  "XXH3_scalarRound P input i secret s acc lane =
     (let data_val = XXH_readLE64 P input (i + lane * 8);
          data_key = data_val XOR XXH_readLE64 P secret (s + lane * 8);
          acc = acc[other_lane lane := acc ! other_lane lane + data_val]
      in acc[lane := XXH_mult32to64_add64 data_key (drop_bit 32 data_key) (acc ! lane)])"

definition XXH3_accumulate_512_scalar :: "platform \<Rightarrow> bytes \<Rightarrow> nat \<Rightarrow> bytes \<Rightarrow> nat \<Rightarrow> u64 list \<Rightarrow> u64 list" where
  "XXH3_accumulate_512_scalar P input i secret s acc = foldl (XXH3_scalarRound P input i secret s) acc [0..<8]"

definition XXH3_scalarScrambleRound :: "platform \<Rightarrow> bytes \<Rightarrow> nat \<Rightarrow> u64 list \<Rightarrow> nat \<Rightarrow> u64 list" where
  "XXH3_scalarScrambleRound P secret s acc lane =
     (let key64 = XXH_readLE64 P secret (s + lane * 8);
          acc64 = acc ! lane;
          acc64 = XXH_xorshift64 acc64 47;
          acc64 = acc64 XOR key64;
          acc64 = acc64 * ucast XXH_PRIME32_1
      in acc[lane := acc64])"

definition XXH3_scrambleAcc_scalar :: "platform \<Rightarrow> bytes \<Rightarrow> nat \<Rightarrow> u64 list \<Rightarrow> u64 list" where
  "XXH3_scrambleAcc_scalar P secret s acc = foldl (XXH3_scalarScrambleRound P secret s) acc [0..<8]"

section \<open>Vector instructions\<close>

text \<open>
  \<open>shuffle_epi32 c\<close> permutes the four 32-bit lanes of every 128-bit half by \<open>c\<close>, the four indices of
  \<^verbatim>\<open>_MM_SHUFFLE\<close> with the highest first; \<open>mul_epu32\<close> multiplies the low halves of the 64-bit lanes.
  \<open>loadu n m p\<close> reads \<open>n\<close> 64-bit lanes at \<open>p\<close>.
\<close>

type_synonym vec = "u64 list"

definition loadu :: "nat \<Rightarrow> bytes \<Rightarrow> nat \<Rightarrow> vec" where
  "loadu n m p = map (\<lambda>j. le_word (subspan (p + 8 * j) 8 m)) [0..<n]"

definition xor_si :: "vec \<Rightarrow> vec \<Rightarrow> vec" where
  "xor_si a b = map2 (XOR) a b"

definition add_epi64 :: "vec \<Rightarrow> vec \<Rightarrow> vec" where
  "add_epi64 a b = map2 (+) a b"

definition srli_epi64 :: "vec \<Rightarrow> nat \<Rightarrow> vec" where
  "srli_epi64 a n = map (drop_bit n) a"

definition slli_epi64 :: "vec \<Rightarrow> nat \<Rightarrow> vec" where
  "slli_epi64 a n = map (push_bit n) a"

definition mul_epu32 :: "vec \<Rightarrow> vec \<Rightarrow> vec" where
  "mul_epu32 a b = map2 (\<lambda>x y. (x AND 0xFFFFFFFF) * (y AND 0xFFFFFFFF)) a b"

definition set1_epi32 :: "nat \<Rightarrow> u32 \<Rightarrow> vec" where
  "set1_epi32 n x = replicate n (push_bit 32 (ucast x) OR ucast x)"

definition lanes32 :: "u64 \<Rightarrow> u64 \<Rightarrow> u32 list" where
  "lanes32 x y = [ucast x, ucast (drop_bit 32 x), ucast y, ucast (drop_bit 32 y)]"

fun shuffle_epi32 :: "vec \<Rightarrow> nat \<times> nat \<times> nat \<times> nat \<Rightarrow> vec" where
  "shuffle_epi32 (x # y # v) (z3, z2, z1, z0) =
     (let l = lanes32 x y
      in (push_bit 32 (ucast (l ! z1)) OR ucast (l ! z0)) # (push_bit 32 (ucast (l ! z3)) OR ucast (l ! z2)) #
         shuffle_epi32 v (z3, z2, z1, z0))"
| "shuffle_epi32 v c = v"

text \<open>The register \<^verbatim>\<open>xacc[i]\<close> of \<open>n\<close> lanes, and storing to it.\<close>

definition acc_vec :: "nat \<Rightarrow> u64 list \<Rightarrow> nat \<Rightarrow> vec" where
  "acc_vec n acc i = subspan (n * i) n acc"

definition acc_store :: "nat \<Rightarrow> u64 list \<Rightarrow> nat \<Rightarrow> vec \<Rightarrow> u64 list" where
  "acc_store n acc i v = memcpy_at (n * i) v acc"

section \<open>Long keys, SSE2 and AVX2\<close>

definition accumulate_step_sse2 :: "bytes \<Rightarrow> nat \<Rightarrow> bytes \<Rightarrow> nat \<Rightarrow> u64 list \<Rightarrow> nat \<Rightarrow> u64 list" where
  "accumulate_step_sse2 input p secret s acc i =
     (let data_vec = loadu 2 input (p + 16 * i);
          key_vec = loadu 2 secret (s + 16 * i);
          data_key = xor_si data_vec key_vec;
          data_key_lo = shuffle_epi32 data_key (0, 3, 0, 1);
          product = mul_epu32 data_key data_key_lo;
          data_swap = shuffle_epi32 data_vec (1, 0, 3, 2);
          sum = add_epi64 (acc_vec 2 acc i) data_swap
      in acc_store 2 acc i (add_epi64 product sum))"

definition XXH3_accumulate_512_sse2 :: "bytes \<Rightarrow> nat \<Rightarrow> bytes \<Rightarrow> nat \<Rightarrow> u64 list \<Rightarrow> u64 list" where
  "XXH3_accumulate_512_sse2 input p secret s acc = foldl (accumulate_step_sse2 input p secret s) acc [0..<4]"

definition scramble_step_sse2 :: "bytes \<Rightarrow> nat \<Rightarrow> u64 list \<Rightarrow> nat \<Rightarrow> u64 list" where
  "scramble_step_sse2 secret s acc i =
     (let prime32 = set1_epi32 2 XXH_PRIME32_1;
          accv = acc_vec 2 acc i;
          shifted = srli_epi64 accv 47;
          data_vec = xor_si accv shifted;
          key_vec = loadu 2 secret (s + 16 * i);
          data_key = xor_si data_vec key_vec;
          data_key_hi = shuffle_epi32 data_key (0, 3, 0, 1);
          prod_lo = mul_epu32 data_key prime32;
          prod_hi = mul_epu32 data_key_hi prime32
      in acc_store 2 acc i (add_epi64 prod_lo (slli_epi64 prod_hi 32)))"

definition XXH3_scrambleAcc_sse2 :: "bytes \<Rightarrow> nat \<Rightarrow> u64 list \<Rightarrow> u64 list" where
  "XXH3_scrambleAcc_sse2 secret s acc = foldl (scramble_step_sse2 secret s) acc [0..<4]"

definition accumulate_step_avx2 :: "bytes \<Rightarrow> nat \<Rightarrow> bytes \<Rightarrow> nat \<Rightarrow> u64 list \<Rightarrow> nat \<Rightarrow> u64 list" where
  "accumulate_step_avx2 input p secret s acc i =
     (let data_vec = loadu 4 input (p + 32 * i);
          key_vec = loadu 4 secret (s + 32 * i);
          data_key = xor_si data_vec key_vec;
          data_key_lo = srli_epi64 data_key 32;
          product = mul_epu32 data_key data_key_lo;
          data_swap = shuffle_epi32 data_vec (1, 0, 3, 2);
          sum = add_epi64 (acc_vec 4 acc i) data_swap
      in acc_store 4 acc i (add_epi64 product sum))"

definition XXH3_accumulate_512_avx2 :: "bytes \<Rightarrow> nat \<Rightarrow> bytes \<Rightarrow> nat \<Rightarrow> u64 list \<Rightarrow> u64 list" where
  "XXH3_accumulate_512_avx2 input p secret s acc = foldl (accumulate_step_avx2 input p secret s) acc [0..<2]"

definition scramble_step_avx2 :: "bytes \<Rightarrow> nat \<Rightarrow> u64 list \<Rightarrow> nat \<Rightarrow> u64 list" where
  "scramble_step_avx2 secret s acc i =
     (let prime32 = set1_epi32 4 XXH_PRIME32_1;
          accv = acc_vec 4 acc i;
          shifted = srli_epi64 accv 47;
          data_vec = xor_si accv shifted;
          key_vec = loadu 4 secret (s + 32 * i);
          data_key = xor_si data_vec key_vec;
          data_key_hi = srli_epi64 data_key 32;
          prod_lo = mul_epu32 data_key prime32;
          prod_hi = mul_epu32 data_key_hi prime32
      in acc_store 4 acc i (add_epi64 prod_lo (slli_epi64 prod_hi 32)))"

definition XXH3_scrambleAcc_avx2 :: "bytes \<Rightarrow> nat \<Rightarrow> u64 list \<Rightarrow> u64 list" where
  "XXH3_scrambleAcc_avx2 secret s acc = foldl (scramble_step_avx2 secret s) acc [0..<2]"

section \<open>Long keys\<close>

definition XXH3_accumulate_512 :: "platform \<Rightarrow> bytes \<Rightarrow> nat \<Rightarrow> bytes \<Rightarrow> nat \<Rightarrow> u64 list \<Rightarrow> u64 list" where
  "XXH3_accumulate_512 P =
     (case XXH_VECTOR P of
        XXH_SCALAR \<Rightarrow> XXH3_accumulate_512_scalar P
      | XXH_SSE2 \<Rightarrow> XXH3_accumulate_512_sse2
      | XXH_AVX2 \<Rightarrow> XXH3_accumulate_512_avx2)"

definition XXH3_scrambleAcc :: "platform \<Rightarrow> bytes \<Rightarrow> nat \<Rightarrow> u64 list \<Rightarrow> u64 list" where
  "XXH3_scrambleAcc P =
     (case XXH_VECTOR P of
        XXH_SCALAR \<Rightarrow> XXH3_scrambleAcc_scalar P
      | XXH_SSE2 \<Rightarrow> XXH3_scrambleAcc_sse2
      | XXH_AVX2 \<Rightarrow> XXH3_scrambleAcc_avx2)"

definition XXH3_accumulate :: "platform \<Rightarrow> bytes \<Rightarrow> nat \<Rightarrow> bytes \<Rightarrow> nat \<Rightarrow> u64 list \<Rightarrow> u64 list" where
  "XXH3_accumulate P input i secret nbStripes acc =
     foldl (\<lambda>acc n. XXH3_accumulate_512 P input (i + n * XXH_STRIPE_LEN) secret (n * XXH_SECRET_CONSUME_RATE) acc)
       acc [0..<nbStripes]"

definition XXH3_hashLong_internal_loop :: "platform \<Rightarrow> bytes \<Rightarrow> nat \<Rightarrow> bytes \<Rightarrow> nat \<Rightarrow> u64 list \<Rightarrow> u64 list" where
  "XXH3_hashLong_internal_loop P input len secret secretSize acc =
     (let nbStripesPerBlock = (secretSize - XXH_STRIPE_LEN) div XXH_SECRET_CONSUME_RATE;
          block_len = XXH_STRIPE_LEN * nbStripesPerBlock;
          nb_blocks = (len - 1) div block_len;
          acc = foldl (\<lambda>acc n. XXH3_scrambleAcc P secret (secretSize - XXH_STRIPE_LEN)
                                 (XXH3_accumulate P input (n * block_len) secret nbStripesPerBlock acc))
                  acc [0..<nb_blocks];
          nbStripes = ((len - 1) - block_len * nb_blocks) div XXH_STRIPE_LEN;
          acc = XXH3_accumulate P input (nb_blocks * block_len) secret nbStripes acc
      in XXH3_accumulate_512 P input (len - XXH_STRIPE_LEN) secret (secretSize - XXH_STRIPE_LEN - XXH_SECRET_LASTACC_START) acc)"

definition XXH3_mix2Accs :: "platform \<Rightarrow> u64 list \<Rightarrow> nat \<Rightarrow> bytes \<Rightarrow> nat \<Rightarrow> u64" where
  "XXH3_mix2Accs P acc a secret s =
     XXH3_mul128_fold64 P (acc ! a XOR XXH_readLE64 P secret s) (acc ! (a + 1) XOR XXH_readLE64 P secret (s + 8))"

definition XXH3_mergeAccs :: "platform \<Rightarrow> u64 list \<Rightarrow> bytes \<Rightarrow> nat \<Rightarrow> u64 \<Rightarrow> u64" where
  "XXH3_mergeAccs P acc secret s start =
     XXH3_avalanche (foldl (\<lambda>result i. result + XXH3_mix2Accs P acc (2 * i) secret (s + 16 * i)) start [0..<4])"

definition XXH3_finalizeLong_64b :: "platform \<Rightarrow> u64 list \<Rightarrow> bytes \<Rightarrow> u64 \<Rightarrow> u64" where
  "XXH3_finalizeLong_64b P acc secret len = XXH3_mergeAccs P acc secret XXH_SECRET_MERGEACCS_START (len * XXH_PRIME64_1)"

definition XXH3_INIT_ACC :: "u64 list" where
  "XXH3_INIT_ACC =
     [ucast XXH_PRIME32_3, XXH_PRIME64_1, XXH_PRIME64_2, XXH_PRIME64_3,
      XXH_PRIME64_4, ucast XXH_PRIME32_2, XXH_PRIME64_5, ucast XXH_PRIME32_1]"

definition XXH3_hashLong_64b_internal :: "platform \<Rightarrow> bytes \<Rightarrow> nat \<Rightarrow> bytes \<Rightarrow> nat \<Rightarrow> u64" where
  "XXH3_hashLong_64b_internal P input len secret secretSize =
     (let acc = XXH3_INIT_ACC;
          acc = XXH3_hashLong_internal_loop P input len secret secretSize acc
      in XXH3_finalizeLong_64b P acc secret (of_nat len))"

definition XXH3_hashLong_64b_default :: "platform \<Rightarrow> bytes \<Rightarrow> nat \<Rightarrow> u64 \<Rightarrow> bytes \<Rightarrow> nat \<Rightarrow> u64" where
  "XXH3_hashLong_64b_default P input len seed64 secret secretLen =
     XXH3_hashLong_64b_internal P input len XXH3_kSecret (length XXH3_kSecret)"

section \<open>The entry point\<close>

definition XXH3_64bits_internal ::
    "platform \<Rightarrow> bytes \<Rightarrow> nat \<Rightarrow> u64 \<Rightarrow> bytes \<Rightarrow> nat \<Rightarrow>
     (bytes \<Rightarrow> nat \<Rightarrow> u64 \<Rightarrow> bytes \<Rightarrow> nat \<Rightarrow> u64) \<Rightarrow> u64" where
  "XXH3_64bits_internal P input len seed64 secret secretLen f_hashLong =
     (if len \<le> 16 then XXH3_len_0to16_64b P input len secret seed64
      else if len \<le> 128 then XXH3_len_17to128_64b P input len secret seed64
      else if len \<le> XXH3_MIDSIZE_MAX then XXH3_len_129to240_64b P input len secret seed64
      else f_hashLong input len seed64 secret secretLen)"

definition XXH3_64bits :: "platform \<Rightarrow> bytes \<Rightarrow> nat \<Rightarrow> u64" where
  "XXH3_64bits P input len =
     XXH3_64bits_internal P input len 0 XXH3_kSecret (length XXH3_kSecret) (XXH3_hashLong_64b_default P)"

definition Hash :: "platform \<Rightarrow> bytes \<Rightarrow> u64" where
  "Hash P data = XXH3_64bits P data (length data)"

end
