(* ===== verification/Xxh3_Platform.thy ===== *)
theory Xxh3_Platform
  imports Xxh3
begin

text \<open>
  Theorems on the hash of the theory \<open>Xxh3\<close>. Every way of reading memory gives the little-endian number at
  an offset; the four 32-bit products of the portable multiplication are the 128-bit product; the
  SSE2 and AVX2 loops treat every accumulator as the scalar loop does; the unrolled code and the
  loop for keys of 17 to 128 bytes add the same terms. So all platforms compute one value, which depends on the bytes of the key
  only. For keys of up to eight bytes the mixing steps are shown to be injective.
\<close>

section \<open>Reading memory\<close>

lemma swap_masks:
  "(0xff000000 :: u32) = push_bit 24 (mask 8)" "(0x00ff0000 :: u32) = push_bit 16 (mask 8)"
  "(0x0000ff00 :: u32) = push_bit 8 (mask 8)" "(0x000000ff :: u32) = mask 8"
  "(0xff00000000000000 :: u64) = push_bit 56 (mask 8)" "(0x00ff000000000000 :: u64) = push_bit 48 (mask 8)"
  "(0x0000ff0000000000 :: u64) = push_bit 40 (mask 8)" "(0x000000ff00000000 :: u64) = push_bit 32 (mask 8)"
  "(0x00000000ff000000 :: u64) = push_bit 24 (mask 8)" "(0x0000000000ff0000 :: u64) = push_bit 16 (mask 8)"
  "(0x000000000000ff00 :: u64) = push_bit 8 (mask 8)" "(0x00000000000000ff :: u64) = mask 8"
  by (simp_all add: mask_numeral)

lemma bit_le_word:
  "bit (le_word bs :: 'a::len word) n \<longleftrightarrow> n < LENGTH('a) \<and> n div 8 < length bs \<and> bit (bs ! (n div 8)) (n mod 8)"
proof (induction bs arbitrary: n)
  case Nil
  then show ?case by (simp add: le_word.simps)
next
  case (Cons b bs)
  show ?case
  proof (cases "n < 8")
    case True
    then show ?thesis by (simp add: le_word.simps bit_simps)
  next
    case False
    then obtain m where m: "n = m + 8" by (metis add.commute le_Suc_ex not_less)
    have "\<not> bit b (m + 8)" using bit_imp_le_length [of b "m + 8"] by auto
    moreover have "(m + 8) div 8 = Suc (m div 8)" by simp
    ultimately show ?thesis by (auto simp: m le_word.simps bit_or_iff bit_unsigned_iff bit_push_bit_iff Cons.IH)
  qed
qed

lemma nth_le_bytes: "i < n \<Longrightarrow> le_bytes n v ! i = ucast (drop_bit (8 * i) v)"
proof (induction n arbitrary: v i)
  case (Suc n)
  then show ?case
    by (cases i) (simp_all add: le_bytes.simps drop_bit_drop_bit add.commute)
qed simp

lemma bit_ByteSwap:
  fixes v :: "'a::len word"
  assumes "8 dvd LENGTH('a)"
  shows "bit (ByteSwap v) n \<longleftrightarrow> n < LENGTH('a) \<and> bit v (8 * (LENGTH('a) div 8 - Suc (n div 8)) + n mod 8)"
proof -
  have "n div 8 < LENGTH('a) div 8" if "n < LENGTH('a)"
    using that assms by (metis div_less_iff_less_mult dvd_mult_div_cancel dvd_div_mult_self zero_less_numeral)
  then show ?thesis
    by (auto simp: ByteSwap_def bit_le_word rev_nth nth_le_bytes bit_simps)
qed

lemma bit_ByteSwap_byte:
  fixes v :: "'a::len word"
  assumes "8 dvd LENGTH('a)" and "8 * k + j < LENGTH('a)" and "j < 8"
  shows "bit (ByteSwap v) (8 * k + j) \<longleftrightarrow> bit v (8 * (LENGTH('a) div 8 - Suc k) + j)"
  using assms by (simp add: bit_ByteSwap)

lemma byte_bit:
  obtains k j where "n = 8 * k + j" "j < (8::nat)"
  by (metis mod_less_divisor mult_div_mod_eq zero_less_numeral)

lemma XXH_swap32_eq: "XXH_swap32 x = ByteSwap x"
proof (rule bit_word_eqI)
  fix n assume n: "n < LENGTH(32)"
  obtain k j where kj: "n = 8 * k + j" "j < 8" by (rule byte_bit)
  with n have "k = 0 \<or> k = 1 \<or> k = 2 \<or> k = 3" by auto
  moreover have "bit (ByteSwap x) n = bit x (8 * (3 - k) + j)"
    using bit_ByteSwap_byte [of k j x] n kj by simp
  ultimately show "bit (XXH_swap32 x) n = bit (ByteSwap x) n"
    using kj by (elim disjE) (simp_all add: XXH_swap32_def swap_masks bit_simps)
qed

lemma XXH_swap64_eq: "XXH_swap64 x = ByteSwap x"
proof (rule bit_word_eqI)
  fix n assume n: "n < LENGTH(64)"
  obtain k j where kj: "n = 8 * k + j" "j < 8" by (rule byte_bit)
  with n have "k = 0 \<or> k = 1 \<or> k = 2 \<or> k = 3 \<or> k = 4 \<or> k = 5 \<or> k = 6 \<or> k = 7" by auto
  moreover have "bit (ByteSwap x) n = bit x (8 * (7 - k) + j)"
    using bit_ByteSwap_byte [of k j x] n kj by simp
  ultimately show "bit (XXH_swap64 x) n = bit (ByteSwap x) n"
    using kj by (elim disjE) (simp_all add: XXH_swap64_def swap_masks bit_simps)
qed

text \<open>Eight and four bytes at an offset, least significant first: what every way of reading gives.\<close>

abbreviation at64 :: "bytes \<Rightarrow> nat \<Rightarrow> u64" where
  "at64 m p \<equiv> le_word (subspan p 8 m)"

abbreviation at32 :: "bytes \<Rightarrow> nat \<Rightarrow> u32" where
  "at32 m p \<equiv> le_word (subspan p 4 m)"

lemma subspan_nths:
  "p + n \<le> length m \<Longrightarrow> subspan p n m = map (\<lambda>i. m ! (p + i)) [0..<n]"
  by (rule nth_equalityI) (simp_all add: subspan_def)

lemma ByteSwap_le_word_rev:
  fixes bs :: bytes
  assumes "8 * length bs = LENGTH('a::len)"
  shows "ByteSwap (le_word (rev bs) :: 'a word) = le_word bs"
proof -
  have "LENGTH('a) div 8 = length bs" using assms by linarith
  then have "le_bytes (LENGTH('a) div 8) (le_word (rev bs) :: 'a word) = rev bs"
    using le_bytes_le_word [of "rev bs", where 'a = 'a] assms by simp
  then show ?thesis by (simp add: ByteSwap_def)
qed

lemma XXH_readLE64_eq:
  assumes "p + 8 \<le> length m"
  shows "XXH_readLE64 P m p = at64 m p"
proof (cases "byteshift P")
  case True
  have "[0..<8] = [0, 1, 2, 3, 4, 5, 6, 7::nat]" by (simp add: upt_conv_Cons)
  then have "subspan p 8 m = map (\<lambda>i. m ! (p + i)) [0, 1, 2, 3, 4, 5, 6, 7]"
    by (simp only: subspan_nths [OF assms])
  with True show ?thesis
    by (simp add: XXH_readLE64_def le_word.simps push_bit_or push_bit_push_bit)
next
  case False
  with assms show ?thesis
    by (simp add: XXH_readLE64_def XXH_read64_def native_word_def XXH_swap64_eq ByteSwap_le_word_rev split: endian.split)
qed

lemma XXH_readLE32_eq:
  assumes "p + 4 \<le> length m"
  shows "XXH_readLE32 P m p = at32 m p"
proof (cases "byteshift P")
  case True
  have "[0..<4] = [0, 1, 2, 3::nat]" by (simp add: upt_conv_Cons)
  then have "subspan p 4 m = map (\<lambda>i. m ! (p + i)) [0, 1, 2, 3]"
    by (simp only: subspan_nths [OF assms])
  with True show ?thesis
    by (simp add: XXH_readLE32_def le_word.simps push_bit_or push_bit_push_bit)
next
  case False
  with assms show ?thesis
    by (simp add: XXH_readLE32_def XXH_read32_def native_word_def XXH_swap32_eq ByteSwap_le_word_rev split: endian.split)
qed

text \<open>The four 32-bit products add up to the 128-bit product, without overflow in between.\<close>

lemma mask32: "(0xFFFFFFFF :: u64) = mask 32"
  by (simp add: mask_numeral)

lemma mult32to64_unat:
  "unat (XXH_mult32to64 x y) = (unat x mod 2 ^ 32) * (unat y mod 2 ^ 32)"
proof -
  have "(unat x mod 2 ^ 32) * (unat y mod 2 ^ 32) < 2 ^ 32 * 2 ^ 32"
    by (rule mult_strict_mono) simp_all
  then show ?thesis
    by (simp add: XXH_mult32to64_def unat_word_ariths unsigned_ucast_eq take_bit_eq_mod)
qed

lemma grade_school:
  fixes a b c d B :: nat
  assumes "a < B" "b < B" "c < B" "d < B"
  defines "x \<equiv> b * d div B + a * d mod B + b * c"
  shows "(a * B + b) * (c * B + d) = (a * d div B + x div B + a * c) * (B * B) + (x mod B) * B + b * d mod B" (is "?p = ?u * _ + _ + _")
    and "x < B * B" and "a * d div B + x div B + a * c < B * B"
proof -
  have bd: "b * d = b * d div B * B + b * d mod B" and ad: "a * d = a * d div B * B + a * d mod B"
    and x: "x = x div B * B + x mod B" by simp_all
  have "?p = a * c * (B * B) + (a * d + b * c) * B + b * d" by (simp add: algebra_simps)
  also have "\<dots> = a * c * (B * B) + (a * d div B * B + a * d mod B + b * c) * B + (b * d div B * B + b * d mod B)"
    by (simp only: bd [symmetric] ad [symmetric])
  also have "\<dots> = (a * c + a * d div B) * (B * B) + x * B + b * d mod B"
    unfolding x_def by (simp only: add_mult_distrib add_mult_distrib2 ac_simps)
  also have "\<dots> = (a * c + a * d div B) * (B * B) + (x div B * B + x mod B) * B + b * d mod B"
    by (simp only: x [symmetric])
  also have "\<dots> = ?u * (B * B) + x mod B * B + b * d mod B"
    by (simp only: add_mult_distrib add_mult_distrib2 ac_simps)
  finally show eq: "?p = ?u * (B * B) + x mod B * B + b * d mod B" .
  obtain n where n: "B = Suc n" using assms(1) by (cases B) simp_all
  have le: "a \<le> n" "b \<le> n" "c \<le> n" "d \<le> n" using assms(1-4) n by simp_all
  have "b * d div B \<le> n"
  proof -
    have "b * d < B * B" using assms(2,4) by (intro mult_strict_mono) simp_all
    then have "b * d div B < B" by (simp add: less_mult_imp_div_less)
    then show ?thesis by (simp add: n)
  qed
  moreover have "a * d mod B \<le> n" using n by (simp add: less_Suc_eq_le [symmetric])
  moreover have "b * c \<le> n * n" using le by (simp add: mult_le_mono)
  ultimately have "x \<le> n + n + n * n" unfolding x_def by simp
  then show "x < B * B" by (simp add: n)
  have "a * B + b \<le> n * B + n" "c * B + d \<le> n * B + n" using le by (simp_all add: add_mono mult_le_mono1)
  then have "?p \<le> (n * B + n) * (n * B + n)" by (rule mult_le_mono)
  also have "\<dots> < (B * B) * (B * B)" by (rule mult_strict_mono) (simp_all add: n)
  finally have "?u * (B * B) < (B * B) * (B * B)" using eq by linarith
  then show "?u < B * B" by simp
qed

lemma unat_and_mask32: "unat ((x :: u64) AND 0xFFFFFFFF) = unat x mod 2 ^ 32"
  by (simp only: mask32 take_bit_eq_mask [symmetric] unsigned_take_bit_eq) (simp only: take_bit_eq_mod)

lemma unat_drop_bit32: "unat (drop_bit 32 (x :: u64)) = unat x div 2 ^ 32"
  by (simp only: unat_drop_bit_eq) (simp only: drop_bit_eq_div)

lemma join_words:
  "push_bit 32 (x :: u64) OR (y AND 0xFFFFFFFF) = word_of_nat (unat x mod 2 ^ 32 * 2 ^ 32 + unat y mod 2 ^ 32)"
proof -
  have 1: "push_bit 32 x OR (y AND 0xFFFFFFFF) = push_bit 32 x + (y AND 0xFFFFFFFF)"
    by (intro disjunctive_add [symmetric]) (auto simp: mask32 bit_simps)
  have 2: "unat (push_bit 32 x) = unat x mod 2 ^ 32 * 2 ^ 32"
    by (simp only: unsigned_push_bit_eq) (simp add: push_bit_eq_mult take_bit_eq_mod mult_mod_left)
  have "push_bit 32 x OR (y AND 0xFFFFFFFF) = word_of_nat (unat (push_bit 32 x) + unat (y AND 0xFFFFFFFF))"
    by (simp only: 1 of_nat_add of_nat_unat ucast_id)
  then show ?thesis by (simp only: 2 unat_and_mask32)
qed

lemma unat_sum64: "unat a + unat b < 2 ^ 64 \<Longrightarrow> unat ((a :: u64) + b) = unat a + unat b"
  by (simp add: unat_word_ariths)

lemma div_block: "r < n \<Longrightarrow> (u * n + r) div n = (u :: nat)"
  by simp

lemma XXH_mult64to128_eq:
  "XXH_mult64to128 P lhs rhs =
     (word_of_nat (unat lhs * unat rhs), word_of_nat (unat lhs * unat rhs div 2 ^ 64))"
proof (cases "int128 P")
  case True
  have "unat lhs * unat rhs < 2 ^ 64 * 2 ^ 64"
    by (rule mult_strict_mono) (use unsigned_less [of lhs] unsigned_less [of rhs] in simp_all)
  moreover have "unat (ucast w :: 128 word) = unat w" for w :: u64
    using unsigned_less [of w, where 'a = nat] by (simp add: unsigned_ucast_eq take_bit_eq_mod)
  ultimately have p: "unat ((ucast lhs :: 128 word) * ucast rhs) = unat lhs * unat rhs" (is "unat ?p = _")
    by (simp add: unat_word_ariths)
  have "unat (drop_bit 64 ?p) = unat lhs * unat rhs div 2 ^ 64"
    by (simp only: unat_drop_bit_eq p) (simp only: drop_bit_eq_div)
  then have "(ucast (drop_bit 64 ?p) :: u64) = word_of_nat (unat lhs * unat rhs div 2 ^ 64)" by (metis of_nat_unat)
  moreover have "(ucast ?p :: u64) = word_of_nat (unat lhs * unat rhs)" by (metis of_nat_unat p)
  ultimately show ?thesis using True by (simp only: XXH_mult64to128_def Let_def if_True)
next
  case False
  let ?B = "2 ^ 32 :: nat"
  define a b c d where "a = unat lhs div ?B" and "b = unat lhs mod ?B" and "c = unat rhs div ?B" and "d = unat rhs mod ?B"
  define x where "x = b * d div ?B + a * d mod ?B + b * c"
  define u where "u = a * d div ?B + x div ?B + a * c"
  have lt: "a < ?B" "b < ?B" "c < ?B" "d < ?B"
    using unsigned_less [of lhs, where 'a = nat] unsigned_less [of rhs, where 'a = nat]
    by (simp_all add: a_def b_def c_def d_def)
  note gs = grade_school [OF lt, folded x_def, folded u_def]
  have lr: "unat lhs = a * ?B + b" "unat rhs = c * ?B + d" by (simp_all add: a_def b_def c_def d_def)
  define lo_lo hi_lo lo_hi hi_hi where "lo_lo = XXH_mult32to64 (lhs AND 0xFFFFFFFF) (rhs AND 0xFFFFFFFF)"
    and "hi_lo = XXH_mult32to64 (drop_bit 32 lhs) (rhs AND 0xFFFFFFFF)"
    and "lo_hi = XXH_mult32to64 (lhs AND 0xFFFFFFFF) (drop_bit 32 rhs)"
    and "hi_hi = XXH_mult32to64 (drop_bit 32 lhs) (drop_bit 32 rhs)"
  note products = lo_lo_def hi_lo_def lo_hi_def hi_hi_def
  have p: "unat lo_lo = b * d" "unat hi_lo = a * d" "unat lo_hi = b * c" "unat hi_hi = a * c"
    using lt by (simp_all add: products mult32to64_unat unat_and_mask32 unat_drop_bit32 a_def b_def c_def d_def)
  have x2: "x < 2 ^ 64" and u2: "u < 2 ^ 64" using gs(2,3) by simp_all
  have cross: "unat (drop_bit 32 lo_lo + (hi_lo AND 0xFFFFFFFF) + lo_hi) = x" (is "unat ?cross = x")
    using x2 by (simp add: x_def unat_sum64 unat_drop_bit32 unat_and_mask32 p)
  have "unat (drop_bit 32 hi_lo + drop_bit 32 ?cross + hi_hi) = u" (is "unat ?upper = u")
    using u2 by (simp add: u_def unat_sum64 unat_drop_bit32 p cross del: add_left_cancel)
  moreover have "unat lhs * unat rhs div 2 ^ 64 = u"
  proof -
    have "x mod ?B * ?B + b * d mod ?B < ?B * ?B"
      using mod_less_divisor [of ?B x] mod_less_divisor [of ?B "b * d"] by simp
    then have "(u * (?B * ?B) + (x mod ?B * ?B + b * d mod ?B)) div (?B * ?B) = u" by (rule div_block)
    then show ?thesis by (simp only: lr gs(1) add.assoc flip: power_add) simp
  qed
  ultimately have upper: "?upper = word_of_nat (unat lhs * unat rhs div 2 ^ 64)"
    by (metis of_nat_unat ucast_id)
  have lower: "push_bit 32 ?cross OR (lo_lo AND 0xFFFFFFFF) = word_of_nat (unat lhs * unat rhs)"
  proof -
    have "of_nat (u * (?B * ?B)) = (0 :: u64)" by (simp only: word_of_nat_eq_0_iff) simp
    moreover have "unat lhs * unat rhs = u * (?B * ?B) + (x mod ?B * ?B + b * d mod ?B)"
      by (simp only: lr gs(1) add.assoc)
    ultimately show ?thesis by (simp only: join_words cross p of_nat_add [of "u * (?B * ?B)"] add_0_left)
  qed
  show ?thesis
    using lower upper by (simp add: False XXH_mult64to128_def Let_def products)
qed

lemma XXH3_mul128_fold64_eq:
  "XXH3_mul128_fold64 P lhs rhs = word_of_nat (unat lhs * unat rhs) XOR word_of_nat (unat lhs * unat rhs div 2 ^ 64)"
  by (simp only: XXH3_mul128_fold64_def XXH_mult64to128_eq Let_def fst_conv snd_conv)

section \<open>Vector loops and scalar loops\<close>

lemma split32: "push_bit 32 (ucast (ucast (drop_bit 32 x) :: u32)) OR ucast (ucast x :: u32) = (x :: u64)"
  by (rule bit_word_eqI) (auto simp: bit_simps)

lemma low32_split: "(push_bit 32 y OR ucast (x :: u32)) AND 0xFFFFFFFF = (ucast x :: u64)"
  by (rule bit_word_eqI) (auto simp: mask32 bit_simps dest: bit_imp_le_length)

lemma mult32to64_mask: "XXH_mult32to64 x y = (x AND 0xFFFFFFFF) * (y AND 0xFFFFFFFF)"
proof -
  have "ucast (ucast x :: u32) = (x AND 0xFFFFFFFF :: u64)" for x
    by (rule bit_word_eqI) (auto simp: mask32 bit_simps)
  then show ?thesis by (simp only: XXH_mult32to64_def)
qed

lemma low32_ucast: "ucast (ucast (x :: u64) :: u32) = x AND 0xFFFFFFFF"
  by (rule bit_word_eqI) (auto simp: mask32 bit_simps)

lemma low32_drop: "drop_bit 32 (x :: u64) AND 0xFFFFFFFF = drop_bit 32 x"
  by (rule bit_word_eqI) (auto simp: mask32 bit_simps dest: bit_imp_le_length)

lemma mul_by_halves:
  "(x AND 0xFFFFFFFF) * (p AND 0xFFFFFFFF) + push_bit 32 (drop_bit 32 x * (p AND 0xFFFFFFFF)) = x * (p AND 0xFFFFFFFF :: u64)"
proof -
  have "x = push_bit 32 (drop_bit 32 x) OR (x AND 0xFFFFFFFF)"
    by (rule bit_word_eqI) (auto simp: mask32 bit_simps)
  also have "\<dots> = push_bit 32 (drop_bit 32 x) + (x AND 0xFFFFFFFF)"
    by (intro disjunctive_add [symmetric]) (auto simp: mask32 bit_simps)
  finally have x: "x = push_bit 32 (drop_bit 32 x) + (x AND 0xFFFFFFFF)" .
  let ?q = "p AND 0xFFFFFFFF"
  have "push_bit 32 (drop_bit 32 x * ?q) = push_bit 32 (drop_bit 32 x) * ?q"
    by (simp add: push_bit_eq_mult ac_simps)
  then have "(x AND 0xFFFFFFFF) * ?q + push_bit 32 (drop_bit 32 x * ?q) = (push_bit 32 (drop_bit 32 x) + (x AND 0xFFFFFFFF)) * ?q"
    by (simp only: distrib_right add.commute)
  then show ?thesis by (simp only: x [symmetric])
qed

lemma eight_lanes:
  assumes "length acc = 8"
  obtains a0 a1 a2 a3 a4 a5 a6 a7 where "acc = [a0, a1, a2, a3, a4, a5, a6, a7]"
proof -
  have "length acc = Suc (Suc (Suc (Suc (Suc (Suc (Suc (Suc 0)))))))" using assms by simp
  then show thesis using that by (auto simp only: length_Suc_conv length_0_conv)
qed

lemma upt_small: "[0..<8] = [0, 1, 2, 3, 4, 5, 6, 7::nat]" "[0..<4] = [0, 1, 2, 3::nat]" "[0..<2] = [0, 1::nat]"
  by (simp_all add: upt_conv_Cons)

lemma other_lanes:
  "other_lane 0 = 1" "other_lane 1 = 0" "other_lane 2 = 3" "other_lane 3 = 2"
  "other_lane 4 = 5" "other_lane 5 = 4" "other_lane 6 = 7" "other_lane 7 = 6"
  by (simp_all add: other_lane_def)

text \<open>A lane after one stripe: its own data multiplied, the data of its neighbour added.\<close>

definition acc_lane :: "u64 \<Rightarrow> u64 \<Rightarrow> u64 \<Rightarrow> u64 \<Rightarrow> u64" where
  "acc_lane a v v' k = (let dk = v XOR k in a + v' + XXH_mult32to64 dk (drop_bit 32 dk))"

lemma acc_lane_folds:
  "XXH_mult32to64 (v XOR k) (drop_bit 32 (v XOR k)) + a + v' = acc_lane a v v' k"
  "XXH_mult32to64 (v XOR k) (drop_bit 32 (v XOR k)) + (a + v') = acc_lane a v v' k"
  by (simp_all add: acc_lane_def Let_def ac_simps del: drop_bit_xor)

definition acc_stripe :: "bytes \<Rightarrow> nat \<Rightarrow> bytes \<Rightarrow> nat \<Rightarrow> u64 list \<Rightarrow> u64 list" where
  "acc_stripe input p secret s acc =
     map (\<lambda>lane. acc_lane (acc ! lane) (at64 input (p + 8 * lane)) (at64 input (p + 8 * other_lane lane)) (at64 secret (s + 8 * lane))) [0..<8]"

lemma length_acc_stripe [simp]: "length (acc_stripe input p secret s acc) = 8"
  by (simp add: acc_stripe_def)

lemma accumulate_512_scalar_eq:
  assumes "p + 64 \<le> length input" and "s + 64 \<le> length secret" and "length acc = 8"
  shows "XXH3_accumulate_512_scalar P input p secret s acc = acc_stripe input p secret s acc"
proof -
  obtain a0 a1 a2 a3 a4 a5 a6 a7 where acc: "acc = [a0, a1, a2, a3, a4, a5, a6, a7]" by (rule eight_lanes [OF assms(3)])
  show ?thesis
    unfolding acc using assms(1,2)
    by (simp add: XXH3_accumulate_512_scalar_def acc_stripe_def upt_small XXH3_scalarRound_def other_lanes [simplified] XXH_readLE64_eq
        XXH_mult32to64_add64_def Let_def acc_lane_folds del: drop_bit_xor)
qed

text \<open>Registers of two and of four lanes inside the eight accumulators.\<close>

lemma acc_vecs:
  "acc_vec 2 [a0, a1, a2, a3, a4, a5, a6, a7] 0 = [a0, a1]" "acc_vec 2 [a0, a1, a2, a3, a4, a5, a6, a7] 1 = [a2, a3]"
  "acc_vec 2 [a0, a1, a2, a3, a4, a5, a6, a7] 2 = [a4, a5]" "acc_vec 2 [a0, a1, a2, a3, a4, a5, a6, a7] 3 = [a6, a7]"
  "acc_vec 4 [a0, a1, a2, a3, a4, a5, a6, a7] 0 = [a0, a1, a2, a3]" "acc_vec 4 [a0, a1, a2, a3, a4, a5, a6, a7] 1 = [a4, a5, a6, a7]"
  by (simp_all add: acc_vec_def subspan_def)

lemma acc_stores:
  "acc_store 2 [a0, a1, a2, a3, a4, a5, a6, a7] 0 [b, c] = [b, c, a2, a3, a4, a5, a6, a7]"
  "acc_store 2 [a0, a1, a2, a3, a4, a5, a6, a7] 1 [b, c] = [a0, a1, b, c, a4, a5, a6, a7]"
  "acc_store 2 [a0, a1, a2, a3, a4, a5, a6, a7] 2 [b, c] = [a0, a1, a2, a3, b, c, a6, a7]"
  "acc_store 2 [a0, a1, a2, a3, a4, a5, a6, a7] 3 [b, c] = [a0, a1, a2, a3, a4, a5, b, c]"
  "acc_store 4 [a0, a1, a2, a3, a4, a5, a6, a7] 0 [b, c, d, e] = [b, c, d, e, a4, a5, a6, a7]"
  "acc_store 4 [a0, a1, a2, a3, a4, a5, a6, a7] 1 [b, c, d, e] = [a0, a1, a2, a3, b, c, d, e]"
  by (simp_all add: acc_store_def memcpy_at_def)

lemma loadus: "loadu 2 m p = [at64 m p, at64 m (p + 8)]"
  "loadu 4 m p = [at64 m p, at64 m (p + 8), at64 m (p + 16), at64 m (p + 24)]"
  by (simp_all add: loadu_def upt_small)

lemma shuffle_swap: "shuffle_epi32 [x, y] (1, 0, 3, 2) = [y, x]" "shuffle_epi32 [x, y, z, w] (1, 0, 3, 2) = [y, x, w, z]"
  by (simp_all add: lanes32_def Let_def split32)

lemma low32_of_high: "(push_bit 32 y OR ucast (ucast (drop_bit 32 (x :: u64)) :: u32)) AND 0xFFFFFFFF = drop_bit 32 x AND 0xFFFFFFFF"
  by (subst low32_split) (rule low32_ucast)

lemma lanes32_nth:
  "lanes32 x y ! 0 = ucast x" "lanes32 x y ! 1 = ucast (drop_bit 32 x)" "lanes32 x y ! 2 = ucast y" "lanes32 x y ! 3 = ucast (drop_bit 32 y)"
  by (simp_all add: lanes32_def)

lemma mul_epu32_high:
  "mul_epu32 [x, y] (shuffle_epi32 [x, y] (0, 3, 0, 1)) = [XXH_mult32to64 x (drop_bit 32 x), XXH_mult32to64 y (drop_bit 32 y)]"
  by (simp only: shuffle_epi32.simps lanes32_nth Let_def mul_epu32_def mult32to64_mask zip_Cons_Cons zip_Nil list.map split_conv
      low32_of_high)

lemma mul_epu32s:
  "mul_epu32 [x, y, z, w] [x', y', z', w'] = [XXH_mult32to64 x x', XXH_mult32to64 y y', XXH_mult32to64 z z', XXH_mult32to64 w w']"
  by (simp add: mul_epu32_def mult32to64_mask)

lemma xor_add_lanes:
  "xor_si [x, y] [x', y'] = [x XOR x', y XOR y']" "xor_si [x, y, z, w] [x', y', z', w'] = [x XOR x', y XOR y', z XOR z', w XOR w']"
  "add_epi64 [x, y] [x', y'] = [x + x', y + y']" "add_epi64 [x, y, z, w] [x', y', z', w'] = [x + x', y + y', z + z', w + w']"
  "srli_epi64 [x, y] n = [drop_bit n x, drop_bit n y]" "srli_epi64 [x, y, z, w] n = [drop_bit n x, drop_bit n y, drop_bit n z, drop_bit n w]"
  by (simp_all add: xor_si_def add_epi64_def srli_epi64_def)

lemmas vector_lanes = acc_vecs acc_stores loadus shuffle_swap mul_epu32_high mul_epu32s xor_add_lanes

lemma accumulate_512_sse2_eq:
  assumes "length acc = 8"
  shows "XXH3_accumulate_512_sse2 input p secret s acc = acc_stripe input p secret s acc"
proof -
  obtain a0 a1 a2 a3 a4 a5 a6 a7 where acc: "acc = [a0, a1, a2, a3, a4, a5, a6, a7]" by (rule eight_lanes [OF assms])
  show ?thesis
    unfolding acc
    by (simp add: XXH3_accumulate_512_sse2_def acc_stripe_def upt_small other_lanes accumulate_step_sse2_def vector_lanes Let_def add.assoc acc_lane_folds
      del: shuffle_epi32.simps One_nat_def drop_bit_xor)
qed

lemma accumulate_512_avx2_eq:
  assumes "length acc = 8"
  shows "XXH3_accumulate_512_avx2 input p secret s acc = acc_stripe input p secret s acc"
proof -
  obtain a0 a1 a2 a3 a4 a5 a6 a7 where acc: "acc = [a0, a1, a2, a3, a4, a5, a6, a7]" by (rule eight_lanes [OF assms])
  show ?thesis
    unfolding acc
    by (simp add: XXH3_accumulate_512_avx2_def acc_stripe_def upt_small other_lanes accumulate_step_avx2_def vector_lanes Let_def add.assoc acc_lane_folds
      del: shuffle_epi32.simps One_nat_def drop_bit_xor)
qed

text \<open>Scrambling: every lane shifted, keyed and multiplied.\<close>

definition scramble_lane :: "u64 \<Rightarrow> u64 \<Rightarrow> u64" where
  "scramble_lane a k = (XXH_xorshift64 a 47 XOR k) * ucast XXH_PRIME32_1"

definition scramble_stripe :: "bytes \<Rightarrow> nat \<Rightarrow> u64 list \<Rightarrow> u64 list" where
  "scramble_stripe secret s acc = map (\<lambda>lane. scramble_lane (acc ! lane) (at64 secret (s + 8 * lane))) [0..<8]"

lemma length_scramble_stripe [simp]: "length (scramble_stripe secret s acc) = 8"
  by (simp add: scramble_stripe_def)

lemma scrambleAcc_scalar_eq:
  assumes "s + 64 \<le> length secret" and "length acc = 8"
  shows "XXH3_scrambleAcc_scalar P secret s acc = scramble_stripe secret s acc"
proof -
  obtain a0 a1 a2 a3 a4 a5 a6 a7 where acc: "acc = [a0, a1, a2, a3, a4, a5, a6, a7]" by (rule eight_lanes [OF assms(2)])
  show ?thesis
    unfolding acc using assms(1)
    by (simp add: XXH3_scrambleAcc_scalar_def scramble_stripe_def upt_small XXH3_scalarScrambleRound_def XXH_readLE64_eq
        Let_def scramble_lane_def)
qed

lemma prime_lanes: "(push_bit 32 (ucast x) OR ucast (x :: u32)) AND 0xFFFFFFFF = (ucast x :: u64)" "(ucast x :: u64) AND 0xFFFFFFFF = ucast x"
   by (simp only: low32_split) (rule bit_word_eqI, auto simp: mask32 bit_simps dest: bit_imp_le_length)

lemma scramble_by_halves:
  "(x AND 0xFFFFFFFF) * ucast (q :: u32) + push_bit 32 (drop_bit 32 x * ucast q) = (x :: u64) * ucast q"
  using mul_by_halves [of x "ucast q"] by (simp only: prime_lanes)

lemma set1_lanes:
  "set1_epi32 2 q = (let v = push_bit 32 (ucast q) OR ucast q in [v, v])"
  "set1_epi32 4 q = (let v = push_bit 32 (ucast q) OR ucast q in [v, v, v, v])"
  by (simp_all add: set1_epi32_def Let_def numeral_eq_Suc)

lemma mul_epu32_prime:
  "mul_epu32 [x, y] (set1_epi32 2 q) = [(x AND 0xFFFFFFFF) * ucast q, (y AND 0xFFFFFFFF) * ucast q]"
  "mul_epu32 [x, y, z, w] (set1_epi32 4 q) =
     [(x AND 0xFFFFFFFF) * ucast q, (y AND 0xFFFFFFFF) * ucast q, (z AND 0xFFFFFFFF) * ucast q, (w AND 0xFFFFFFFF) * ucast q]"
  "mul_epu32 (shuffle_epi32 [x, y] (0, 3, 0, 1)) (set1_epi32 2 q) = [drop_bit 32 x * ucast q, drop_bit 32 y * ucast q]"
  by (simp_all only: set1_lanes Let_def mul_epu32_def shuffle_epi32.simps lanes32_nth zip_Cons_Cons zip_Nil list.map split_conv
      low32_of_high prime_lanes low32_drop)

lemma slli_lanes:
  "slli_epi64 [x, y] n = [push_bit n x, push_bit n y]" "slli_epi64 [x, y, z, w] n = [push_bit n x, push_bit n y, push_bit n z, push_bit n w]"
  by (simp_all add: slli_epi64_def)

lemma scrambleAcc_sse2_eq:
  assumes "length acc = 8"
  shows "XXH3_scrambleAcc_sse2 secret s acc = scramble_stripe secret s acc"
proof -
  obtain a0 a1 a2 a3 a4 a5 a6 a7 where acc: "acc = [a0, a1, a2, a3, a4, a5, a6, a7]" by (rule eight_lanes [OF assms])
  show ?thesis
    unfolding acc
    by (simp add: XXH3_scrambleAcc_sse2_def scramble_stripe_def upt_small scramble_step_sse2_def vector_lanes mul_epu32_prime slli_lanes
       Let_def add.assoc scramble_lane_def XXH_xorshift64_def scramble_by_halves low32_drop
      del: shuffle_epi32.simps One_nat_def drop_bit_xor)
qed

lemma scrambleAcc_avx2_eq:
  assumes "length acc = 8"
  shows "XXH3_scrambleAcc_avx2 secret s acc = scramble_stripe secret s acc"
proof -
  obtain a0 a1 a2 a3 a4 a5 a6 a7 where acc: "acc = [a0, a1, a2, a3, a4, a5, a6, a7]" by (rule eight_lanes [OF assms])
  show ?thesis
    unfolding acc
    by (simp add: XXH3_scrambleAcc_avx2_def scramble_stripe_def upt_small scramble_step_avx2_def vector_lanes mul_epu32_prime slli_lanes
       Let_def add.assoc scramble_lane_def XXH_xorshift64_def scramble_by_halves low32_drop
      del: shuffle_epi32.simps One_nat_def drop_bit_xor)
qed

section \<open>Independence of the platform and of memory behind the key\<close>

text \<open>
  Two buffers that hold the same key of \<open>len\<close> bytes. Reading inside the key gives the same number
  from both, whatever the platform.
\<close>

definition same_key :: "nat \<Rightarrow> bytes \<Rightarrow> bytes \<Rightarrow> bool" where
  "same_key len m m' \<longleftrightarrow> len \<le> length m \<and> len \<le> length m' \<and> take len m = take len m'"

lemma same_key_subspan:
  assumes "same_key len m m'" and "p + n \<le> len"
  shows "subspan p n m = subspan p n m'"
proof -
  have "subspan p n m = subspan p n (take len m)" for m :: bytes
    using assms(2) by (simp add: subspan_def drop_take min_def)
  with assms(1) show ?thesis by (metis same_key_def)
qed

lemma same_key_reads:
  assumes "same_key len m m'"
  shows "p + 8 \<le> len \<Longrightarrow> XXH_readLE64 P m p = at64 m' p" and "p + 8 \<le> len \<Longrightarrow> XXH_readLE64 P m' p = at64 m' p"
    and "p + 4 \<le> len \<Longrightarrow> XXH_readLE32 P m p = at32 m' p" and "p + 4 \<le> len \<Longrightarrow> XXH_readLE32 P m' p = at32 m' p"
  using assms same_key_subspan [OF assms, of p 8] same_key_subspan [OF assms, of p 4]
  by (simp_all add: XXH_readLE64_eq XXH_readLE32_eq same_key_def)

lemma same_key_nth: "same_key len m m' \<Longrightarrow> i < len \<Longrightarrow> m ! i = m' ! i"
  unfolding same_key_def by (metis nth_take)

definition mum :: "u64 \<Rightarrow> u64 \<Rightarrow> u64" where
  "mum lhs rhs = word_of_nat (unat lhs * unat rhs) XOR word_of_nat (unat lhs * unat rhs div 2 ^ 64)"

lemma fold64_mum: "XXH3_mul128_fold64 P lhs rhs = mum lhs rhs"
  unfolding mum_def by (rule XXH3_mul128_fold64_eq)

lemma short_same:
  assumes "same_key len m m'" and "136 \<le> length secret"
  shows "len \<le> 16 \<Longrightarrow> XXH3_len_0to16_64b P m len secret seed = XXH3_len_0to16_64b Q m' len secret seed"
  using same_key_reads [OF assms(1)] same_key_nth [OF assms(1)] assms(2)
  by (simp add: XXH3_len_0to16_64b_def XXH3_len_9to16_64b_def XXH3_len_4to8_64b_def XXH3_len_1to3_64b_def
      XXH_readLE64_eq XXH_readLE32_eq fold64_mum)

definition mix16 :: "bytes \<Rightarrow> nat \<Rightarrow> bytes \<Rightarrow> nat \<Rightarrow> u64 \<Rightarrow> u64" where
  "mix16 input i secret s seed =
     mum (at64 input i XOR (at64 secret s + seed)) (at64 input (i + 8) XOR (at64 secret (s + 8) - seed))"

lemma same_key_mix:
  assumes "same_key len m m'"
  shows "i + 16 \<le> len \<Longrightarrow> s + 16 \<le> length secret \<Longrightarrow> XXH3_mix16B P m i secret s seed = mix16 m' i secret s seed"
    and "i + 16 \<le> len \<Longrightarrow> s + 16 \<le> length secret \<Longrightarrow> XXH3_mix16B P m' i secret s seed = mix16 m' i secret s seed"
  using same_key_reads [OF assms, of i] same_key_reads [OF assms, of "i + 8"]
  by (simp_all add: XXH3_mix16B_def mix16_def XXH_readLE64_eq fold64_mum)

lemma medium_same:
  assumes "same_key len m m'" and "136 \<le> length secret" and "16 < len" and "len \<le> 128"
  shows "XXH3_len_17to128_64b P m len secret seed = XXH3_len_17to128_64b Q m' len secret seed"
proof -
  note mix = same_key_mix [OF assms(1), where secret = secret and seed = seed]
  consider "len \<le> 32" | "32 < len" "len \<le> 64" | "64 < len" "len \<le> 96" | "96 < len" by linarith
  then show ?thesis
  proof cases
    case 1
    then have "(len - 1) div 32 = 0" by simp
    with 1 assms(2-4) show ?thesis
      by (simp add: XXH3_len_17to128_64b_def mix_down.simps mix Let_def)
  next
    case 2
    then have "(len - 1) div 32 = Suc 0" by simp
    with 2 assms(2-4) show ?thesis
      by (simp add: XXH3_len_17to128_64b_def mix_down.simps mix Let_def)
  next
    case 3
    then have "(len - 1) div 32 = Suc (Suc 0)" by simp
    with 3 assms(2-4) show ?thesis
      by (simp add: XXH3_len_17to128_64b_def mix_down.simps mix Let_def)
  next
    case 4
    with assms(4) have "(len - 1) div 32 = Suc (Suc (Suc 0))" by simp
    with 4 assms(2-4) show ?thesis
      by (simp add: XXH3_len_17to128_64b_def mix_down.simps mix Let_def)
  qed
qed

lemma foldl_same: "(\<And>a x. x \<in> set xs \<Longrightarrow> f a x = g a x) \<Longrightarrow> foldl f a xs = foldl g a xs"
  by (rule foldl_cong) simp_all

lemma midsize_same:
  assumes "same_key len m m'" and "136 \<le> length secret" and "128 < len" and "len \<le> 240"
  shows "XXH3_len_129to240_64b P m len secret seed = XXH3_len_129to240_64b Q m' len secret seed"
proof -
  note mix = same_key_mix [OF assms(1), where secret = secret and seed = seed]
  have b: "16 * i + 16 \<le> len" "16 * (i - 8) + 3 + 16 \<le> length secret" if "i < len div 16" for i
    using that assms(2,4) by linarith+
  have "foldl (\<lambda>acc i. acc + XXH3_mix16B R m (16 * i) secret (16 * i) seed) acc [0..<8] =
        foldl (\<lambda>acc i. acc + mix16 m' (16 * i) secret (16 * i) seed) acc [0..<8]" for R acc
    using assms(2,3) by (intro foldl_same) (simp add: mix)
  moreover have "foldl (\<lambda>acc i. acc + XXH3_mix16B R m' (16 * i) secret (16 * i) seed) acc [0..<8] =
        foldl (\<lambda>acc i. acc + mix16 m' (16 * i) secret (16 * i) seed) acc [0..<8]" for R acc
    using assms(2,3) by (intro foldl_same) (simp add: mix)
  moreover have "foldl (\<lambda>acc i. acc + XXH3_mix16B R m (16 * i) secret (16 * (i - 8) + 3) seed) acc [8..<len div 16] =
        foldl (\<lambda>acc i. acc + mix16 m' (16 * i) secret (16 * (i - 8) + 3) seed) acc [8..<len div 16]" for R acc
    using b by (intro foldl_same) (simp only: set_upt atLeastLessThan_iff mix)
  moreover have "foldl (\<lambda>acc i. acc + XXH3_mix16B R m' (16 * i) secret (16 * (i - 8) + 3) seed) acc [8..<len div 16] =
        foldl (\<lambda>acc i. acc + mix16 m' (16 * i) secret (16 * (i - 8) + 3) seed) acc [8..<len div 16]" for R acc
    using b by (intro foldl_same) (simp only: set_upt atLeastLessThan_iff mix)
  ultimately show ?thesis
    using assms(2,3) by (simp add: XXH3_len_129to240_64b_def xxh_sizes mix Let_def del: upt_conv_Cons)
qed

lemma stripe_same:
  assumes "same_key len m m'" and "p + 64 \<le> len"
  shows "acc_stripe m p secret s acc = acc_stripe m' p secret s acc"
  using same_key_subspan [OF assms(1)] assms(2)
  by (simp add: acc_stripe_def upt_small other_lanes [simplified])

lemma accumulate_512_eq:
  assumes "p + 64 \<le> length m" and "s + 64 \<le> length secret" and "length acc = 8"
  shows "XXH3_accumulate_512 P m p secret s acc = acc_stripe m p secret s acc"
  using assms
  by (simp add: XXH3_accumulate_512_def accumulate_512_scalar_eq accumulate_512_sse2_eq accumulate_512_avx2_eq split: vectors.split)

lemma scrambleAcc_eq:
  assumes "s + 64 \<le> length secret" and "length acc = 8"
  shows "XXH3_scrambleAcc P secret s acc = scramble_stripe secret s acc"
  using assms
  by (simp add: XXH3_scrambleAcc_def scrambleAcc_scalar_eq scrambleAcc_sse2_eq scrambleAcc_avx2_eq split: vectors.split)

lemma foldl_inv:
  assumes "\<And>a x. x \<in> set xs \<Longrightarrow> I a \<Longrightarrow> f a x = g a x \<and> I (g a x)" and "I a"
  shows "foldl f a xs = foldl g a xs \<and> I (foldl g a xs)"
  using assms by (induction xs arbitrary: a) auto

definition stripes :: "bytes \<Rightarrow> nat \<Rightarrow> bytes \<Rightarrow> nat \<Rightarrow> u64 list \<Rightarrow> u64 list" where
  "stripes m i secret n acc = foldl (\<lambda>acc k. acc_stripe m (i + k * 64) secret (k * 8) acc) acc [0..<n]"

lemma accumulate_same:
  assumes "same_key len m m'" and "i + n * 64 \<le> len" and "8 * n + 56 \<le> length secret" and "length acc = 8"
  shows "XXH3_accumulate P m i secret n acc = stripes m' i secret n acc"
    and "length (stripes m' i secret n acc) = 8"
proof -
  have "XXH3_accumulate_512 P m (i + k * 64) secret (k * 8) a = acc_stripe m' (i + k * 64) secret (k * 8) a" 
    if "k < n" "length a = 8" for k a
  proof -
    have "i + k * 64 + 64 \<le> len" "k * 8 + 64 \<le> length secret" using that(1) assms(2,3) by linarith+
    then show ?thesis
      using that(2) assms(1) stripe_same [OF assms(1)] by (simp add: accumulate_512_eq same_key_def)
  qed
  then show "XXH3_accumulate P m i secret n acc = stripes m' i secret n acc" "length (stripes m' i secret n acc) = 8"
    using foldl_inv [of "[0..<n]" "\<lambda>a. length a = 8" "\<lambda>acc k. XXH3_accumulate_512 P m (i + k * 64) secret (k * 8) acc"
        "\<lambda>acc k. acc_stripe m' (i + k * 64) secret (k * 8) acc" acc] assms(4)
    by (simp_all add: XXH3_accumulate_def stripes_def xxh_sizes)
qed

text \<open>Blocks of sixteen stripes for the default secret of 192 bytes.\<close>

lemma length_kSecret: "length XXH3_kSecret = 192"
  by (simp add: XXH3_kSecret_def)

definition blocks :: "bytes \<Rightarrow> bytes \<Rightarrow> nat \<Rightarrow> u64 list \<Rightarrow> u64 list" where
  "blocks m secret n acc =
     foldl (\<lambda>acc k. scramble_stripe secret 128 (stripes m (k * 1024) secret 16 acc)) acc [0..<n]"

lemma loop_same:
  assumes "same_key len m m'" and "64 < len" and "length secret = 192" and "length acc = 8"
  shows "XXH3_hashLong_internal_loop P m len secret 192 acc =
    acc_stripe m' (len - 64) secret 121
      (stripes m' ((len - 1) div 1024 * 1024) secret ((len - 1) mod 1024 div 64) (blocks m' secret ((len - 1) div 1024) acc))"
proof -
  have "XXH3_scrambleAcc P secret 128 (XXH3_accumulate P m (k * 1024) secret 16 a) =
      scramble_stripe secret 128 (stripes m' (k * 1024) secret 16 a)" if "k < (len - 1) div 1024" "length a = 8" for k a
  proof -
    have "k * 1024 + 16 * 64 \<le> len" using that(1) by linarith
    then show ?thesis
      using accumulate_same [OF assms(1), of "k * 1024" 16 secret a] that(2) assms(3) by (simp add: scrambleAcc_eq)
  qed
  then have 1: "foldl (\<lambda>acc n. XXH3_scrambleAcc P secret 128 (XXH3_accumulate P m (n * 1024) secret 16 acc)) acc [0..<(len - 1) div 1024] =
      blocks m' secret ((len - 1) div 1024) acc" "length (blocks m' secret ((len - 1) div 1024) acc) = 8"
    using foldl_inv [of "[0..<(len - 1) div 1024]" "\<lambda>a. length a = 8" 
        "\<lambda>acc n. XXH3_scrambleAcc P secret 128 (XXH3_accumulate P m (n * 1024) secret 16 acc)"
        "\<lambda>acc k. scramble_stripe secret 128 (stripes m' (k * 1024) secret 16 acc)" acc] assms(4)
    by (simp_all add: blocks_def)
  have "(len - 1) div 1024 * 1024 + (len - 1) mod 1024 div 64 * 64 \<le> len"
    using div_times_less_eq_dividend [of "(len - 1) mod 1024" 64] div_mult_mod_eq [of "len - 1" 1024] by linarith
  moreover have "8 * ((len - 1) mod 1024 div 64) + 56 \<le> length secret"
    using less_mult_imp_div_less [of "(len - 1) mod 1024" 16 64] assms(3) by simp
  ultimately have 2: "XXH3_accumulate P m ((len - 1) div 1024 * 1024) secret ((len - 1) mod 1024 div 64) acc' =
      stripes m' ((len - 1) div 1024 * 1024) secret ((len - 1) mod 1024 div 64) acc'" 
    "length (stripes m' ((len - 1) div 1024 * 1024) secret ((len - 1) mod 1024 div 64) acc') = 8" if "length acc' = 8" for acc'
    using accumulate_same [OF assms(1)] that by simp_all
  have 3: "XXH3_accumulate_512 P m (len - 64) secret 121 acc' = acc_stripe m' (len - 64) secret 121 acc'" if "length acc' = 8" for acc'
    using assms that stripe_same [OF assms(1), of "len - 64"] by (simp add: accumulate_512_eq same_key_def)
  have "len - 1 - 1024 * ((len - 1) div 1024) = (len - 1) mod 1024" by (simp add: minus_mult_div_eq_mod)
  then have "XXH3_hashLong_internal_loop P m len secret 192 acc =
      XXH3_accumulate_512 P m (len - 64) secret 121
        (XXH3_accumulate P m ((len - 1) div 1024 * 1024) secret ((len - 1) mod 1024 div 64)
          (foldl (\<lambda>acc n. XXH3_scrambleAcc P secret 128 (XXH3_accumulate P m (n * 1024) secret 16 acc)) acc [0..<(len - 1) div 1024]))"
    by (simp add: XXH3_hashLong_internal_loop_def xxh_sizes Let_def)
  then show ?thesis by (simp only: 1 2 [OF 1(2)] 3 [OF 2(2) [OF 1(2)]])
qed

lemma long_same:
  assumes "same_key len m m'" and "240 < len"
  shows "XXH3_hashLong_64b_default P m len seed secret n = XXH3_hashLong_64b_default Q m' len seed' secret' n'"
proof -
  have "same_key len m' m'" using assms(1) by (simp add: same_key_def)
  moreover have "length XXH3_INIT_ACC = 8" by (simp add: XXH3_INIT_ACC_def)
  ultimately have "XXH3_hashLong_internal_loop P m len XXH3_kSecret 192 XXH3_INIT_ACC = XXH3_hashLong_internal_loop Q m' len XXH3_kSecret 192 XXH3_INIT_ACC"
    using assms loop_same [of len m m' XXH3_kSecret XXH3_INIT_ACC P] loop_same [of len m' m' XXH3_kSecret XXH3_INIT_ACC Q]
    by (simp only: length_kSecret)
  moreover have "XXH3_finalizeLong_64b P acc XXH3_kSecret l = XXH3_finalizeLong_64b Q acc XXH3_kSecret l" for acc l
    by (simp add: XXH3_finalizeLong_64b_def XXH3_mergeAccs_def XXH3_mix2Accs_def fold64_mum XXH_readLE64_eq length_kSecret xxh_sizes upt_small)
  ultimately show ?thesis
    by (simp only: XXH3_hashLong_64b_default_def XXH3_hashLong_64b_internal_def length_kSecret Let_def)
qed

lemma XXH3_64bits_same:
  assumes "same_key len m m'"
  shows "XXH3_64bits P m len = XXH3_64bits Q m' len"
  using assms
  by (auto simp add: XXH3_64bits_def XXH3_64bits_internal_def XXH3_MIDSIZE_MAX_def length_kSecret not_le
     intro: short_same medium_same midsize_same long_same)

section \<open>Short keys do not collide\<close>

lemma xor_inj:
  fixes v w c :: u64
  assumes "v XOR c = w XOR c"
  shows "v = w"
proof (rule bit_word_eqI)
  fix n
  have "bit (v XOR c) n = bit (w XOR c) n" using assms by simp
  then show "bit v n = bit w n" by (simp only: bit_xor_iff) blast
qed

lemma xor_zero: "v XOR w = 0 \<Longrightarrow> v = (w :: u64)"
  by (rule xor_inj [of v w w]) simp

lemma xorshift_inj:
  assumes "XXH_xorshift64 v s = XXH_xorshift64 w s" and "0 < s"
  shows "v = w"
proof -
  let ?d = "v XOR w"
  have "drop_bit s ?d = ?d"
  proof (rule bit_word_eqI)
    fix n
    have "bit (XXH_xorshift64 v s) n = bit (XXH_xorshift64 w s) n" using assms(1) by simp
    then show "bit (drop_bit s ?d) n = bit ?d n"
      by (simp only: XXH_xorshift64_def drop_bit_xor bit_xor_iff) blast
  qed
  then have "unat ?d div 2 ^ s = unat ?d" by (metis drop_bit_eq_div unat_drop_bit_eq)
  moreover have "(1::nat) < 2 ^ s" by (rule one_less_power) (simp_all add: assms(2))
  ultimately have "unat ?d = 0" by (metis div_less_dividend less_irrefl neq0_conv)
  then show ?thesis by (simp only: unat_eq_0 xor_zero)
qed

lemma mult_inj:
  assumes "x * p = y * p" and "p * q = 1"
  shows "x = (y :: u64)"
proof -
  have "x = x * p * q" by (simp only: mult.assoc assms(2) mult_1_right)
  also have "\<dots> = y" by (simp only: assms(1)) (simp only: mult.assoc assms(2) mult_1_right)
  finally show ?thesis .
qed

lemma primes_invertible:
  "XXH_PRIME64_2 * 0xBA79078168D4BAF = 1" "XXH_PRIME64_3 * 0xE9E9F4C41D6DF849 = 1" "PRIME_MX2 * 0x2AB9C720D1024AD = 1"
  by (simp_all add: XXH_PRIME64_2_def XXH_PRIME64_3_def PRIME_MX2_def)

lemma XXH64_avalanche_inj: "XXH64_avalanche v = XXH64_avalanche w \<Longrightarrow> v = w"
  unfolding XXH64_avalanche_def Let_def XXH_xorshift64_def [symmetric]
  by (drule xorshift_inj, simp, drule mult_inj, rule primes_invertible)+ (drule xorshift_inj, simp)

text \<open>A rotation-xor is inverted by repeating it: doubling the distances six times makes them multiples of 64.\<close>

lemma doubling:
  fixes e :: "int \<Rightarrow> bool"
  assumes "\<forall>i. e i = (e (i - a) \<noteq> e (i - b))"
  shows "\<forall>i. e i = (e (i - 2 * a) \<noteq> e (i - 2 * b))"
proof
  fix i
  have "e (i - a) = (e (i - 2 * a) \<noteq> e (i - a - b))" "e (i - b) = (e (i - b - a) \<noteq> e (i - 2 * b))"
    using assms by (metis diff_diff_eq mult_2)+
  moreover have "i - a - b = i - b - a" by simp
  ultimately show "e i = (e (i - 2 * a) \<noteq> e (i - 2 * b))" using assms by metis
qed

lemma bit_rotl64:
  assumes "0 < r" "r < 64" "i < 64"
  shows "bit (XXH_rotl64 x r) i = bit x (nat ((int i - int r) mod 64))"
proof (cases "r \<le> i")
  case True
  have "(int i - int r) mod 64 = int i - int r" using True assms by (intro mod_pos_pos_trivial) auto
  then have "nat ((int i - int r) mod 64) = i - r" by simp
  moreover have "\<not> bit x (64 - r + i)" using True assms bit_imp_le_length [of x "64 - r + i"] by auto
  ultimately show ?thesis using True assms by (simp add: XXH_rotl64_def bit_simps)
next
  case False
  have "(int i - int r) mod 64 = (int i - int r + 64) mod 64" by simp
  also have "\<dots> = int i - int r + 64" using False assms by (intro mod_pos_pos_trivial) auto
  finally have "nat ((int i - int r) mod 64) = 64 - r + i" using False assms by auto
  then show ?thesis using False assms by (simp add: XXH_rotl64_def bit_simps)
qed

lemma rotl64_xor: "0 < r \<Longrightarrow> r < 64 \<Longrightarrow> XXH_rotl64 (x XOR y) r = XXH_rotl64 x r XOR XXH_rotl64 y r"
  by (rule bit_word_eqI) (simp add: bit_rotl64 bit_xor_iff)

lemma rotate_kernel:
  assumes "d = XXH_rotl64 d 49 XOR XXH_rotl64 d 24"
  shows "d = 0"
proof -
  define e where "e i = bit d (nat (i mod 64))" for i :: int
  have "e i = (e (i - 49) \<noteq> e (i - 24))" for i
  proof -
    let ?n = "nat (i mod 64)"
    have n: "?n < 64" "int ?n = i mod 64" by simp_all
    have "bit d ?n = (bit (XXH_rotl64 d 49) ?n \<noteq> bit (XXH_rotl64 d 24) ?n)" by (subst assms) (simp only: bit_xor_iff)
    then show ?thesis using n by (simp add: e_def bit_rotl64 mod_diff_left_eq)
  qed
  then have "\<forall>i. e i = (e (i - 49) \<noteq> e (i - 24))" by blast
  note six = doubling [OF doubling [OF doubling [OF doubling [OF doubling [OF doubling [OF this]]]]]]
  have n: "2 * (2 * (2 * (2 * (2 * (2 * 49))))) = (3136 :: int)" "2 * (2 * (2 * (2 * (2 * (2 * 24))))) = (1536 :: int)" by simp_all
  have "e i = (e (i - 3136) \<noteq> e (i - 1536))" for i using spec [OF six, of i] unfolding n .
  moreover have "e (i - 3136) = e i" "e (i - 1536) = e i" for i
  proof -
    have "(i - 3136) mod 64 = i mod 64" "(i - 1536) mod 64 = i mod 64"
      using mod_mult_self1 [of i "- 49" 64] mod_mult_self1 [of i "- 24" 64] by simp_all
    then show "e (i - 3136) = e i" "e (i - 1536) = e i" by (simp_all only: e_def)
  qed
  ultimately have no: "\<not> e i" for i by blast
  have "\<not> bit d n" if "n < 64" for n
  proof -
    have "int n mod 64 = int n" using that by simp
    with no [of "int n"] show ?thesis by (simp add: e_def)
  qed
  then show ?thesis by (intro bit_word_eqI) simp
qed

lemma rotate_inj:
  assumes "v XOR (XXH_rotl64 v 49 XOR XXH_rotl64 v 24) = w XOR (XXH_rotl64 w 49 XOR XXH_rotl64 w 24)"
  shows "v = w"
proof -
  let ?d = "v XOR w"
  have "?d = XXH_rotl64 ?d 49 XOR XXH_rotl64 ?d 24"
  proof (rule bit_word_eqI)
    fix n
    have "bit (v XOR (XXH_rotl64 v 49 XOR XXH_rotl64 v 24)) n = bit (w XOR (XXH_rotl64 w 49 XOR XXH_rotl64 w 24)) n"
      using assms by simp
    moreover have "XXH_rotl64 ?d 49 = XXH_rotl64 v 49 XOR XXH_rotl64 w 49" "XXH_rotl64 ?d 24 = XXH_rotl64 v 24 XOR XXH_rotl64 w 24"
      by (simp_all add: rotl64_xor)
    ultimately show "bit ?d n = bit (XXH_rotl64 ?d 49 XOR XXH_rotl64 ?d 24) n"
      by (simp only: bit_xor_iff) blast
  qed
  then have "?d = 0" by (rule rotate_kernel)
  then show ?thesis by (rule xor_zero)
qed

lemma add_high_inj:
  assumes "v XOR (drop_bit 35 v + l) = w XOR (drop_bit 35 w + l)" and "unat l < 2 ^ 30"
  shows "v = (w :: u64)"
proof -
  have small: "drop_bit 35 (drop_bit 35 x + l) = 0" for x :: u64
  proof -
    have "unat (drop_bit 35 x) = unat x div 2 ^ 35" by (simp only: unat_drop_bit_eq) (simp only: drop_bit_eq_div)
    moreover have "unat x < 2 ^ 64" using unsigned_less [of x, where 'a = nat] by simp
    ultimately have "unat (drop_bit 35 x) < 2 ^ 29" by simp
    then have "unat (drop_bit 35 x + l) < 2 ^ 35" using assms(2) by (simp add: unat_sum64)
    then have "unat (drop_bit 35 x + l) div 2 ^ 35 = 0" by simp
    moreover have "unat (drop_bit 35 (drop_bit 35 x + l)) = unat (drop_bit 35 x + l) div 2 ^ 35"
      by (simp only: unat_drop_bit_eq) (simp only: drop_bit_eq_div)
    ultimately show ?thesis by (simp only: unat_eq_0)
  qed
  have "drop_bit 35 (v XOR (drop_bit 35 v + l)) = drop_bit 35 (w XOR (drop_bit 35 w + l))" using assms(1) by simp
  then have "drop_bit 35 v = drop_bit 35 w" by (simp only: drop_bit_xor small xor.right_neutral)
  with assms(1) have "v XOR (drop_bit 35 v + l) = w XOR (drop_bit 35 v + l)" by simp
  then show ?thesis by (rule xor_inj)
qed

lemma XXH3_rrmxmx_inj:
  assumes "XXH3_rrmxmx v l = XXH3_rrmxmx w l" and "unat l < 2 ^ 30"
  shows "v = w"
proof -
  note a = xorshift_inj [OF assms(1) [unfolded XXH3_rrmxmx_def Let_def]]
  then show ?thesis
    using mult_inj [OF _ primes_invertible(3)] add_high_inj [OF _ assms(2)] rotate_inj by (metis zero_less_numeral)
qed

text \<open>The bytes that the short-key functions read determine the key.\<close>

lemma le_word_inj:
  assumes "(le_word bs :: 'a::len word) = le_word cs" and "length bs = length cs" and "8 * length bs \<le> LENGTH('a)"
  shows "bs = cs"
  by (metis assms le_bytes_le_word)

lemma combined_bytes:
  "push_bit 16 (ucast c1) OR push_bit 24 (ucast c2) OR ucast c3 OR push_bit 8 (ucast (l :: byte)) = (le_word [c3, l, c1, c2] :: u32)"
  by (simp add: le_word.simps push_bit_or push_bit_push_bit ac_simps)

lemma ucast_inj:
  assumes "(ucast (x :: u32) :: u64) = ucast y"
  shows "x = y"
proof (rule bit_word_eqI)
  fix n assume "n < LENGTH(32)"
  moreover have "bit (ucast x :: u64) n = bit (ucast y :: u64) n" using assms by simp
  ultimately show "bit x n = bit y n" by (simp add: bit_unsigned_iff)
qed

lemma input64_inj:
  assumes "ucast (b :: u32) + push_bit 32 (ucast (a :: u32)) = (ucast d + push_bit 32 (ucast c) :: u64)"
  shows "a = c \<and> b = d"
proof -
  have "ucast (b :: u32) + push_bit 32 (ucast (a :: u32)) = (ucast b OR push_bit 32 (ucast a) :: u64)" for a b
    by (intro disjunctive_add) (auto simp: bit_simps dest: bit_imp_le_length)
  with assms have e: "bit (ucast b OR push_bit 32 (ucast a) :: u64) n = bit (ucast d OR push_bit 32 (ucast c) :: u64) n" for n
    by simp
  have "bit b n = bit d n" if "n < 32" for n using e [of n] that by (simp add: bit_simps)
  moreover have "bit a n = bit c n" if "n < 32" for n
    using e [of "n + 32"] that bit_imp_le_length [of b "n + 32"] bit_imp_le_length [of d "n + 32"] by (auto simp: bit_simps)
  ultimately show ?thesis by (auto intro: bit_word_eqI)
qed

lemma short_key_bytes:
  assumes "k \<noteq> []" "length k \<le> 3" "k' \<noteq> []" "length k' \<le> 3"
    and "k ! (length k - 1) = k' ! (length k' - 1)" and "length k = length k'" and "k ! 0 = k' ! 0"
    and "k ! (length k div 2) = k' ! (length k' div 2)"
  shows "k = k'"
proof (rule nth_equalityI)
  fix i assume "i < length k"
  with assms(2) have "i = 0 \<or> i = length k div 2 \<or> i = length k - 1" by auto
  with assms show "k ! i = k' ! i" by auto
qed (rule assms)

lemma len_1to3_inj:
  assumes h: "XXH3_len_1to3_64b P k (length k) secret 0 = XXH3_len_1to3_64b P k' (length k') secret 0"
    and k: "k \<noteq> []" "length k \<le> 3" "k' \<noteq> []" "length k' \<le> 3"
  shows "k = k'"
proof -
  have l: "(of_nat n :: u32) = ucast (of_nat n :: byte)" if "n \<le> 3" for n
  proof -
    have "n = 0 \<or> n = 1 \<or> n = 2 \<or> n = 3" using that by auto
    then show ?thesis by auto
  qed
  note w = h [unfolded XXH3_len_1to3_64b_def Let_def l [OF k(2)] l [OF k(4)] combined_bytes, THEN XXH64_avalanche_inj]
  from ucast_inj [OF xor_inj [OF w]]
  have "[k ! (length k - 1), of_nat (length k), k ! 0, k ! (length k div 2)] = [k' ! (length k' - 1), of_nat (length k'), k' ! 0, k' ! (length k' div 2)]"
    by (rule le_word_inj) simp_all
  moreover have "length k = length k'" if "(of_nat (length k) :: byte) = of_nat (length k')"
    using arg_cong [of _ _ unat, OF that] k by (simp add: unat_of_nat)
  ultimately show ?thesis using k by (intro short_key_bytes) simp_all
qed

lemma nth_subspan: "p + n \<le> length m \<Longrightarrow> j < n \<Longrightarrow> subspan p n m ! j = m ! (p + j)"
  by (simp add: subspan_def)

lemma len_4to8_inj:
  assumes h: "XXH3_len_4to8_64b P k (length k) secret 0 = XXH3_len_4to8_64b P k' (length k') secret 0"
    and k: "4 \<le> length k" "length k \<le> 8" "length k' = length k"
  shows "k = k'"
proof -
  have small: "unat (of_nat (length k) :: u64) < 2 ^ 30" using k by (simp add: unat_of_nat)
  note w = input64_inj [OF xor_inj [OF XXH3_rrmxmx_inj [OF h [unfolded XXH3_len_4to8_64b_def Let_def k(3)] small]]]
  have "subspan 0 4 k = subspan 0 4 k'" "subspan (length k - 4) 4 k = subspan (length k - 4) 4 k'"
    using w k le_word_inj [where 'a = 32] by (simp_all add: XXH_readLE32_eq)
  then have "k ! (0 + i) = k' ! (0 + i)" "k ! (length k - 4 + i) = k' ! (length k - 4 + i)" if "i < 4" for i
    using that k nth_subspan [of 0 4 k i] nth_subspan [of 0 4 k' i] nth_subspan [of "length k - 4" 4 k i]
      nth_subspan [of "length k - 4" 4 k' i] by (simp_all del: subspan_0)
  note same = this
  have "k ! i = k' ! i" if "i < length k" for i
  proof (cases "i < 4")
    case True
    then show ?thesis using same(1) by simp
  next
    case False
    then have "i - (length k - 4) < 4" "length k - 4 + (i - (length k - 4)) = i" using that k by simp_all
    then show ?thesis using same(2) by metis
  qed
  then show ?thesis using k by (intro nth_equalityI) simp_all
qed

section \<open>The theorems\<close>

lemma Hash_platform: "Hash P key = Hash Q key"
  unfolding Hash_def by (rule XXH3_64bits_same) (simp add: same_key_def)

text \<open>
  C26: the hash that routes keys is the same on every platform, as the comment of \<^verbatim>\<open>RouteToPartition\<close> says: for every
  byte order, way of reading memory, way of multiplying and of unrolling, and for the scalar, SSE2 and AVX2
  loops. It depends on the bytes of the key only and not on the memory behind them, for keys of every
  length.
\<close>

theorem xxh3_platform_independent:
  "XXH3_64bits P (key @ rest) (length key) = Hash Q key"
  unfolding Hash_def by (rule XXH3_64bits_same) (simp add: same_key_def)

definition x86_64 :: platform where
  "x86_64 = \<lparr>cpu = Little, byteshift = False, int128 = True, size_opt = False, XXH_VECTOR = XXH_SSE2\<rparr>"

definition s390x :: platform where
  "s390x = \<lparr>cpu = Big, byteshift = False, int128 = True, size_opt = False, XXH_VECTOR = XXH_SCALAR\<rparr>"

text \<open>Published values: the empty key, \<^verbatim>\<open>a\<close> and \<^verbatim>\<open>abc\<close>.\<close>

theorem xxh3_test_vectors:
  "Hash P [] = 0x2D06800538D394C2" "Hash P [0x61] = 0xE6C632B61E964E1F" "Hash P [0x61, 0x62, 0x63] = 0x78AF5F94892F3950"
proof -
  have "Hash x86_64 [] = 0x2D06800538D394C2" by code_simp
  then show "Hash P [] = 0x2D06800538D394C2" using Hash_platform [of P "[]" x86_64] by simp
  have "Hash x86_64 [0x61] = 0xE6C632B61E964E1F" by code_simp
  then show "Hash P [0x61] = 0xE6C632B61E964E1F" using Hash_platform [of P "[0x61]" x86_64] by simp
  have "Hash x86_64 [0x61, 0x62, 0x63] = 0x78AF5F94892F3950" by code_simp
  then show "Hash P [0x61, 0x62, 0x63] = 0x78AF5F94892F3950" using Hash_platform [of P "[0x61, 0x62, 0x63]" x86_64] by simp
qed

text \<open>
  C39: two different short keys never have the same hash, not even on different platforms: keys of one to three
  bytes of any lengths, and keys of four to eight bytes of the same length. Every mixing step there, the
  multiplications by odd constants, shifts and rotations with exclusive or, can be undone, and the bytes
  that are read make up the whole key.
\<close>

theorem xxh3_short_keys_distinct:
  assumes "key \<noteq> key'" and "key \<noteq> []" and "key' \<noteq> []"
    and "length key \<le> 3 \<and> length key' \<le> 3 \<or> length key = length key' \<and> length key \<le> 8"
  shows "Hash P key \<noteq> Hash Q key'"
proof
  assume "Hash P key = Hash Q key'"
  then have h: "Hash P key = Hash P key'" using Hash_platform [of Q key' P] by simp
  have n: "0 < length key" "0 < length key'" using assms(2,3) by simp_all
  show False
  proof (cases "length key \<le> 3")
    case True
    with assms(4) have "length key' \<le> 3" by auto
    with True h n have "XXH3_len_1to3_64b P key (length key) XXH3_kSecret 0 = XXH3_len_1to3_64b P key' (length key') XXH3_kSecret 0"
      by (simp add: Hash_def XXH3_64bits_def XXH3_64bits_internal_def XXH3_len_0to16_64b_def)
    with True \<open>length key' \<le> 3\<close> assms(1-3) show False by (blast dest: len_1to3_inj)
  next
    case False
    with assms(4) have l: "4 \<le> length key" "length key \<le> 8" "length key' = length key" by auto
    with h have "XXH3_len_4to8_64b P key (length key) XXH3_kSecret 0 = XXH3_len_4to8_64b P key' (length key') XXH3_kSecret 0"
      by (simp add: Hash_def XXH3_64bits_def XXH3_64bits_internal_def XXH3_len_0to16_64b_def)
    with l assms(1) show False by (blast dest: len_4to8_inj)
  qed
qed

theorem xxh3_short_keys_distinct_witness:
  "Hash x86_64 [0x61] \<noteq> Hash s390x [0x61, 0x62, 0x63] \<and>
   Hash x86_64 [0x75, 0x73, 0x65, 0x72, 0x31] \<noteq> Hash s390x [0x75, 0x73, 0x65, 0x72, 0x32]"
  using xxh3_short_keys_distinct [of "[0x61]" "[0x61, 0x62, 0x63]" x86_64 s390x]
    xxh3_short_keys_distinct [of "[0x75, 0x73, 0x65, 0x72, 0x31]" "[0x75, 0x73, 0x65, 0x72, 0x32]" x86_64 s390x]
  by simp

end
