(* ===== verification/BitKV.thy ===== *)
theory BitKV
  imports Compaction Xxh3_Platform
begin

text \<open>
  The database (\<^verbatim>\<open>bitcask/include/bitcask.h\<close>, \<^verbatim>\<open>bitcask.cpp\<close>): a fixed number of partitions, each on
  its own worker, and the routing of keys to them by a hash. The partitions share nothing: the
  world of a partition is its directory and the descriptors its worker has opened. The hash is an
  argument, which the program instantiates with \<open>Hash P\<close> of the theory \<open>Xxh3\<close> for the platform \<open>P\<close> it is compiled
  for; the worker pool and the directory functions of \<^verbatim>\<open>std::filesystem\<close> are
  parameters. A null pointer in the vector of partitions is \<open>None\<close>; using it, an index out of
  range and a division by zero end in an error of category \<open>KApplication\<close>.
\<close>

section \<open>State\<close>

record 'w BitKV =
  db_config :: BitcaskConfig
  partitions :: "'w Partition option list"
  partition_count :: nat

definition mk_BitKV :: "BitcaskConfig \<Rightarrow> nat \<Rightarrow> 'w BitKV" where
  "mk_BitKV config n = \<lparr>db_config = config, partitions = replicate n None, partition_count = n\<rparr>"

section \<open>Routing\<close>

definition RouteToPartition :: "(bytes \<Rightarrow> u64) \<Rightarrow> bytes \<Rightarrow> 'w BitKV \<Rightarrow> Error + nat" where
  "RouteToPartition hash key db =
     (if partition_count db = 0 then Inl (thrown ''division by zero'')
      else Inr (unat (hash key) mod partition_count db))"

definition GetPartition :: "nat \<Rightarrow> 'w BitKV \<Rightarrow> Error + 'w Partition" where
  "GetPartition pid db =
     (if \<not> pid < partition_count db then Inl assertion_failed
      else if \<not> pid < length (partitions db) then Inl (thrown ''vector::at'')
      else case partitions db ! pid of
             None \<Rightarrow> Inl (thrown ''null pointer'')
           | Some p \<Rightarrow> Inr p)"

text \<open>A method of the partition a key is routed to; the partition is changed in place.\<close>

definition routed :: "(bytes \<Rightarrow> u64) \<Rightarrow> bytes \<Rightarrow> ('w Partition, 'a) task \<Rightarrow> ('w BitKV, 'a) task" where
  "routed hash key m db =
     (case RouteToPartition hash key db of
        Inl e \<Rightarrow> (Inl e, db)
      | Inr i \<Rightarrow>
          (case GetPartition i db of
             Inl e \<Rightarrow> (Inl e, db)
           | Inr p \<Rightarrow> (case m p of (r, p') \<Rightarrow> (r, db\<lparr>partitions := (partitions db)[i := Some p']\<rparr>))))"

section \<open>Operations on keys\<close>

definition BitKV_Get :: "(bytes \<Rightarrow> u64) \<Rightarrow> 'w env \<Rightarrow> bytes \<Rightarrow> ('w BitKV, bytes option) task" where
  "BitKV_Get hash E key = routed hash key (Get E key)"

definition BitKV_GetString :: "(bytes \<Rightarrow> u64) \<Rightarrow> 'w env \<Rightarrow> bytes \<Rightarrow> ('w BitKV, bytes option) task" where
  "BitKV_GetString hash E key db =
     (case BitKV_Get hash E key db of
        (Inl e, db') \<Rightarrow> (Inl e, db')
      | (Inr None, db') \<Rightarrow> (Inr None, db')
      | (Inr (Some vec), db') \<Rightarrow> (Inr (Some vec), db'))"

definition BitKV_Del :: "(bytes \<Rightarrow> u64) \<Rightarrow> 'w env \<Rightarrow> u64 \<times> u32 \<Rightarrow> bytes \<Rightarrow> ('w BitKV, unit) task" where
  "BitKV_Del hash E c key = co_try (routed hash key (clocked_del E c key)) (\<lambda>_. co_return ())"

definition BitKV_Put :: "(bytes \<Rightarrow> u64) \<Rightarrow> 'w env \<Rightarrow> u64 \<times> u32 \<Rightarrow> bytes \<Rightarrow> bytes \<Rightarrow> ('w BitKV, unit) task" where
  "BitKV_Put hash E c key val = co_try (routed hash key (clocked_put E c key val)) (\<lambda>_. co_return ())"

text \<open>
  A database directory may move between machines: the operations route a key to the same partition on
  all of them.
\<close>

theorem routing_platform_independent:
  "RouteToPartition (Hash P) key db = RouteToPartition (Hash Q) key db"
  "BitKV_Get (Hash P) E = BitKV_Get (Hash Q) E"
  "BitKV_Put (Hash P) E = BitKV_Put (Hash Q) E"
  "BitKV_Del (Hash P) E = BitKV_Del (Hash Q) E"
proof -
  have "Hash P = Hash Q" using Hash_platform by blast
  then show "RouteToPartition (Hash P) key db = RouteToPartition (Hash Q) key db" "BitKV_Get (Hash P) E = BitKV_Get (Hash Q) E"
    "BitKV_Put (Hash P) E = BitKV_Put (Hash Q) E" "BitKV_Del (Hash P) E = BitKV_Del (Hash Q) E" by simp_all
qed

section \<open>Operations on all partitions\<close>

text \<open>
  A loop over the vector of partitions that stops at the first error. The bad pointer is met
  when the loop reaches it.
\<close>

fun each_partition :: "('w Partition \<Rightarrow> (Error + unit) \<times> 'w Partition) \<Rightarrow> 'w Partition option list \<Rightarrow> (Error + unit) \<times> 'w Partition option list" where
  "each_partition m [] = (Inr (), [])"
| "each_partition m (None # ps) = (Inl (thrown ''null pointer''), None # ps)"
| "each_partition m (Some p # ps) =
     (case m p of
        (Inl e, p') \<Rightarrow> (Inl e, Some p' # ps)
      | (Inr _, p') \<Rightarrow> (case each_partition m ps of (r, ps') \<Rightarrow> (r, Some p' # ps')))"

definition BitKV_Sync :: "'w env \<Rightarrow> ('w BitKV, unit) task" where
  "BitKV_Sync E db = (case each_partition (Partition_Sync E) (partitions db) of (r, ps) \<Rightarrow> (r, db\<lparr>partitions := ps\<rparr>))"

definition BitKV_Compact :: "'w env \<Rightarrow> u32 \<Rightarrow> ('w BitKV, unit) task" where
  "BitKV_Compact E now db = (case each_partition (Compact E now) (partitions db) of (r, ps) \<Rightarrow> (r, db\<lparr>partitions := ps\<rparr>))"

text \<open>
  \<^verbatim>\<open>Close\<close> closes the partitions one after the other and ignores their errors. The number is
  that of the partition it waits for, if the events of that partition have not been posted.
\<close>

fun close_partitions :: "'w env \<Rightarrow> 'w Partition option list \<Rightarrow> (Error + nat option) \<times> 'w Partition option list" where
  "close_partitions E [] = (Inr None, [])"
| "close_partitions E (None # ps) = (Inl (thrown ''null pointer''), None # ps)"
| "close_partitions E (Some p # ps) =
     (case AsyncClose_begin E p of
        (r, p') \<Rightarrow>
          if r = Inr () \<and> \<not> AsyncClose_may_return p' then (Inr (Some 0), Some p' # ps)
          else (case close_partitions E ps of (q, ps') \<Rightarrow> (map_sum id (map_option Suc) q, Some p' # ps')))"

definition BitKV_Close :: "'w env \<Rightarrow> ('w BitKV, nat option) task" where
  "BitKV_Close E db = (case close_partitions E (partitions db) of (r, ps) \<Rightarrow> (r, db\<lparr>partitions := ps\<rparr>))"

section \<open>Opening a database\<close>

text \<open>\<^verbatim>\<open>std::filesystem\<close>: a query, and two calls that may throw.\<close>

record 'd dir_env =
  dir_exists :: "path \<Rightarrow> 'd \<Rightarrow> bool"
  create_directories :: "path \<Rightarrow> ('d, unit) task"
  permissions :: "path \<Rightarrow> nat \<Rightarrow> ('d, unit) task"

definition ensure_directory :: "'d dir_env \<Rightarrow> BitcaskConfig \<Rightarrow> path \<Rightarrow> ('d, unit) task" where
  "ensure_directory D config d s =
     (if \<not> dir_exists D d s
      then co_try (create_directories D d) (\<lambda>_. permissions D d (dir_mode config)) s
      else (Inr (), s))"

fun ensure_all :: "'d dir_env \<Rightarrow> BitcaskConfig \<Rightarrow> path list \<Rightarrow> ('d, unit) task" where
  "ensure_all D config [] s = (Inr (), s)"
| "ensure_all D config (d # ds) s = co_try (ensure_directory D config d) (\<lambda>_. ensure_all D config ds) s"

definition EnsureDirectories :: "'d dir_env \<Rightarrow> BitcaskConfig \<Rightarrow> nat \<Rightarrow> ('d, unit) task" where
  "EnsureDirectories D config n = ensure_all D config (directory config # map (partition_dir config) [0 ..< n])"

record InitState =
  latch :: nat
  has_error :: bool
  first_error :: "Error option"

definition mk_InitState :: "nat \<Rightarrow> InitState" where
  "mk_InitState n = \<lparr>latch = n, has_error = False, first_error = None\<rparr>"

text \<open>One worker opens its partition; \<open>w\<close> is its world and \<open>now\<close> the clock it reads.\<close>

definition InitializePartition :: "'w env \<Rightarrow> nat \<Rightarrow> u32 \<Rightarrow> 'w \<Rightarrow> 'w BitKV \<times> InitState \<Rightarrow> 'w BitKV \<times> InitState" where
  "InitializePartition E current_id now w s =
     (case s of (db, state) \<Rightarrow>
        (case fst (Partition_Open E (db_config db) current_id now w) of
           Inl e \<Rightarrow>
             (db, state\<lparr>has_error := True, first_error := (case first_error state of None \<Rightarrow> Some e | Some e' \<Rightarrow> Some e'),
                        latch := latch state - 1\<rparr>)
         | Inr (p, _, _) \<Rightarrow>
             (db\<lparr>partitions := (partitions db)[current_id := Some p]\<rparr>, state\<lparr>latch := latch state - 1\<rparr>)))"

definition init_failed :: Error where
  "init_failed = \<lparr>category = KApplication, error_val = Errno 1001\<rparr>"

text \<open>
  \<^verbatim>\<open>Open\<close>: \<open>order\<close> is the order in which the workers of the pool finish, \<open>ws i\<close> and \<open>now i\<close> are the
  world and the clock of worker \<open>i\<close>. The call blocks on the latch: it returns only if it has
  reached zero, which is \<open>None\<close> otherwise.
\<close>

definition BitKV_Open ::
  "'d dir_env \<Rightarrow> 'w env \<Rightarrow> BitcaskConfig \<Rightarrow> nat \<Rightarrow> nat list \<Rightarrow> (nat \<Rightarrow> u32) \<Rightarrow> (nat \<Rightarrow> 'w) \<Rightarrow> 'd \<Rightarrow> (Error + 'w BitKV) option \<times> 'd" where
  "BitKV_Open D E config n order now ws d =
     (case EnsureDirectories D config n d of
        (Inl _, d') \<Rightarrow> (Some (Inl init_failed), d')
      | (Inr _, d') \<Rightarrow>
          (let (db, state) = foldl (\<lambda>s i. InitializePartition E i (now i) (ws i) s) (mk_BitKV config n, mk_InitState n) order
           in (if 0 < latch state then None
               else if has_error state then Some (Inl (the (first_error state)))
               else Some (Inr db), d')))"

section \<open>The database as a map\<close>

text \<open>All partitions are there; the value of a key is that in the partition it is routed to.\<close>

definition bitkv_inv :: "'w env \<Rightarrow> ('w \<Rightarrow> path \<Rightarrow> bytes option) \<Rightarrow> ('w \<Rightarrow> int \<Rightarrow> path option) \<Rightarrow> 'w BitKV \<Rightarrow> bool" where
  "bitkv_inv E content opened db \<longleftrightarrow>
     0 < partition_count db \<and> length (partitions db) = partition_count db \<and>
     (\<forall>x \<in> set (partitions db). \<exists>p. x = Some p \<and> partition_inv E content opened p)"

definition home :: "(bytes \<Rightarrow> u64) \<Rightarrow> bytes \<Rightarrow> 'w BitKV \<Rightarrow> 'w Partition" where
  "home hash key db = the (partitions db ! (unat (hash key) mod partition_count db))"

definition bitkv_view :: "(bytes \<Rightarrow> u64) \<Rightarrow> ('w \<Rightarrow> path \<Rightarrow> bytes option) \<Rightarrow> 'w BitKV \<Rightarrow> bytes \<Rightarrow> bytes option" where
  "bitkv_view hash content db key = partition_view content (home hash key db) key"

definition bitkv_fits :: "(bytes \<Rightarrow> u64) \<Rightarrow> u64 \<times> u32 \<Rightarrow> bytes \<Rightarrow> bytes option \<Rightarrow> 'w BitKV \<Rightarrow> bool" where
  "bitkv_fits hash c key v db \<longleftrightarrow> partition_fits c key v (home hash key db)"

definition rehome :: "(bytes \<Rightarrow> u64) \<Rightarrow> bytes \<Rightarrow> 'w Partition \<Rightarrow> 'w BitKV \<Rightarrow> 'w BitKV" where
  "rehome hash key p db = db\<lparr>partitions := (partitions db)[unat (hash key) mod partition_count db := Some p]\<rparr>"

lemma home_inv:
  assumes "bitkv_inv E content opened db"
  shows "partition_inv E content opened (home hash key db)"
    and "partitions db ! (unat (hash key) mod partition_count db) = Some (home hash key db)"
proof -
  have "partitions db ! (unat (hash key) mod partition_count db) \<in> set (partitions db)"
    using assms by (intro nth_mem) (simp add: bitkv_inv_def)
  with assms obtain p where "partitions db ! (unat (hash key) mod partition_count db) = Some p" "partition_inv E content opened p"
    unfolding bitkv_inv_def by blast
  then show "partition_inv E content opened (home hash key db)"
    "partitions db ! (unat (hash key) mod partition_count db) = Some (home hash key db)" by (simp_all add: home_def)
qed

lemma routed_home:
  assumes "bitkv_inv E content opened db" and "m (home hash key db) = (r, p)"
  shows "routed hash key m db = (r, rehome hash key p db)"
  using assms home_inv(2) [OF assms(1), of hash key]
  by (simp add: routed_def RouteToPartition_def GetPartition_def rehome_def bitkv_inv_def)

lemma rehome_inv:
  assumes "bitkv_inv E content opened db" and "partition_inv E content opened p"
  shows "bitkv_inv E content opened (rehome hash key p db)"
proof -
  have "set (partitions (rehome hash key p db)) \<subseteq> insert (Some p) (set (partitions db))"
    unfolding rehome_def using set_update_subset_insert by simp
  then have "\<forall>x \<in> set (partitions (rehome hash key p db)). \<exists>p. x = Some p \<and> partition_inv E content opened p"
    using assms unfolding bitkv_inv_def by blast
  with assms(1) show ?thesis unfolding bitkv_inv_def by (simp add: rehome_def)
qed

text \<open>A change of one partition shows exactly at the keys that live there.\<close>

lemma rehome_view:
  assumes "bitkv_inv E content opened db" and "\<And>k. k \<noteq> key \<Longrightarrow> partition_view content p k = partition_view content (home hash key db) k"
  shows "bitkv_view hash content (rehome hash key p db) = (bitkv_view hash content db)(key := partition_view content p key)"
proof
  fix k
  have lt: "unat (hash k) mod partition_count db < length (partitions db)" for k
    using assms(1) by (simp add: bitkv_inv_def)
  show "bitkv_view hash content (rehome hash key p db) k = ((bitkv_view hash content db)(key := partition_view content p key)) k"
  proof (cases "unat (hash k) mod partition_count db = unat (hash key) mod partition_count db")
    case True
    then have "home hash k (rehome hash key p db) = p" "home hash k db = home hash key db"
      using lt [of k] by (simp_all add: home_def rehome_def)
    with assms(2) [of k] show ?thesis by (auto simp: bitkv_view_def)
  next
    case False
    then have "home hash k (rehome hash key p db) = home hash k db" "k \<noteq> key" by (auto simp: home_def rehome_def)
    then show ?thesis by (simp add: bitkv_view_def)
  qed
qed

locale bitkv_env = reliable_env +
  fixes hash :: "bytes \<Rightarrow> u64"

sublocale bitkv_env \<subseteq> db: kv_store "BitKV_Get hash E" "BitKV_Put hash E" "BitKV_Del hash E" "bitkv_view hash content"
    "bitkv_inv E content opened" "bitkv_fits hash"
proof unfold_locales
  fix s k
  assume i: "bitkv_inv E content opened s"
  obtain p where g: "Get E k (home hash k s) = (Inr (partition_view content (home hash k s) k), p)" "partition_inv E content opened p"
    "partition_view content p = partition_view content (home hash k s)"
    using kv.get_view [OF home_inv(1) [OF i]] by blast
  have "bitkv_view hash content (rehome hash k p s) = (bitkv_view hash content s)(k := partition_view content p k)"
    by (rule rehome_view [OF i]) (simp add: g(3))
  also have "\<dots> = bitkv_view hash content s" by (simp add: g(3) bitkv_view_def fun_eq_iff)
  finally show "\<exists>s'. BitKV_Get hash E k s = (Inr (bitkv_view hash content s k), s') \<and> bitkv_inv E content opened s' \<and>
      bitkv_view hash content s' = bitkv_view hash content s"
    using routed_home [OF i, where m = "Get E k", OF g(1)] rehome_inv [OF i g(2)] by (simp add: BitKV_Get_def bitkv_view_def)
next
  fix s c k v
  assume i: "bitkv_inv E content opened s" and f: "bitkv_fits hash c k (Some v) s"
  obtain p where g: "clocked_put E c k v (home hash k s) = (Inr (), p)" "partition_inv E content opened p"
    "partition_view content p = (partition_view content (home hash k s))(k \<mapsto> v)"
    using kv.put_view [OF home_inv(1) [OF i]] f unfolding bitkv_fits_def by blast
  have "bitkv_view hash content (rehome hash k p s) = (bitkv_view hash content s)(k := partition_view content p k)"
    by (rule rehome_view [OF i]) (simp add: g(3))
  then show "\<exists>s'. BitKV_Put hash E c k v s = (Inr (), s') \<and> bitkv_inv E content opened s' \<and>
      bitkv_view hash content s' = (bitkv_view hash content s)(k \<mapsto> v)"
    using routed_home [OF i, where m = "clocked_put E c k v", OF g(1)] rehome_inv [OF i g(2)] by (simp add: BitKV_Put_def co_try_def co_return_def g(3))
next
  fix s c k
  assume i: "bitkv_inv E content opened s" and f: "bitkv_fits hash c k None s"
  obtain p where g: "clocked_del E c k (home hash k s) = (Inr (), p)" "partition_inv E content opened p"
    "partition_view content p = (partition_view content (home hash k s))(k := None)"
    using kv.del_view [OF home_inv(1) [OF i]] f unfolding bitkv_fits_def by blast
  have "bitkv_view hash content (rehome hash k p s) = (bitkv_view hash content s)(k := partition_view content p k)"
    by (rule rehome_view [OF i]) (simp add: g(3))
  then show "\<exists>s'. BitKV_Del hash E c k s = (Inr (), s') \<and> bitkv_inv E content opened s' \<and>
      bitkv_view hash content s' = (bitkv_view hash content s)(k := None)"
    using routed_home [OF i, where m = "clocked_del E c k", OF g(1)] rehome_inv [OF i g(2)] by (simp add: BitKV_Del_def co_try_def co_return_def g(3))
qed

context bitkv_env
begin

lemmas database_run = db.run_refines

end

interpretation mem_bitkv: bitkv_env mem_env mem_content mem_opened mem_fpos "\<lambda>key. of_nat (length key)"
  by unfold_locales

section \<open>Opening\<close>

definition open_result :: "'w env \<Rightarrow> BitcaskConfig \<Rightarrow> (nat \<Rightarrow> u32) \<Rightarrow> (nat \<Rightarrow> 'w) \<Rightarrow> nat \<Rightarrow> Error + 'w Partition" where
  "open_result E config now ws i = map_sum id fst (fst (Partition_Open E config i (now i) (ws i)))"

text \<open>What the workers of the list have left behind when they are through.\<close>

lemma initialize_all:
  assumes "distinct order" and "set order \<subseteq> {..< length (partitions db)}" and "first_error st \<noteq> None \<longleftrightarrow> has_error st"
    and "foldl (\<lambda>s i. InitializePartition E i (now i) (ws i) s) (db, st) order = (db', st')"
  shows "latch st' = latch st - length order \<and> db_config db' = db_config db \<and> partition_count db' = partition_count db \<and>
    length (partitions db') = length (partitions db) \<and>
    (\<forall>i < length (partitions db). partitions db' ! i =
       (if i \<in> set order then case open_result E (db_config db) now ws i of Inl _ \<Rightarrow> partitions db ! i | Inr p \<Rightarrow> Some p
        else partitions db ! i)) \<and>
    (has_error st' \<longleftrightarrow> has_error st \<or> (\<exists>i \<in> set order. isl (open_result E (db_config db) now ws i))) \<and>
    first_error st' = (case first_error st of Some e \<Rightarrow> Some e
      | None \<Rightarrow> map_option (\<lambda>i. projl (open_result E (db_config db) now ws i)) (find (\<lambda>i. isl (open_result E (db_config db) now ws i)) order))"
  using assms
proof (induction order arbitrary: db st)
  case Nil
  then show ?case by (auto split: option.splits)
next
  case (Cons j order)
  obtain db1 st1 where s1: "InitializePartition E j (now j) (ws j) (db, st) = (db1, st1)" by (metis surj_pair)
  let ?r = "open_result E (db_config db) now ws"
  have one: "latch st1 = latch st - 1 \<and> db_config db1 = db_config db \<and> partition_count db1 = partition_count db \<and>
    partitions db1 = (case ?r j of Inl _ \<Rightarrow> partitions db | Inr p \<Rightarrow> (partitions db)[j := Some p]) \<and>
    (has_error st1 \<longleftrightarrow> has_error st \<or> isl (?r j)) \<and>
    first_error st1 = (case first_error st of Some e \<Rightarrow> Some e | None \<Rightarrow> if isl (?r j) then Some (projl (?r j)) else None)"
    using s1 by (auto simp: InitializePartition_def open_result_def split: sum.splits prod.splits option.splits)
  then have len: "length (partitions db1) = length (partitions db)" by (auto split: sum.splits)
  have fe: "first_error st1 \<noteq> None \<longleftrightarrow> has_error st1" using one Cons.prems(3) by (auto split: option.splits)
  have rest: "foldl (\<lambda>s i. InitializePartition E i (now i) (ws i) s) (db1, st1) order = (db', st')" using Cons.prems(4) s1 by simp
  have "j < length (partitions db)" "j \<notin> set order" using Cons.prems(1,2) by auto
  with Cons.IH [OF _ _ fe rest] Cons.prems(1,2) len one show ?case
    by (auto simp: nth_list_update split: sum.splits option.splits if_splits)
qed

lemma Open_result:
  assumes dirs: "fst (EnsureDirectories D config n d) = Inr ()" and order: "distinct order" "set order = {..< n}"
  shows "fst (BitKV_Open D E config n order now ws d) =
    Some (case find (\<lambda>i. isl (open_result E config now ws i)) order of
            Some i \<Rightarrow> Inl (projl (open_result E config now ws i))
          | None \<Rightarrow> Inr \<lparr>db_config = config, partitions = map (\<lambda>i. Some (projr (open_result E config now ws i))) [0 ..< n], partition_count = n\<rparr>)"
proof -
  let ?r = "open_result E config now ws"
  obtain db st where f: "foldl (\<lambda>s i. InitializePartition E i (now i) (ws i) s) (mk_BitKV config n, mk_InitState n) order = (db, st)"
    by (metis surj_pair)
  have len: "length order = n" using order by (metis card_lessThan distinct_card)
  note init = initialize_all [OF order(1) _ _ f]
  have a: "latch st = 0" "db_config db = config" "partition_count db = n" "length (partitions db) = n"
    "has_error st \<longleftrightarrow> (\<exists>i < n. isl (?r i))"
    "first_error st = map_option (\<lambda>i. projl (?r i)) (find (\<lambda>i. isl (?r i)) order)"
    "\<And>i. i < n \<Longrightarrow> partitions db ! i = (case ?r i of Inl _ \<Rightarrow> None | Inr p \<Rightarrow> Some p)"
    using init order(2) len by (auto simp: mk_BitKV_def mk_InitState_def split: sum.splits)
  have e: "fst (BitKV_Open D E config n order now ws d) = (if has_error st then Some (Inl (the (first_error st))) else Some (Inr db))"
    using dirs a(1) f by (cases "EnsureDirectories D config n d") (auto simp: BitKV_Open_def split: sum.splits)
  show ?thesis
  proof (cases "find (\<lambda>i. isl (?r i)) order")
    case None
    then have ok: "\<not> isl (?r i)" if "i < n" for i using that order(2) by (auto simp: find_None_iff)
    have "partitions db = map (\<lambda>i. Some (projr (?r i))) [0 ..< n]"
      using a(4,7) ok by (intro nth_equalityI) (auto simp: isl_def split: sum.splits)
    then have "db = \<lparr>db_config = config, partitions = map (\<lambda>i. Some (projr (?r i))) [0 ..< n], partition_count = n\<rparr>"
      using a(2,3) by (cases db) simp
    with None e a(5) ok show ?thesis by auto
  next
    case (Some i)
    then have "i \<in> set order" "isl (?r i)" by (auto simp: find_Some_iff)
    with Some e a(5,6) order(2) show ?thesis by auto
  qed
qed

section \<open>Properties of the database\<close>

text \<open>Two empty partitions on the file system in memory, for the witnesses.\<close>

definition demo_shard :: "nat \<Rightarrow> mem Partition" where
  "demo_shard i =
     (let p = data_path default_BitcaskConfig i 0
      in (mk_Partition default_BitcaskConfig i \<lparr>mem_files = [(p, [])], mem_fds = [(3, (p, 0))], mem_next = 4\<rparr>)
           \<lparr>p_active_file := Some \<lparr>df_file_id = 0, df_handle = 3, df_size = 0\<rparr>\<rparr>)"

definition demo_db :: "mem BitKV" where
  "demo_db = \<lparr>db_config = default_BitcaskConfig, partitions = [Some (demo_shard 0), Some (demo_shard 1)], partition_count = 2\<rparr>"

definition length_hash :: "bytes \<Rightarrow> u64" where
  "length_hash key = of_nat (length key)"

lemma demo_shard_inv: "partition_inv mem_env mem_content mem_opened (demo_shard i)"
  by (simp add: partition_inv_def partition_ok_def sound_dir_def sound_fds_def demo_shard_def Let_def mk_Partition_def find_loc_def
      GetDataFilePath_def mem_opened_def mem_content_def cached_def cache_opens_def mk_FDCache_def
      default_BitcaskConfig_def O_CREAT_def O_RDWR_def O_APPEND_def)




definition all_dirs :: "unit dir_env" where
  "all_dirs = \<lparr>dir_exists = (\<lambda>_ _. True), create_directories = (\<lambda>_ d. (Inr (), d)), permissions = (\<lambda>_ _ d. (Inr (), d))\<rparr>"

lemma demo_open: "\<not> isl (open_result mem_env demo_config (\<lambda>_. 9) (\<lambda>_. empty_mem) i)"
proof -
  have scan: "ScanDataFiles mem_env (mk_Partition demo_config i empty_mem) = []"
    by (simp add: ScanDataFiles_def mem_env_def mem_list_dir_def empty_mem_def mk_Partition_def map_filter_simps)
  have cfg: "0 < read_buffer_size demo_config" "read_flags demo_config AND O_TRUNC = 0" "write_flags demo_config AND O_APPEND = 0"
    by (simp_all add: demo_config_def default_BitcaskConfig_def O_RDONLY_def O_CREAT_def O_RDWR_def O_APPEND_def)
  have now: "\<not> gen_exhausted 9 (recovered_gen i [])"
    by (simp add: gen_exhausted_def recovered_gen_def max_id_def mk_FileIdGenerator_def)
  obtain s where "Recover mem_env 9 (mk_Partition demo_config i empty_mem) = (Inr (), s)"
    using mem_reliable.Recover_logs [of demo_config i empty_mem "\<lambda>_. ([], [])" 9] scan cfg now by auto
  then show ?thesis by (simp add: open_result_def Partition_Open_def)
qed


end
