(* ===== verification/Io_Buffer.thy ===== *)
theory Io_Buffer
  imports Kio_Prelude
begin

text \<open>
  The I/O buffer of kio (class \<^verbatim>\<open>IoBuffer\<close> of \<^verbatim>\<open>include/kio/io.hpp\<close>): one contiguous
  allocation with three indices. Bytes in \<open>[read, commit)\<close> are published to the reader,
  bytes in \<open>[commit, write)\<close> are staged by a writer that may still roll them back. The
  element type is a parameter: the class reinterprets the same bytes as \<^verbatim>\<open>std::byte\<close> or
  \<^verbatim>\<open>char\<close>. Fresh memory is uninitialised; \<open>u\<close> gives its arbitrary contents.

  The locale \<open>staging_buffer\<close> is the contract the protocol writers rely on; it is
  interpreted on the class at the end of the theory.
\<close>

record 'a IoBuffer =
  buf_data :: "'a list option"
  buf_capacity :: nat
  buf_read :: nat
  buf_commit :: nat
  buf_write :: nat

definition kMinCapacity :: nat where "kMinCapacity = 4096"
definition kCompactThreshold :: nat where "kCompactThreshold = 1024"

definition ReadableBytes :: "'a IoBuffer \<Rightarrow> nat" where
  "ReadableBytes b = sz_sub (buf_commit b) (buf_read b)"

definition StagedBytes :: "'a IoBuffer \<Rightarrow> nat" where
  "StagedBytes b = sz_sub (buf_write b) (buf_commit b)"

definition WritableBytes :: "'a IoBuffer \<Rightarrow> nat" where
  "WritableBytes b = sz_sub (buf_capacity b) (buf_write b)"

definition IoBuffer_Empty :: "'a IoBuffer \<Rightarrow> bool" where
  "IoBuffer_Empty b \<longleftrightarrow> ReadableBytes b = 0"

definition ReadableSpan :: "'a IoBuffer \<Rightarrow> 'a list" where
  "ReadableSpan b =
     (case buf_data b of
        None \<Rightarrow> []
      | Some d \<Rightarrow> if ReadableBytes b = 0 then [] else subspan (buf_read b) (ReadableBytes b) d)"

definition WritableSpan :: "'a IoBuffer \<Rightarrow> 'a list" where
  "WritableSpan b =
     (case buf_data b of None \<Rightarrow> [] | Some d \<Rightarrow> subspan (buf_write b) (WritableBytes b) d)"

text \<open>\<^verbatim>\<open>std::bit_ceil\<close>: the least power of two that is not below its argument.\<close>

function bit_ceil_from :: "nat \<Rightarrow> nat \<Rightarrow> nat" where
  "bit_ceil_from p n = (if n \<le> p \<or> p = 0 then p else bit_ceil_from (2 * p) n)"
  by pat_completeness auto
termination
  by (relation "measure (\<lambda>(p, n). n - p)") auto

declare bit_ceil_from.simps [simp del]

definition RoundUpPow2 :: "nat \<Rightarrow> nat" where
  "RoundUpPow2 n = (if n \<le> 1 then 1 else bit_ceil_from 1 n)"

definition Alloc :: "(nat \<Rightarrow> 'a) \<Rightarrow> nat \<Rightarrow> 'a list" where
  "Alloc u n = map u [0..<n]"

definition IoBuffer_Reserve :: "(nat \<Rightarrow> 'a) \<Rightarrow> nat \<Rightarrow> 'a IoBuffer \<Rightarrow> 'a IoBuffer" where
  "IoBuffer_Reserve u min_capacity b =
     (if min_capacity \<le> buf_capacity b then b
      else
        let live = sz_sub (buf_write b) (buf_read b);
            new_cap = max kMinCapacity (RoundUpPow2 min_capacity);
            new_data = Alloc u new_cap;
            new_data = (case buf_data b of
                          Some d \<Rightarrow> if live \<noteq> 0 then memcpy_at 0 (subspan (buf_read b) live d) new_data
                                    else new_data
                        | None \<Rightarrow> new_data)
        in \<lparr>buf_data = Some new_data, buf_capacity = new_cap, buf_read = 0,
            buf_commit = sz_sub (buf_commit b) (buf_read b), buf_write = live\<rparr>)"

definition mk_IoBuffer :: "(nat \<Rightarrow> 'a) \<Rightarrow> nat \<Rightarrow> 'a IoBuffer" where
  "mk_IoBuffer u initial_capacity =
     IoBuffer_Reserve u initial_capacity
       \<lparr>buf_data = None, buf_capacity = 0, buf_read = 0, buf_commit = 0, buf_write = 0\<rparr>"

definition IoBuffer_Compact :: "'a IoBuffer \<Rightarrow> 'a IoBuffer" where
  "IoBuffer_Compact b =
     (case buf_data b of
        None \<Rightarrow> b
      | Some d \<Rightarrow>
          if buf_read b = 0 then b
          else
            let live = sz_sub (buf_write b) (buf_read b);
                published = sz_sub (buf_commit b) (buf_read b)
            in b\<lparr>buf_data := Some (if 0 < live then memcpy_at 0 (subspan (buf_read b) live d) d else d),
                 buf_read := 0, buf_commit := published, buf_write := live\<rparr>)"

definition IoBuffer_Grow :: "(nat \<Rightarrow> 'a) \<Rightarrow> nat \<Rightarrow> 'a IoBuffer \<Rightarrow> 'a IoBuffer" where
  "IoBuffer_Grow u min_needed b =
     IoBuffer_Reserve u
       (max min_needed (if buf_capacity b \<noteq> 0 then sz_add (buf_capacity b) 1 else kMinCapacity)) b"

definition EnsureWritableBytes :: "(nat \<Rightarrow> 'a) \<Rightarrow> nat \<Rightarrow> 'a IoBuffer \<Rightarrow> 'a IoBuffer" where
  "EnsureWritableBytes u additional b =
     (if additional \<le> WritableBytes b then b
      else
        let live = sz_sub (buf_write b) (buf_read b);
            free_if_compact = sz_sub (buf_capacity b) live;
            b' = (if additional \<le> free_if_compact \<and> kCompactThreshold \<le> buf_read b
                  then IoBuffer_Compact b else b)
        in if additional \<le> free_if_compact \<and> kCompactThreshold \<le> buf_read b
              \<and> additional \<le> WritableBytes b'
           then b'
           else IoBuffer_Grow u (sz_add live additional) b')"

definition IoBuffer_CommitN :: "nat \<Rightarrow> 'a IoBuffer \<Rightarrow> nat \<times> 'a IoBuffer" where
  "IoBuffer_CommitN n b =
     (let actual = min n (WritableBytes b)
      in (actual, b\<lparr>buf_write := sz_add (buf_write b) actual,
                    buf_commit := sz_add (buf_commit b) actual\<rparr>))"

definition IoBuffer_Commit :: "'a IoBuffer \<Rightarrow> 'a IoBuffer" where
  "IoBuffer_Commit b = b\<lparr>buf_commit := buf_write b\<rparr>"

definition RollbackPending :: "'a IoBuffer \<Rightarrow> 'a IoBuffer" where
  "RollbackPending b = b\<lparr>buf_write := buf_commit b\<rparr>"

definition IoBuffer_Consume :: "nat \<Rightarrow> 'a IoBuffer \<Rightarrow> nat \<times> 'a IoBuffer" where
  "IoBuffer_Consume n b =
     (let actual = min n (ReadableBytes b);
          b' = b\<lparr>buf_read := sz_add (buf_read b) actual\<rparr>
      in (actual,
          if buf_read b' = buf_commit b' \<and> buf_commit b' = buf_write b'
          then b'\<lparr>buf_read := 0, buf_commit := 0, buf_write := 0\<rparr> else b'))"

definition IoBuffer_Clear :: "'a IoBuffer \<Rightarrow> 'a IoBuffer" where
  "IoBuffer_Clear b = b\<lparr>buf_read := 0, buf_commit := 0, buf_write := 0\<rparr>"

definition IoBuffer_Append :: "(nat \<Rightarrow> 'a) \<Rightarrow> 'a list \<Rightarrow> 'a IoBuffer \<Rightarrow> 'a IoBuffer" where
  "IoBuffer_Append u data b =
     (let b' = EnsureWritableBytes u (length data) b
      in b'\<lparr>buf_data := map_option (memcpy_at (buf_write b') data) (buf_data b'),
            buf_write := sz_add (buf_write b') (length data)\<rparr>)"

definition FindCrlf :: "char IoBuffer \<Rightarrow> nat option" where
  "FindCrlf b = find_sub crlf (ReadableSpan b)"

text \<open>
  What the owner of a read operation does between \<^verbatim>\<open>WritableSpan\<close> and \<^verbatim>\<open>Commit (n)\<close>: the
  kernel fills the front of the writable span.
\<close>

definition fill_writable :: "'a list \<Rightarrow> 'a IoBuffer \<Rightarrow> 'a IoBuffer" where
  "fill_writable xs b = b\<lparr>buf_data := map_option (memcpy_at (buf_write b) xs) (buf_data b)\<rparr>"

section \<open>Invariant and abstraction\<close>

definition buf_inv :: "'a IoBuffer \<Rightarrow> bool" where
  "buf_inv b \<longleftrightarrow>
     buf_read b \<le> buf_commit b \<and> buf_commit b \<le> buf_write b \<and> buf_write b \<le> buf_capacity b \<and>
     buf_capacity b < size_limit \<and>
     (case buf_data b of None \<Rightarrow> buf_capacity b = 0
      | Some d \<Rightarrow> length d = buf_capacity b \<and> (\<exists>k. buf_capacity b = 2 ^ k) \<and> kMinCapacity \<le> buf_capacity b)"

definition contents :: "'a IoBuffer \<Rightarrow> 'a list" where
  "contents b = (case buf_data b of None \<Rightarrow> [] | Some d \<Rightarrow> d)"

definition published :: "'a IoBuffer \<Rightarrow> 'a list" where
  "published b = subspan (buf_read b) (buf_commit b - buf_read b) (contents b)"

definition staged :: "'a IoBuffer \<Rightarrow> 'a list" where
  "staged b = subspan (buf_commit b) (buf_write b - buf_commit b) (contents b)"

definition live_span :: "'a IoBuffer \<Rightarrow> 'a list" where
  "live_span b = subspan (buf_read b) (buf_write b - buf_read b) (contents b)"

text \<open>
  The room an append needs: the live bytes, the new ones and the compaction slack fit the
  largest power of two that the growth rule can still double.
\<close>

definition append_fits :: "nat \<Rightarrow> 'a IoBuffer \<Rightarrow> bool" where
  "append_fits n b \<longleftrightarrow> buf_write b - buf_read b + n + kCompactThreshold \<le> 2 ^ 62"

lemmas buf_defs = ReadableBytes_def StagedBytes_def WritableBytes_def kMinCapacity_def kCompactThreshold_def

lemma buf_inv_sizes:
  assumes "buf_inv b"
  shows "ReadableBytes b = buf_commit b - buf_read b"
    and "StagedBytes b = buf_write b - buf_commit b"
    and "WritableBytes b = buf_capacity b - buf_write b"
    and "sz_sub (buf_write b) (buf_read b) = buf_write b - buf_read b"
    and "sz_sub (buf_commit b) (buf_read b) = buf_commit b - buf_read b"
  using assms by (simp_all add: buf_inv_def buf_defs size_simps)

lemma buf_inv_contents: "buf_inv b \<Longrightarrow> length (contents b) = buf_capacity b"
  by (auto simp: buf_inv_def contents_def split: option.splits)

lemma length_live_span: "buf_inv b \<Longrightarrow> length (live_span b) = buf_write b - buf_read b"
  using buf_inv_contents [of b] by (auto simp: live_span_def buf_inv_def)

lemma published_live:
  "buf_inv b \<Longrightarrow> published b = take (buf_commit b - buf_read b) (live_span b)"
  by (auto simp: published_def live_span_def subspan_def buf_inv_def min_def)

lemma staged_live:
  "buf_inv b \<Longrightarrow> staged b = drop (buf_commit b - buf_read b) (live_span b)"
  by (simp add: staged_def live_span_def subspan_def buf_inv_def drop_take)

lemma live_published_staged: "buf_inv b \<Longrightarrow> live_span b = published b @ staged b"
  by (simp add: published_live staged_live)

lemma length_published: "buf_inv b \<Longrightarrow> length (published b) = buf_commit b - buf_read b"
  using length_live_span [of b] by (auto simp: published_live buf_inv_def)

lemma length_staged: "buf_inv b \<Longrightarrow> length (staged b) = buf_write b - buf_commit b"
  using length_live_span [of b] by (auto simp: staged_live buf_inv_def)

text \<open>What the reader is shown is exactly the published bytes.\<close>

lemma ReadableSpan_published: "buf_inv b \<Longrightarrow> ReadableSpan b = published b"
  using buf_inv_sizes(1) [of b]
  by (auto simp: ReadableSpan_def published_def contents_def subspan_def split: option.splits)

text \<open>A step that keeps the live bytes and the distance of the commit index keeps both views.\<close>

lemma same_views:
  assumes "buf_inv b" and "buf_inv b'" and "live_span b' = live_span b"
    and "buf_commit b' - buf_read b' = buf_commit b - buf_read b"
  shows "published b' = published b" and "staged b' = staged b"
  using assms by (simp_all add: published_live staged_live)

section \<open>Growth\<close>

lemma bit_ceil_from_pow2:
  "p = 2 ^ k \<Longrightarrow> \<exists>j. bit_ceil_from p n = 2 ^ j \<and> n \<le> 2 ^ j \<and> (bit_ceil_from p n = p \<or> 2 ^ j < 2 * n)"
proof (induction p n arbitrary: k rule: bit_ceil_from.induct)
  case (1 p n)
  show ?case
  proof (cases "n \<le> p \<or> p = 0")
    case True
    then have "bit_ceil_from p n = p" by (simp add: bit_ceil_from.simps [of p n])
    with "1.prems" True show ?thesis by (intro exI [of _ k]) auto
  next
    case False
    have "2 * p = 2 ^ Suc k" using "1.prems" by simp
    from "1.IH" [OF False this] obtain j where
      "bit_ceil_from (2 * p) n = 2 ^ j" "n \<le> 2 ^ j"
      "bit_ceil_from (2 * p) n = 2 * p \<or> 2 ^ j < 2 * n"
      by blast
    with False show ?thesis
      by (intro exI [of _ j]) (auto simp: bit_ceil_from.simps [of p n])
  qed
qed

lemma RoundUpPow2_pow2: "\<exists>j. RoundUpPow2 n = 2 ^ j \<and> n \<le> 2 ^ j \<and> (n \<noteq> 0 \<longrightarrow> 2 ^ j < 2 * n)"
proof (cases "n \<le> 1")
  case True
  then show ?thesis by (intro exI [of _ 0]) (auto simp: RoundUpPow2_def)
next
  case False
  have "\<exists>j. bit_ceil_from 1 n = 2 ^ j \<and> n \<le> 2 ^ j \<and> (bit_ceil_from 1 n = 1 \<or> 2 ^ j < 2 * n)"
    by (rule bit_ceil_from_pow2 [of 1 0]) simp
  then obtain j where j: "bit_ceil_from 1 n = 2 ^ j" "n \<le> 2 ^ j"
    "bit_ceil_from 1 n = 1 \<or> 2 ^ j < 2 * n" by blast
  from False j have "2 ^ j < 2 * n" by linarith
  with False j show ?thesis by (intro exI [of _ j]) (simp add: RoundUpPow2_def)
qed

lemma RoundUpPow2_le:
  assumes "n \<le> 2 ^ m"
  shows "RoundUpPow2 n \<le> 2 ^ m"
proof (cases "n = 0")
  case False
  from RoundUpPow2_pow2 [of n] False obtain j where j: "RoundUpPow2 n = 2 ^ j" "2 ^ j < 2 * n"
    by blast
  with assms have "(2 :: nat) ^ j < 2 ^ Suc m" by simp
  then have "j < Suc m" by (rule power_less_imp_less_exp [rotated]) simp
  then have "j \<le> m" by simp
  with j(1) show ?thesis by simp
qed (simp add: RoundUpPow2_def)

lemma length_Alloc [simp]: "length (Alloc u n) = n"
  by (simp add: Alloc_def)

lemma Reserve_grow:
  assumes inv: "buf_inv b" and grow: "buf_capacity b < n" and bound: "n \<le> 2 ^ 62"
    and res: "b' = IoBuffer_Reserve u n b"
  shows "buf_inv b'" and "live_span b' = live_span b" and "buf_read b' = 0"
    and "buf_commit b' = buf_commit b - buf_read b" and "buf_write b' = buf_write b - buf_read b"
    and "buf_capacity b' = max kMinCapacity (RoundUpPow2 n)"
proof -
  let ?cap = "max kMinCapacity (RoundUpPow2 n)" and ?live = "buf_write b - buf_read b"
  from RoundUpPow2_pow2 [of n] obtain j where j: "RoundUpPow2 n = 2 ^ j" "n \<le> 2 ^ j" by blast
  have cap: "?live \<le> ?cap" "?cap < size_limit"
    using grow inv j RoundUpPow2_le [OF bound] by (auto simp: buf_inv_def size_limit_def kMinCapacity_def)
  have pow: "\<exists>k. ?cap = 2 ^ k"
    using j(1) by (auto simp: kMinCapacity_def max_def intro: exI [of _ 12] exI [of _ j])
  have b': "b' = \<lparr>buf_data = Some (memcpy_at 0 (live_span b) (Alloc u ?cap)), buf_capacity = ?cap,
      buf_read = 0, buf_commit = buf_commit b - buf_read b, buf_write = ?live\<rparr>"
    using grow buf_inv_sizes [OF inv] inv length_live_span [OF inv]
    by (auto simp: res IoBuffer_Reserve_def Let_def memcpy_at_def live_span_def contents_def
        buf_inv_def split: option.splits)
  have len: "length (memcpy_at 0 (live_span b) (Alloc u ?cap)) = ?cap"
    using cap length_live_span [OF inv] by simp
  show "buf_inv b'"
    using inv cap pow len by (auto simp: b' buf_inv_def)
  show "live_span b' = live_span b"
    using length_live_span [OF inv] by (simp add: b' live_span_def [of "IoBuffer_ext _ _ _ _ _ _"] contents_def memcpy_at_def)
  show "buf_read b' = 0" "buf_commit b' = buf_commit b - buf_read b" "buf_write b' = ?live"
    "buf_capacity b' = ?cap"
    by (simp_all add: b')
qed

lemma Compact_eq:
  assumes inv: "buf_inv b" and d: "buf_data b = Some d"
  shows "IoBuffer_Compact b = b\<lparr>buf_data := Some (memcpy_at 0 (live_span b) d), buf_read := 0,
    buf_commit := buf_commit b - buf_read b, buf_write := buf_write b - buf_read b\<rparr>"
proof (cases "buf_read b = 0")
  case True
  then have "memcpy_at 0 (live_span b) d = d"
    using d length_live_span [OF inv] by (simp add: memcpy_at_def live_span_def contents_def)
  with True d show ?thesis by (simp add: IoBuffer_Compact_def)
next
  case False
  then show ?thesis
    using d buf_inv_sizes [OF inv] length_live_span [OF inv]
    by (simp add: IoBuffer_Compact_def Let_def live_span_def contents_def memcpy_at_def)
qed

lemma Compact_inv:
  assumes inv: "buf_inv b"
  shows "buf_inv (IoBuffer_Compact b)"
proof (cases "buf_data b")
  case (Some d)
  then have "length (memcpy_at 0 (live_span b) d) = length d"
    using inv length_live_span [OF inv] by (auto simp: buf_inv_def)
  with Some inv show ?thesis by (auto simp: Compact_eq buf_inv_def)
qed (use inv in \<open>simp add: IoBuffer_Compact_def\<close>)

lemma Compact_views:
  assumes inv: "buf_inv b"
  shows "live_span (IoBuffer_Compact b) = live_span b"
    and "buf_commit (IoBuffer_Compact b) - buf_read (IoBuffer_Compact b) = buf_commit b - buf_read b"
    and "buf_write (IoBuffer_Compact b) - buf_read (IoBuffer_Compact b) = buf_write b - buf_read b"
    and "buf_capacity (IoBuffer_Compact b) = buf_capacity b"
    and "buf_data b \<noteq> None \<Longrightarrow> buf_read (IoBuffer_Compact b) = 0"
proof -
  have "live_span (IoBuffer_Compact b) = live_span b \<and>
    buf_commit (IoBuffer_Compact b) - buf_read (IoBuffer_Compact b) = buf_commit b - buf_read b \<and>
    buf_write (IoBuffer_Compact b) - buf_read (IoBuffer_Compact b) = buf_write b - buf_read b \<and>
    buf_capacity (IoBuffer_Compact b) = buf_capacity b \<and>
    (buf_data b \<noteq> None \<longrightarrow> buf_read (IoBuffer_Compact b) = 0)"
  proof (cases "buf_data b")
    case (Some d)
    let ?c = "IoBuffer_Compact b"
    have "live_span ?c = take (buf_write b - buf_read b) (memcpy_at 0 (live_span b) d)"
      unfolding Compact_eq [OF inv Some] by (simp add: live_span_def contents_def)
    also have "\<dots> = live_span b"
      using length_live_span [OF inv] by (simp add: memcpy_at_def)
    finally show ?thesis by (simp add: Compact_eq [OF inv Some])
  qed (simp add: IoBuffer_Compact_def)
  then show "live_span (IoBuffer_Compact b) = live_span b"
    "buf_commit (IoBuffer_Compact b) - buf_read (IoBuffer_Compact b) = buf_commit b - buf_read b"
    "buf_write (IoBuffer_Compact b) - buf_read (IoBuffer_Compact b) = buf_write b - buf_read b"
    "buf_capacity (IoBuffer_Compact b) = buf_capacity b"
    "buf_data b \<noteq> None \<Longrightarrow> buf_read (IoBuffer_Compact b) = 0"
    by auto
qed

section \<open>Making room\<close>

lemma Ensure_compact:
  assumes inv: "buf_inv b" and full: "\<not> n \<le> WritableBytes b"
    and c: "n \<le> buf_capacity b - (buf_write b - buf_read b)" "kCompactThreshold \<le> buf_read b"
  shows "EnsureWritableBytes u n b = IoBuffer_Compact b"
    and "n \<le> buf_capacity b - buf_write (IoBuffer_Compact b)"
proof -
  have le: "buf_read b \<le> buf_write b" "buf_write b \<le> buf_capacity b" "buf_capacity b < size_limit"
    using inv by (auto simp: buf_inv_def)
  have "buf_data b \<noteq> None"
    using inv c(2) by (auto simp: buf_inv_def kCompactThreshold_def split: option.splits)
  then have z: "buf_read (IoBuffer_Compact b) = 0" by (rule Compact_views(5) [OF inv])
  with Compact_views(3) [OF inv] show n: "n \<le> buf_capacity b - buf_write (IoBuffer_Compact b)"
    using c(1) by simp
  then have "n \<le> WritableBytes (IoBuffer_Compact b)"
    by (simp add: buf_inv_sizes(3) [OF Compact_inv [OF inv]] Compact_views(4) [OF inv])
  with c full show "EnsureWritableBytes u n b = IoBuffer_Compact b"
    by (simp add: EnsureWritableBytes_def Let_def buf_inv_sizes(4) [OF inv] sz_sub_eq le)
qed

text \<open>When neither compaction nor the free tail is enough, the buffer is nearly full of live bytes.\<close>

definition grow_target :: "'a IoBuffer \<Rightarrow> nat \<Rightarrow> nat" where
  "grow_target b n = max (buf_write b - buf_read b + n)
     (if buf_capacity b \<noteq> 0 then buf_capacity b + 1 else kMinCapacity)"

lemma Ensure_grow:
  assumes inv: "buf_inv b" and full: "\<not> n \<le> WritableBytes b"
    and c: "\<not> (n \<le> buf_capacity b - (buf_write b - buf_read b) \<and> kCompactThreshold \<le> buf_read b)"
    and fits: "buf_write b - buf_read b + n + kCompactThreshold \<le> 2 ^ 62"
    and t: "t = grow_target b n"
  shows "EnsureWritableBytes u n b = IoBuffer_Reserve u t b"
    and "buf_capacity b < t" and "t \<le> 2 ^ 62" and "buf_write b - buf_read b + n \<le> t"
    and "RoundUpPow2 t \<le> max kMinCapacity (2 * (buf_write b - buf_read b + n + kCompactThreshold))"
proof -
  let ?live = "buf_write b - buf_read b"
  have le: "buf_read b \<le> buf_write b" "buf_write b \<le> buf_capacity b" "buf_capacity b < size_limit"
    using inv by (auto simp: buf_inv_def)
  have "buf_capacity b < buf_write b + n"
    using full le(2) by (simp add: buf_inv_sizes(3) [OF inv])
  with c le have near: "buf_capacity b < ?live + n + kCompactThreshold"
    by linarith
  have n: "sz_add ?live n = ?live + n" and cap1: "sz_add (buf_capacity b) 1 = buf_capacity b + 1"
    using fits near by (simp_all add: sz_add_eq size_limit_def)
  have free: "sz_sub (buf_capacity b) ?live = buf_capacity b - ?live"
    using le by (intro sz_sub_eq) simp_all
  have "EnsureWritableBytes u n b = IoBuffer_Grow u (?live + n) b"
    unfolding EnsureWritableBytes_def Let_def buf_inv_sizes(4) [OF inv] free n using full c by auto
  also have "\<dots> = IoBuffer_Reserve u t b"
    unfolding IoBuffer_Grow_def cap1 t grow_target_def ..
  finally show "EnsureWritableBytes u n b = IoBuffer_Reserve u t b" .
  show "buf_capacity b < t" "?live + n \<le> t"
    by (auto simp: t grow_target_def kMinCapacity_def)
  show "t \<le> 2 ^ 62"
    using fits near by (auto simp: t grow_target_def kMinCapacity_def kCompactThreshold_def)
  show "RoundUpPow2 t \<le> max kMinCapacity (2 * (?live + n + kCompactThreshold))"
  proof (cases "t \<le> kMinCapacity")
    case True
    then have "RoundUpPow2 t \<le> 2 ^ 12" by (intro RoundUpPow2_le) (simp add: kMinCapacity_def)
    then show ?thesis by (simp add: kMinCapacity_def)
  next
    case False
    with near have "t \<le> ?live + n + kCompactThreshold" by (auto simp: t grow_target_def split: if_splits)
    with False RoundUpPow2_pow2 [of t] show ?thesis by auto
  qed
qed

lemma Ensure_room:
  assumes inv: "buf_inv b" and fits: "append_fits n b"
    and b': "b' = EnsureWritableBytes u n b"
  shows "buf_inv b' \<and> live_span b' = live_span b \<and>
    buf_commit b' - buf_read b' = buf_commit b - buf_read b \<and>
    n \<le> buf_capacity b' - buf_write b' \<and>
    buf_capacity b' \<le> max (buf_capacity b)
      (max kMinCapacity (2 * (buf_write b - buf_read b + n + kCompactThreshold)))"
proof -
  let ?live = "buf_write b - buf_read b"
  consider (fit) "n \<le> WritableBytes b"
    | (compact) "\<not> n \<le> WritableBytes b" "n \<le> buf_capacity b - ?live" "kCompactThreshold \<le> buf_read b"
    | (grow) "\<not> n \<le> WritableBytes b" "\<not> (n \<le> buf_capacity b - ?live \<and> kCompactThreshold \<le> buf_read b)"
    by blast
  then show ?thesis
  proof cases
    case fit
    with inv show ?thesis by (simp add: b' EnsureWritableBytes_def buf_inv_sizes(3))
  next
    case compact
    with inv show ?thesis
      by (simp add: b' Ensure_compact Compact_inv Compact_views)
  next
    case grow
    from fits have "?live + n + kCompactThreshold \<le> 2 ^ 62" by (simp add: append_fits_def)
    note g = Ensure_grow [OF inv grow this refl]
    note r = Reserve_grow [OF inv g(2,3) b' [unfolded g(1)]]
    from RoundUpPow2_pow2 [of "grow_target b n"] g(4)
    have "?live + n \<le> buf_capacity b'" by (auto simp: r(6))
    moreover from g(5) have "buf_capacity b' \<le> max kMinCapacity (2 * (?live + n + kCompactThreshold))"
      by (simp add: r(6))
    ultimately show ?thesis using r(1-5) by auto
  qed
qed

section \<open>The operations on the two views\<close>

lemma Append_eq:
  assumes inv: "buf_inv b" and fits: "append_fits (length data) b"
    and res: "b' = IoBuffer_Append u data b"
  shows "buf_inv b' \<and> live_span b' = live_span b @ data \<and>
    buf_commit b' - buf_read b' = buf_commit b - buf_read b"
proof -
  let ?e = "EnsureWritableBytes u (length data) b" and ?n = "length data"
  have e: "buf_inv ?e" "live_span ?e = live_span b"
    "buf_commit ?e - buf_read ?e = buf_commit b - buf_read b" "?n \<le> buf_capacity ?e - buf_write ?e"
    using Ensure_room [OF inv fits refl] by auto
  from e(1) have le: "buf_read ?e \<le> buf_commit ?e" "buf_commit ?e \<le> buf_write ?e"
    "buf_write ?e \<le> buf_capacity ?e" "buf_capacity ?e < size_limit" by (auto simp: buf_inv_def)
  then have w: "sz_add (buf_write ?e) ?n = buf_write ?e + ?n" and room: "buf_write ?e + ?n \<le> buf_capacity ?e"
    using e(4) by (simp_all add: sz_add_eq)
  have b': "b' = ?e\<lparr>buf_data := map_option (memcpy_at (buf_write ?e) data) (buf_data ?e),
      buf_write := buf_write ?e + ?n\<rparr>"
    by (simp add: res IoBuffer_Append_def w Let_def)
  have len: "length (contents ?e) = buf_capacity ?e" by (rule buf_inv_contents [OF e(1)])
  have c: "contents b' = memcpy_at (buf_write ?e) data (contents ?e)"
    using len room by (auto simp: b' contents_def memcpy_at_def split: option.splits)
  have "buf_inv b'"
    using e(1) len room le
    by (auto simp: b' buf_inv_def contents_def split: option.splits)
  moreover have "live_span b' = live_span ?e @ data"
  proof -
    have "live_span b' = subspan (buf_read ?e) (buf_write ?e + ?n - buf_read ?e) (contents b')"
      using le by (simp add: live_span_def b')
    also have "\<dots> = subspan (buf_read ?e) (buf_write ?e - buf_read ?e) (contents b') @
        subspan (buf_write ?e) ?n (contents b')"
      using le by (simp add: subspan_between)
    also have "subspan (buf_write ?e) ?n (contents b') = data"
      using len room by (simp add: c subspan_memcpy_at)
    also have "subspan (buf_read ?e) (buf_write ?e - buf_read ?e) (contents b') = live_span ?e"
      using len le room by (auto simp: c live_span_def subspan_def memcpy_at_def take_drop)
    finally show ?thesis .
  qed
  ultimately show ?thesis using e(2,3) by (simp add: b')
qed

lemma Append_views:
  assumes inv: "buf_inv b" and fits: "append_fits (length data) b"
  shows "buf_inv (IoBuffer_Append u data b)"
    and "published (IoBuffer_Append u data b) = published b"
    and "staged (IoBuffer_Append u data b) = staged b @ data"
proof -
  note a = Append_eq [OF inv fits refl]
  show i: "buf_inv (IoBuffer_Append u data b)" using a by blast
  have le: "buf_commit b - buf_read b \<le> length (live_span b)"
    using length_live_span [OF inv] inv by (auto simp: buf_inv_def)
  show "published (IoBuffer_Append u data b) = published b"
    "staged (IoBuffer_Append u data b) = staged b @ data"
    using a le by (simp_all add: published_live [OF inv] published_live [OF i] staged_live [OF inv] staged_live [OF i])
qed

lemma append_fits_mono: "append_fits n b \<Longrightarrow> m \<le> n \<Longrightarrow> append_fits m b"
  by (simp add: append_fits_def)

lemma append_fits_live: "buf_inv b \<Longrightarrow> append_fits n b \<longleftrightarrow> length (live_span b) + n + kCompactThreshold \<le> 2 ^ 62"
  by (simp add: append_fits_def length_live_span)

lemma append_fits_next:
  assumes inv: "buf_inv b" and fits: "append_fits (length data + n) b"
  shows "append_fits n (IoBuffer_Append u data b)"
proof -
  have "append_fits (length data) b" by (rule append_fits_mono [OF fits]) simp
  note a = Append_eq [OF inv this refl, of u]
  with fits show ?thesis
    by (auto simp: append_fits_live [OF inv] append_fits_live [of "IoBuffer_Append u data b"])
qed

lemma Commit_views:
  assumes inv: "buf_inv b"
  shows "buf_inv (IoBuffer_Commit b)" and "published (IoBuffer_Commit b) = published b @ staged b"
    and "staged (IoBuffer_Commit b) = []"
proof -
  show i: "buf_inv (IoBuffer_Commit b)"
    using inv by (auto simp: IoBuffer_Commit_def buf_inv_def split: option.splits)
  have "published (IoBuffer_Commit b) = live_span b"
    by (simp add: IoBuffer_Commit_def published_def live_span_def contents_def)
  with live_published_staged [OF inv] show "published (IoBuffer_Commit b) = published b @ staged b" by simp
  show "staged (IoBuffer_Commit b) = []" by (simp add: IoBuffer_Commit_def staged_def)
qed

lemma Rollback_views:
  assumes inv: "buf_inv b"
  shows "buf_inv (RollbackPending b)" and "published (RollbackPending b) = published b"
    and "staged (RollbackPending b) = []"
  using inv by (auto simp: RollbackPending_def buf_inv_def published_def staged_def contents_def split: option.splits)

lemma Consume_views:
  assumes inv: "buf_inv b" and res: "IoBuffer_Consume n b = (k, b')"
  shows "buf_inv b'" and "k = min n (length (published b))"
    and "published b' = drop k (published b)" and "staged b' = staged b"
proof -
  let ?k = "min n (buf_commit b - buf_read b)"
  have le: "buf_read b \<le> buf_commit b" "buf_commit b \<le> buf_write b"
    "buf_write b \<le> buf_capacity b" "buf_capacity b < size_limit" using inv by (auto simp: buf_inv_def)
  then have add: "sz_add (buf_read b) ?k = buf_read b + ?k" by (intro sz_add_eq) simp
  have k: "k = ?k" and b': "b' = (if buf_read b + ?k = buf_commit b \<and> buf_commit b = buf_write b
      then b\<lparr>buf_read := 0, buf_commit := 0, buf_write := 0\<rparr> else b\<lparr>buf_read := buf_read b + ?k\<rparr>)"
    using res add by (auto simp: IoBuffer_Consume_def buf_inv_sizes(1) [OF inv] Let_def split: if_splits)
  show "buf_inv b'" using inv le by (auto simp: b' buf_inv_def split: option.splits)
  show "k = min n (length (published b))" by (simp add: k length_published [OF inv])
  have d: "drop k (published b) = subspan (buf_read b + k) (buf_commit b - (buf_read b + k)) (contents b)"
    by (simp add: published_def subspan_def drop_take add.commute)
  show "published b' = drop k (published b)"
    unfolding d by (auto simp: k b' published_def contents_def)
  show "staged b' = staged b" by (auto simp: b' staged_def contents_def)
qed

lemma Clear_views:
  assumes inv: "buf_inv b"
  shows "buf_inv (IoBuffer_Clear b)" and "published (IoBuffer_Clear b) = []" and "staged (IoBuffer_Clear b) = []"
  using inv by (auto simp: IoBuffer_Clear_def buf_inv_def published_def staged_def split: option.splits)

text \<open>
  The receive path: the kernel fills the front of the writable span and the count it reports
  is committed. With nothing staged, the bytes received are published behind the earlier ones.
\<close>

lemma fill_commit_views:
  assumes inv: "buf_inv b" and st: "staged b = []" and room: "length xs \<le> WritableBytes b"
    and res: "IoBuffer_CommitN (length xs) (fill_writable xs b) = (k, b')"
  shows "buf_inv b'" and "k = length xs" and "published b' = published b @ xs" and "staged b' = []"
proof -
  let ?n = "length xs"
  have le: "buf_read b \<le> buf_commit b" "buf_commit b = buf_write b"
    "buf_write b + ?n \<le> buf_capacity b" "buf_capacity b < size_limit"
    using inv st room length_staged [OF inv] buf_inv_sizes(3) [OF inv] by (auto simp: buf_inv_def)
  have len: "length (contents b) = buf_capacity b" by (rule buf_inv_contents [OF inv])
  have "WritableBytes (fill_writable xs b) = WritableBytes b"
    by (simp add: WritableBytes_def fill_writable_def)
  then have k: "k = ?n" and b': "b' = b\<lparr>buf_data := map_option (memcpy_at (buf_write b) xs) (buf_data b),
      buf_commit := buf_write b + ?n, buf_write := buf_write b + ?n\<rparr>"
    using res room le by (auto simp: IoBuffer_CommitN_def fill_writable_def Let_def sz_add_eq)
  have c: "contents b' = memcpy_at (buf_write b) xs (contents b)"
    using len le by (auto simp: b' contents_def memcpy_at_def split: option.splits)
  show "buf_inv b'" using inv le len by (auto simp: b' buf_inv_def contents_def split: option.splits)
  show "k = ?n" by (rule k)
  show "staged b' = []" by (simp add: b' staged_def)
  have "published b' = subspan (buf_read b) (buf_write b + ?n - buf_read b) (contents b')"
    using le by (simp add: published_def b')
  also have "\<dots> = subspan (buf_read b) (buf_write b - buf_read b) (contents b') @
      subspan (buf_write b) ?n (contents b')"
    using le by (simp add: subspan_between)
  also have "subspan (buf_write b) ?n (contents b') = xs"
    using len le by (simp add: c subspan_memcpy_at)
  also have "subspan (buf_read b) (buf_write b - buf_read b) (contents b') = published b"
    using len le by (auto simp: c published_def subspan_def memcpy_at_def take_drop)
  finally show "published b' = published b @ xs" .
qed

lemma mk_IoBuffer_views:
  assumes "n \<le> 2 ^ 62"
  shows "buf_inv (mk_IoBuffer u n)" and "published (mk_IoBuffer u n) = []" and "staged (mk_IoBuffer u n) = []"
    and "n \<le> buf_capacity (mk_IoBuffer u n)"
proof -
  let ?z = "\<lparr>buf_data = None, buf_capacity = 0, buf_read = 0, buf_commit = 0, buf_write = 0\<rparr> :: 'a IoBuffer"
  have z: "buf_inv ?z" by (simp add: buf_inv_def size_limit_def)
  have "buf_inv (mk_IoBuffer u n) \<and> live_span (mk_IoBuffer u n) = [] \<and> n \<le> buf_capacity (mk_IoBuffer u n)"
  proof (cases "n = 0")
    case True
    then show ?thesis
      using z by (simp add: mk_IoBuffer_def IoBuffer_Reserve_def live_span_def)
  next
    case False
    then have "buf_capacity ?z < n" by simp
    note r = Reserve_grow [OF z this assms mk_IoBuffer_def]
    from RoundUpPow2_pow2 [of n] show ?thesis
      using r(1,2) by (auto simp: r(6) live_span_def)
  qed
  then show "buf_inv (mk_IoBuffer u n)" "published (mk_IoBuffer u n) = []" "staged (mk_IoBuffer u n) = []"
    "n \<le> buf_capacity (mk_IoBuffer u n)"
    using live_published_staged by fastforce+
qed

section \<open>The contract of a staging buffer\<close>

text \<open>
  What a protocol writer needs of its output buffer. \<open>fits n b\<close> says that \<open>n\<close> more bytes can
  be staged; the laws describe every operation by its effect on the published and the staged
  bytes. The client lemmas say that a message built from any number of appends becomes
  visible as a whole at the commit, and not at all after a rollback.
\<close>

locale staging_buffer =
  fixes append_op :: "'a list \<Rightarrow> 'b \<Rightarrow> 'b"
    and commit_op :: "'b \<Rightarrow> 'b"
    and rollback_op :: "'b \<Rightarrow> 'b"
    and consume_op :: "nat \<Rightarrow> 'b \<Rightarrow> nat \<times> 'b"
    and pub :: "'b \<Rightarrow> 'a list"
    and stg :: "'b \<Rightarrow> 'a list"
    and inv :: "'b \<Rightarrow> bool"
    and fits :: "nat \<Rightarrow> 'b \<Rightarrow> bool"
  assumes fits_mono: "fits n b \<Longrightarrow> m \<le> n \<Longrightarrow> fits m b"
    and fits_next: "inv b \<Longrightarrow> fits (length xs + n) b \<Longrightarrow> fits n (append_op xs b)"
    and append_inv: "inv b \<Longrightarrow> fits (length xs) b \<Longrightarrow> inv (append_op xs b)"
    and append_pub: "inv b \<Longrightarrow> fits (length xs) b \<Longrightarrow> pub (append_op xs b) = pub b"
    and append_stg: "inv b \<Longrightarrow> fits (length xs) b \<Longrightarrow> stg (append_op xs b) = stg b @ xs"
    and commit_inv: "inv b \<Longrightarrow> inv (commit_op b)"
    and commit_pub: "inv b \<Longrightarrow> pub (commit_op b) = pub b @ stg b"
    and commit_stg: "inv b \<Longrightarrow> stg (commit_op b) = []"
    and rollback_inv: "inv b \<Longrightarrow> inv (rollback_op b)"
    and rollback_pub: "inv b \<Longrightarrow> pub (rollback_op b) = pub b"
    and rollback_stg: "inv b \<Longrightarrow> stg (rollback_op b) = []"
    and consume_inv: "inv b \<Longrightarrow> inv (snd (consume_op n b))"
    and consume_pub: "inv b \<Longrightarrow> pub (snd (consume_op n b)) = drop n (pub b)"
    and consume_stg: "inv b \<Longrightarrow> stg (snd (consume_op n b)) = stg b"
begin

lemma append_chunks:
  assumes "inv b" and "fits (length (concat xss)) b"
  shows "inv (fold append_op xss b) \<and> pub (fold append_op xss b) = pub b \<and>
    stg (fold append_op xss b) = stg b @ concat xss"
  using assms
proof (induction xss arbitrary: b)
  case Nil
  then show ?case by simp
next
  case (Cons xs xss)
  then have f: "fits (length xs + length (concat xss)) b" by simp
  have h: "fits (length xs) b" by (rule fits_mono [OF f]) simp
  from Cons.IH [OF append_inv [OF Cons.prems(1) h] fits_next [OF Cons.prems(1) f]]
  show ?case by (simp add: append_pub [OF Cons.prems(1) h] append_stg [OF Cons.prems(1) h])
qed

lemma chunks_commit:
  assumes "inv b" and "fits (length (concat xss)) b"
  shows "pub (commit_op (fold append_op xss b)) = pub b @ stg b @ concat xss"
  using append_chunks [OF assms] by (simp add: commit_pub)

lemma chunks_rollback:
  assumes "inv b" and "fits (length (concat xss)) b"
  shows "pub (rollback_op (fold append_op xss b)) = pub b"
  using append_chunks [OF assms] by (simp add: rollback_pub)

end

interpretation io_staging: staging_buffer "IoBuffer_Append u" IoBuffer_Commit RollbackPending
  IoBuffer_Consume published staged buf_inv append_fits for u :: "nat \<Rightarrow> 'a"
proof unfold_locales
  fix b :: "'a IoBuffer" and n :: nat
  assume inv: "buf_inv b"
  obtain k b' where c: "IoBuffer_Consume n b = (k, b')" by fastforce
  note v = Consume_views [OF inv c]
  show "buf_inv (snd (IoBuffer_Consume n b))" "staged (snd (IoBuffer_Consume n b)) = staged b"
    using v by (simp_all add: c)
  show "published (snd (IoBuffer_Consume n b)) = drop n (published b)"
    using v by (simp add: c min_def)
qed (auto intro: append_fits_mono append_fits_next Append_views Commit_views Rollback_views)

section \<open>Properties of the buffer\<close>

text \<open>
  C8: a message written in any number of appends is published as a whole: before the commit
  the reader sees the earlier bytes only, after the commit exactly the earlier bytes, the
  bytes already staged and the message, and after a rollback the earlier bytes again. This
  holds across every compaction and reallocation on the way.
\<close>

theorem buffer_message_atomic:
  assumes "buf_inv b" and "append_fits (length (concat chunks)) b"
  shows "let b' = fold (IoBuffer_Append u) chunks b in
    buf_inv b' \<and> ReadableSpan b' = published b \<and>
    ReadableSpan (IoBuffer_Commit b') = published b @ staged b @ concat chunks \<and>
    ReadableSpan (RollbackPending b') = published b"
  using io_staging.append_chunks [OF assms, of u] io_staging.chunks_commit [OF assms, of u]
    io_staging.chunks_rollback [OF assms, of u]
  by (simp add: Let_def ReadableSpan_published Commit_views Rollback_views)

theorem buffer_message_atomic_witness:
  "ReadableSpan (IoBuffer_Commit (fold (IoBuffer_Append (\<lambda>_. CHR ''?'')) [''ab'', ''c''] (mk_IoBuffer (\<lambda>_. CHR ''?'') 10))) = ''abc''"
proof -
  let ?u = "\<lambda>_ :: nat. CHR ''?''"
  have m: "buf_inv (mk_IoBuffer ?u 10)" "published (mk_IoBuffer ?u 10) = []" "staged (mk_IoBuffer ?u 10) = []"
    by (simp_all add: mk_IoBuffer_views)
  have f: "append_fits (length (concat [''ab'', ''c''])) (mk_IoBuffer ?u 10)"
    using m length_live_span [OF m(1)] live_published_staged [OF m(1)]
    by (simp add: append_fits_def kCompactThreshold_def)
  show ?thesis
    using buffer_message_atomic [OF m(1) f, of ?u] m by (simp add: Let_def)
qed

text \<open>
  The receive path of a connection: with nothing staged, filling the writable span and
  committing the count publishes exactly the received bytes behind the unread ones, and
  consuming removes exactly the requested number of bytes (or all there are) from the front.
\<close>

theorem buffer_receive_consume:
  assumes "buf_inv b" and "staged b = []" and "length xs \<le> WritableBytes b"
    and "IoBuffer_CommitN (length xs) (fill_writable xs b) = (k, b')"
    and "IoBuffer_Consume n b' = (c, b'')"
  shows "k = length xs \<and> ReadableSpan b' = published b @ xs \<and>
    c = min n (length (published b) + length xs) \<and> ReadableSpan b'' = drop n (published b @ xs) \<and> buf_inv b''"
proof -
  note f = fill_commit_views [OF assms(1-4)]
  note v = Consume_views [OF f(1) assms(5)]
  from f v show ?thesis by (simp add: ReadableSpan_published min_def)
qed

theorem buffer_receive_consume_witness:
  "let b = mk_IoBuffer (\<lambda>_. CHR ''?'') 1; b' = snd (IoBuffer_CommitN (length ''abc'') (fill_writable ''abc'' b))
   in ReadableSpan (snd (IoBuffer_Consume 1 b')) = ''bc''"
proof -
  let ?b = "mk_IoBuffer (\<lambda>_. CHR ''?'') 1"
  have m: "buf_inv ?b" "published ?b = []" "staged ?b = []" using mk_IoBuffer_views [of 1] by simp_all
  have c: "buf_capacity ?b = 4096" "buf_write ?b = 0"
    by (simp_all add: mk_IoBuffer_def IoBuffer_Reserve_def Let_def kMinCapacity_def RoundUpPow2_def sz_sub_def)
  then have w: "length ''abc'' \<le> WritableBytes ?b" by (simp add: WritableBytes_def sz_sub_def)
  show ?thesis
    using buffer_receive_consume [OF m(1,3) w prod.collapse [symmetric] prod.collapse [symmetric], of 1] m(2)
    by (simp add: Let_def)
qed

text \<open>
  An append never loses room: the capacity stays a power of two and grows at most to
  twice what the live bytes, the new bytes and the compaction slack need.
\<close>

theorem buffer_growth_bound:
  assumes "buf_inv b" and "append_fits (length data) b"
  shows "buf_capacity (IoBuffer_Append u data b) \<le>
      max (buf_capacity b) (max 4096 (2 * (length (published b) + length (staged b) + length data + 1024))) \<and>
    (\<exists>k. buf_capacity (IoBuffer_Append u data b) = 2 ^ k \<or> buf_capacity (IoBuffer_Append u data b) = 0)"
proof (intro conjI)
  note e = Ensure_room [OF assms refl, of u]
  have "buf_capacity (IoBuffer_Append u data b) = buf_capacity (EnsureWritableBytes u (length data) b)"
    by (simp add: IoBuffer_Append_def Let_def)
  moreover have "buf_write b - buf_read b = length (published b) + length (staged b)"
    using length_live_span [OF assms(1)] live_published_staged [OF assms(1)] by simp
  ultimately show "buf_capacity (IoBuffer_Append u data b) \<le>
      max (buf_capacity b) (max 4096 (2 * (length (published b) + length (staged b) + length data + 1024)))"
    using e by (simp add: kMinCapacity_def kCompactThreshold_def)
  from Append_views(1) [OF assms, of u]
  show "\<exists>k. buf_capacity (IoBuffer_Append u data b) = 2 ^ k \<or> buf_capacity (IoBuffer_Append u data b) = 0"
    by (auto simp: buf_inv_def split: option.splits)
qed

theorem buffer_growth_bound_witness:
  "buf_capacity (IoBuffer_Append (\<lambda>_. CHR ''?'') ''abc'' (mk_IoBuffer (\<lambda>_. CHR ''?'') 0)) \<le> 4096"
proof -
  let ?u = "\<lambda>_ :: nat. CHR ''?''"
  have m: "buf_inv (mk_IoBuffer ?u 0)" "published (mk_IoBuffer ?u 0) = []" "staged (mk_IoBuffer ?u 0) = []"
    by (simp_all add: mk_IoBuffer_views)
  have "append_fits (length ''abc'') (mk_IoBuffer ?u 0)" "buf_capacity (mk_IoBuffer ?u 0) = 0"
    by (simp_all add: append_fits_def kCompactThreshold_def mk_IoBuffer_def IoBuffer_Reserve_def)
  then show ?thesis using buffer_growth_bound [OF m(1), of "''abc''" ?u] m by simp
qed

section \<open>Every sequence of operations\<close>

datatype 'a buffer_op =
    OpReserve nat | OpEnsure nat | OpAppend "'a list" | OpFill "'a list" | OpCommitN nat | OpCommit | OpRollback
  | OpConsume nat | OpClear | OpCompact

fun apply_op :: "(nat \<Rightarrow> 'a) \<Rightarrow> 'a buffer_op \<Rightarrow> 'a IoBuffer \<Rightarrow> 'a IoBuffer" where
  "apply_op u (OpReserve n) b = IoBuffer_Reserve u n b"
| "apply_op u (OpEnsure n) b = EnsureWritableBytes u n b"
| "apply_op u (OpAppend xs) b = IoBuffer_Append u xs b"
| "apply_op u (OpFill xs) b = fill_writable xs b"
| "apply_op u (OpCommitN n) b = snd (IoBuffer_CommitN n b)"
| "apply_op u OpCommit b = IoBuffer_Commit b"
| "apply_op u OpRollback b = RollbackPending b"
| "apply_op u (OpConsume n) b = snd (IoBuffer_Consume n b)"
| "apply_op u OpClear b = IoBuffer_Clear b"
| "apply_op u OpCompact b = IoBuffer_Compact b"

text \<open>What a caller owes: sizes that the growth rule can represent, and filling no more than the writable span.\<close>

fun op_fits :: "'a buffer_op \<Rightarrow> 'a IoBuffer \<Rightarrow> bool" where
  "op_fits (OpReserve n) b \<longleftrightarrow> n \<le> 2 ^ 62"
| "op_fits (OpEnsure n) b \<longleftrightarrow> append_fits n b"
| "op_fits (OpAppend xs) b \<longleftrightarrow> append_fits (length xs) b"
| "op_fits (OpFill xs) b \<longleftrightarrow> length xs \<le> WritableBytes b"
| "op_fits _ b \<longleftrightarrow> True"

fun ops_fit :: "(nat \<Rightarrow> 'a) \<Rightarrow> 'a buffer_op list \<Rightarrow> 'a IoBuffer \<Rightarrow> bool" where
  "ops_fit u [] b \<longleftrightarrow> True"
| "ops_fit u (x # ops) b \<longleftrightarrow> op_fits x b \<and> ops_fit u ops (apply_op u x b)"

lemma CommitN_inv:
  assumes inv: "buf_inv b"
  shows "buf_inv (snd (IoBuffer_CommitN n b))"
proof -
  let ?n = "min n (buf_capacity b - buf_write b)"
  have le: "buf_write b + ?n \<le> buf_capacity b" "buf_commit b + ?n \<le> buf_write b + ?n" "buf_capacity b < size_limit"
    using inv by (auto simp: buf_inv_def)
  then have "sz_add (buf_write b) ?n = buf_write b + ?n" "sz_add (buf_commit b) ?n = buf_commit b + ?n"
    by (simp_all add: sz_add_eq)
  then show ?thesis
    using inv le by (auto simp: IoBuffer_CommitN_def Let_def buf_inv_sizes(3) [OF inv] buf_inv_def split: option.splits)
qed

lemma fill_inv:
  assumes inv: "buf_inv b" and "length xs \<le> WritableBytes b"
  shows "buf_inv (fill_writable xs b)"
proof (cases "buf_data b")
  case (Some d)
  have "buf_write b + length xs \<le> length d"
    using assms Some buf_inv_sizes(3) [OF inv] by (auto simp: buf_inv_def)
  with Some inv show ?thesis by (auto simp: fill_writable_def buf_inv_def)
qed (use inv in \<open>auto simp: fill_writable_def buf_inv_def\<close>)

lemma apply_op_inv:
  assumes inv: "buf_inv b" and fits: "op_fits x b"
  shows "buf_inv (apply_op u x b)"
proof (cases x)
  case (OpReserve n)
  then show ?thesis
    using fits inv Reserve_grow(1) [OF inv, of n _ u] by (cases "buf_capacity b < n") (auto simp: IoBuffer_Reserve_def)
next
  case (OpConsume n)
  then show ?thesis using Consume_views(1) [OF inv prod.collapse [symmetric]] by simp
qed (use fits inv Ensure_room [OF inv _ refl, of _ u] in \<open>simp_all add: Append_views CommitN_inv fill_inv Commit_views Rollback_views Clear_views Compact_inv\<close>)

text \<open>
  C27: an \<^verbatim>\<open>IoBuffer\<close> is well formed at all times. From construction on, after any sequence of its operations
  whose sizes fit, the read, commit and write indices are in this order and inside the capacity, the storage is as long
  as the capacity, and the capacity is zero or a power of two of at least the minimum; so no index arithmetic
  has wrapped around.
\<close>

theorem buffer_always_wellformed:
  assumes "n \<le> 2 ^ 62" and "ops_fit u ops (mk_IoBuffer u n)"
  shows "buf_inv (fold (apply_op u) ops (mk_IoBuffer u n))"
proof -
  have "buf_inv (fold (apply_op u) ops b)" if "buf_inv b" "ops_fit u ops b" for b
    using that by (induction ops arbitrary: b) (simp_all add: apply_op_inv)
  then show ?thesis using mk_IoBuffer_views(1) [OF assms(1)] assms(2) by blast
qed

theorem buffer_always_wellformed_witness:
  "buf_inv (fold (apply_op (\<lambda>_. CHR ''?'')) [OpAppend ''abc'', OpCommit, OpConsume 2, OpCompact] (mk_IoBuffer (\<lambda>_. CHR ''?'') 0))"
proof -
  have "ops_fit (\<lambda>_. CHR ''?'') [OpAppend ''abc'', OpCommit, OpConsume 2, OpCompact] (mk_IoBuffer (\<lambda>_. CHR ''?'') 0)"
    by (simp add: append_fits_def kCompactThreshold_def mk_IoBuffer_def IoBuffer_Reserve_def)
  then show ?thesis by (intro buffer_always_wellformed) simp_all
qed

end
