(* ===== verification/Resp_Parser.thy ===== *)
theory Resp_Parser
  imports Io_Buffer
begin

text \<open>
  The RESP protocol parser (\<^verbatim>\<open>include/kio/resp/parser.h\<close>, \<^verbatim>\<open>src/kio/parser.cpp\<close>). A
  \<^verbatim>\<open>std::span\<close> or a pointer into the receive buffer is the list of characters from that
  position on. The recursion of \<^verbatim>\<open>ParseFrameInternal\<close> through its loop over the children of
  an aggregate terminates because the depth is bounded by the configuration; the loop itself
  is \<open>parse_items\<close>.
\<close>

datatype ParseError = Success | Incomplete | InvalidProtocol | Overflow | InternalError

record ParserConfig =
  max_size :: nat
  max_aggregate_depth :: nat
  initial_buffer :: nat

definition default_ParserConfig :: ParserConfig where
  "default_ParserConfig =
     \<lparr>max_size = 512 * 1024 * 1024, max_aggregate_depth = 32, initial_buffer = 64 * 1024\<rparr>"

datatype FrameType =
    KSimpleString | KSimpleError | KInteger | KNull | KBoolean | KDouble | KBigNumber
  | KBulkString | KBulkError | KVerbatimString
  | KArray | KMap | KSet | KPush | KAttribute

definition FrameType_of_byte :: "char \<Rightarrow> FrameType option" where
  "FrameType_of_byte c =
     (if c = CHR ''+'' then Some KSimpleString
      else if c = CHR ''-'' then Some KSimpleError
      else if c = CHR '':'' then Some KInteger
      else if c = CHR ''_'' then Some KNull
      else if c = CHR ''#'' then Some KBoolean
      else if c = CHR '','' then Some KDouble
      else if c = CHR ''('' then Some KBigNumber
      else if c = CHR ''$'' then Some KBulkString
      else if c = CHR ''!'' then Some KBulkError
      else if c = CHR ''='' then Some KVerbatimString
      else if c = CHR ''*'' then Some KArray
      else if c = CHR ''%'' then Some KMap
      else if c = CHR ''~'' then Some KSet
      else if c = CHR ''>'' then Some KPush
      else if c = CHR ''|'' then Some KAttribute
      else None)"

record FrameHeader =
  fh_type :: FrameType
  fh_data :: string
  fh_size :: nat
  fh_element_count :: nat

section \<open>The buffer reader\<close>

record BufferReader =
  br_data :: string
  br_offset :: nat

definition mk_BufferReader :: "string \<Rightarrow> BufferReader" where
  "mk_BufferReader data = \<lparr>br_data = data, br_offset = 0\<rparr>"

definition BufferReader_Available :: "BufferReader \<Rightarrow> nat" where
  "BufferReader_Available r = sz_sub (length (br_data r)) (br_offset r)"

definition BufferReader_ReadLine :: "BufferReader \<Rightarrow> (string \<times> BufferReader) option" where
  "BufferReader_ReadLine r =
     (let sv = subspan (br_offset r) (BufferReader_Available r) (br_data r)
      in case find_sub crlf sv of
           None \<Rightarrow> None
         | Some pos \<Rightarrow> Some (take pos sv, r\<lparr>br_offset := sz_add (br_offset r) (sz_add pos 2)\<rparr>))"

definition BufferReader_ReadBytes :: "nat \<Rightarrow> BufferReader \<Rightarrow> (string \<times> BufferReader) option" where
  "BufferReader_ReadBytes n r =
     (if BufferReader_Available r < n then None
      else Some (subspan (br_offset r) n (br_data r), r\<lparr>br_offset := sz_add (br_offset r) n\<rparr>))"

section \<open>Numbers\<close>

definition ParseInt :: "string \<Rightarrow> int option" where
  "ParseInt s =
     (if s = [] then None
      else case from_chars int64_min int64_max s of
        (n, ec, v) \<Rightarrow> if ec = Fc_Ok \<and> n = length s then Some v else None)"

text \<open>
  \<^verbatim>\<open>std::from_chars\<close> on \<^verbatim>\<open>double\<close> in the general format, as far as the parser observes it:
  the characters form one floating-point literal, and the literal does not round to infinity
  or, being non-zero, to zero. The value is kept as the exact decimal.
\<close>

datatype double_value = D_Inf bool | D_NaN bool | D_Dec bool nat int

definition decimal_literal :: "string \<Rightarrow> (nat \<times> int) option" where
  "decimal_literal s =
     (let d1 = takeWhile is_digit s; r1 = dropWhile is_digit s;
          (d2, r2) = (if r1 \<noteq> [] \<and> hd r1 = CHR ''.''
                      then (takeWhile is_digit (tl r1), dropWhile is_digit (tl r1)) else ([], r1));
          m = digits_val (d1 @ d2)
      in if d1 @ d2 = [] then None
         else if r2 = [] then Some (m, - int (length d2))
         else if hd r2 \<noteq> CHR ''e'' \<and> hd r2 \<noteq> CHR ''E'' then None
         else
           let e = tl r2;
               neg = (e \<noteq> [] \<and> hd e = CHR ''-'');
               ds = (if e \<noteq> [] \<and> (hd e = CHR ''-'' \<or> hd e = CHR ''+'') then tl e else e)
           in if ds = [] \<or> \<not> list_all is_digit ds then None
              else Some (m, (if neg then - int (digits_val ds) else int (digits_val ds)) - int (length d2)))"

definition double_in_range :: "nat \<Rightarrow> int \<Rightarrow> bool" where
  "double_in_range m e \<longleftrightarrow>
     m = 0 \<or>
     (if 0 \<le> e then m * 10 ^ nat e < 2 ^ 1024 - 2 ^ 970
      else m < (2 ^ 1024 - 2 ^ 970) * 10 ^ nat (- e) \<and> 10 ^ nat (- e) < m * 2 ^ 1075)"

definition is_nan_literal :: "string \<Rightarrow> bool" where
  "is_nan_literal s \<longleftrightarrow>
     map tolower s = ''nan'' \<or>
     4 < length s \<and> map tolower (take 4 s) = ''nan('' \<and> last s = CHR '')'' \<and>
     list_all (\<lambda>c. is_digit c \<or> c = CHR ''_'' \<or> (97 \<le> (of_char (tolower c) :: nat) \<and> (of_char (tolower c) :: nat) \<le> 122))
       (butlast (drop 4 s))"

definition from_chars_double :: "string \<Rightarrow> double_value option" where
  "from_chars_double s =
     (let neg = (s \<noteq> [] \<and> hd s = CHR ''-''); body = (if neg then tl s else s)
      in if map tolower body = ''inf'' \<or> map tolower body = ''infinity'' then Some (D_Inf neg)
         else if is_nan_literal body then Some (D_NaN neg)
         else case decimal_literal body of
                None \<Rightarrow> None
              | Some (m, e) \<Rightarrow> if double_in_range m e then Some (D_Dec neg m e) else None)"

definition ParseDouble :: "string \<Rightarrow> double_value option" where
  "ParseDouble s =
     (if s = [] then None
      else if s = ''inf'' \<or> s = ''+inf'' then Some (D_Inf False)
      else if s = ''-inf'' then Some (D_Inf True)
      else if s = ''nan'' then Some (D_NaN False)
      else from_chars_double s)"

section \<open>Frames\<close>

definition is_simple :: "FrameType \<Rightarrow> bool" where
  "is_simple t \<longleftrightarrow> t \<in> {KInteger, KSimpleString, KSimpleError, KBoolean, KDouble, KBigNumber, KNull}"

definition is_bulk :: "FrameType \<Rightarrow> bool" where
  "is_bulk t \<longleftrightarrow> t \<in> {KBulkString, KBulkError, KVerbatimString}"

definition is_pairs :: "FrameType \<Rightarrow> bool" where
  "is_pairs t \<longleftrightarrow> t = KMap \<or> t = KAttribute"

text \<open>The branch of the \<^verbatim>\<open>switch\<close> for the line-terminated types.\<close>

definition parse_simple :: "ParserConfig \<Rightarrow> FrameType \<Rightarrow> string \<Rightarrow> ParseError + FrameHeader" where
  "parse_simple cfg t data =
     (case BufferReader_ReadLine (mk_BufferReader data) of
        None \<Rightarrow> Inl Incomplete
      | Some (line, r) \<Rightarrow>
          let payload = drop 1 line; size = br_offset r
          in if t = KInteger \<and> ParseInt payload = None then Inl InvalidProtocol
             else if t = KBoolean \<and> payload \<noteq> ''t'' \<and> payload \<noteq> ''f'' then Inl InvalidProtocol
             else if t = KDouble \<and> ParseDouble payload = None then Inl InvalidProtocol
             else if max_size cfg < size then Inl Overflow
             else Inr \<lparr>fh_type = t, fh_data = data, fh_size = size, fh_element_count = 0\<rparr>)"

text \<open>The branch for the length-prefixed types.\<close>

definition parse_bulk :: "ParserConfig \<Rightarrow> FrameType \<Rightarrow> string \<Rightarrow> ParseError + FrameHeader" where
  "parse_bulk cfg t data =
     (case BufferReader_ReadLine (mk_BufferReader data) of
        None \<Rightarrow> Inl Incomplete
      | Some (line, r) \<Rightarrow>
          (case ParseInt (drop 1 line) of
             None \<Rightarrow> Inl InvalidProtocol
           | Some len \<Rightarrow>
               if len = - 1 then
                 (if max_size cfg < br_offset r then Inl Overflow
                  else Inr \<lparr>fh_type = t, fh_data = data, fh_size = br_offset r, fh_element_count = 0\<rparr>)
               else if len < 0 \<or> max_size cfg < nat len then Inl Overflow
               else case BufferReader_ReadBytes (sz_add (nat len) 2) r of
                      None \<Rightarrow> Inl Incomplete
                    | Some (_, r') \<Rightarrow>
                        if data ! (br_offset r' - 2) \<noteq> CHR 0x0D \<or> data ! (br_offset r' - 1) \<noteq> CHR 0x0A
                        then Inl InvalidProtocol
                        else if max_size cfg < br_offset r' then Inl Overflow
                        else Inr \<lparr>fh_type = t, fh_data = data, fh_size = br_offset r', fh_element_count = 0\<rparr>))"

text \<open>
  The header line of an aggregate: either the frame is already decided (an error, or a null
  array), or the element count and the offset of the first child.
\<close>

definition parse_aggregate_header ::
  "ParserConfig \<Rightarrow> FrameType \<Rightarrow> string \<Rightarrow> (ParseError + FrameHeader) + (nat \<times> nat)" where
  "parse_aggregate_header cfg t data =
     (case BufferReader_ReadLine (mk_BufferReader data) of
        None \<Rightarrow> Inl (Inl Incomplete)
      | Some (line, r) \<Rightarrow>
          (case ParseInt (drop 1 line) of
             None \<Rightarrow> Inl (Inl InvalidProtocol)
           | Some n \<Rightarrow>
               if t = KArray \<and> n = - 1 then
                 (if max_size cfg < br_offset r then Inl (Inl Overflow)
                  else Inl (Inr \<lparr>fh_type = t, fh_data = data, fh_size = br_offset r, fh_element_count = 0\<rparr>))
               else if n < 0 then Inl (Inl InvalidProtocol)
               else Inr (nat n, br_offset r)))"

definition items_to_parse :: "FrameType \<Rightarrow> nat \<Rightarrow> nat" where
  "items_to_parse t count = (if is_pairs t then (count * 2) mod 2 ^ 64 else count)"

function (sequential) ParseFrameInternal :: "ParserConfig \<Rightarrow> string \<Rightarrow> nat \<Rightarrow> ParseError + FrameHeader"
  and parse_items :: "ParserConfig \<Rightarrow> string \<Rightarrow> nat \<Rightarrow> nat \<Rightarrow> nat \<Rightarrow> ParseError + nat" where
  "ParseFrameInternal cfg data depth =
     (if max_aggregate_depth cfg \<le> depth then Inl Overflow
      else if data = [] then Inl Incomplete
      else case FrameType_of_byte (hd data) of
        None \<Rightarrow> Inl InvalidProtocol
      | Some t \<Rightarrow>
          if is_simple t then parse_simple cfg t data
          else if is_bulk t then parse_bulk cfg t data
          else case parse_aggregate_header cfg t data of
            Inl decided \<Rightarrow> decided
          | Inr (count, off) \<Rightarrow>
              (case parse_items cfg data (items_to_parse t count) off (depth + 1) of
                 Inl e \<Rightarrow> Inl e
               | Inr current_offset \<Rightarrow>
                   if max_size cfg < current_offset then Inl Overflow
                   else Inr \<lparr>fh_type = t, fh_data = data, fh_size = current_offset,
                             fh_element_count = count\<rparr>))"
| "parse_items cfg data 0 current_offset depth = Inr current_offset"
| "parse_items cfg data (Suc n) current_offset depth =
     (case ParseFrameInternal cfg (drop current_offset data) depth of
        Inl e \<Rightarrow> Inl e
      | Inr child \<Rightarrow> parse_items cfg data n (sz_add current_offset (fh_size child)) depth)"
  by pat_completeness auto
termination
  by (relation "measures
      [\<lambda>x. case x of Inl (cfg, _, d) \<Rightarrow> max_aggregate_depth cfg + 1 - d
               | Inr (cfg, _, _, _, d) \<Rightarrow> max_aggregate_depth cfg + 1 - d,
       \<lambda>x. case x of Inl _ \<Rightarrow> 0 | Inr (_, _, n, _, _) \<Rightarrow> n + 1]") auto

declare ParseFrameInternal.simps [simp del]

section \<open>Payloads and the iterator\<close>

definition GetSimplePayload :: "FrameHeader \<Rightarrow> string" where
  "GetSimplePayload frame =
     (if fh_size frame < 3 then [] else take (fh_size frame - 3) (drop 1 (fh_data frame)))"

definition GetBulkPayload :: "FrameHeader \<Rightarrow> string" where
  "GetBulkPayload frame =
     (case find_sub crlf (take (fh_size frame) (fh_data frame)) of
        None \<Rightarrow> []
      | Some first_crlf \<Rightarrow>
          let header_len = first_crlf + 2
          in if fh_size frame < header_len + 2 then []
             else take (fh_size frame - header_len - 2) (drop header_len (fh_data frame)))"

text \<open>The iterator's pointers are offsets into the parent's bytes.\<close>

record FrameIterator =
  it_base :: string
  it_current :: nat
  it_end :: nat
  it_remaining :: nat
  it_depth :: nat

definition mk_FrameIterator :: "FrameHeader \<Rightarrow> nat \<Rightarrow> FrameIterator" where
  "mk_FrameIterator parent depth =
     \<lparr>it_base = fh_data parent,
      it_current = (case find_sub crlf (take (fh_size parent) (fh_data parent)) of
                      None \<Rightarrow> 0 | Some pos \<Rightarrow> pos + 2),
      it_end = fh_size parent,
      it_remaining = (if is_pairs (fh_type parent) then (fh_element_count parent * 2) mod 2 ^ 64
                      else fh_element_count parent),
      it_depth = depth\<rparr>"

definition FrameIterator_HasNext :: "FrameIterator \<Rightarrow> bool" where
  "FrameIterator_HasNext it \<longleftrightarrow> 0 < it_remaining it"

definition FrameIterator_Next ::
  "ParserConfig \<Rightarrow> FrameIterator \<Rightarrow> (ParseError + FrameHeader) \<times> FrameIterator" where
  "FrameIterator_Next cfg it =
     (if it_remaining it = 0 then (Inl InternalError, it)
      else if it_end it \<le> it_current it then (Inl InvalidProtocol, it)
      else case ParseFrameInternal cfg (subspan (it_current it) (it_end it - it_current it) (it_base it)) (it_depth it) of
             Inl e \<Rightarrow> (Inl e, it)
           | Inr child \<Rightarrow>
               (Inr child, it\<lparr>it_current := it_current it + fh_size child,
                              it_remaining := it_remaining it - 1\<rparr>))"

section \<open>The parser object\<close>

record Parser =
  parser_buffer :: "char IoBuffer"
  parser_config :: ParserConfig

definition mk_Parser :: "(nat \<Rightarrow> char) \<Rightarrow> ParserConfig \<Rightarrow> Parser" where
  "mk_Parser u cfg = \<lparr>parser_buffer = mk_IoBuffer u (initial_buffer cfg), parser_config = cfg\<rparr>"

definition NextFrame :: "Parser \<Rightarrow> ParseError + FrameHeader" where
  "NextFrame p = ParseFrameInternal (parser_config p) (ReadableSpan (parser_buffer p)) 0"

definition Parser_Consume :: "nat \<Rightarrow> Parser \<Rightarrow> Parser" where
  "Parser_Consume n p = p\<lparr>parser_buffer := snd (IoBuffer_Consume n (parser_buffer p))\<rparr>"

definition Parser_ConsumeFrame :: "FrameHeader \<Rightarrow> Parser \<Rightarrow> Parser" where
  "Parser_ConsumeFrame frame p = Parser_Consume (fh_size frame) p"

section \<open>One line\<close>

lemma find_sub_cong:
  assumes "find_sub pat xs = Some i" and "i + length pat \<le> n" and "take n ys = take n xs"
  shows "find_sub pat ys = Some i"
proof -
  have "find_sub pat (take n ys) = Some i"
    using find_sub_take [OF assms(1,2)] assms(3) by simp
  from find_sub_append [OF this, of "drop n ys"] show ?thesis by simp
qed

lemma ReadLine_eq:
  assumes "length data < size_limit"
  shows "BufferReader_ReadLine (mk_BufferReader data) =
    (case find_sub crlf data of None \<Rightarrow> None
     | Some p \<Rightarrow> Some (take p data, \<lparr>br_data = data, br_offset = p + 2\<rparr>))"
proof -
  have "sz_sub (length data) 0 = length data" by (rule sz_sub_eq [THEN trans]) (use assms in simp_all)
  moreover have "sz_add 0 (sz_add p 2) = p + 2" if "find_sub crlf data = Some p" for p
    using find_sub_bound [OF that] assms by (simp add: sz_add_eq)
  ultimately show ?thesis
    by (auto simp: BufferReader_ReadLine_def mk_BufferReader_def BufferReader_Available_def Let_def
        split: option.splits)
qed

lemma ReadBytes_eq:
  assumes "length data < size_limit" and "off \<le> length data"
  shows "BufferReader_ReadBytes n \<lparr>br_data = data, br_offset = off\<rparr> =
    (if off + n \<le> length data then Some (subspan off n data, \<lparr>br_data = data, br_offset = off + n\<rparr>) else None)"
proof -
  have "sz_sub (length data) off = length data - off" by (rule sz_sub_eq) (use assms in simp_all)
  moreover have "sz_add off n = off + n" if "off + n \<le> length data"
    using that assms by (simp add: sz_add_eq)
  ultimately show ?thesis
    using assms by (auto simp: BufferReader_ReadBytes_def BufferReader_Available_def)
qed

lemma ParseInt_range: "ParseInt s = Some v \<Longrightarrow> int64_min \<le> v \<and> v \<le> int64_max"
  by (auto simp: ParseInt_def dest: from_chars_range split: if_splits prod.splits)

lemma ParseInt_to_chars: "int64_min \<le> v \<Longrightarrow> v \<le> int64_max \<Longrightarrow> ParseInt (to_chars v) = Some v"
  by (simp add: ParseInt_def from_chars_to_chars)

lemma ParseInt_nat:
  assumes "ParseInt s = Some v"
  shows "nat v < 2 ^ 63"
proof -
  from ParseInt_range [OF assms] have "v < 2 ^ 63" by (simp add: int64_max_def)
  then have "nat v < nat (2 ^ 63)" by (subst nat_mono_iff) simp_all
  then show ?thesis by simp
qed

lemma parse_len2: "ParseInt s = Some len \<Longrightarrow> sz_add (nat len) 2 = nat len + 2"
  by (rule sz_add_eq) (drule ParseInt_nat, simp add: size_limit_def)

lemma items_to_parse_exact:
  assumes "ParseInt s = Some n"
  shows "items_to_parse t (nat n) = (if is_pairs t then 2 * nat n else nat n)"
  using ParseInt_nat [OF assms] by (simp add: items_to_parse_def)

section \<open>The leaves\<close>

text \<open>The two leaf branches as functions of the position of the first line end.\<close>

lemma parse_simple_eq:
  assumes "length data < size_limit"
  shows "parse_simple cfg t data =
    (case find_sub crlf data of None \<Rightarrow> Inl Incomplete
     | Some p \<Rightarrow>
         let payload = drop 1 (take p data)
         in if t = KInteger \<and> ParseInt payload = None \<or> t = KBoolean \<and> payload \<noteq> ''t'' \<and> payload \<noteq> ''f'' \<or>
               t = KDouble \<and> ParseDouble payload = None then Inl InvalidProtocol
            else if max_size cfg < p + 2 then Inl Overflow
            else Inr \<lparr>fh_type = t, fh_data = data, fh_size = p + 2, fh_element_count = 0\<rparr>)"
  by (auto simp: parse_simple_def ReadLine_eq [OF assms] Let_def split: option.splits)

definition bulk_result :: "ParserConfig \<Rightarrow> FrameType \<Rightarrow> string \<Rightarrow> nat \<Rightarrow> int \<Rightarrow> ParseError + FrameHeader" where
  "bulk_result cfg t data p len =
     (if len = - 1 then
        (if max_size cfg < p + 2 then Inl Overflow
         else Inr \<lparr>fh_type = t, fh_data = data, fh_size = p + 2, fh_element_count = 0\<rparr>)
      else if len < 0 \<or> max_size cfg < nat len then Inl Overflow
      else if length data < p + 2 + (nat len + 2) then Inl Incomplete
      else if subspan (p + 2 + nat len) 2 data \<noteq> crlf then Inl InvalidProtocol
      else if max_size cfg < p + 2 + (nat len + 2) then Inl Overflow
      else Inr \<lparr>fh_type = t, fh_data = data, fh_size = p + 2 + (nat len + 2), fh_element_count = 0\<rparr>)"

lemma subspan_2:
  assumes "k + 2 \<le> length xs"
  shows "subspan k 2 xs = [xs ! k, xs ! Suc k]"
proof -
  have "drop k xs = xs ! k # xs ! Suc k # drop (Suc (Suc k)) xs"
    using assms by (simp add: Cons_nth_drop_Suc)
  then show ?thesis by (simp add: subspan_def)
qed

lemma parse_bulk_eq:
  assumes "length data < size_limit"
  shows "parse_bulk cfg t data =
    (case find_sub crlf data of None \<Rightarrow> Inl Incomplete
     | Some p \<Rightarrow>
         (case ParseInt (drop 1 (take p data)) of None \<Rightarrow> Inl InvalidProtocol
          | Some len \<Rightarrow> bulk_result cfg t data p len))"
proof (cases "find_sub crlf data")
  case None
  then show ?thesis by (simp add: parse_bulk_def ReadLine_eq [OF assms])
next
  case (Some p)
  have pb: "p + 2 \<le> length data" using find_sub_bound [OF Some] by simp
  show ?thesis
  proof (cases "ParseInt (drop 1 (take p data))")
    case None
    with Some show ?thesis by (simp add: parse_bulk_def ReadLine_eq [OF assms])
  next
    case (Some len)
    have tail: "(data ! (p + 2 + (nat len + 2) - 2) \<noteq> CHR 0x0D \<or> data ! (p + 2 + (nat len + 2) - 1) \<noteq> CHR 0x0A) \<longleftrightarrow>
        subspan (p + 2 + nat len) 2 data \<noteq> crlf" if "p + 2 + (nat len + 2) \<le> length data"
    proof -
      have "p + 2 + (nat len + 2) - 2 = p + 2 + nat len" "p + 2 + (nat len + 2) - 1 = Suc (p + 2 + nat len)" by simp_all
      moreover have "subspan (p + 2 + nat len) 2 data = [data ! (p + 2 + nat len), data ! Suc (p + 2 + nat len)]"
        using that by (intro subspan_2) simp
      ultimately show ?thesis by (simp only: crlf_def) auto
    qed
    show ?thesis
      using \<open>find_sub crlf data = Some p\<close> Some tail pb
      by (simp add: parse_bulk_def ReadLine_eq [OF assms] ReadBytes_eq [OF assms pb] parse_len2 [OF Some] bulk_result_def
          del: add_2_eq_Suc add_2_eq_Suc')
  qed
qed

lemma aggregate_header_eq:
  assumes "length data < size_limit"
  shows "parse_aggregate_header cfg t data =
    (case find_sub crlf data of None \<Rightarrow> Inl (Inl Incomplete)
     | Some p \<Rightarrow>
         (case ParseInt (drop 1 (take p data)) of None \<Rightarrow> Inl (Inl InvalidProtocol)
          | Some n \<Rightarrow>
              if t = KArray \<and> n = - 1 then
                (if max_size cfg < p + 2 then Inl (Inl Overflow)
                 else Inl (Inr \<lparr>fh_type = t, fh_data = data, fh_size = p + 2, fh_element_count = 0\<rparr>))
              else if n < 0 then Inl (Inl InvalidProtocol)
              else Inr (nat n, p + 2)))"
  by (auto simp: parse_aggregate_header_def ReadLine_eq [OF assms] split: option.splits)

section \<open>The shape of the recursion\<close>

text \<open>
  What the type byte and the first lines decide: the result of a leaf (or a null array), or
  the element count and the offset of the first child.
\<close>

definition frame_head ::
  "ParserConfig \<Rightarrow> FrameType \<Rightarrow> string \<Rightarrow> (ParseError + FrameHeader) + (nat \<times> nat)" where
  "frame_head cfg t data =
     (if is_simple t then Inl (parse_simple cfg t data)
      else if is_bulk t then Inl (parse_bulk cfg t data)
      else parse_aggregate_header cfg t data)"

lemma ParseFrame_eq:
  "ParseFrameInternal cfg data depth =
     (if max_aggregate_depth cfg \<le> depth then Inl Overflow
      else if data = [] then Inl Incomplete
      else case FrameType_of_byte (hd data) of
        None \<Rightarrow> Inl InvalidProtocol
      | Some t \<Rightarrow>
          (case frame_head cfg t data of
             Inl r \<Rightarrow> r
           | Inr (count, off) \<Rightarrow>
               (case parse_items cfg data (items_to_parse t count) off (depth + 1) of
                  Inl e \<Rightarrow> Inl e
                | Inr off' \<Rightarrow>
                    if max_size cfg < off' then Inl Overflow
                    else Inr \<lparr>fh_type = t, fh_data = data, fh_size = off', fh_element_count = count\<rparr>)))"
  by (simp add: ParseFrameInternal.simps frame_head_def split: option.split)

lemma parse_induct:
  assumes frame: "\<And>cfg data depth. (\<And>t count off. depth < max_aggregate_depth cfg \<Longrightarrow> data \<noteq> [] \<Longrightarrow>
        FrameType_of_byte (hd data) = Some t \<Longrightarrow> frame_head cfg t data = Inr (count, off) \<Longrightarrow>
        Q cfg data (items_to_parse t count) off (depth + 1)) \<Longrightarrow> P cfg data depth"
    and no_more: "\<And>cfg data off depth. Q cfg data 0 off depth"
    and child: "\<And>cfg data n off depth. P cfg (drop off data) depth \<Longrightarrow>
        (\<And>c. ParseFrameInternal cfg (drop off data) depth = Inr c \<Longrightarrow> Q cfg data n (sz_add off (fh_size c)) depth) \<Longrightarrow>
        Q cfg data (Suc n) off depth"
  shows "P cfg data depth" and "Q cfg data n off depth"
proof (induction cfg data depth and cfg data n off depth rule: ParseFrameInternal_parse_items.induct)
  case (1 cfg data depth)
  show ?case
  proof (rule frame)
    fix t count off
    assume a: "depth < max_aggregate_depth cfg" "data \<noteq> []" "FrameType_of_byte (hd data) = Some t"
      "frame_head cfg t data = Inr (count, off)"
    then have "\<not> is_simple t" "\<not> is_bulk t" "parse_aggregate_header cfg t data = Inr (count, off)"
      by (auto simp: frame_head_def split: if_splits)
    with a show "Q cfg data (items_to_parse t count) off (depth + 1)" by (intro "1.IH") auto
  qed
qed (auto intro: no_more child)

text \<open>Inversion of a successful parse.\<close>

lemma ParseFrame_InrE:
  assumes "ParseFrameInternal cfg data depth = Inr h"
  obtains (leaf) t where "depth < max_aggregate_depth cfg" "data \<noteq> []" "FrameType_of_byte (hd data) = Some t"
      "frame_head cfg t data = Inl (Inr h)"
    | (aggregate) t count off off' where "depth < max_aggregate_depth cfg" "data \<noteq> []"
      "FrameType_of_byte (hd data) = Some t" "frame_head cfg t data = Inr (count, off)"
      "parse_items cfg data (items_to_parse t count) off (depth + 1) = Inr off'" "off' \<le> max_size cfg"
      "h = \<lparr>fh_type = t, fh_data = data, fh_size = off', fh_element_count = count\<rparr>"
  using assms by (auto simp: ParseFrame_eq not_le split: if_splits option.splits sum.splits prod.splits)

lemma parse_items_SucE:
  assumes "parse_items cfg data (Suc n) off depth = Inr off'"
  obtains c where "ParseFrameInternal cfg (drop off data) depth = Inr c"
    "parse_items cfg data n (sz_add off (fh_size c)) depth = Inr off'"
  using assms by (auto split: sum.splits)

section \<open>Sizes\<close>

text \<open>A whole frame: its bytes lie inside the input and inside the configured limit.\<close>

definition frame_ok :: "ParserConfig \<Rightarrow> string \<Rightarrow> FrameHeader \<Rightarrow> bool" where
  "frame_ok cfg data h \<longleftrightarrow>
     fh_data h = data \<and> FrameType_of_byte (hd data) = Some (fh_type h) \<and>
     2 \<le> fh_size h \<and> fh_size h \<le> length data \<and> fh_size h \<le> max_size cfg"

lemmas head_eqs = frame_head_def parse_simple_eq parse_bulk_eq bulk_result_def aggregate_header_eq Let_def

lemma frame_head_leaf:
  assumes "frame_head cfg t data = Inl (Inr h)" and "length data < size_limit"
  shows "fh_data h = data \<and> fh_type h = t \<and> 2 \<le> fh_size h \<and> fh_size h \<le> length data \<and> fh_size h \<le> max_size cfg"
  using assms(1) find_sub_bound [of crlf data]
  by (auto simp: head_eqs assms(2) split: option.splits if_splits)

lemma frame_head_aggregate:
  assumes "frame_head cfg t data = Inr (count, off)" and "length data < size_limit"
  shows "2 \<le> off \<and> off \<le> length data \<and> count < 2 ^ 63 \<and> find_sub crlf data = Some (off - 2) \<and>
    items_to_parse t count = (if is_pairs t then 2 * count else count)"
  using assms(1) find_sub_bound [of crlf data] ParseInt_nat items_to_parse_exact
  by (auto simp: head_eqs assms(2) split: option.splits if_splits)

lemma parse_size_all:
  shows "length data < size_limit \<longrightarrow> ParseFrameInternal cfg data depth = Inr h \<longrightarrow> frame_ok cfg data h"
    and "length data < size_limit \<longrightarrow> off \<le> length data \<longrightarrow> parse_items cfg data n off depth = Inr off' \<longrightarrow>
      off + 2 * n \<le> off' \<and> off' \<le> length data"
proof (induction cfg data depth and cfg data n off depth arbitrary: h and off' rule: parse_induct)
  case (1 cfg data depth)
  show ?case
  proof (intro impI)
    assume m: "length data < size_limit" and "ParseFrameInternal cfg data depth = Inr h"
    from this(2) show "frame_ok cfg data h"
    proof (cases rule: ParseFrame_InrE)
      case (leaf t)
      with frame_head_leaf [OF leaf(4) m] show ?thesis by (simp add: frame_ok_def)
    next
      case (aggregate t count off off')
      note b = frame_head_aggregate [OF aggregate(4) m]
      from "1.IH" [OF aggregate(1-4)] aggregate(5) b m
      have "off + 2 * items_to_parse t count \<le> off' \<and> off' \<le> length data" by blast
      with b aggregate show ?thesis by (simp add: frame_ok_def)
    qed
  qed
next
  case (3 cfg data n off depth)
  show ?case
  proof (intro impI)
    assume m: "length data < size_limit" and o: "off \<le> length data"
      and s: "parse_items cfg data (Suc n) off depth = Inr off'"
    from s obtain c where c: "ParseFrameInternal cfg (drop off data) depth = Inr c"
      and r: "parse_items cfg data n (sz_add off (fh_size c)) depth = Inr off'"
      by (rule parse_items_SucE)
    have ok: "frame_ok cfg (drop off data) c" using "3.IH"(1) c m by simp
    then have add: "sz_add off (fh_size c) = off + fh_size c"
      using m o by (intro sz_add_eq) (auto simp: frame_ok_def)
    have "off + fh_size c + 2 * n \<le> off' \<and> off' \<le> length data"
      using "3.IH"(2) [OF c, of off', unfolded add] r m ok o unfolding add by (auto simp: frame_ok_def)
    with ok show "off + 2 * Suc n \<le> off' \<and> off' \<le> length data"
      by (auto simp: frame_ok_def)
  qed
qed simp

lemmas parse_frame_ok = parse_size_all(1) [rule_format]
lemmas parse_items_bounds = parse_size_all(2) [rule_format]

lemma child_offset:
  assumes "ParseFrameInternal cfg (drop off data) depth = Inr c" and "length data < size_limit" and "off \<le> length data"
  shows "sz_add off (fh_size c) = off + fh_size c" and "off + fh_size c \<le> length data" and "2 \<le> fh_size c"
proof -
  have "frame_ok cfg (drop off data) c" using parse_frame_ok [OF _ assms(1)] assms(2) by simp
  then show "off + fh_size c \<le> length data" "2 \<le> fh_size c" using assms(3) by (auto simp: frame_ok_def)
  then show "sz_add off (fh_size c) = off + fh_size c" using assms(2) by (intro sz_add_eq) simp
qed

section \<open>A verdict is final\<close>

text \<open>
  A success depends only on the bytes of the frame: another input that agrees on them gives
  the same frame.
\<close>

lemma take_agree: "take n ys = take n xs \<Longrightarrow> m \<le> n \<Longrightarrow> take m ys = take m xs"
  by (metis min.absorb1 take_take)

lemma subspan_agree:
  assumes "take n ys = take n xs" and "off + m \<le> n"
  shows "subspan off m ys = subspan off m xs"
proof -
  have "subspan off m zs = drop off (take (off + m) zs)" for zs :: "'a list"
    by (simp add: subspan_def take_drop add.commute)
  with take_agree [OF assms] show ?thesis by metis
qed

lemma hd_agree: "take n ys = take n xs \<Longrightarrow> 0 < n \<Longrightarrow> xs \<noteq> [] \<Longrightarrow> ys \<noteq> [] \<and> hd ys = hd xs"
  by (cases n; cases xs; cases ys) auto

lemma frame_head_agree_leaf:
  assumes "frame_head cfg t data = Inl (Inr h)" and "take (fh_size h) data' = take (fh_size h) data"
    and "length data < size_limit" and "length data' < size_limit" and "fh_size h \<le> length data'"
  shows "frame_head cfg t data' = Inl (Inr (h\<lparr>fh_data := data'\<rparr>))"
proof -
  from assms(1) obtain p where p: "find_sub crlf data = Some p"
    by (auto simp: head_eqs assms(3) split: option.splits if_splits)
  have sz: "p + 2 \<le> fh_size h"
    using assms(1) by (auto simp: head_eqs assms(3) p split: option.splits if_splits)
  have p': "find_sub crlf data' = Some p" by (rule find_sub_cong [OF p _ assms(2)]) (use sz in simp)
  have tk: "take p data' = take p data" by (rule take_agree [OF assms(2)]) (use sz in simp)
  consider "is_simple t" | "\<not> is_simple t" "is_bulk t" | "\<not> is_simple t" "\<not> is_bulk t" by blast
  then show ?thesis
  proof cases
    case 1
    then show ?thesis
      using assms(1) by (auto simp: frame_head_def parse_simple_eq assms(3,4) p p' tk Let_def split: if_splits)
  next
    case 2
    then obtain len where len: "ParseInt (drop 1 (take p data)) = Some len" and b: "bulk_result cfg t data p len = Inr h"
      using assms(1) by (auto simp: frame_head_def parse_bulk_eq assms(3) p split: option.splits)
    have "bulk_result cfg t data' p len = Inr (h\<lparr>fh_data := data'\<rparr>)"
    proof (cases "len = - 1")
      case True
      with b show ?thesis by (auto simp: bulk_result_def split: if_splits)
    next
      case False
      with b have sz: "fh_size h = p + 2 + (nat len + 2)" by (auto simp: bulk_result_def split: if_splits)
      have "subspan (p + 2 + nat len) 2 data' = subspan (p + 2 + nat len) 2 data"
        by (rule subspan_agree [OF assms(2)]) (simp add: sz)
      with False b sz assms(5) show ?thesis by (auto simp: bulk_result_def split: if_splits)
    qed
    with 2 len show ?thesis by (simp add: frame_head_def parse_bulk_eq assms(4) p' tk)
  next
    case 3
    then show ?thesis
      using assms(1) by (auto simp: frame_head_def aggregate_header_eq assms(3,4) p p' tk split: option.splits if_splits)
  qed
qed

lemma frame_head_agree_aggregate:
  assumes "frame_head cfg t data = Inr (count, off)" and "take n data' = take n data" and "off \<le> n"
    and "length data < size_limit" and "length data' < size_limit"
  shows "frame_head cfg t data' = Inr (count, off)"
proof -
  from assms(1) obtain p where p: "find_sub crlf data = Some p" and off: "off = p + 2"
    by (auto simp: head_eqs assms(4) split: option.splits if_splits)
  have p': "find_sub crlf data' = Some p" by (rule find_sub_cong [OF p _ assms(2)]) (use off assms(3) in simp)
  have tk: "take p data' = take p data" by (rule take_agree [OF assms(2)]) (use off assms(3) in simp)
  show ?thesis
    using assms(1) by (auto simp: head_eqs assms(4,5) p p' tk split: option.splits if_splits)
qed

lemma drop_agree: "take n ys = take n xs \<Longrightarrow> take (n - off) (drop off ys) = take (n - off) (drop off xs)"
  by (metis drop_take)

lemma parse_agree_all:
  shows "length data < size_limit \<longrightarrow> ParseFrameInternal cfg data depth = Inr h \<longrightarrow>
      (\<forall>data'. length data' < size_limit \<longrightarrow> fh_size h \<le> length data' \<longrightarrow> take (fh_size h) data' = take (fh_size h) data \<longrightarrow>
        ParseFrameInternal cfg data' depth = Inr (h\<lparr>fh_data := data'\<rparr>))"
    and "length data < size_limit \<longrightarrow> off \<le> length data \<longrightarrow> parse_items cfg data n off depth = Inr off' \<longrightarrow>
      (\<forall>data'. length data' < size_limit \<longrightarrow> off' \<le> length data' \<longrightarrow> take off' data' = take off' data \<longrightarrow>
        parse_items cfg data' n off depth = Inr off')"
proof (induction cfg data depth and cfg data n off depth arbitrary: h and off' rule: parse_induct)
  case (1 cfg data depth)
  show ?case
  proof (intro impI allI)
    fix data'
    assume m: "length data < size_limit" and s: "ParseFrameInternal cfg data depth = Inr h"
      and m': "length data' < size_limit" and len: "fh_size h \<le> length data'"
      and ag: "take (fh_size h) data' = take (fh_size h) data"
    have ok: "frame_ok cfg data h" by (rule parse_frame_ok [OF m s])
    then have "data \<noteq> []" by (auto simp: frame_ok_def)
    with hd_agree [OF ag] ok have hd: "data' \<noteq> []" "hd data' = hd data" by (auto simp: frame_ok_def)
    from s show "ParseFrameInternal cfg data' depth = Inr (h\<lparr>fh_data := data'\<rparr>)"
    proof (cases rule: ParseFrame_InrE)
      case (leaf t)
      from frame_head_agree_leaf [OF leaf(4) ag m m' len] leaf hd show ?thesis
        by (simp add: ParseFrame_eq)
    next
      case (aggregate t count off off')
      note b = frame_head_aggregate [OF aggregate(4) m]
      have "off \<le> off'" using parse_items_bounds [OF m _ aggregate(5)] b by simp
      then have "frame_head cfg t data' = Inr (count, off)"
        using aggregate(7) ag by (intro frame_head_agree_aggregate [OF aggregate(4) ag _ m m']) simp
      moreover have "parse_items cfg data' (items_to_parse t count) off (depth + 1) = Inr off'"
        using "1.IH" [OF aggregate(1-4), of off'] m b aggregate(5,7) m' len ag by simp
      ultimately show ?thesis using aggregate hd by (simp add: ParseFrame_eq)
    qed
  qed
next
  case (3 cfg data n off depth)
  show ?case
  proof (intro impI allI)
    fix data'
    assume m: "length data < size_limit" and o: "off \<le> length data"
      and s: "parse_items cfg data (Suc n) off depth = Inr off'"
      and m': "length data' < size_limit" and len: "off' \<le> length data'"
      and ag: "take off' data' = take off' data"
    from s obtain c where c: "ParseFrameInternal cfg (drop off data) depth = Inr c"
      and r: "parse_items cfg data n (sz_add off (fh_size c)) depth = Inr off'"
      by (rule parse_items_SucE)
    note co = child_offset [OF c m o]
    have le: "off + fh_size c \<le> off'"
      using parse_items_bounds [OF m _ r] co by simp
    have agc: "take (fh_size c) (drop off data') = take (fh_size c) (drop off data)"
      by (rule take_agree [OF drop_agree [OF ag, of off]]) (use le in simp)
    have "ParseFrameInternal cfg (drop off data') depth = Inr (c\<lparr>fh_data := drop off data'\<rparr>)"
      using "3.IH"(1) [of c] c m m' agc le len by simp
    moreover have "parse_items cfg data' n (sz_add off (fh_size c)) depth = Inr off'"
      using "3.IH"(2) [OF c, of off'] m co r m' len ag by simp
    ultimately show "parse_items cfg data' (Suc n) off depth = Inr off'" by simp
  qed
qed simp

lemmas parse_agree = parse_agree_all(1) [rule_format]
lemmas parse_items_agree = parse_agree_all(2) [rule_format]

text \<open>An error other than \<open>Incomplete\<close> is final: more input cannot repair it.\<close>

lemma frame_head_error:
  assumes "frame_head cfg t data = Inl (Inl e)" and "e \<noteq> Incomplete" and m0: "length data < size_limit" and m: "length data' < size_limit"
    and ag: "take (length data) data' = data"
  shows "frame_head cfg t data' = Inl (Inl e)"
proof -
  have ag2: "take (length data) data' = take (length data) data" by (subst ag) simp
  from assms(1,2) obtain p where p: "find_sub crlf data = Some p"
    by (auto simp: head_eqs m0 split: option.splits if_splits)
  then have p': "find_sub crlf data' = Some p"
    using find_sub_bound [OF p] by (intro find_sub_cong [OF p _ ag2]) simp
  have tk: "take p data' = take p data" using find_sub_bound [OF p] by (intro take_agree [OF ag2]) simp
  consider "is_simple t" | "\<not> is_simple t" "is_bulk t" | "\<not> is_simple t" "\<not> is_bulk t" by blast
  then show ?thesis
  proof cases
    case 1
    then show ?thesis
      using assms(1) by (simp add: frame_head_def parse_simple_eq [OF m0] parse_simple_eq [OF m] p p' tk Let_def split: if_splits)
  next
    case 2
    show ?thesis
    proof (cases "ParseInt (drop 1 (take p data))")
      case None
      with 2 assms(1) show ?thesis
        by (simp add: frame_head_def parse_bulk_eq [OF m0] parse_bulk_eq [OF m] p p' tk)
    next
      case (Some len)
      with 2 assms(1) have b: "bulk_result cfg t data p len = Inl e"
        by (simp add: frame_head_def parse_bulk_eq m0 p)
      have "subspan (p + 2 + nat len) 2 data' = subspan (p + 2 + nat len) 2 data"
        if "p + 2 + (nat len + 2) \<le> length data"
        using that by (intro subspan_agree [OF ag2]) simp
      moreover have "length data \<le> length data'" using arg_cong [OF ag, of length] by simp
      ultimately have "bulk_result cfg t data' p len = Inl e"
        using b assms(2) by (auto simp: bulk_result_def split: if_splits)
      with 2 Some show ?thesis
        by (simp add: frame_head_def parse_bulk_eq [OF m] p' tk)
    qed
  next
    case 3
    then show ?thesis
      using assms(1)
      by (simp add: frame_head_def aggregate_header_eq [OF m0] aggregate_header_eq [OF m] p p' tk
          split: option.splits if_splits)
  qed
qed

lemma parse_error_all:
  shows "length (data @ rest) < size_limit \<longrightarrow> ParseFrameInternal cfg data depth = Inl e \<longrightarrow> e \<noteq> Incomplete \<longrightarrow>
      ParseFrameInternal cfg (data @ rest) depth = Inl e"
    and "length (data @ rest) < size_limit \<longrightarrow> off \<le> length data \<longrightarrow> parse_items cfg data n off depth = Inl e \<longrightarrow>
      e \<noteq> Incomplete \<longrightarrow> parse_items cfg (data @ rest) n off depth = Inl e"
proof (induction cfg data depth and cfg data n off depth rule: parse_induct)
  case (1 cfg data depth)
  show ?case
  proof (intro impI)
    assume m: "length (data @ rest) < size_limit" and s: "ParseFrameInternal cfg data depth = Inl e"
      and e: "e \<noteq> Incomplete"
    from m have m0: "length data < size_limit" by simp
    show "ParseFrameInternal cfg (data @ rest) depth = Inl e"
    proof (cases "depth < max_aggregate_depth cfg \<and> data \<noteq> [] \<and> (\<exists>t. FrameType_of_byte (hd data) = Some t)")
      case False
      with s e show ?thesis
        by (auto simp: ParseFrame_eq split: if_splits option.splits)
    next
      case True
      then obtain t where t: "depth < max_aggregate_depth cfg" "data \<noteq> []" "FrameType_of_byte (hd data) = Some t" by blast
      show ?thesis
      proof (cases "frame_head cfg t data")
        case (Inl r)
        with s t have "frame_head cfg t data = Inl (Inl e)" by (simp add: ParseFrame_eq)
        from frame_head_error [OF this e m0 m] t show ?thesis by (simp add: ParseFrame_eq)
      next
        case (Inr co)
        obtain count off where co: "frame_head cfg t data = Inr (count, off)" using Inr by (cases co) simp
        note b = frame_head_aggregate [OF co m0]
        have h: "frame_head cfg t (data @ rest) = Inr (count, off)"
          by (rule frame_head_agree_aggregate [OF co _ _ m0 m, of off]) (use b in simp_all)
        show ?thesis
        proof (cases "parse_items cfg data (items_to_parse t count) off (depth + 1)")
          case (Inl e')
          with s t co have "parse_items cfg data (items_to_parse t count) off (depth + 1) = Inl e"
            by (simp add: ParseFrame_eq)
          with "1.IH" [OF t co] m b e
          have "parse_items cfg (data @ rest) (items_to_parse t count) off (depth + 1) = Inl e" by simp
          with t h show ?thesis by (simp add: ParseFrame_eq)
        next
          case (Inr off')
          then have "off' \<le> length data" using parse_items_bounds [OF m0 _ Inr] b by simp
          then have "parse_items cfg (data @ rest) (items_to_parse t count) off (depth + 1) = Inr off'"
            using parse_items_agree [OF m0 _ Inr m] b by simp
          with s t h co Inr show ?thesis by (simp add: ParseFrame_eq split: if_splits)
        qed
      qed
    qed
  qed
next
  case (3 cfg data n off depth)
  show ?case
  proof (intro impI)
    assume m: "length (data @ rest) < size_limit" and o: "off \<le> length data"
      and s: "parse_items cfg data (Suc n) off depth = Inl e" and e: "e \<noteq> Incomplete"
    from m have m0: "length data < size_limit" by simp
    have d: "drop off (data @ rest) = drop off data @ rest" using o by simp
    show "parse_items cfg (data @ rest) (Suc n) off depth = Inl e"
    proof (cases "ParseFrameInternal cfg (drop off data) depth")
      case (Inl e')
      with s e "3.IH"(1) m show ?thesis by (simp add: d del: drop_append)
    next
      case (Inr c)
      note co = child_offset [OF Inr m0 o]
      have c': "ParseFrameInternal cfg (drop off data @ rest) depth = Inr (c\<lparr>fh_data := drop off data @ rest\<rparr>)"
        using co m o by (intro parse_agree [OF _ Inr]) auto
      from s Inr have "parse_items cfg data n (sz_add off (fh_size c)) depth = Inl e" by simp
      with "3.IH"(2) [OF Inr] m co e
      have "parse_items cfg (data @ rest) n (sz_add off (fh_size c)) depth = Inl e" by simp
      with c' show ?thesis by (simp add: d del: drop_append)
    qed
  qed
qed simp

lemmas parse_error_final = parse_error_all(1) [rule_format]

section \<open>Depth\<close>

text \<open>A frame that parses below a depth also parses at any smaller depth.\<close>

lemma frame_shallower_all:
  shows "ParseFrameInternal cfg data depth = Inr h \<longrightarrow> (\<forall>d \<le> depth. ParseFrameInternal cfg data d = Inr h)"
    and "parse_items cfg data n off depth = Inr off' \<longrightarrow> (\<forall>d \<le> depth. parse_items cfg data n off d = Inr off')"
proof (induction cfg data depth and cfg data n off depth arbitrary: h and off' rule: parse_induct)
  case (1 cfg data depth)
  show ?case
  proof (intro impI allI)
    fix d
    assume s: "ParseFrameInternal cfg data depth = Inr h" and d: "d \<le> depth"
    from s show "ParseFrameInternal cfg data d = Inr h"
    proof (cases rule: ParseFrame_InrE)
      case (leaf t)
      with d show ?thesis by (simp add: ParseFrame_eq)
    next
      case (aggregate t count off off')
      from "1.IH" [OF aggregate(1-4), of off'] aggregate(5) d
      have "parse_items cfg data (items_to_parse t count) off (d + 1) = Inr off'" by simp
      with aggregate d show ?thesis by (simp add: ParseFrame_eq)
    qed
  qed
next
  case (3 cfg data n off depth)
  show ?case
  proof (intro impI allI)
    fix d
    assume s: "parse_items cfg data (Suc n) off depth = Inr off'" and d: "d \<le> depth"
    from s obtain c where c: "ParseFrameInternal cfg (drop off data) depth = Inr c"
      and r: "parse_items cfg data n (sz_add off (fh_size c)) depth = Inr off'"
      by (rule parse_items_SucE)
    from "3.IH"(1) [of c] "3.IH"(2) [OF c, of off'] c r d
    show "parse_items cfg data (Suc n) off d = Inr off'" by simp
  qed
qed simp

lemmas frame_shallower = frame_shallower_all(1) [rule_format]

section \<open>Walking the children of an aggregate\<close>

text \<open>The loop \<^verbatim>\<open>while (it.HasNext ()) it.Next ()\<close> of a client, with the number of rounds left.\<close>

fun iterate_frames :: "nat \<Rightarrow> ParserConfig \<Rightarrow> FrameIterator \<Rightarrow> (ParseError + FrameHeader list) \<times> FrameIterator" where
  "iterate_frames 0 cfg it = (Inr [], it)"
| "iterate_frames (Suc n) cfg it =
     (case FrameIterator_Next cfg it of
        (Inl e, it') \<Rightarrow> (Inl e, it')
      | (Inr c, it') \<Rightarrow>
          (case iterate_frames n cfg it' of
             (Inl e, it'') \<Rightarrow> (Inl e, it'')
           | (Inr cs, it'') \<Rightarrow> (Inr (c # cs), it'')))"

definition frame_bytes :: "FrameHeader \<Rightarrow> string" where
  "frame_bytes h = take (fh_size h) (fh_data h)"

lemma iterate_items:
  assumes "parse_items cfg data n off depth = Inr e" and "length data < size_limit" and "off \<le> length data"
    and "it_base it = data" "it_current it = off" "it_end it = e" "it_remaining it = n" "it_depth it \<le> depth"
  shows "\<exists>cs it'. iterate_frames n cfg it = (Inr cs, it') \<and> length cs = n \<and>
    concat (map frame_bytes cs) = subspan off (e - off) data \<and> it_remaining it' = 0 \<and> it_current it' = e"
  using assms
proof (induction n arbitrary: off it)
  case 0
  then show ?case by simp
next
  case (Suc n)
  note m = Suc.prems(2)
  from Suc.prems(1) obtain c where c: "ParseFrameInternal cfg (drop off data) depth = Inr c"
    and r: "parse_items cfg data n (sz_add off (fh_size c)) depth = Inr e"
    by (rule parse_items_SucE)
  note co = child_offset [OF c m Suc.prems(3)]
  have le: "off + fh_size c \<le> e" "e \<le> length data" using parse_items_bounds [OF m _ r] co by simp_all
  let ?s = "subspan off (e - off) data"
  let ?c = "c\<lparr>fh_data := ?s\<rparr>"
  have "ParseFrameInternal cfg ?s depth = Inr ?c"
    by (rule parse_agree [OF _ c]) (use m le co in \<open>auto simp: subspan_def min_def\<close>)
  then have cs: "ParseFrameInternal cfg ?s (it_depth it) = Inr ?c"
    using Suc.prems(8) by (rule frame_shallower)
  let ?it = "it\<lparr>it_current := it_current it + fh_size c, it_remaining := it_remaining it - 1\<rparr>"
  have nx: "FrameIterator_Next cfg it = (Inr ?c, ?it)"
    using Suc.prems(4-7) cs le co by (simp add: FrameIterator_Next_def)
  obtain ds it' where it: "iterate_frames n cfg ?it = (Inr ds, it')" "length ds = n"
    "concat (map frame_bytes ds) = subspan (off + fh_size c) (e - (off + fh_size c)) data"
    "it_remaining it' = 0" "it_current it' = e"
    using Suc.IH [OF r [unfolded co(1)] m co(2), of ?it] Suc.prems(4-8) by auto
  have "frame_bytes ?c @ subspan (off + fh_size c) (e - (off + fh_size c)) data = ?s"
    using le subspan_split [of off "fh_size c" "e - (off + fh_size c)" data]
    by (auto simp: frame_bytes_def subspan_def min_def)
  with nx it show ?case by simp
qed

end
