(* ===== verification/Resp_Writer.thy ===== *)
theory Resp_Writer
  imports Resp_Parser
begin

text \<open>
  The RESP writer (\<^verbatim>\<open>include/kio/resp/writer.h\<close>): every primitive is a sequence of appends to
  the connection's output buffer. A message tree is written with the writer's primitives,
  and the parser reads it back.
\<close>

definition WriteSimpleString :: "(nat \<Rightarrow> char) \<Rightarrow> string \<Rightarrow> char IoBuffer \<Rightarrow> char IoBuffer" where
  "WriteSimpleString u s b =
     (let b = IoBuffer_Append u ''+'' b; b = IoBuffer_Append u s b in IoBuffer_Append u crlf b)"

definition WriteError :: "(nat \<Rightarrow> char) \<Rightarrow> string \<Rightarrow> char IoBuffer \<Rightarrow> char IoBuffer" where
  "WriteError u msg b =
     (let b = IoBuffer_Append u ''-'' b; b = IoBuffer_Append u msg b in IoBuffer_Append u crlf b)"

definition WriteInteger :: "(nat \<Rightarrow> char) \<Rightarrow> int \<Rightarrow> char IoBuffer \<Rightarrow> char IoBuffer" where
  "WriteInteger u val b =
     (let b = IoBuffer_Append u '':'' b; b = IoBuffer_Append u (to_chars val) b in IoBuffer_Append u crlf b)"

definition WriteLenPrefix :: "(nat \<Rightarrow> char) \<Rightarrow> char \<Rightarrow> int \<Rightarrow> char IoBuffer \<Rightarrow> char IoBuffer" where
  "WriteLenPrefix u t len b =
     (let b = IoBuffer_Append u (t # to_chars len) b in IoBuffer_Append u crlf b)"

definition WriteBulkString :: "(nat \<Rightarrow> char) \<Rightarrow> string \<Rightarrow> char IoBuffer \<Rightarrow> char IoBuffer" where
  "WriteBulkString u s b =
     (let b = WriteLenPrefix u CHR ''$'' (int (length s)) b; b = IoBuffer_Append u s b
      in IoBuffer_Append u crlf b)"

definition WriteNullBulk :: "(nat \<Rightarrow> char) \<Rightarrow> char IoBuffer \<Rightarrow> char IoBuffer" where
  "WriteNullBulk u b = IoBuffer_Append u (''$-1'' @ crlf) b"

definition WriteArrayHeader :: "(nat \<Rightarrow> char) \<Rightarrow> int \<Rightarrow> char IoBuffer \<Rightarrow> char IoBuffer" where
  "WriteArrayHeader u count b = WriteLenPrefix u CHR ''*'' count b"

definition WriteNullArray :: "(nat \<Rightarrow> char) \<Rightarrow> char IoBuffer \<Rightarrow> char IoBuffer" where
  "WriteNullArray u b = IoBuffer_Append u (''*-1'' @ crlf) b"

definition RespWriter_Commit :: "char IoBuffer \<Rightarrow> char IoBuffer" where
  "RespWriter_Commit b = IoBuffer_Commit b"

definition RespWriter_Rollback :: "char IoBuffer \<Rightarrow> char IoBuffer" where
  "RespWriter_Rollback b = RollbackPending b"

section \<open>Messages\<close>

text \<open>
  The messages the writer can produce, their wire form, and the program that writes one:
  a header for an array, then its elements.
\<close>

datatype resp_value =
    R_Simple string | R_Error string | R_Int int | R_Bulk string | R_NullBulk
  | R_Array "resp_value list" | R_NullArray

fun resp_encode :: "resp_value \<Rightarrow> string" where
  "resp_encode (R_Simple s) = ''+'' @ s @ crlf"
| "resp_encode (R_Error s) = ''-'' @ s @ crlf"
| "resp_encode (R_Int i) = '':'' @ to_chars i @ crlf"
| "resp_encode (R_Bulk s) = ''$'' @ to_chars (int (length s)) @ crlf @ s @ crlf"
| "resp_encode R_NullBulk = ''$-1'' @ crlf"
| "resp_encode (R_Array vs) = ''*'' @ to_chars (int (length vs)) @ crlf @ concat (map resp_encode vs)"
| "resp_encode R_NullArray = ''*-1'' @ crlf"

fun write_value :: "(nat \<Rightarrow> char) \<Rightarrow> resp_value \<Rightarrow> char IoBuffer \<Rightarrow> char IoBuffer" where
  "write_value u (R_Simple s) b = WriteSimpleString u s b"
| "write_value u (R_Error s) b = WriteError u s b"
| "write_value u (R_Int i) b = WriteInteger u i b"
| "write_value u (R_Bulk s) b = WriteBulkString u s b"
| "write_value u R_NullBulk b = WriteNullBulk u b"
| "write_value u (R_Array vs) b = fold (write_value u) vs (WriteArrayHeader u (int (length vs)) b)"
| "write_value u R_NullArray b = WriteNullArray u b"

fun height :: "resp_value \<Rightarrow> nat" where
  "height (R_Array vs) = Suc (foldr (\<lambda>v h. max (height v) h) vs 0)"
| "height _ = 1"

text \<open>A simple string must not contain a line end, and lengths and integers are 64-bit.\<close>

fun writable :: "resp_value \<Rightarrow> bool" where
  "writable (R_Simple s) \<longleftrightarrow> find_sub crlf s = None"
| "writable (R_Error s) \<longleftrightarrow> find_sub crlf s = None"
| "writable (R_Int i) \<longleftrightarrow> int64_min \<le> i \<and> i \<le> int64_max"
| "writable (R_Bulk s) \<longleftrightarrow> length s < 2 ^ 63"
| "writable (R_Array vs) \<longleftrightarrow> length vs < 2 ^ 63 \<and> (\<forall>v \<in> set vs. writable v)"
| "writable _ \<longleftrightarrow> True"

fun value_type :: "resp_value \<Rightarrow> FrameType" where
  "value_type (R_Simple _) = KSimpleString"
| "value_type (R_Error _) = KSimpleError"
| "value_type (R_Int _) = KInteger"
| "value_type (R_Bulk _) = KBulkString"
| "value_type R_NullBulk = KBulkString"
| "value_type (R_Array _) = KArray"
| "value_type R_NullArray = KArray"

fun value_count :: "resp_value \<Rightarrow> nat" where
  "value_count (R_Array vs) = length vs"
| "value_count _ = 0"

section \<open>The writer stages the wire form\<close>

fun value_chunks :: "resp_value \<Rightarrow> string list" where
  "value_chunks (R_Simple s) = [''+'', s, crlf]"
| "value_chunks (R_Error s) = [''-'', s, crlf]"
| "value_chunks (R_Int i) = ['':'', to_chars i, crlf]"
| "value_chunks (R_Bulk s) = [CHR ''$'' # to_chars (int (length s)), crlf, s, crlf]"
| "value_chunks R_NullBulk = [''$-1'' @ crlf]"
| "value_chunks (R_Array vs) = [CHR ''*'' # to_chars (int (length vs)), crlf] @ concat (map value_chunks vs)"
| "value_chunks R_NullArray = [''*-1'' @ crlf]"

lemmas write_defs = WriteSimpleString_def WriteError_def WriteInteger_def WriteLenPrefix_def
  WriteBulkString_def WriteNullBulk_def WriteArrayHeader_def WriteNullArray_def Let_def

lemma fold_concat: "fold (\<lambda>v. fold f (g v)) vs = fold f (concat (map g vs))"
  by (induction vs) auto

lemma write_value_chunks: "write_value u v = fold (IoBuffer_Append u) (value_chunks v)"
proof (induction v)
  case (R_Array vs)
  have "fold (write_value u) vs = fold (\<lambda>v. fold (IoBuffer_Append u) (value_chunks v)) vs"
    by (rule ext, rule fold_cong) (simp_all add: R_Array.IH)
  then show ?case by (auto simp: write_defs fold_concat)
qed (auto simp: write_defs)

lemma concat_value_chunks: "concat (value_chunks v) = resp_encode v"
proof (induction v)
  case (R_Array vs)
  then have "concat (concat (map value_chunks vs)) = concat (map resp_encode vs)"
    by (induction vs) auto
  then show ?case by simp
qed auto

section \<open>The parser reads the wire form\<close>

lemma bytes_types [simp]:
  "FrameType_of_byte CHR ''+'' = Some KSimpleString" "FrameType_of_byte CHR ''-'' = Some KSimpleError"
  "FrameType_of_byte CHR '':'' = Some KInteger" "FrameType_of_byte CHR ''$'' = Some KBulkString"
  "FrameType_of_byte CHR ''*'' = Some KArray"
  by (simp_all add: FrameType_of_byte_def)

lemma find_crlf_line:
  assumes "c \<noteq> CHR 0x0D" and "find_sub crlf s = None"
  shows "find_sub crlf (c # s @ crlf @ rest) = Some (Suc (length s))"
  using find_crlf_first [OF assms(2), of rest] assms(1) by (simp add: crlf_def)

lemma find_crlf_number:
  assumes "c \<noteq> CHR 0x0D"
  shows "find_sub crlf (c # to_chars i @ crlf @ rest) = Some (Suc (length (to_chars i)))"
  using assms by (intro find_crlf_line find_crlf_free to_chars_no_cr)

lemma int_nat_range: "n < 2 ^ 63 \<Longrightarrow> int64_min \<le> int n \<and> int n \<le> int64_max"
  by (simp add: int64_min_def int64_max_def)

lemma parse_len: "n < 2 ^ 63 \<Longrightarrow> ParseInt (to_chars (int n)) = Some (int n)"
  using int_nat_range [of n] by (intro ParseInt_to_chars) auto

lemma parse_simple_wire:
  assumes "c \<noteq> CHR 0x0D" "FrameType_of_byte c = Some t" "is_simple t" "find_sub crlf s = None"
    and "t \<notin> {KBoolean, KDouble}" "t = KInteger \<Longrightarrow> ParseInt s \<noteq> None"
    and m: "length (c # s @ crlf @ rest) < size_limit" and "length s + 3 \<le> max_size cfg" and "depth < max_aggregate_depth cfg"
  shows "ParseFrameInternal cfg (c # s @ crlf @ rest) depth =
    Inr \<lparr>fh_type = t, fh_data = c # s @ crlf @ rest, fh_size = length s + 3, fh_element_count = 0\<rparr>"
  using assms find_crlf_line [OF assms(1,4), of rest] parse_simple_eq [OF m, of cfg t]
  by (auto simp: ParseFrame_eq frame_head_def Let_def)

lemma parse_bulk_wire:
  assumes "length s < 2 ^ 63" and data: "data = CHR ''$'' # to_chars (int (length s)) @ crlf @ s @ crlf @ rest"
    and m: "length data < size_limit" and sz: "length (to_chars (int (length s))) + length s + 5 \<le> max_size cfg"
    and "depth < max_aggregate_depth cfg"
  shows "ParseFrameInternal cfg data depth =
    Inr \<lparr>fh_type = KBulkString, fh_data = data,
      fh_size = length (to_chars (int (length s))) + length s + 5, fh_element_count = 0\<rparr>"
proof -
  let ?p = "Suc (length (to_chars (int (length s))))"
  have p: "find_sub crlf data = Some ?p" unfolding data by (rule find_crlf_number) simp
  have l: "ParseInt (drop 1 (take ?p data)) = Some (int (length s))"
    using parse_len [OF assms(1)] by (simp add: data)
  have "data = (CHR ''$'' # to_chars (int (length s)) @ crlf @ s) @ crlf @ rest" by (simp add: data)
  then have e: "subspan (?p + 2 + length s) 2 data = crlf" by (simp only: subspan_def) simp
  have len: "\<not> length data < ?p + 2 + (length s + 2)" by (simp add: data)
  have "parse_bulk cfg KBulkString data = Inr \<lparr>fh_type = KBulkString, fh_data = data,
      fh_size = ?p + 2 + (length s + 2), fh_element_count = 0\<rparr>"
    using sz e len l by (simp add: parse_bulk_eq [OF m] p bulk_result_def)
  moreover have "data \<noteq> []" "FrameType_of_byte (hd data) = Some KBulkString" by (simp_all add: data)
  ultimately show ?thesis
    using assms(5) by (simp add: ParseFrame_eq frame_head_def is_simple_def is_bulk_def)
qed

lemma parse_array_head:
  assumes "n < 2 ^ 63" and data: "data = CHR ''*'' # to_chars (int n) @ crlf @ rest" and m: "length data < size_limit"
  shows "frame_head cfg KArray data = Inr (n, length (to_chars (int n)) + 3)"
proof -
  let ?p = "Suc (length (to_chars (int n)))"
  have p: "find_sub crlf data = Some ?p" unfolding data by (rule find_crlf_number) simp
  have l: "ParseInt (drop 1 (take ?p data)) = Some (int n)"
    using parse_len [OF assms(1)] by (simp add: data)
  from p l show ?thesis
    by (simp add: frame_head_def is_simple_def is_bulk_def aggregate_header_eq [OF m])
qed

lemma parse_null_wire:
  assumes "c \<in> {CHR ''$'', CHR ''*''}" and data: "data = c # ''-1'' @ crlf @ rest" and m: "length data < size_limit"
    and "5 \<le> max_size cfg" and "depth < max_aggregate_depth cfg"
  shows "ParseFrameInternal cfg data depth =
    Inr \<lparr>fh_type = (if c = CHR ''$'' then KBulkString else KArray), fh_data = data, fh_size = 5, fh_element_count = 0\<rparr>"
proof -
  have tc: "to_chars (- 1) = ''-1''"
    by code_simp
  have "find_sub crlf data = Some (Suc (length (to_chars (- 1))))"
    unfolding data tc [symmetric] by (rule find_crlf_number) (use assms(1) in auto)
  then have p: "find_sub crlf data = Some 3" by (simp add: tc)
  have "ParseInt (to_chars (- 1)) = Some (- 1)"
    by (rule ParseInt_to_chars) (simp_all add: int64_min_def int64_max_def)
  then have l: "ParseInt (drop 1 (take 3 data)) = Some (- 1)" by (simp add: tc data)
  have "data \<noteq> []" "hd data = c" by (simp_all add: data)
  with assms(1,4,5) p l show ?thesis
    by (auto simp: ParseFrame_eq frame_head_def is_simple_def is_bulk_def parse_bulk_eq [OF m] bulk_result_def
        aggregate_header_eq [OF m])
qed

text \<open>
  Reading a message back: it parses as one frame of exactly its own length, unless it is
  nested deeper than the configuration allows, and then the answer is \<open>Overflow\<close>.
\<close>

definition read_back :: "ParserConfig \<Rightarrow> resp_value \<Rightarrow> string \<Rightarrow> nat \<Rightarrow> ParseError + FrameHeader" where
  "read_back cfg v data depth =
     (if depth + height v \<le> max_aggregate_depth cfg
      then Inr \<lparr>fh_type = value_type v, fh_data = data, fh_size = length (resp_encode v), fh_element_count = value_count v\<rparr>
      else Inl Overflow)"

lemma height_pos: "1 \<le> height v"
  by (cases v) simp_all

lemma items_read_back:
  assumes "\<And>v rest. v \<in> set vs \<Longrightarrow> length (resp_encode v @ rest) < size_limit \<Longrightarrow>
        ParseFrameInternal cfg (resp_encode v @ rest) depth = read_back cfg v (resp_encode v @ rest) depth"
    and "length (pre @ concat (map resp_encode vs) @ rest) < size_limit"
  shows "parse_items cfg (pre @ concat (map resp_encode vs) @ rest) (length vs) (length pre) depth =
    (if depth + foldr (\<lambda>v h. max (height v) h) vs 0 \<le> max_aggregate_depth cfg \<or> vs = []
     then Inr (length pre + length (concat (map resp_encode vs))) else Inl Overflow)"
  using assms
proof (induction vs arbitrary: pre)
  case Nil
  then show ?case by simp
next
  case (Cons v vs)
  let ?data = "pre @ concat (map resp_encode (v # vs)) @ rest"
  let ?r = "concat (map resp_encode vs) @ rest"
  have c: "ParseFrameInternal cfg (drop (length pre) ?data) depth = read_back cfg v (resp_encode v @ ?r) depth"
    using Cons.prems(1) [of v ?r] Cons.prems(2) by simp
  show ?case
  proof (cases "depth + height v \<le> max_aggregate_depth cfg")
    case False
    with c show ?thesis by (simp add: read_back_def)
  next
    case True
    have add: "sz_add (length pre) (length (resp_encode v)) = length (pre @ resp_encode v)"
      using Cons.prems(2) by (simp add: sz_add_eq)
    have "parse_items cfg ?data (length (v # vs)) (length pre) depth =
        parse_items cfg ((pre @ resp_encode v) @ ?r) (length vs) (length (pre @ resp_encode v)) depth"
      using c True add by (simp add: read_back_def)
    also have "\<dots> = (if depth + foldr (\<lambda>v h. max (height v) h) vs 0 \<le> max_aggregate_depth cfg \<or> vs = []
        then Inr (length (pre @ resp_encode v) + length (concat (map resp_encode vs))) else Inl Overflow)"
      using Cons.prems by (intro Cons.IH) auto
    finally show ?thesis using True by auto
  qed
qed

lemma encode_le:
  assumes "v \<in> set vs" and "length (resp_encode (R_Array vs)) \<le> m"
  shows "length (resp_encode v) \<le> m"
proof -
  have "length (resp_encode v) \<le> length (concat (map resp_encode vs))"
    using assms(1) by (induction vs) auto
  with assms(2) show ?thesis by simp
qed

lemma parse_resp_encode:
  assumes "writable v" and "length (resp_encode v @ rest) < size_limit" and "length (resp_encode v) \<le> max_size cfg"
  shows "ParseFrameInternal cfg (resp_encode v @ rest) depth = read_back cfg v (resp_encode v @ rest) depth"
proof (cases "depth < max_aggregate_depth cfg")
  case False
  then show ?thesis using height_pos [of v] by (simp add: ParseFrame_eq read_back_def)
next
  case True
  then show ?thesis using assms
  proof (induction v arbitrary: depth rest)
    case (R_Simple s)
    then show ?case using parse_simple_wire [of "CHR ''+''" KSimpleString s rest cfg depth]
      by (simp add: is_simple_def read_back_def)
  next
    case (R_Error s)
    then show ?case using parse_simple_wire [of "CHR ''-''" KSimpleError s rest cfg depth]
      by (simp add: is_simple_def read_back_def)
  next
    case (R_Int i)
    have "find_sub crlf (to_chars i) = None" by (rule find_crlf_free [OF to_chars_no_cr])
    with R_Int show ?case
      using parse_simple_wire [of "CHR '':''" KInteger "to_chars i" rest cfg depth] ParseInt_to_chars [of i]
      by (simp add: is_simple_def read_back_def)
  next
    case (R_Bulk s)
    then show ?case using parse_bulk_wire [of s _ rest cfg depth, OF _ refl]
      by (simp add: read_back_def algebra_simps)
  next
    case R_NullBulk
    then show ?case using parse_null_wire [of "CHR ''$''" _ rest cfg depth, OF _ refl]
      by (simp add: read_back_def)
  next
    case R_NullArray
    then show ?case using parse_null_wire [of "CHR ''*''" _ rest cfg depth, OF _ refl]
      by (simp add: read_back_def)
  next
    case (R_Array vs)
    let ?n = "length vs" let ?pre = "CHR ''*'' # to_chars (int ?n) @ crlf"
    let ?data = "resp_encode (R_Array vs) @ rest"
    have data: "?data = ?pre @ concat (map resp_encode vs) @ rest" by simp
    have hd: "frame_head cfg KArray ?data = Inr (?n, length ?pre)"
      using R_Array.prems by (subst parse_array_head [of ?n _ "concat (map resp_encode vs) @ rest"]) simp_all
    have child: "ParseFrameInternal cfg (resp_encode v @ r) (depth + 1) = read_back cfg v (resp_encode v @ r) (depth + 1)"
      if "v \<in> set vs" "length (resp_encode v @ r) < size_limit" for v r
    proof (cases "depth + 1 < max_aggregate_depth cfg")
      case True
      then show ?thesis
        using that R_Array.prems encode_le [OF that(1)] by (intro R_Array.IH) simp_all
    next
      case False
      then show ?thesis using height_pos [of v] by (simp add: ParseFrame_eq read_back_def)
    qed
    have it: "parse_items cfg ?data ?n (length ?pre) (depth + 1) =
      (if depth + 1 + foldr (\<lambda>v h. max (height v) h) vs 0 \<le> max_aggregate_depth cfg \<or> vs = []
       then Inr (length ?pre + length (concat (map resp_encode vs))) else Inl Overflow)"
      unfolding data by (rule items_read_back) (use child R_Array.prems(3) in auto)
    have "items_to_parse KArray ?n = ?n" by (simp add: items_to_parse_def is_pairs_def)
    moreover have "?data \<noteq> []" "FrameType_of_byte (hd ?data) = Some KArray" by simp_all
    moreover have "length ?pre + length (concat (map resp_encode vs)) = length (resp_encode (R_Array vs))" by simp
    ultimately show ?case
      using R_Array.prems(1,4) hd it
      unfolding ParseFrame_eq [of cfg ?data] read_back_def by (auto split: if_splits)
  qed
qed

section \<open>Properties of the protocol\<close>

text \<open>
  C33: a successful parse reports a frame that lies inside the input and inside the
  configured size limit, starts with the byte of its type, and was reached below the depth
  limit; it never counts more elements than the frame has bytes.
\<close>

theorem parse_within_limits:
  assumes "length data < size_limit" and "ParseFrameInternal cfg data depth = Inr h"
  shows "fh_data h = data \<and> FrameType_of_byte (hd data) = Some (fh_type h) \<and>
    2 \<le> fh_size h \<and> fh_size h \<le> length data \<and> fh_size h \<le> max_size cfg \<and> depth < max_aggregate_depth cfg \<and>
    fh_element_count h \<le> fh_size h"
proof -
  have ok: "frame_ok cfg data h" by (rule parse_frame_ok [OF assms])
  have d: "depth < max_aggregate_depth cfg" using assms(2) by (auto simp: ParseFrame_eq split: if_splits)
  from assms(2) have "fh_element_count h \<le> fh_size h"
  proof (cases rule: ParseFrame_InrE)
    case (leaf t)
    from leaf(4) assms(1) have "fh_element_count h = 0"
      by (auto simp: head_eqs split: option.splits if_splits)
    then show ?thesis by simp
  next
    case (aggregate t count off off')
    note b = frame_head_aggregate [OF aggregate(4) assms(1)]
    with parse_items_bounds [OF assms(1) _ aggregate(5)] aggregate(7) show ?thesis
      by (auto split: if_splits)
  qed
  with ok d show ?thesis by (auto simp: frame_ok_def)
qed

theorem parse_within_limits_witness:
  "\<exists>h. ParseFrameInternal default_ParserConfig (''+OK'' @ crlf) 0 = Inr h \<and> fh_size h \<le> 5"
proof -
  have "ParseFrameInternal default_ParserConfig (resp_encode (R_Simple ''OK'') @ []) 0 =
      read_back default_ParserConfig (R_Simple ''OK'') (resp_encode (R_Simple ''OK'') @ []) 0"
    by (rule parse_resp_encode) (simp_all add: crlf_def size_limit_def default_ParserConfig_def)
  then obtain h where h: "ParseFrameInternal default_ParserConfig (''+OK'' @ crlf) 0 = Inr h"
    by (simp add: read_back_def default_ParserConfig_def)
  with parse_within_limits [OF _ h] show ?thesis by (simp add: size_limit_def)
qed

text \<open>
  C7: a verdict is final. If the parser answers anything but \<open>Incomplete\<close> for the bytes
  received so far, it gives the same answer, with the same size and element count, when
  more bytes follow them; and for a frame it accepts, every strict prefix is
  \<open>Incomplete\<close>, so a slow sender is never taken for a faulty one.
\<close>

theorem parse_verdict_final:
  assumes "length (data @ rest) < size_limit"
  shows "(\<forall>e. ParseFrameInternal cfg data depth = Inl e \<and> e \<noteq> Incomplete \<longrightarrow>
            ParseFrameInternal cfg (data @ rest) depth = Inl e) \<and>
    (\<forall>h. ParseFrameInternal cfg data depth = Inr h \<longrightarrow>
            ParseFrameInternal cfg (data @ rest) depth = Inr (h\<lparr>fh_data := data @ rest\<rparr>) \<and>
            (\<forall>k < fh_size h. ParseFrameInternal cfg (take k data) depth = Inl Incomplete))"
proof (intro conjI allI impI)
  fix e
  assume "ParseFrameInternal cfg data depth = Inl e \<and> e \<noteq> Incomplete"
  with parse_error_final [OF assms] show "ParseFrameInternal cfg (data @ rest) depth = Inl e" by blast
next
  fix h
  assume h: "ParseFrameInternal cfg data depth = Inr h"
  have m: "length data < size_limit" using assms by simp
  then have ok: "frame_ok cfg data h" using h by (rule parse_frame_ok)
  then show "ParseFrameInternal cfg (data @ rest) depth = Inr (h\<lparr>fh_data := data @ rest\<rparr>)"
    by (intro parse_agree [OF m h assms]) (auto simp: frame_ok_def)
  fix k
  assume k: "k < fh_size h"
  have split: "take k data @ drop k data = data" and mk: "length (take k data) < size_limit"
    and mk': "length (take k data @ drop k data) < size_limit" using m by simp_all
  show "ParseFrameInternal cfg (take k data) depth = Inl Incomplete"
  proof (cases "ParseFrameInternal cfg (take k data) depth")
    case (Inl e)
    with parse_error_final [OF mk' Inl] h show ?thesis by (auto simp: split)
  next
    case (Inr h')
    then have ok': "frame_ok cfg (take k data) h'" using mk by (intro parse_frame_ok)
    then have "ParseFrameInternal cfg (take k data @ drop k data) depth = Inr (h'\<lparr>fh_data := data\<rparr>)"
      using parse_agree [OF mk Inr mk'] by (auto simp: frame_ok_def)
    with h have "h = h'\<lparr>fh_data := data\<rparr>" by (simp add: split)
    with ok' k show ?thesis by (auto simp: frame_ok_def)
  qed
qed

theorem parse_verdict_final_witness:
  "ParseFrameInternal default_ParserConfig (take 4 (''+OK'' @ crlf)) 0 = Inl Incomplete"
proof -
  have "ParseFrameInternal default_ParserConfig (resp_encode (R_Simple ''OK'') @ []) 0 =
      read_back default_ParserConfig (R_Simple ''OK'') (resp_encode (R_Simple ''OK'') @ []) 0"
    by (rule parse_resp_encode) (simp_all add: crlf_def size_limit_def default_ParserConfig_def)
  then obtain h where h: "ParseFrameInternal default_ParserConfig (''+OK'' @ crlf) 0 = Inr h" "fh_size h = 5"
    by (simp add: read_back_def default_ParserConfig_def)
  have "length ((''+OK'' @ crlf) @ []) < size_limit" by (simp add: size_limit_def)
  from parse_verdict_final [OF this, of default_ParserConfig 0] h
  have "\<forall>k < 5. ParseFrameInternal default_ParserConfig (take k (''+OK'' @ crlf)) 0 = Inl Incomplete" by simp
  then show ?thesis by (rule allE [of _ 4]) simp
qed

text \<open>
  C6: a message written with the writer's primitives and committed is read back by the
  parser of the connection: \<^verbatim>\<open>NextFrame\<close> reports one frame of exactly the message's length
  and element count, consuming it leaves the bytes behind it, and a message nested deeper
  than the configured depth is answered with \<open>Overflow\<close>, never with a crash of the
  recursion.
\<close>

theorem writer_parser_roundtrip:
  assumes "writable v" and "length (resp_encode v) \<le> max_size (parser_config p)"
    and "buf_inv (parser_buffer p)" and "published (parser_buffer p) = []" and "staged (parser_buffer p) = []"
    and "append_fits (length (resp_encode v)) (parser_buffer p)"
    and p': "p' = p\<lparr>parser_buffer := RespWriter_Commit (write_value u v (parser_buffer p))\<rparr>"
  shows "if height v \<le> max_aggregate_depth (parser_config p)
    then \<exists>h. NextFrame p' = Inr h \<and> frame_bytes h = resp_encode v \<and> fh_type h = value_type v \<and>
           fh_element_count h = value_count v \<and> ReadableSpan (parser_buffer (Parser_ConsumeFrame h p')) = []
    else NextFrame p' = Inl Overflow"
proof -
  let ?cfg = "parser_config p" and ?b = "RespWriter_Commit (write_value u v (parser_buffer p))"
  have w: "write_value u v (parser_buffer p) = fold (IoBuffer_Append u) (value_chunks v) (parser_buffer p)"
    by (simp add: write_value_chunks)
  have fits: "append_fits (length (concat (value_chunks v))) (parser_buffer p)"
    using assms(6) by (simp add: concat_value_chunks)
  have pub: "published ?b = resp_encode v"
    using io_staging.chunks_commit [OF assms(3) fits, of u] assms(4,5)
    by (simp add: RespWriter_Commit_def w concat_value_chunks)
  have inv: "buf_inv ?b"
    using io_staging.append_chunks [OF assms(3) fits, of u]
    by (simp add: RespWriter_Commit_def w Commit_views(1))
  have m: "length (resp_encode v @ []) < size_limit"
    using assms(6) by (simp add: append_fits_def size_limit_def kCompactThreshold_def)
  have nf: "NextFrame p' = read_back ?cfg v (resp_encode v) 0"
    using parse_resp_encode [OF assms(1) m assms(2), of 0]
    by (simp add: NextFrame_def p' ReadableSpan_published [OF inv] pub)
  obtain k b' where c: "IoBuffer_Consume (length (resp_encode v)) ?b = (k, b')" by fastforce
  note cv = Consume_views [OF inv c]
  have "ReadableSpan b' = []" using cv by (simp add: ReadableSpan_published pub)
  with nf c show ?thesis
    by (simp add: read_back_def frame_bytes_def Parser_ConsumeFrame_def Parser_Consume_def p')
qed

theorem writer_parser_roundtrip_witness:
  "let u = (\<lambda>_. CHR ''?''); p = mk_Parser u default_ParserConfig;
       v = R_Array [R_Bulk ''GET'', R_Int (- 7), R_Array []];
       p' = p\<lparr>parser_buffer := RespWriter_Commit (write_value u v (parser_buffer p))\<rparr>
   in \<exists>h. NextFrame p' = Inr h \<and> fh_element_count h = value_count v"
proof -
  let ?u = "\<lambda>_ :: nat. CHR ''?''" and ?v = "R_Array [R_Bulk ''GET'', R_Int (- 7), R_Array []]"
  let ?p = "mk_Parser ?u default_ParserConfig"
  have b: "parser_buffer ?p = mk_IoBuffer ?u 65536" "parser_config ?p = default_ParserConfig"
    by (simp_all add: mk_Parser_def default_ParserConfig_def)
  have i: "buf_inv (parser_buffer ?p)" "published (parser_buffer ?p) = []" "staged (parser_buffer ?p) = []"
    using mk_IoBuffer_views [of 65536 ?u] by (simp_all add: b)
  have len: "length (resp_encode ?v) = 22" by code_simp
  have f: "append_fits (length (resp_encode ?v)) (parser_buffer ?p)"
    using i by (simp only: append_fits_live live_published_staged len) (simp add: kCompactThreshold_def)
  have wr: "writable ?v" by (simp add: int64_min_def int64_max_def)
  have sz: "length (resp_encode ?v) \<le> max_size (parser_config ?p)"
    by (simp only: len b) (simp add: default_ParserConfig_def)
  have "height ?v \<le> max_aggregate_depth (parser_config ?p)"
    by (simp only: b) (simp add: default_ParserConfig_def)
  with writer_parser_roundtrip [OF wr sz i f refl, of ?u]
  have "\<exists>h. NextFrame (?p\<lparr>parser_buffer := RespWriter_Commit (write_value ?u ?v (parser_buffer ?p))\<rparr>) = Inr h \<and>
      fh_element_count h = value_count ?v"
    by (simp only: if_True) blast
  then show ?thesis by (simp add: Let_def)
qed

text \<open>
  The payload accessors invert the writer: for a bulk string the accessor returns the
  written bytes whatever they contain, for a simple string or error the written text, and
  for an integer its decimal form, which reads back as the integer.
\<close>

theorem payload_roundtrip:
  assumes "writable v" and "length (resp_encode v @ rest) < size_limit"
    and "length (resp_encode v) \<le> max_size cfg" and "ParseFrameInternal cfg (resp_encode v @ rest) depth = Inr h"
  shows "case v of
      R_Bulk s \<Rightarrow> GetBulkPayload h = s
    | R_Simple s \<Rightarrow> GetSimplePayload h = s
    | R_Error s \<Rightarrow> GetSimplePayload h = s
    | R_Int i \<Rightarrow> ParseInt (GetSimplePayload h) = Some i
    | _ \<Rightarrow> True"
proof -
  have "Inr h = read_back cfg v (resp_encode v @ rest) depth"
    using parse_resp_encode [OF assms(1,2,3), of depth] assms(4) by simp
  then have data: "fh_data h = resp_encode v @ rest" and size: "fh_size h = length (resp_encode v)"
    by (auto simp: read_back_def split: if_splits)
  show ?thesis
  proof (cases v)
    case (R_Bulk s)
    have "find_sub crlf (take (fh_size h) (fh_data h)) = Some (Suc (length (to_chars (int (length s)))))"
      using find_crlf_number [of "CHR ''$''" "int (length s)" "s @ crlf"] by (simp add: data size R_Bulk)
    then show ?thesis
      by (simp add: R_Bulk GetBulkPayload_def Let_def data size)
  next
    case (R_Int i)
    with assms(1) ParseInt_to_chars show ?thesis
      by (simp add: GetSimplePayload_def data size)
  qed (simp_all add: GetSimplePayload_def data size)
qed

theorem payload_roundtrip_witness:
  "\<exists>h. ParseFrameInternal default_ParserConfig (resp_encode (R_Bulk (''a'' @ crlf)) @ ''x'') 0 = Inr h \<and>
     GetBulkPayload h = ''a'' @ crlf"
proof -
  let ?v = "R_Bulk (''a'' @ crlf)"
  have len: "length (resp_encode ?v) = 9" by code_simp
  have w: "writable ?v" and m: "length (resp_encode ?v @ ''x'') < size_limit"
    and sz: "length (resp_encode ?v) \<le> max_size default_ParserConfig"
    by (simp, simp only: length_append len, simp add: size_limit_def)
      (simp only: len, simp add: default_ParserConfig_def)
  from parse_resp_encode [OF w m sz, of 0] obtain h where
    h: "ParseFrameInternal default_ParserConfig (resp_encode ?v @ ''x'') 0 = Inr h"
    by (simp add: read_back_def default_ParserConfig_def)
  from payload_roundtrip [OF w m sz h] h show ?thesis by simp
qed

text \<open>
  Iterating over the children of an aggregate the parser accepted never fails: the
  iterator, started at any depth not below the one the parser used, yields exactly as many
  children as the parser counted, their bytes are exactly the bytes between the header line
  and the end of the frame, and it ends at the end of the frame.
\<close>

theorem iterator_complete:
  assumes "length data < size_limit" and "ParseFrameInternal cfg data depth = Inr h"
    and "fh_element_count h \<noteq> 0" and "d \<le> depth + 1" and it: "it = mk_FrameIterator h d"
  shows "\<exists>cs it'. iterate_frames (it_remaining it) cfg it = (Inr cs, it') \<and>
    length cs = (if fh_type h = KMap \<or> fh_type h = KAttribute then 2 * fh_element_count h else fh_element_count h) \<and>
    concat (map frame_bytes cs) = drop (it_current it) (frame_bytes h) \<and>
    it_current it' = fh_size h \<and> \<not> FrameIterator_HasNext it'"
  using assms(2)
proof (cases rule: ParseFrame_InrE)
  case (leaf t)
  from leaf(4) assms(1) have "fh_element_count h = 0"
    by (auto simp: head_eqs split: option.splits if_splits)
  with assms(3) show ?thesis by simp
next
  case (aggregate t count off off')
  note b = frame_head_aggregate [OF aggregate(4) assms(1)]
  have le: "off \<le> off'" "off' \<le> length data" using parse_items_bounds [OF assms(1) _ aggregate(5)] b by simp_all
  have "find_sub crlf (take off' data) = Some (off - 2)"
    using b le by (intro find_sub_take) auto
  then have cur: "it_current it = off" using b by (auto simp: it mk_FrameIterator_def aggregate(7))
  have rem: "it_remaining it = items_to_parse t count" "items_to_parse t count = (if is_pairs t then 2 * count else count)"
    using b by (simp_all add: it mk_FrameIterator_def aggregate(7) items_to_parse_def)
  have "\<exists>cs it'. iterate_frames (items_to_parse t count) cfg it = (Inr cs, it') \<and> length cs = items_to_parse t count \<and>
      concat (map frame_bytes cs) = subspan off (off' - off) data \<and> it_remaining it' = 0 \<and> it_current it' = off'"
    by (rule iterate_items [OF aggregate(5) assms(1)])
      (use b cur rem assms(4) in \<open>simp_all add: it mk_FrameIterator_def aggregate(7) items_to_parse_def\<close>)
  moreover have "drop off (frame_bytes h) = subspan off (off' - off) data"
    using le by (simp add: frame_bytes_def aggregate(7) subspan_def drop_take)
  ultimately show ?thesis
    using rem cur by (auto simp: FrameIterator_HasNext_def aggregate(7) is_pairs_def)
qed

theorem iterator_complete_witness:
  "\<exists>h cs it'. ParseFrameInternal default_ParserConfig (resp_encode (R_Array [R_Int 1, R_NullBulk])) 0 = Inr h \<and>
     iterate_frames 2 default_ParserConfig (mk_FrameIterator h 0) = (Inr cs, it') \<and> length cs = 2"
proof -
  let ?v = "R_Array [R_Int 1, R_NullBulk]"
  have len: "length (resp_encode ?v) = 13" by code_simp
  have w: "writable ?v" by (simp add: int64_min_def int64_max_def)
  have m: "length (resp_encode ?v @ []) < size_limit" by (simp only: length_append len) (simp add: size_limit_def)
  have sz: "length (resp_encode ?v) \<le> max_size default_ParserConfig"
    by (simp only: len) (simp add: default_ParserConfig_def)
  from parse_resp_encode [OF w m sz, of 0] obtain h where
    h: "ParseFrameInternal default_ParserConfig (resp_encode ?v @ []) 0 = Inr h"
    and c: "fh_element_count h = 2" "fh_type h = KArray"
    by (simp add: read_back_def default_ParserConfig_def)
  have r: "it_remaining (mk_FrameIterator h 0) = 2" by (simp add: mk_FrameIterator_def c is_pairs_def)
  from iterator_complete [OF m h _ _ refl, of 0] c r h show ?thesis by auto
qed

end
