(* ===== verification/Fifo.thy ===== *)
theory Fifo
  imports Kio_Prelude
begin

text \<open>
  The contract of a bounded first-in first-out queue, shared by the ring buffer of the
  logger and the job queue of the blocking pool: a push is accepted while there is room, a
  pop hands out the oldest element. The client lemma says that over any sequence of
  operations nothing is lost, duplicated or reordered.
\<close>

datatype 'a fifo_op = Push 'a | Pop

text \<open>Run a sequence of operations; collect what was accepted and what was handed out.\<close>

fun fifo_run :: "('a \<Rightarrow> 's \<Rightarrow> bool \<times> 's) \<Rightarrow> ('s \<Rightarrow> 'a option \<times> 's) \<Rightarrow> 'a fifo_op list \<Rightarrow> 's \<Rightarrow> 'a list \<times> 'a list \<times> 's" where
  "fifo_run push pop [] s = ([], [], s)"
| "fifo_run push pop (Push x # ops) s =
     (case push x s of (ok, s') \<Rightarrow> case fifo_run push pop ops s' of (ins, outs, t) \<Rightarrow> (if ok then x # ins else ins, outs, t))"
| "fifo_run push pop (Pop # ops) s =
     (case pop s of (r, s') \<Rightarrow>
        case fifo_run push pop ops s' of (ins, outs, t) \<Rightarrow> (ins, (case r of None \<Rightarrow> outs | Some x \<Rightarrow> x # outs), t))"

locale bounded_fifo =
  fixes push :: "'a \<Rightarrow> 's \<Rightarrow> bool \<times> 's"
    and pop :: "'s \<Rightarrow> 'a option \<times> 's"
    and contents :: "'s \<Rightarrow> 'a list"
    and inv :: "'s \<Rightarrow> bool"
    and bound :: "'s \<Rightarrow> nat"
  assumes push_ok: "inv s \<Longrightarrow> length (contents s) < bound s \<Longrightarrow>
      \<exists>s'. push x s = (True, s') \<and> inv s' \<and> contents s' = contents s @ [x] \<and> bound s' = bound s"
    and push_full: "inv s \<Longrightarrow> bound s \<le> length (contents s) \<Longrightarrow> push x s = (False, s)"
    and pop_ok: "inv s \<Longrightarrow> contents s = x # xs \<Longrightarrow> \<exists>s'. pop s = (Some x, s') \<and> inv s' \<and> contents s' = xs \<and> bound s' = bound s"
    and pop_empty: "inv s \<Longrightarrow> contents s = [] \<Longrightarrow> pop s = (None, s)"
    and bounded: "inv s \<Longrightarrow> length (contents s) \<le> bound s"
begin

lemma push_cases:
  assumes "inv s"
  obtains s' where "push x s = (True, s')" "inv s'" "contents s' = contents s @ [x]" "bound s' = bound s" "length (contents s) < bound s"
  | "push x s = (False, s)" "length (contents s) = bound s"
  using push_ok [OF assms] push_full [OF assms] bounded [OF assms] by (meson le_antisym not_less)

lemma pop_cases:
  assumes "inv s"
  obtains x xs s' where "pop s = (Some x, s')" "inv s'" "contents s = x # xs" "contents s' = xs" "bound s' = bound s"
  | "pop s = (None, s)" "contents s = []"
  using pop_ok [OF assms] pop_empty [OF assms] by (cases "contents s") blast+

lemma run_fifo:
  assumes "inv s" and "fifo_run push pop ops s = (ins, outs, t)"
  shows "inv t \<and> contents s @ ins = outs @ contents t \<and> bound t = bound s"
  using assms
proof (induction ops arbitrary: s ins outs)
  case (Cons op ops)
  show ?case
  proof (cases op)
    case (Push x)
    from Cons.prems(1) show ?thesis
    proof (cases rule: push_cases [of s x])
      case (1 s')
      with Cons.IH [of s'] Cons.prems Push show ?thesis by (fastforce split: prod.splits)
    next
      case 2
      with Cons.IH [of s] Cons.prems Push show ?thesis by (auto split: prod.splits)
    qed
  next
    case Pop
    from Cons.prems(1) show ?thesis
    proof (cases rule: pop_cases [of s])
      case (1 x xs s')
      with Cons.IH [of s'] Cons.prems Pop show ?thesis by (fastforce split: prod.splits)
    next
      case 2
      with Cons.IH [of s] Cons.prems Pop show ?thesis by (auto split: prod.splits)
    qed
  qed
qed simp

end

section \<open>Positions in a ring\<close>

text \<open>The elements of a ring of \<open>length buf\<close> slots, \<open>n\<close> of them from position \<open>i\<close> on.\<close>

definition ring :: "nat \<Rightarrow> nat \<Rightarrow> 'a list \<Rightarrow> 'a list" where
  "ring i n buf = map (\<lambda>k. buf ! ((i + k) mod length buf)) [0 ..< n]"

lemma length_ring [simp]: "length (ring i n buf) = n"
  by (simp add: ring_def)

lemma ring_0 [simp]: "ring i 0 buf = []"
  by (simp add: ring_def)

lemma ring_Suc: "ring i (Suc n) buf = buf ! (i mod length buf) # ring (Suc i) n buf"
  by (simp add: ring_def upt_conv_Cons del: upt_Suc) (simp add: map_Suc_upt [symmetric] comp_def del: upt_Suc)

lemma ring_mod: "ring (i mod length buf) n buf = ring i n buf"
  by (simp add: ring_def mod_add_left_eq)

text \<open>Two of at most \<open>m\<close> consecutive positions never share a slot.\<close>

lemma mod_eq_close:
  assumes "(a :: nat) mod m = b mod m" and "a \<le> b" and "b < a + m"
  shows "a = b"
proof -
  have "(b - a) mod m = 0" using assms(1,2) by (metis mod_eq_dvd_iff_nat mod_0_imp_dvd dvd_imp_mod_0)
  moreover have "b - a < m" using assms by simp
  ultimately show ?thesis using assms(2) by simp
qed

lemma ring_snoc:
  assumes "n < length buf"
  shows "ring i (Suc n) (buf[(i + n) mod length buf := x]) = ring i n buf @ [x]"
proof -
  have "(i + n) mod length buf \<noteq> (i + k) mod length buf" if "k < n" for k
    using mod_eq_close [of "i + k" "length buf" "i + n"] that assms by auto
  moreover have "(i + n) mod length buf < length buf" using assms by (intro mod_less_divisor) auto
  ultimately show ?thesis by (auto simp: ring_def nth_list_update)
qed

end
