(* ===== verification/Logger.thy ===== *)
theory Logger
  imports Fifo
begin

unbundle bit_operations_syntax

text \<open>
  The asynchronous logger (\<^verbatim>\<open>include/kio/logger.hpp\<close>): every thread formats its lines into a ring
  of its own, one background thread drains the rings. The formatted text of a line comes from
  \<^verbatim>\<open>std::format\<close>, so the prefix and the message are arguments. The atomic variables of the
  ring are read and written one at a time in the step relation \<open>spsc_step\<close>; the acquire and
  release orderings make these steps sequentially consistent for one producer and one
  consumer. What the background thread hands to \<^verbatim>\<open>writev\<close> is collected in a list.
\<close>

section \<open>Parameters and records\<close>

datatype Level = Debug | Info | Warn | LevelError | Fatal | Disabled

fun level_no :: "Level \<Rightarrow> nat" where
  "level_no Debug = 0" | "level_no Info = 1" | "level_no Warn = 2" | "level_no LevelError = 3" | "level_no Fatal = 4"
| "level_no Disabled = 5"

definition kMaxThreads :: nat where "kMaxThreads = 64"
definition kQueueSize :: nat where "kQueueSize = 1024"
definition kMsgMax :: nat where "kMsgMax = 512"
definition kMaxBatch :: nat where "kMaxBatch = 16"

record Record =
  rec_len :: u16
  rec_level :: u8
  rec_msg :: string

definition blank_Record :: Record where
  "blank_Record = \<lparr>rec_len = 0, rec_level = 0, rec_msg = []\<rparr>"

text \<open>The part of a path behind its last slash.\<close>

fun basename :: "string \<Rightarrow> string" where
  "basename [] = []"
| "basename (c # cs) = (if CHR ''/'' \<in> set cs then basename cs else if c = CHR ''/'' then cs else c # cs)"

section \<open>Formatting\<close>

text \<open>\<^verbatim>\<open>std::format_to_n\<close> at the end of what has been written so far: the text is cut at the limit.\<close>

definition format_to_n :: "nat \<Rightarrow> string \<Rightarrow> string \<Rightarrow> string" where
  "format_to_n limit p text = p @ take (limit - length p) text"

definition kReset :: string where
  "kReset = [CHR 0x1B, CHR ''['', CHR ''0'', CHR ''m'']"

text \<open>
  \<open>pre\<close> is the formatted prefix for the chosen level and colour setting, \<open>body\<close> the formatted
  message; \<open>r\<close> is the record that is filled in.
\<close>

definition format_into :: "bool \<Rightarrow> Level \<Rightarrow> string \<Rightarrow> string \<Rightarrow> Record \<Rightarrow> Record" where
  "format_into colors lvl pre body r =
     (let limit = kMsgMax - 2;
          p = format_to_n limit [] pre;
          p = (if length p < limit then format_to_n limit p body else p);
          p = (if colors \<and> length p < limit then format_to_n limit p kReset else p);
          p = (if length p < limit then p @ [CHR 0x0A] else p)
      in r\<lparr>rec_level := of_nat (level_no lvl), rec_msg := p, rec_len := of_nat (length p)\<rparr>)"

section \<open>The ring of one thread\<close>

record SPSC =
  head :: u32
  tail :: u32
  buf :: "Record list"

definition mk_SPSC :: SPSC where
  "mk_SPSC = \<lparr>head = 0, tail = 0, buf = replicate kQueueSize blank_Record\<rparr>"

definition slot_of :: "u32 \<Rightarrow> nat" where
  "slot_of i = unat (i AND (of_nat kQueueSize - 1))"

definition try_push :: "Record \<Rightarrow> SPSC \<Rightarrow> bool \<times> SPSC" where
  "try_push r q =
     (let h = head q; t = tail q
      in if of_nat kQueueSize \<le> h - t then (False, q)
         else (True, q\<lparr>buf := (buf q)[slot_of h := r], head := h + 1\<rparr>))"

definition try_pop :: "SPSC \<Rightarrow> Record option \<times> SPSC" where
  "try_pop q =
     (let t = tail q; h = head q
      in if t = h then (None, q) else (Some (buf q ! slot_of t), q\<lparr>tail := t + 1\<rparr>))"

definition is_empty :: "SPSC \<Rightarrow> bool" where
  "is_empty q \<longleftrightarrow> head q = tail q"

section \<open>Slots and the background thread\<close>

record ThreadSlot =
  active :: bool
  slot_q :: SPSC

record Logger =
  g_level :: Level
  g_colors :: bool
  g_slots :: "ThreadSlot list"
  g_next_slot :: u32
  g_epoch :: u32
  g_running :: bool
  g_dropped :: u64

definition mk_Logger :: Logger where
  "mk_Logger = \<lparr>g_level = Info, g_colors = True, g_slots = replicate kMaxThreads \<lparr>active = False, slot_q = mk_SPSC\<rparr>,
     g_next_slot = 0, g_epoch = 0, g_running = False, g_dropped = 0\<rparr>"

definition wake_logger :: "Logger \<Rightarrow> Logger" where
  "wake_logger g = g\<lparr>g_epoch := g_epoch g + 1\<rparr>"

text \<open>Registration of a thread: its slot, or \<open>None\<close> for \<^verbatim>\<open>UINT32_MAX\<close>; and what its end does.\<close>

definition mk_ThreadRegGuard :: "Logger \<Rightarrow> nat option \<times> Logger" where
  "mk_ThreadRegGuard g =
     (let idx = unat (g_next_slot g); g = g\<lparr>g_next_slot := g_next_slot g + 1\<rparr>
      in if idx < kMaxThreads then (Some idx, g\<lparr>g_slots := (g_slots g)[idx := (g_slots g ! idx)\<lparr>active := True\<rparr>]\<rparr>)
         else (None, g))"

definition ThreadRegGuard_end :: "nat option \<Rightarrow> Logger \<Rightarrow> Logger" where
  "ThreadRegGuard_end slot g =
     (case slot of
        None \<Rightarrow> g
      | Some idx \<Rightarrow> wake_logger (g\<lparr>g_slots := (g_slots g)[idx := (g_slots g ! idx)\<lparr>active := False\<rparr>]\<rparr>))"

text \<open>At most \<open>n\<close> pops from one ring.\<close>

fun pop_batch :: "nat \<Rightarrow> SPSC \<Rightarrow> Record list \<times> SPSC" where
  "pop_batch 0 q = ([], q)"
| "pop_batch (Suc n) q =
     (case try_pop q of
        (None, q') \<Rightarrow> ([], q')
      | (Some r, q') \<Rightarrow> (case pop_batch n q' of (rs, q'') \<Rightarrow> (r # rs, q'')))"

definition drain_slot :: "ThreadSlot \<Rightarrow> Record list \<times> ThreadSlot" where
  "drain_slot s =
     (if \<not> active s \<and> is_empty (slot_q s) then ([], s)
      else case pop_batch kMaxBatch (slot_q s) of (rs, q) \<Rightarrow> (rs, s\<lparr>slot_q := q\<rparr>))"

text \<open>The batches handed to \<^verbatim>\<open>writev\<close>, one per slot that had any; whether there was work.\<close>

definition drain_all :: "Logger \<Rightarrow> bool \<times> Record list list \<times> Logger" where
  "drain_all g =
     (let res = map drain_slot (g_slots g);
          batches = filter (\<lambda>b. b \<noteq> []) (map fst res)
      in (batches \<noteq> [], batches, g\<lparr>g_slots := map snd res\<rparr>))"

text \<open>
  One round of the loop of the background thread: \<open>True\<close> if the loop goes on. When there was no
  work, it sleeps until the epoch is different from the one read at the start of the round.
\<close>

definition logger_round :: "Logger \<Rightarrow> bool \<times> Record list list \<times> Logger" where
  "logger_round g =
     (if \<not> g_running g then (case drain_all g of (_, out, g') \<Rightarrow> (False, out, g'))
      else case drain_all g of (_, out, g') \<Rightarrow> (True, out, g'))"

definition logger_sleeps :: "u32 \<Rightarrow> bool \<Rightarrow> Logger \<Rightarrow> bool" where
  "logger_sleeps captured_epoch did_work g \<longleftrightarrow> \<not> did_work \<and> g_epoch g = captured_epoch"

definition start :: "Logger \<Rightarrow> Logger" where
  "start g = (if g_running g then g else g\<lparr>g_running := True\<rparr>)"

definition stop :: "Logger \<Rightarrow> Logger" where
  "stop g = (if \<not> g_running g then g else wake_logger (g\<lparr>g_running := False\<rparr>))"

definition dropped_count :: "Logger \<Rightarrow> u64" where
  "dropped_count g = g_dropped g"

text \<open>The end of \<^verbatim>\<open>log_impl\<close>: whether the ring was empty has been looked up before.\<close>

definition log_push :: "nat \<Rightarrow> Record \<Rightarrow> bool \<Rightarrow> Logger \<Rightarrow> bool \<times> Logger" where
  "log_push i r was_empty g =
     (case try_push r (slot_q (g_slots g ! i)) of
        (False, _) \<Rightarrow> (False, g\<lparr>g_dropped := g_dropped g + 1\<rparr>)
      | (True, q') \<Rightarrow>
          let g = g\<lparr>g_slots := (g_slots g)[i := (g_slots g ! i)\<lparr>slot_q := q'\<rparr>]\<rparr>
          in (True, if was_empty then wake_logger g else g))"

text \<open>
  \<open>slot\<close> is the slot of the calling thread, \<open>build\<close> the lowest level that is compiled in. The
  result says whether the line is in the ring.
\<close>

definition log_impl :: "Level \<Rightarrow> Level \<Rightarrow> nat option \<Rightarrow> string \<Rightarrow> string \<Rightarrow> Logger \<Rightarrow> bool \<times> Logger" where
  "log_impl build l slot pre body g =
     (if \<not> level_no build \<le> level_no l then (False, g)
      else
        let g = (if \<not> g_running g then start g else g)
        in if level_no l < level_no (g_level g) then (False, g)
           else case slot of
                  None \<Rightarrow> (False, g\<lparr>g_dropped := g_dropped g + 1\<rparr>)
                | Some i \<Rightarrow>
                    let r = format_into (g_colors g) l pre body blank_Record;
                        was_empty = is_empty (slot_q (g_slots g ! i))
                    in log_push i r was_empty g)"

section \<open>The ring is a bounded queue\<close>

definition spsc_inv :: "SPSC \<Rightarrow> bool" where
  "spsc_inv q \<longleftrightarrow> length (buf q) = kQueueSize \<and> unat (head q - tail q) \<le> kQueueSize"

definition spsc_contents :: "SPSC \<Rightarrow> Record list" where
  "spsc_contents q = ring (unat (tail q)) (unat (head q - tail q)) (buf q)"

lemma slot_of_mod: "slot_of i = unat i mod 1024"
proof -
  have "i AND (of_nat kQueueSize - 1) = take_bit 10 i"
    by (simp add: take_bit_eq_mask mask_eq_exp_minus_1 kQueueSize_def)
  then show ?thesis by (simp add: slot_of_def take_bit_eq_mod unat_mod)
qed

lemma slot_of_add: "slot_of (i + of_nat n) = (unat i + n) mod 1024"
proof -
  have "unat (i + of_nat n) = (unat i + n) mod 2 ^ 32" by (simp add: unat_word_ariths unat_of_nat mod_add_right_eq)
  then show ?thesis by (simp add: slot_of_mod mod_mod_cancel)
qed

lemma ring_u32: "length xs = 1024 \<Longrightarrow> ring (unat (i + of_nat n :: u32)) k xs = ring (unat i + n) k xs"
  using slot_of_add [of i n] ring_mod [of "unat (i + of_nat n)" xs k] ring_mod [of "unat i + n" xs k] by (simp add: slot_of_mod)

lemma kQueueSize_u32: "(of_nat kQueueSize \<le> (x :: u32)) \<longleftrightarrow> kQueueSize \<le> unat x"
  by (simp add: word_le_nat_alt kQueueSize_def)

lemma u32_grow:
  assumes "unat (h - t :: u32) < 1024"
  shows "unat (h + 1 - t) = Suc (unat (h - t))"
proof -
  have "unat (x + 1) = Suc (unat x)" if "unat x < 1024" for x :: u32 using that by (simp add: unat_plus_if')
  from this [OF assms] show ?thesis by (simp add: algebra_simps)
qed

lemma u32_shrink: "h \<noteq> (t :: u32) \<Longrightarrow> unat (h - (t + 1)) = unat (h - t) - 1"
proof -
  assume "h \<noteq> t"
  then have "h - t \<noteq> 0" by simp
  moreover have "h - (t + 1) = (h - t) - 1" by simp
  ultimately show ?thesis by (metis unat_minus_one)
qed

interpretation spsc: bounded_fifo try_push try_pop spsc_contents spsc_inv "\<lambda>_. kQueueSize"
proof unfold_locales
  fix s x
  assume i: "spsc_inv s" and l: "length (spsc_contents s) < kQueueSize"
  let ?n = "unat (head s - tail s)"
  have n: "?n < 1024" using l by (simp add: spsc_contents_def kQueueSize_def)
  let ?s = "s\<lparr>buf := (buf s)[slot_of (head s) := x], head := head s + 1\<rparr>"
  have p: "try_push x s = (True, ?s)" using n by (simp add: try_push_def Let_def kQueueSize_u32) (simp add: kQueueSize_def)
  have sl: "slot_of (head s) = (unat (tail s) + ?n) mod 1024" using slot_of_add [of "tail s" ?n] by simp
  have b: "length (buf s) = 1024" using i by (simp add: spsc_inv_def kQueueSize_def)
  have "spsc_contents ?s = ring (unat (tail s)) (Suc ?n) ((buf s)[(unat (tail s) + ?n) mod length (buf s) := x])"
    using u32_grow [OF n] by (simp add: spsc_contents_def sl b)
  also have "\<dots> = spsc_contents s @ [x]" using ring_snoc [of ?n "buf s"] n b by (simp add: spsc_contents_def)
  finally have "spsc_contents ?s = spsc_contents s @ [x]" .
  moreover have "spsc_inv ?s" using i u32_grow [OF n] n by (simp add: spsc_inv_def kQueueSize_def)
  ultimately show "\<exists>s'. try_push x s = (True, s') \<and> spsc_inv s' \<and> spsc_contents s' = spsc_contents s @ [x] \<and> kQueueSize = kQueueSize"
    using p by blast
next
  fix s x
  assume "spsc_inv s" and "kQueueSize \<le> length (spsc_contents s)"
  then show "try_push x s = (False, s)" by (simp add: try_push_def Let_def kQueueSize_u32 spsc_contents_def)
next
  fix s x xs
  assume i: "spsc_inv s" and c: "spsc_contents s = x # xs"
  then have ne: "head s \<noteq> tail s" by (auto simp: spsc_contents_def)
  obtain n where n: "unat (head s - tail s) = Suc n" using ne by (metis not0_implies_Suc right_minus_eq unat_eq_zero)
  have b: "length (buf s) = 1024" using i by (simp add: spsc_inv_def kQueueSize_def)
  let ?s = "s\<lparr>tail := tail s + 1\<rparr>"
  have cc: "buf s ! slot_of (tail s) = x" "ring (Suc (unat (tail s))) n (buf s) = xs"
    using c by (simp_all add: spsc_contents_def n ring_Suc slot_of_mod b)
  have "spsc_contents ?s = xs"
    using cc(2) u32_shrink [OF ne] ring_u32 [OF b, of "tail s" 1 n] by (simp add: spsc_contents_def n)
  moreover have "spsc_inv ?s" using i u32_shrink [OF ne] by (simp add: spsc_inv_def n)
  moreover have "try_pop s = (Some x, ?s)" using ne cc(1) by (simp add: try_pop_def)
  ultimately show "\<exists>s'. try_pop s = (Some x, s') \<and> spsc_inv s' \<and> spsc_contents s' = xs \<and> kQueueSize = kQueueSize" by blast
next
  fix s
  assume "spsc_inv s" and c: "spsc_contents s = []"
  have "length (spsc_contents s) = unat (head s - tail s)" by (simp add: spsc_contents_def)
  then have "head s = tail s" using c by (simp add: unat_eq_zero)
  then show "try_pop s = (None, s)" by (simp add: try_pop_def)
qed (simp add: spsc_inv_def spsc_contents_def)

lemma is_empty_contents: "is_empty q \<longleftrightarrow> spsc_contents q = []"
  by (metis is_empty_def length_0_conv length_ring right_minus_eq spsc_contents_def unat_eq_zero)

section \<open>One producer and one consumer\<close>

text \<open>
  Where the two threads are in the middle of \<^verbatim>\<open>try_push\<close> and \<^verbatim>\<open>try_pop\<close>, with the values they have
  loaded; \<open>pushed\<close> and \<open>popped\<close> are the records accepted and handed out so far.
\<close>

datatype producer = PIdle | PHead Record u32 | PTail Record u32 u32 | PWrote Record u32

datatype consumer = CIdle | CTail u32 | CHead u32 u32 | CRead u32 Record

record spsc_state =
  ring_q :: SPSC
  prod :: producer
  cons :: consumer
  pushed :: "Record list"
  popped :: "Record list"

inductive spsc_step :: "spsc_state \<Rightarrow> spsc_state \<Rightarrow> bool" where
  p_load_head: "prod s = PIdle \<Longrightarrow> spsc_step s (s\<lparr>prod := PHead r (head (ring_q s))\<rparr>)"
| p_load_tail: "prod s = PHead r h \<Longrightarrow> spsc_step s (s\<lparr>prod := PTail r h (tail (ring_q s))\<rparr>)"
| p_full: "prod s = PTail r h t \<Longrightarrow> of_nat kQueueSize \<le> h - t \<Longrightarrow> spsc_step s (s\<lparr>prod := PIdle\<rparr>)"
| p_write: "prod s = PTail r h t \<Longrightarrow> h - t < of_nat kQueueSize \<Longrightarrow>
    spsc_step s (s\<lparr>ring_q := (ring_q s)\<lparr>buf := (buf (ring_q s))[slot_of h := r]\<rparr>, prod := PWrote r h\<rparr>)"
| p_publish: "prod s = PWrote r h \<Longrightarrow>
    spsc_step s (s\<lparr>ring_q := (ring_q s)\<lparr>head := h + 1\<rparr>, prod := PIdle, pushed := pushed s @ [r]\<rparr>)"
| c_load_tail: "cons s = CIdle \<Longrightarrow> spsc_step s (s\<lparr>cons := CTail (tail (ring_q s))\<rparr>)"
| c_load_head: "cons s = CTail t \<Longrightarrow> spsc_step s (s\<lparr>cons := CHead t (head (ring_q s))\<rparr>)"
| c_empty: "cons s = CHead t h \<Longrightarrow> t = h \<Longrightarrow> spsc_step s (s\<lparr>cons := CIdle\<rparr>)"
| c_read: "cons s = CHead t h \<Longrightarrow> t \<noteq> h \<Longrightarrow> spsc_step s (s\<lparr>cons := CRead t (buf (ring_q s) ! slot_of t)\<rparr>)"
| c_release: "cons s = CRead t out \<Longrightarrow>
    spsc_step s (s\<lparr>ring_q := (ring_q s)\<lparr>tail := t + 1\<rparr>, cons := CIdle, popped := popped s @ [out]\<rparr>)"

inductive_cases spsc_stepE: "spsc_step s s'"

text \<open>
  With \<open>P\<close> records accepted and \<open>C\<close> handed out, the counters are these numbers modulo
  \<open>2 ^ 32\<close>, the slots between them hold what was pushed, and a value a thread has loaded is
  one the other thread's counter had at some time since.
\<close>

definition producer_ok :: "Record list \<Rightarrow> nat \<Rightarrow> nat \<Rightarrow> producer \<Rightarrow> bool" where
  "producer_ok b P C p \<longleftrightarrow>
     (case p of
        PIdle \<Rightarrow> True
      | PHead r h \<Rightarrow> h = of_nat P
      | PTail r h t \<Rightarrow> h = of_nat P \<and> (\<exists>C' \<le> C. t = of_nat C' \<and> P \<le> C' + kQueueSize)
      | PWrote r h \<Rightarrow> h = of_nat P \<and> P < C + kQueueSize \<and> b ! (P mod kQueueSize) = r)"

definition consumer_ok :: "Record list \<Rightarrow> nat \<Rightarrow> consumer \<Rightarrow> bool" where
  "consumer_ok xs C c \<longleftrightarrow>
     (case c of
        CIdle \<Rightarrow> True
      | CTail t \<Rightarrow> t = of_nat C
      | CHead t h \<Rightarrow> t = of_nat C \<and> (\<exists>P' \<le> length xs. C \<le> P' \<and> h = of_nat P')
      | CRead t out \<Rightarrow> t = of_nat C \<and> C < length xs \<and> out = xs ! C)"

definition ring_ok :: "Record list \<Rightarrow> nat \<Rightarrow> SPSC \<Rightarrow> bool" where
  "ring_ok xs C q \<longleftrightarrow>
     length (buf q) = kQueueSize \<and> head q = of_nat (length xs) \<and> tail q = of_nat C \<and> C \<le> length xs \<and> length xs \<le> C + kQueueSize \<and>
     (\<forall>i. C \<le> i \<and> i < length xs \<longrightarrow> buf q ! (i mod kQueueSize) = xs ! i)"

definition spsc_ok :: "spsc_state \<Rightarrow> bool" where
  "spsc_ok s \<longleftrightarrow>
     popped s = take (length (popped s)) (pushed s) \<and> ring_ok (pushed s) (length (popped s)) (ring_q s) \<and>
     producer_ok (buf (ring_q s)) (length (pushed s)) (length (popped s)) (prod s) \<and>
     consumer_ok (pushed s) (length (popped s)) (cons s)"

lemma counter_diff:
  assumes "C \<le> P" and "P \<le> C + kQueueSize"
  shows "unat (of_nat P - of_nat C :: u32) = P - C"
proof -
  have "(of_nat P - of_nat C :: u32) = of_nat (P - C)" using assms(1) by simp
  moreover have "P - C < 2 ^ 32" using assms(2) by (simp add: kQueueSize_def)
  ultimately show ?thesis by (simp add: unat_of_nat)
qed

lemma slot_of_nat: "slot_of (of_nat i) = i mod kQueueSize"
  using slot_of_add [of 0 i] by (simp add: kQueueSize_def)

lemma slots_differ: "i < P \<Longrightarrow> P < i + kQueueSize \<Longrightarrow> P mod kQueueSize \<noteq> i mod kQueueSize"
  using mod_eq_close [of i kQueueSize P] by auto

lemma ring_ok_contents:
  assumes "ring_ok xs C q"
  shows "spsc_contents q = drop C xs" and "spsc_inv q"
proof -
  have n: "unat (head q - tail q) = length xs - C" using assms counter_diff by (simp add: ring_ok_def)
  show "spsc_inv q" using assms n by (auto simp: spsc_inv_def ring_ok_def)
  have b: "length (buf q) = 1024" "tail q = of_nat C" using assms by (simp_all add: ring_ok_def kQueueSize_def)
  have "spsc_contents q = ring C (length xs - C) (buf q)"
    using ring_u32 [OF b(1), of 0 C "length xs - C"] unfolding spsc_contents_def n unfolding b(2) by simp
  also have "\<dots> = drop C xs"
    using assms b(1) by (intro nth_equalityI) (auto simp: ring_def ring_ok_def kQueueSize_def)
  finally show "spsc_contents q = drop C xs" .
qed

lemma spsc_step_ok: "spsc_step s s' \<Longrightarrow> spsc_ok s \<Longrightarrow> spsc_ok s'"
proof (induction rule: spsc_step.induct)
  case (p_write s r h t)
  let ?P = "length (pushed s)" and ?C = "length (popped s)"
  obtain C' where h: "h = of_nat ?P" and t: "t = of_nat C'" "C' \<le> ?C" "?P \<le> C' + kQueueSize"
    using p_write by (auto simp: spsc_ok_def producer_ok_def)
  have "C' \<le> ?P" using t(2) p_write.prems by (simp add: spsc_ok_def ring_ok_def)
  from counter_diff [OF this t(3)] p_write.hyps(2) have "?P - C' < kQueueSize"
    by (simp add: h t(1) kQueueSize_u32 flip: not_le)
  then have lt: "?P < ?C + kQueueSize" using t(2) by simp
  have keep: "?P mod kQueueSize \<noteq> i mod kQueueSize" if "?C \<le> i" "i < ?P" for i
    using that lt by (intro slots_differ) simp_all
  with p_write lt show ?case
    by (auto simp: spsc_ok_def ring_ok_def producer_ok_def slot_of_nat h)
next
  case (p_publish s r h)
  then show ?case
    by (auto simp: spsc_ok_def ring_ok_def producer_ok_def consumer_ok_def nth_append less_Suc_eq split: consumer.splits intro: le_SucI)
next
  case (c_read s t h)
  let ?P = "length (pushed s)" and ?C = "length (popped s)"
  obtain P' where t: "t = of_nat ?C" and h: "h = of_nat P'" "P' \<le> ?P" "?C \<le> P'"
    using c_read by (auto simp: spsc_ok_def consumer_ok_def)
  have "P' \<noteq> ?C" using c_read.hyps(2) t h(1) by auto
  then have "?C < ?P" using h(2,3) by simp
  with c_read t show ?case by (auto simp: spsc_ok_def ring_ok_def consumer_ok_def slot_of_nat)
next
  case (c_release s t out)
  then show ?case
    by (auto simp: spsc_ok_def ring_ok_def producer_ok_def consumer_ok_def take_Suc_conv_app_nth split: producer.splits intro: le_SucI)
qed (auto simp: spsc_ok_def ring_ok_def producer_ok_def consumer_ok_def split: producer.splits consumer.splits)

definition spsc_start :: spsc_state where
  "spsc_start = \<lparr>ring_q = mk_SPSC, prod = PIdle, cons = CIdle, pushed = [], popped = []\<rparr>"

lemma spsc_reachable_ok: "spsc_step\<^sup>*\<^sup>* spsc_start s \<Longrightarrow> spsc_ok s"
proof (induction rule: rtranclp_induct)
  case base
  show ?case by (simp add: spsc_ok_def ring_ok_def producer_ok_def consumer_ok_def spsc_start_def mk_SPSC_def)
qed (rule spsc_step_ok)

text \<open>A call that is not interleaved with the other thread takes these steps one after the other.\<close>

lemma try_push_steps:
  assumes "prod s = PIdle" and "try_push r (ring_q s) = (ok, q)"
  shows "spsc_step\<^sup>*\<^sup>* s (s\<lparr>ring_q := q, pushed := pushed s @ (if ok then [r] else [])\<rparr>)"
proof -
  let ?h = "head (ring_q s)" and ?t = "tail (ring_q s)"
  let ?s1 = "s\<lparr>prod := PHead r ?h\<rparr>" and ?s2 = "s\<lparr>prod := PTail r ?h ?t\<rparr>"
  have "spsc_step s ?s1" using assms(1) by (rule p_load_head)
  moreover have "spsc_step ?s1 ?s2" using p_load_tail [of ?s1 r ?h] by simp
  ultimately have s2: "spsc_step\<^sup>*\<^sup>* s ?s2" by (meson converse_rtranclp_into_rtranclp r_into_rtranclp)
  show ?thesis
  proof (cases "of_nat kQueueSize \<le> ?h - ?t")
    case True
    then have a: "spsc_step ?s2 (s\<lparr>prod := PIdle\<rparr>)" using p_full [of ?s2 r ?h ?t] by simp
    have "ok = False" "q = ring_q s" using True assms(2) by (simp_all add: try_push_def Let_def)
    with assms(1) have "s\<lparr>prod := PIdle\<rparr> = s\<lparr>ring_q := q, pushed := pushed s @ (if ok then [r] else [])\<rparr>" by (cases s) simp
    with rtranclp.rtrancl_into_rtrancl [OF s2 a] show ?thesis by simp
  next
    case False
    let ?q1 = "(ring_q s)\<lparr>buf := (buf (ring_q s))[slot_of ?h := r]\<rparr>"
    let ?s3 = "s\<lparr>ring_q := ?q1, prod := PWrote r ?h\<rparr>"
    let ?s4 = "s\<lparr>ring_q := ?q1\<lparr>head := ?h + 1\<rparr>, prod := PIdle, pushed := pushed s @ [r]\<rparr>"
    have a: "spsc_step ?s2 ?s3" using p_write [of ?s2 r ?h ?t] False by (simp add: not_le)
    have b: "spsc_step ?s3 ?s4" using p_publish [of ?s3 r ?h] by simp
    have "ok = True" "q = ?q1\<lparr>head := ?h + 1\<rparr>" using False assms(2) by (auto simp: try_push_def Let_def)
    with assms(1) have "?s4 = s\<lparr>ring_q := q, pushed := pushed s @ (if ok then [r] else [])\<rparr>" by (cases s) simp
    with rtranclp.rtrancl_into_rtrancl [OF rtranclp.rtrancl_into_rtrancl [OF s2 a] b] show ?thesis by simp
  qed
qed

section \<open>Draining\<close>

lemma pop_batch_contents:
  assumes "spsc_inv q"
  shows "fst (pop_batch n q) = take n (spsc_contents q) \<and> spsc_inv (snd (pop_batch n q)) \<and>
    spsc_contents (snd (pop_batch n q)) = drop n (spsc_contents q)"
  using assms
proof (induction n arbitrary: q)
  case (Suc n)
  from Suc.prems show ?case
  proof (cases rule: spsc.pop_cases)
    case (1 x xs q')
    with Suc.IH [of q'] show ?thesis by (auto split: prod.splits)
  next
    case 2
    with Suc.prems show ?thesis by simp
  qed
qed simp

lemma drain_slot_contents:
  assumes "spsc_inv (slot_q s)"
  shows "fst (drain_slot s) = take kMaxBatch (spsc_contents (slot_q s)) \<and>
    spsc_contents (slot_q (snd (drain_slot s))) = drop kMaxBatch (spsc_contents (slot_q s)) \<and> spsc_inv (slot_q (snd (drain_slot s)))"
  using assms pop_batch_contents [OF assms, of kMaxBatch] by (auto simp: drain_slot_def is_empty_contents split: prod.splits)

lemma concat_nonempty: "concat (filter (\<lambda>b. b \<noteq> []) xs) = concat xs"
  by (induction xs) auto

text \<open>Appending to a text that has been cut at a limit is cutting the appended text.\<close>

lemma format_to_n_take: "(if length (take n x) < n then format_to_n n (take n x) y else take n x) = take n (x @ y)"
  by (auto simp: format_to_n_def)

lemma format_into_msg:
  "rec_msg (format_into colors lvl pre body r) =
     (let line = pre @ body @ (if colors then kReset else [])
      in if length line < kMsgMax - 2 then line @ [CHR 0x0A] else take (kMsgMax - 2) line)"
proof -
  define n where "n = kMsgMax - 2"
  let ?line = "pre @ body @ (if colors then kReset else [])"
  have p1: "format_to_n n [] pre = take n pre" by (simp add: format_to_n_def)
  have p3: "(if colors \<and> length (take n (pre @ body)) < n then format_to_n n (take n (pre @ body)) kReset else take n (pre @ body)) = take n ?line"
    using format_to_n_take [of n "pre @ body" kReset] by (cases colors) (simp_all only: append_assoc append_Nil2 if_True if_False simp_thms)
  have "rec_msg (format_into colors lvl pre body r) = (if length (take n ?line) < n then take n ?line @ [CHR 0x0A] else take n ?line)"
    by (simp only: format_into_def Let_def n_def [symmetric] p1 format_to_n_take p3) simp
  then show ?thesis by (auto simp: Let_def n_def)
qed

section \<open>Properties of the logger\<close>

text \<open>
  C20: the ring loses and reorders nothing. In every interleaving of the atomic loads and stores
  of one logging thread with those of the background thread, however often the 32-bit
  counters wrap around, the records that were accepted are exactly those already handed out
  followed by those in the ring, in the order in which they were logged; a record is read
  only after it has been written completely, and no unread record is overwritten.
\<close>

theorem logger_ring_lossless:
  assumes "spsc_step\<^sup>*\<^sup>* spsc_start s"
  shows "pushed s = popped s @ spsc_contents (ring_q s) \<and> length (spsc_contents (ring_q s)) \<le> kQueueSize"
proof -
  from spsc_reachable_ok [OF assms]
  have p: "popped s = take (length (popped s)) (pushed s)" and r: "ring_ok (pushed s) (length (popped s)) (ring_q s)"
    by (simp_all add: spsc_ok_def)
  note c = ring_ok_contents [OF r]
  have "pushed s = popped s @ spsc_contents (ring_q s)" unfolding c(1) using p by (metis append_take_drop_id)
  moreover have "length (spsc_contents (ring_q s)) \<le> kQueueSize" by (rule spsc.bounded [OF c(2)])
  ultimately show ?thesis by blast
qed

theorem logger_ring_lossless_witness:
  "\<exists>s. spsc_step\<^sup>*\<^sup>* spsc_start s \<and> spsc_contents (ring_q s) = [blank_Record]"
proof -
  have inv: "spsc_inv mk_SPSC" and e: "spsc_contents mk_SPSC = []"
    by (simp_all add: spsc_inv_def spsc_contents_def mk_SPSC_def)
  obtain q where q: "try_push blank_Record mk_SPSC = (True, q)"
    using spsc.push_ok [OF inv, of blank_Record] e by (auto simp: kQueueSize_def)
  let ?s = "spsc_start\<lparr>ring_q := q, pushed := [blank_Record]\<rparr>"
  have st: "spsc_step\<^sup>*\<^sup>* spsc_start ?s"
    using try_push_steps [of spsc_start blank_Record True q] q by (simp add: spsc_start_def)
  from logger_ring_lossless [OF st] have "spsc_contents (ring_q ?s) = [blank_Record]" by (simp add: spsc_start_def)
  with st show ?thesis by blast
qed

text \<open>
  The last drain before the background thread exits is not complete. Like every drain it
  takes at most 16 records from each ring; whatever a thread had queued beyond these when the
  logger was stopped is never written.
\<close>

theorem final_drain_leaves_records:
  assumes "\<not> g_running g" and "\<forall>s \<in> set (g_slots g). spsc_inv (slot_q s)" and "logger_round g = (goes_on, out, g')"
  shows "\<not> goes_on \<and> concat out = concat (map (\<lambda>s. take 16 (spsc_contents (slot_q s))) (g_slots g)) \<and>
    map (\<lambda>s. spsc_contents (slot_q s)) (g_slots g') = map (\<lambda>s. drop 16 (spsc_contents (slot_q s))) (g_slots g)"
proof -
  have d: "logger_round g = (False, filter (\<lambda>b. b \<noteq> []) (map fst (map drain_slot (g_slots g))), g\<lparr>g_slots := map snd (map drain_slot (g_slots g))\<rparr>)"
    using assms(1) by (simp add: logger_round_def drain_all_def Let_def)
  have k: "fst (drain_slot s) = take 16 (spsc_contents (slot_q s))"
    "spsc_contents (slot_q (snd (drain_slot s))) = drop 16 (spsc_contents (slot_q s))" if "s \<in> set (g_slots g)" for s
    using drain_slot_contents [of s] assms(2) that by (simp_all add: kMaxBatch_def)
  show ?thesis using assms(3) k unfolding d by (auto simp: concat_nonempty comp_def cong: map_cong)
qed

text \<open>A ring with 17 records.\<close>

definition demo_ring :: SPSC where
  "demo_ring = mk_SPSC\<lparr>head := 17\<rparr>"

theorem final_drain_leaves_records_witness:
  "spsc_contents (slot_q (hd (g_slots (snd (snd (logger_round (mk_Logger\<lparr>g_slots := [\<lparr>active = True, slot_q = demo_ring\<rparr>]\<rparr>)))))) ) =
     [blank_Record]"
proof -
  let ?g = "mk_Logger\<lparr>g_slots := [\<lparr>active = True, slot_q = demo_ring\<rparr>]\<rparr>"
  have inv: "\<forall>s \<in> set (g_slots ?g). spsc_inv (slot_q s)" and run: "\<not> g_running ?g"
    by (simp_all add: spsc_inv_def demo_ring_def mk_SPSC_def kQueueSize_def mk_Logger_def)
  have c: "spsc_contents demo_ring = replicate 17 blank_Record"
    by (intro nth_equalityI) (simp_all add: spsc_contents_def demo_ring_def mk_SPSC_def ring_def kQueueSize_def)
  obtain b out g' where r: "logger_round ?g = (b, out, g')" by (metis surj_pair)
  from final_drain_leaves_records [OF run inv r] r show ?thesis by (cases "g_slots g'") (simp_all add: c)
qed

text \<open>
  A formatted line never overruns its buffer: its recorded length is the number of
  characters written and at most 510 of the 512 bytes. A line that fits is the prefix, the
  message, the colour reset if colours are on, and a newline. A line that does not fit is cut
  at 510 characters, without reset and without newline.
\<close>

theorem log_line_bounded:
  "let r = format_into colors lvl pre body r0;
       line = pre @ body @ (if colors then kReset else [])
   in unat (rec_len r) = length (rec_msg r) \<and> length (rec_msg r) \<le> kMsgMax - 2 \<and>
      rec_msg r = (if length line < kMsgMax - 2 then line @ [CHR 0x0A] else take (kMsgMax - 2) line)"
proof -
  let ?r = "format_into colors lvl pre body r0"
  have l: "length (rec_msg ?r) \<le> kMsgMax - 2" by (auto simp only: format_into_msg Let_def length_take length_append list.size split: if_split)
  then have "length (rec_msg ?r) < 2 ^ 16" by (simp add: kMsgMax_def)
  moreover have "rec_len ?r = of_nat (length (rec_msg ?r))" by (simp add: format_into_def Let_def)
  ultimately have "unat (rec_len ?r) = length (rec_msg ?r)" by (simp add: unat_of_nat)
  with l show ?thesis unfolding Let_def using format_into_msg [of colors lvl pre body r0] by (simp only: Let_def simp_thms)
qed

text \<open>
  C37: a wake-up of the background thread can be lost. The logging thread looks whether its ring is
  empty before it pushes. If the background thread empties the ring between the look and the
  push, finds nothing on its next round and is about to sleep, the push does not wake it: the
  line stays in the ring while the background thread sleeps, until some other line is logged
  to an empty ring or the logger is stopped.
\<close>

theorem logger_lost_wakeup:
  assumes "i < length (g_slots g)" and "\<forall>s \<in> set (g_slots g). spsc_inv (slot_q s) \<and> length (spsc_contents (slot_q s)) \<le> 16"
    and "spsc_contents (slot_q (g_slots g ! i)) \<noteq> []" and "was_empty = is_empty (slot_q (g_slots g ! i))"
    and "drain_all g = (work1, out1, g1)" and "drain_all g1 = (work2, out2, g2)" and "log_push i r was_empty g2 = (ok, g3)"
  shows "ok \<and> spsc_contents (slot_q (g_slots g3 ! i)) = [r] \<and> logger_sleeps (g_epoch g1) work2 g3"
proof -
  have w: "\<not> was_empty" using assms(3,4) by (simp add: is_empty_contents)
  have g1: "g1 = g\<lparr>g_slots := map (snd \<circ> drain_slot) (g_slots g)\<rparr>" using assms(5) by (simp add: drain_all_def Let_def)
  have e1: "spsc_inv (slot_q s) \<and> spsc_contents (slot_q s) = []" if "s \<in> set (g_slots g1)" for s
    using that assms(2) drain_slot_contents by (auto simp: g1 kMaxBatch_def)
  have e2: "fst (drain_slot s) = []" "spsc_inv (slot_q (snd (drain_slot s))) \<and> spsc_contents (slot_q (snd (drain_slot s))) = []"
    if "s \<in> set (g_slots g1)" for s
    using e1 [OF that] drain_slot_contents [of s] by simp_all
  have g2: "g2 = g1\<lparr>g_slots := map (snd \<circ> drain_slot) (g_slots g1)\<rparr>" "\<not> work2"
    using assms(6) e2(1) by (auto simp: drain_all_def Let_def filter_empty_conv)
  have i2: "i < length (g_slots g2)" using assms(1) by (simp add: g1 g2)
  then have "g_slots g2 ! i \<in> set (g_slots g2)" by simp
  then have q: "spsc_inv (slot_q (g_slots g2 ! i))" "spsc_contents (slot_q (g_slots g2 ! i)) = []" using e2(2) by (auto simp: g2(1))
  obtain q' where p: "try_push r (slot_q (g_slots g2 ! i)) = (True, q')" "spsc_contents q' = [r]"
    using spsc.push_ok [OF q(1), of r] q(2) by (auto simp: kQueueSize_def)
  have g3: "ok" "g3 = g2\<lparr>g_slots := (g_slots g2)[i := (g_slots g2 ! i)\<lparr>slot_q := q'\<rparr>]\<rparr>"
    using assms(7) p(1) w by (simp_all add: log_push_def Let_def)
  have "spsc_contents (slot_q (g_slots g3 ! i)) = [r]" using i2 p(2) by (simp add: g3(2))
  moreover have "g_epoch g3 = g_epoch g1" by (simp add: g3(2) g2(1))
  ultimately show ?thesis using g3(1) g2(2) by (simp add: logger_sleeps_def)
qed

theorem logger_lost_wakeup_witness:
  "\<exists>g g1 g3 work2. spsc_contents (slot_q (g_slots g3 ! 0)) = [blank_Record] \<and> logger_sleeps (g_epoch g1) work2 g3 \<and>
     g = mk_Logger\<lparr>g_slots := [\<lparr>active = True, slot_q = mk_SPSC\<lparr>head := 1\<rparr>\<rparr>]\<rparr> \<and> g1 = snd (snd (drain_all g))"
proof -
  let ?g = "mk_Logger\<lparr>g_slots := [\<lparr>active = True, slot_q = mk_SPSC\<lparr>head := 1\<rparr>\<rparr>]\<rparr>"
  have a: "0 < length (g_slots ?g)" "\<forall>s \<in> set (g_slots ?g). spsc_inv (slot_q s) \<and> length (spsc_contents (slot_q s)) \<le> 16"
    "spsc_contents (slot_q (g_slots ?g ! 0)) \<noteq> []"
    by (simp_all add: spsc_inv_def spsc_contents_def mk_SPSC_def kQueueSize_def ring_Suc)
  obtain work1 out1 g1 where d1: "drain_all ?g = (work1, out1, g1)" by (metis surj_pair)
  obtain work2 out2 g2 where d2: "drain_all g1 = (work2, out2, g2)" by (metis surj_pair)
  obtain ok g3 where p: "log_push 0 blank_Record (is_empty (slot_q (g_slots ?g ! 0))) g2 = (ok, g3)" by (metis surj_pair)
  from logger_lost_wakeup [OF a refl d1 d2 p] d1 show ?thesis
    by (intro exI [of _ ?g] exI [of _ g1] exI [of _ g3] exI [of _ work2]) simp
qed

end
