(* ===== verification/Io_Helpers.thy ===== *)
theory Io_Helpers
  imports Bitcask_Env
begin

text \<open>
  The helpers above the single operations of the ring (\<^verbatim>\<open>include/kio/core/io_helpers.hpp\<close>,
  \<^verbatim>\<open>pipe_pool.hpp\<close>): transfers that loop until everything has been moved, and the transfer of a
  file to a socket through a pooled pipe. The operations themselves are completed by the kernel
  and may move fewer bytes than asked; they are the fields of the record \<open>uring\<close>. An error code is
  its number. The kernel is assumed never to report more bytes than were asked for; lengths are
  natural numbers.
\<close>

type_synonym ('s, 'a) io = "'s \<Rightarrow> (int + 'a) \<times> 's"

record 'w uring =
  u_read :: "int \<Rightarrow> nat \<Rightarrow> nat \<Rightarrow> ('w, bytes) io"
  u_write :: "int \<Rightarrow> bytes \<Rightarrow> nat \<Rightarrow> ('w, nat) io"
  u_recv :: "int \<Rightarrow> nat \<Rightarrow> int \<Rightarrow> ('w, bytes) io"
  u_send :: "int \<Rightarrow> bytes \<Rightarrow> int \<Rightarrow> ('w, nat) io"
  u_splice :: "int \<Rightarrow> int \<Rightarrow> int \<Rightarrow> int \<Rightarrow> nat \<Rightarrow> ('w, nat) io"
  u_pipe :: "'w \<Rightarrow> (int \<times> int) option \<times> 'w"
  u_close :: "int \<Rightarrow> 'w \<Rightarrow> 'w"

definition EMFILE :: int where "EMFILE = 24"
definition EPIPE :: int where "EPIPE = 32"
definition ENODATA :: int where "ENODATA = 61"

text \<open>A failed assertion ends the program; it is not an error code.\<close>

definition assert_abort :: int where "assert_abort = -1"

section \<open>Exact transfers\<close>

text \<open>The loop all four helpers have: \<open>op total\<close> moves some of what is left and says how much.\<close>

function exact_loop :: "(nat \<Rightarrow> ('s, nat) io) \<Rightarrow> nat \<Rightarrow> nat \<Rightarrow> ('s, unit) io" where
  "exact_loop op target moved s =
     (if target \<le> moved then (Inr (), s)
      else case op moved s of
             (Inl e, s') \<Rightarrow> (Inl e, s')
           | (Inr n, s') \<Rightarrow> if n = 0 then (Inl ENODATA, s') else exact_loop op target (moved + n) s')"
  by pat_completeness auto
termination
  by (relation "measure (\<lambda>(op, target, moved, s). target - moved)") auto

declare exact_loop.simps [simp del]

definition kUseFilePos :: nat where
  "kUseFilePos = size_limit - 1"

text \<open>One read or receive into the rest of the buffer.\<close>

definition fill :: "nat \<Rightarrow> ('w, bytes) io \<Rightarrow> (bytes \<times> 'w, nat) io" where
  "fill moved m s =
     (case s of (buffer, w) \<Rightarrow>
        (case m w of
           (Inl e, w') \<Rightarrow> (Inl e, (buffer, w'))
         | (Inr bs, w') \<Rightarrow> (Inr (length bs), (memcpy_at moved bs buffer, w'))))"

definition AsyncReadExact :: "'w uring \<Rightarrow> int \<Rightarrow> nat \<Rightarrow> (bytes \<times> 'w, unit) io" where
  "AsyncReadExact U f offset s =
     (if offset = kUseFilePos then (Inl assert_abort, s)
      else exact_loop (\<lambda>moved s. fill moved (u_read U f (length (fst s) - moved) (sz_add offset moved)) s) (length (fst s)) 0 s)"

definition AsyncWriteExact :: "'w uring \<Rightarrow> int \<Rightarrow> bytes \<Rightarrow> nat \<Rightarrow> ('w, unit) io" where
  "AsyncWriteExact U f buffer offset w =
     (if offset = kUseFilePos then (Inl assert_abort, w)
      else exact_loop (\<lambda>moved. u_write U f (drop moved buffer) (sz_add offset moved)) (length buffer) 0 w)"

definition AsyncRecvExact :: "'w uring \<Rightarrow> int \<Rightarrow> int \<Rightarrow> (bytes \<times> 'w, unit) io" where
  "AsyncRecvExact U f flags s =
     exact_loop (\<lambda>moved s. fill moved (u_recv U f (length (fst s) - moved) flags) s) (length (fst s)) 0 s"

definition AsyncSendExact :: "'w uring \<Rightarrow> int \<Rightarrow> bytes \<Rightarrow> int \<Rightarrow> ('w, unit) io" where
  "AsyncSendExact U f buffer flags w = exact_loop (\<lambda>moved. u_send U f (drop moved buffer) flags) (length buffer) 0 w"

section \<open>Pipes\<close>

record Pipe =
  read_fd :: int
  write_fd :: int

definition Pipe_Valid :: "Pipe \<Rightarrow> bool" where
  "Pipe_Valid p \<longleftrightarrow> 0 \<le> read_fd p \<and> 0 \<le> write_fd p"

definition Pipe_Close :: "'w uring \<Rightarrow> Pipe \<Rightarrow> 'w \<Rightarrow> Pipe \<times> 'w" where
  "Pipe_Close U p w =
     (let (p, w) = (if 0 \<le> read_fd p then (p\<lparr>read_fd := -1\<rparr>, u_close U (read_fd p) w) else (p, w))
      in if 0 \<le> write_fd p then (p\<lparr>write_fd := -1\<rparr>, u_close U (write_fd p) w) else (p, w))"

record PipePool =
  pipes :: "Pipe list"
  max_size :: nat

definition mk_PipePool :: "nat \<Rightarrow> PipePool" where
  "mk_PipePool n = \<lparr>pipes = [], max_size = n\<rparr>"

definition Acquire :: "'w uring \<Rightarrow> PipePool \<times> 'w \<Rightarrow> Pipe option \<times> PipePool \<times> 'w" where
  "Acquire U s =
     (case s of (pl, w) \<Rightarrow>
        if pipes pl \<noteq> [] then (Some (last (pipes pl)), pl\<lparr>pipes := butlast (pipes pl)\<rparr>, w)
        else case u_pipe U w of
               (None, w') \<Rightarrow> (None, pl, w')
             | (Some (r, wr), w') \<Rightarrow> (Some \<lparr>read_fd = r, write_fd = wr\<rparr>, pl, w'))"

definition Release :: "'w uring \<Rightarrow> Pipe \<Rightarrow> PipePool \<times> 'w \<Rightarrow> PipePool \<times> 'w" where
  "Release U p s =
     (case s of (pl, w) \<Rightarrow>
        if \<not> Pipe_Valid p then (pl, w)
        else if length (pipes pl) < max_size pl then (pl\<lparr>pipes := pipes pl @ [p]\<rparr>, w)
        else (pl, snd (Pipe_Close U p w)))"

definition PipePool_end :: "'w uring \<Rightarrow> PipePool \<times> 'w \<Rightarrow> 'w" where
  "PipePool_end U s = (case s of (pl, w) \<Rightarrow> foldl (\<lambda>w p. snd (Pipe_Close U p w)) w (pipes pl))"

section \<open>Sendfile\<close>

definition kChunkSize :: nat where
  "kChunkSize = 65536"

text \<open>File to pipe: until the chunk is complete or the file ends; how many bytes went in.\<close>

function splice_in :: "'w uring \<Rightarrow> int \<Rightarrow> Pipe \<Rightarrow> nat \<Rightarrow> nat \<Rightarrow> nat \<Rightarrow> ('w, nat) io" where
  "splice_in U in_fd p to_splice bytes_in_pipe current_offset w =
     (if to_splice \<le> bytes_in_pipe then (Inr bytes_in_pipe, w)
      else case u_splice U in_fd (int current_offset) (write_fd p) (-1) (to_splice - bytes_in_pipe) w of
             (Inl e, w') \<Rightarrow> (Inl e, w')
           | (Inr n, w') \<Rightarrow>
               if n = 0 then (Inr bytes_in_pipe, w')
               else splice_in U in_fd p to_splice (bytes_in_pipe + n) (current_offset + n) w')"
  by pat_completeness auto
termination
  by (relation "measure (\<lambda>(U, f, p, n, k, off, w). n - k)") auto

text \<open>Pipe to socket: exactly the bytes that went in.\<close>

function splice_out :: "'w uring \<Rightarrow> int \<Rightarrow> Pipe \<Rightarrow> nat \<Rightarrow> nat \<Rightarrow> ('w, unit) io" where
  "splice_out U out_fd p bytes_in_pipe bytes_flushed w =
     (if bytes_in_pipe \<le> bytes_flushed then (Inr (), w)
      else case u_splice U (read_fd p) (-1) out_fd (-1) (bytes_in_pipe - bytes_flushed) w of
             (Inl e, w') \<Rightarrow> (Inl e, w')
           | (Inr n, w') \<Rightarrow>
               if n = 0 then (Inl EPIPE, w') else splice_out U out_fd p bytes_in_pipe (bytes_flushed + n) w')"
  by pat_completeness auto
termination
  by (relation "measure (\<lambda>(U, f, p, n, k, w). n - k)") auto

function sendfile_loop :: "'w uring \<Rightarrow> int \<Rightarrow> int \<Rightarrow> Pipe \<Rightarrow> nat \<Rightarrow> nat \<Rightarrow> ('w, unit) io" where
  "sendfile_loop U out_fd in_fd p remaining current_offset w =
     (if remaining = 0 then (Inr (), w)
      else case splice_in U in_fd p (min remaining kChunkSize) 0 current_offset w of
             (Inl e, w') \<Rightarrow> (Inl e, w')
           | (Inr bytes_in_pipe, w') \<Rightarrow>
               if bytes_in_pipe = 0 then (Inr (), w')
               else case splice_out U out_fd p bytes_in_pipe 0 w' of
                      (Inl e, w'') \<Rightarrow> (Inl e, w'')
                    | (Inr _, w'') \<Rightarrow>
                        sendfile_loop U out_fd in_fd p (remaining - bytes_in_pipe) (current_offset + bytes_in_pipe) w'')"
  by pat_completeness auto
termination
  by (relation "measure (\<lambda>(U, out, in_fd, p, n, off, w). n)") auto

declare splice_in.simps [simp del] splice_out.simps [simp del] sendfile_loop.simps [simp del]

text \<open>The guard returns the pipe to the pool on every way out.\<close>

definition AsyncSendfile :: "'w uring \<Rightarrow> int \<Rightarrow> int \<Rightarrow> nat \<Rightarrow> nat \<Rightarrow> (PipePool \<times> 'w, unit) io" where
  "AsyncSendfile U out_fd in_fd offset cnt s =
     (case Acquire U s of
        (None, pl, w) \<Rightarrow> (Inl EMFILE, (pl, w))
      | (Some p, pl, w) \<Rightarrow>
          (case sendfile_loop U out_fd in_fd p cnt offset w of (r, w') \<Rightarrow> (r, Release U p (pl, w'))))"

section \<open>What the kernel promises\<close>

text \<open>
  Files are as in the environment of the engine. \<open>inbox w f\<close> is the stream that a socket will still
  deliver, \<open>outbox w f\<close> what has been sent through it, \<open>piped w r\<close> what is in the pipe with
  read end \<open>r\<close>, and \<open>pipe_end w wr\<close> the read end that belongs to a write end.
\<close>

locale partial_io =
  fixes U :: "'w uring"
    and content :: "'w \<Rightarrow> path \<Rightarrow> bytes option"
    and opened :: "'w \<Rightarrow> int \<Rightarrow> path option"
    and inbox :: "'w \<Rightarrow> int \<Rightarrow> bytes"
    and outbox :: "'w \<Rightarrow> int \<Rightarrow> bytes"
    and piped :: "'w \<Rightarrow> int \<Rightarrow> bytes"
    and pipe_end :: "'w \<Rightarrow> int \<Rightarrow> int option"
  assumes read_any: "u_read U f len off w = (rb, w') \<Longrightarrow> opened w f = Some p \<Longrightarrow> content w p = Some c \<Longrightarrow>
      content w' = content w \<and> opened w' = opened w \<and>
      (\<forall>bs. rb = Inr bs \<longrightarrow> (\<exists>n \<le> len. n \<le> length c - off \<and> bs = subspan off n c) \<and> (bs = [] \<and> 0 < len \<longrightarrow> length c \<le> off))"
    and write_any: "u_write U f bs off w = (r, w') \<Longrightarrow> opened w f = Some p \<Longrightarrow> content w p = Some c \<Longrightarrow>
      opened w' = opened w \<and>
      (\<exists>n \<le> length bs. content w' = (content w)(p \<mapsto> pwrite off (take n bs) c) \<and> (\<forall>m. r = Inr m \<longrightarrow> m = n))"
    and recv_any: "u_recv U f len fl w = (rb, w') \<Longrightarrow>
      (case rb of Inl e \<Rightarrow> inbox w' f = inbox w f
       | Inr bs \<Rightarrow> length bs \<le> len \<and> inbox w f = bs @ inbox w' f)"
    and send_any: "u_send U f bs fl w = (r, w') \<Longrightarrow>
      \<exists>n \<le> length bs. outbox w' f = outbox w f @ take n bs \<and> (\<forall>m. r = Inr m \<longrightarrow> m = n)"
    and splice_in_any: "u_splice U f (int off) wr (-1) len w = (r, w') \<Longrightarrow> opened w f = Some p \<Longrightarrow> content w p = Some c \<Longrightarrow>
      pipe_end w wr = Some rd \<Longrightarrow>
      content w' = content w \<and> opened w' = opened w \<and> outbox w' = outbox w \<and> pipe_end w' = pipe_end w \<and>
      (\<exists>n \<le> len. n \<le> length c - off \<and> piped w' = (piped w)(rd := piped w rd @ subspan off n c) \<and>
         (\<forall>m. r = Inr m \<longrightarrow> m = n) \<and> (r = Inr 0 \<and> 0 < len \<longrightarrow> length c \<le> off))"
    and splice_out_any: "u_splice U rd (-1) f (-1) len w = (r, w') \<Longrightarrow> pipe_end w wr = Some rd \<Longrightarrow>
      content w' = content w \<and> opened w' = opened w \<and> pipe_end w' = pipe_end w \<and>
      (\<exists>n \<le> len. n \<le> length (piped w rd) \<and> piped w' = (piped w)(rd := drop n (piped w rd)) \<and>
         outbox w' = (outbox w)(f := outbox w f @ take n (piped w rd)) \<and> (\<forall>m. r = Inr m \<longrightarrow> m = n))"

text \<open>An invariant of the loop, and what holds when it gives up.\<close>

lemma exact_loop_rule:
  assumes run: "exact_loop op target moved s = (r, s')" and start: "I moved s" "moved \<le> target"
    and err: "\<And>moved s e s'. moved < target \<Longrightarrow> I moved s \<Longrightarrow> op moved s = (Inl e, s') \<Longrightarrow> J e s'"
    and stuck: "\<And>moved s s'. moved < target \<Longrightarrow> I moved s \<Longrightarrow> op moved s = (Inr 0, s') \<Longrightarrow> J ENODATA s'"
    and go: "\<And>moved s n s'. moved < target \<Longrightarrow> I moved s \<Longrightarrow> op moved s = (Inr n, s') \<Longrightarrow> moved + n \<le> target \<and> I (moved + n) s'"
  shows "case r of Inl e \<Rightarrow> J e s' | Inr _ \<Rightarrow> I target s'"
  using run start
proof (induction "target - moved" arbitrary: moved s rule: less_induct)
  case less
  note R = less.prems(1) [unfolded exact_loop.simps [of op target moved s]]
  show ?case
  proof (cases "target \<le> moved")
    case True
    with less.prems R show ?thesis by auto
  next
    case False
    obtain q t where q: "op moved s = (q, t)" by (metis surj_pair)
    show ?thesis
    proof (cases q)
      case (Inl e)
      with R q False err [OF _ less.prems(2)] show ?thesis by auto
    next
      case (Inr n)
      show ?thesis
      proof (cases "n = 0")
        case True
        with R q False Inr stuck [OF _ less.prems(2)] show ?thesis by auto
      next
        case n: False
        then have e: "exact_loop op target (moved + n) t = (r, s')" using R q False Inr by simp
        have k: "moved + n \<le> target" "I (moved + n) t" using go [OF _ less.prems(2)] q Inr False by simp_all
        have "target - (moved + n) < target - moved" using n False by linarith
        from less.hyps [OF this e k(2,1)] show ?thesis .
      qed
    qed
  qed
qed

lemma pwrite_alt: "bs \<noteq> [] \<Longrightarrow> pwrite off bs c = take off c @ replicate (off - length c) 0 @ bs @ drop (off + length bs) c"
  by (auto simp: pwrite_def memcpy_at_def min_def)

lemma pwrite_append: "pwrite (off + length a) b (pwrite off a c) = pwrite off (a @ b) c"
proof (cases "a = [] \<or> b = []")
  case True
  then show ?thesis by (auto simp: pwrite_def)
next
  case False
  then show ?thesis by (auto simp: pwrite_alt min_def ac_simps)
qed

context partial_io
begin

lemma read_exact_file:
  assumes f: "opened w f = Some p" "content w p = Some c" and lim: "offset + length buffer < size_limit - 1"
    and run: "AsyncReadExact U f offset (buffer, w) = (r, (buffer', w'))"
  shows "content w' = content w \<and> opened w' = opened w \<and>
    (case r of
       Inr _ \<Rightarrow> (buffer \<noteq> [] \<longrightarrow> offset + length buffer \<le> length c) \<and> buffer' = subspan offset (length buffer) c
     | Inl e \<Rightarrow> (\<exists>n off v v'. u_read U f n off v = (Inl e, v')) \<or> (e = ENODATA \<and> length c < offset + length buffer))"
proof -
  let ?op = "\<lambda>moved s. fill moved (u_read U f (length (fst s) - moved) (sz_add offset moved)) s"
  define I where "I moved s \<longleftrightarrow> length (fst s) = length buffer \<and> content (snd s) = content w \<and> opened (snd s) = opened w \<and>
    take moved (fst s) = subspan offset moved c \<and> (0 < moved \<longrightarrow> offset + moved \<le> length c)" for moved and s :: "bytes \<times> 'w"
  define J where "J e s \<longleftrightarrow> content (snd s) = content w \<and> opened (snd s) = opened w \<and>
    ((\<exists>n off v v'. u_read U f n off v = (Inl e, v')) \<or> (e = ENODATA \<and> length c < offset + length buffer))" for e and s :: "bytes \<times> 'w"
  have step: "case q of Inl e \<Rightarrow> J e t | Inr n \<Rightarrow> moved + n \<le> length buffer \<and> I (moved + n) t \<and> (n = 0 \<longrightarrow> J ENODATA t)"
    if m: "moved < length buffer" and i: "I moved s" and o: "?op moved s = (q, t)" for moved s q t
  proof -
    obtain b v where s: "s = (b, v)" by (cases s)
    have sz: "sz_add offset moved = offset + moved" using m lim by (intro sz_add_eq) simp
    obtain q' v' where rd: "u_read U f (length b - moved) (offset + moved) v = (q', v')" by (metis surj_pair)
    have iv: "length b = length buffer" "content v = content w" "opened v = opened w" "take moved b = subspan offset moved c"
      "0 < moved \<longrightarrow> offset + moved \<le> length c" using i by (simp_all add: I_def s)
    note k = read_any [OF rd, of p c] iv(2,3) f
    show ?thesis
    proof (cases q')
      case (Inl e)
      then have "q = Inl e" "t = (b, v')" using o rd by (auto simp: s fill_def sz)
      with k rd Inl show ?thesis by (auto simp: J_def)
    next
      case (Inr bs)
      then have q: "q = Inr (length bs)" "t = (memcpy_at moved bs b, v')" using o rd by (auto simp: s fill_def sz)
      obtain n where n: "n \<le> length b - moved" "n \<le> length c - (offset + moved)" "bs = subspan (offset + moved) n c"
        "bs = [] \<and> 0 < length b - moved \<longrightarrow> length c \<le> offset + moved" and w': "content v' = content w" "opened v' = opened w"
        using k Inr by auto
      have l: "length bs = n" using n(2,3) by simp
      have tk: "take (moved + n) (memcpy_at moved bs b) = take moved b @ bs"
        using m iv(1) by (simp add: memcpy_at_def l)
      have "I (moved + n) t"
        using w' iv n l m tk by (auto simp: I_def q(2) subspan_split)
      moreover have "J ENODATA t" if "n = 0" using n(4) l that m iv(1) w' by (simp add: J_def q(2))
      ultimately show ?thesis using n(1) m iv(1) l by (simp add: q(1))
    qed
  qed
  have loop: "exact_loop ?op (length buffer) 0 (buffer, w) = (r, (buffer', w'))"
    using run lim by (simp add: AsyncReadExact_def kUseFilePos_def split: if_splits)
  have "case r of Inl e \<Rightarrow> J e (buffer', w') | Inr _ \<Rightarrow> I (length buffer) (buffer', w')"
    by (rule exact_loop_rule [OF loop, where I = I and J = J]) (use step in \<open>fastforce simp: I_def\<close>)+
  then show ?thesis by (auto simp: I_def J_def split: sum.splits)
qed

lemma write_exact_file:
  assumes f: "opened w f = Some p" "content w p = Some c" and lim: "offset + length buffer < size_limit - 1"
    and run: "AsyncWriteExact U f buffer offset w = (r, w')"
  shows "opened w' = opened w \<and>
    (\<exists>n \<le> length buffer. content w' = (content w)(p \<mapsto> pwrite offset (take n buffer) c) \<and> (r = Inr () \<longrightarrow> n = length buffer))"
proof -
  let ?op = "\<lambda>moved. u_write U f (drop moved buffer) (sz_add offset moved)"
  define I where "I moved v \<longleftrightarrow> opened v = opened w \<and> content v = (content w)(p \<mapsto> pwrite offset (take moved buffer) c)" for moved v
  define J where "J e v \<longleftrightarrow> opened v = opened w \<and> (\<exists>n \<le> length buffer. content v = (content w)(p \<mapsto> pwrite offset (take n buffer) c))"
    for e :: int and v
  have step: "J e v' \<and> (\<forall>n. q = Inr n \<longrightarrow> moved + n \<le> length buffer \<and> I (moved + n) v')"
    if m: "moved < length buffer" and i: "I moved v" and o: "?op moved v = (q, v')" for moved v q v' e
  proof -
    have sz: "sz_add offset moved = offset + moved" using m lim by (intro sz_add_eq) simp
    have v: "opened v f = Some p" "content v p = Some (pwrite offset (take moved buffer) c)" using i f by (simp_all add: I_def)
    from write_any [OF o v] obtain n where n: "n \<le> length buffer - moved" "opened v' = opened v"
      "content v' = (content v)(p \<mapsto> pwrite (sz_add offset moved) (take n (drop moved buffer)) (pwrite offset (take moved buffer) c))"
      "\<forall>k. q = Inr k \<longrightarrow> k = n" by auto
    have "pwrite (offset + moved) (take n (drop moved buffer)) (pwrite offset (take moved buffer) c) = pwrite offset (take (moved + n) buffer) c"
      using pwrite_append [of offset "take moved buffer" "take n (drop moved buffer)" c] m by (simp add: take_add)
    then have "I (moved + n) v'" using n i by (simp add: I_def sz)
    moreover have "moved + n \<le> length buffer" using n(1) m by simp
    ultimately show ?thesis using n(4) by (auto simp: I_def J_def)
  qed
  have loop: "exact_loop ?op (length buffer) 0 w = (r, w')"
    using run lim by (simp add: AsyncWriteExact_def kUseFilePos_def split: if_splits)
  have "I 0 w" using f by (simp add: I_def pwrite_def fun_upd_idem)
  then have "case r of Inl e \<Rightarrow> J e w' | Inr _ \<Rightarrow> I (length buffer) w'"
    by (rule exact_loop_rule [OF loop, where I = I and J = J]) (use step in blast)+
  then show ?thesis by (auto simp: I_def J_def split: sum.splits)
qed

end

section \<open>Streams\<close>

context partial_io
begin

lemma recv_exact_stream:
  assumes run: "AsyncRecvExact U f flags (buffer, w) = (r, (buffer', w'))"
  shows "\<exists>n \<le> length buffer. length buffer' = length buffer \<and> inbox w f = take n buffer' @ inbox w' f \<and> (r = Inr () \<longrightarrow> n = length buffer)"
proof -
  let ?op = "\<lambda>moved s. fill moved (u_recv U f (length (fst s) - moved) flags) s"
  define I where "I moved s \<longleftrightarrow> length (fst s) = length buffer \<and> inbox w f = take moved (fst s) @ inbox (snd s) f" for moved and s :: "bytes \<times> 'w"
  define J where "J e s \<longleftrightarrow> (\<exists>n \<le> length buffer. I n s)" for e :: int and s
  have step: "J e t \<and> (\<forall>n. q = Inr n \<longrightarrow> moved + n \<le> length buffer \<and> I (moved + n) t)"
    if m: "moved < length buffer" and i: "I moved s" and o: "?op moved s = (q, t)" for moved s q t e
  proof -
    obtain b v where s: "s = (b, v)" by (cases s)
    obtain q' v' where rd: "u_recv U f (length b - moved) flags v = (q', v')" by (metis surj_pair)
    have iv: "length b = length buffer" "inbox w f = take moved b @ inbox v f" using i by (simp_all add: I_def s)
    show ?thesis
    proof (cases q')
      case (Inl x)
      then have "q = Inl x" "t = (b, v')" "inbox v' f = inbox v f" using o rd recv_any [OF rd] by (auto simp: s fill_def)
      with iv m have "I moved t" by (simp add: I_def)
      then show ?thesis using m \<open>q = Inl x\<close> unfolding J_def by (auto intro!: exI [of _ moved])
    next
      case (Inr bs)
      then have q: "q = Inr (length bs)" "t = (memcpy_at moved bs b, v')" using o rd by (auto simp: s fill_def)
      have bs: "length bs \<le> length b - moved" "inbox v f = bs @ inbox v' f" using recv_any [OF rd] Inr by simp_all
      have "take (moved + length bs) (memcpy_at moved bs b) = take moved b @ bs" using m iv(1) by (simp add: memcpy_at_def)
      with bs iv m have i': "I (moved + length bs) t" by (simp add: I_def q(2))
      moreover have "moved + length bs \<le> length buffer" using bs(1) m iv(1) by simp
      ultimately show ?thesis using q(1) unfolding J_def by auto
    qed
  qed
  have loop: "exact_loop ?op (length buffer) 0 (buffer, w) = (r, (buffer', w'))" using run by (simp add: AsyncRecvExact_def)
  have "I 0 (buffer, w)" by (simp add: I_def)
  then have "case r of Inl e \<Rightarrow> J e (buffer', w') | Inr _ \<Rightarrow> I (length buffer) (buffer', w')"
    by (rule exact_loop_rule [OF loop, where I = I and J = J]) (use step in blast)+
  then show ?thesis by (auto simp: I_def J_def split: sum.splits)
qed

lemma send_exact_stream:
  assumes run: "AsyncSendExact U f buffer flags w = (r, w')"
  shows "\<exists>n \<le> length buffer. outbox w' f = outbox w f @ take n buffer \<and> (r = Inr () \<longrightarrow> n = length buffer)"
proof -
  let ?op = "\<lambda>moved. u_send U f (drop moved buffer) flags"
  define I where "I moved v \<longleftrightarrow> outbox v f = outbox w f @ take moved buffer" for moved v
  define J where "J e v \<longleftrightarrow> (\<exists>n \<le> length buffer. I n v)" for e :: int and v
  have step: "J e v' \<and> (\<forall>n. q = Inr n \<longrightarrow> moved + n \<le> length buffer \<and> I (moved + n) v')"
    if m: "moved < length buffer" and i: "I moved v" and o: "?op moved v = (q, v')" for moved v q v' e
  proof -
    from send_any [OF o] obtain n where n: "n \<le> length buffer - moved" "outbox v' f = outbox v f @ take n (drop moved buffer)"
      "\<forall>k. q = Inr k \<longrightarrow> k = n" by auto
    have "I (moved + n) v'" using n i by (simp add: I_def take_add)
    moreover have "moved + n \<le> length buffer" using n(1) m by simp
    ultimately show ?thesis using n(3) unfolding J_def by auto
  qed
  have loop: "exact_loop ?op (length buffer) 0 w = (r, w')" using run by (simp add: AsyncSendExact_def)
  have "I 0 w" by (simp add: I_def)
  then have "case r of Inl e \<Rightarrow> J e w' | Inr _ \<Rightarrow> I (length buffer) w'"
    by (rule exact_loop_rule [OF loop, where I = I and J = J]) (use step in blast)+
  then show ?thesis by (auto simp: I_def J_def split: sum.splits)
qed

end

section \<open>Sending a file\<close>

text \<open>What a transfer leaves alone.\<close>

definition same_files :: "('w \<Rightarrow> path \<Rightarrow> bytes option) \<Rightarrow> ('w \<Rightarrow> int \<Rightarrow> path option) \<Rightarrow> ('w \<Rightarrow> int \<Rightarrow> int option) \<Rightarrow> 'w \<Rightarrow> 'w \<Rightarrow> bool" where
  "same_files content opened pipe_end w w' \<longleftrightarrow> content w' = content w \<and> opened w' = opened w \<and> pipe_end w' = pipe_end w"

context partial_io
begin

lemma splice_in_bytes:
  assumes "splice_in U f p n k off w = (r, w')" and "opened w f = Some q" and "content w q = Some c"
    and "pipe_end w (write_fd p) = Some rd" and "k \<le> n"
  shows "same_files content opened pipe_end w w' \<and> outbox w' = outbox w \<and>
    (\<exists>m. m \<le> length c - off \<and> piped w' = (piped w)(rd := piped w rd @ subspan off m c) \<and>
       (\<forall>x. r = Inr x \<longrightarrow> x = k + m \<and> x \<le> n \<and> (x < n \<longrightarrow> length c \<le> off + m)))"
  using assms
proof (induction "n - k" arbitrary: k off w rule: less_induct)
  case less
  note R = less.prems(1) [unfolded splice_in.simps [of U f p n k off w]]
  show ?case
  proof (cases "n \<le> k")
    case True
    with R less.prems(5) show ?thesis by (auto simp: same_files_def intro!: exI [of _ 0])
  next
    case False
    obtain q1 w1 where s: "u_splice U f (int off) (write_fd p) (-1) (n - k) w = (q1, w1)" by (metis surj_pair)
    from splice_in_any [OF s less.prems(2-4)] obtain m where
      m: "m \<le> n - k" "m \<le> length c - off" "piped w1 = (piped w)(rd := piped w rd @ subspan off m c)" "\<forall>x. q1 = Inr x \<longrightarrow> x = m"
        "q1 = Inr 0 \<and> 0 < n - k \<longrightarrow> length c \<le> off"
      and w1: "content w1 = content w" "opened w1 = opened w" "outbox w1 = outbox w" "pipe_end w1 = pipe_end w" by auto
    show ?thesis
    proof (cases "q1 = Inr m \<and> m \<noteq> 0")
      case True
      with R s False have e: "splice_in U f p n (k + m) (off + m) w1 = (r, w')" by simp
      have lt: "n - (k + m) < n - k" using True False by linarith
      have le: "k + m \<le> n" using m(1) False by simp
      from less.hyps [OF lt e _ _ _ le] less.prems(2-4) w1 obtain m' where
        m': "m' \<le> length c - (off + m)" "piped w' = (piped w1)(rd := piped w1 rd @ subspan (off + m) m' c)"
          "\<forall>x. r = Inr x \<longrightarrow> x = k + m + m' \<and> x \<le> n \<and> (x < n \<longrightarrow> length c \<le> off + m + m')"
        and ww: "same_files content opened pipe_end w1 w'" "outbox w' = outbox w1" by auto
      have "piped w' = (piped w)(rd := piped w rd @ subspan off (m + m') c)" using m'(2) m(3) by (simp add: subspan_split)
      moreover have "m + m' \<le> length c - off" using m'(1) m(2) by linarith
      moreover have "\<forall>x. r = Inr x \<longrightarrow> x = k + (m + m') \<and> x \<le> n \<and> (x < n \<longrightarrow> length c \<le> off + (m + m'))"
        using m'(3) by (simp add: add.assoc)
      moreover have "same_files content opened pipe_end w w'" "outbox w' = outbox w" using ww w1 by (simp_all add: same_files_def)
      ultimately show ?thesis by blast
    next
      case F: False
      have e: "w' = w1 \<and> (\<forall>x. r = Inr x \<longrightarrow> x = k \<and> m = 0 \<and> length c \<le> off)"
      proof (cases q1)
        case (Inl x)
        with R s False show ?thesis by auto
      next
        case (Inr x)
        with m(4) F have "x = 0" "m = 0" by auto
        with R s False Inr m(5) show ?thesis by auto
      qed
      have "\<forall>x. r = Inr x \<longrightarrow> x = k + m \<and> x \<le> n \<and> (x < n \<longrightarrow> length c \<le> off + m)" using e less.prems(5) by auto
      moreover have "same_files content opened pipe_end w w'" "outbox w' = outbox w" using w1 e by (simp_all add: same_files_def)
      ultimately show ?thesis using m(2,3) e by blast
    qed
  qed
qed

lemma splice_out_bytes:
  assumes "splice_out U f p n k w = (r, w')" and "pipe_end w (write_fd p) = Some (read_fd p)" and "k \<le> n"
  shows "same_files content opened pipe_end w w' \<and>
    (\<exists>m \<le> length (piped w (read_fd p)). piped w' = (piped w)(read_fd p := drop m (piped w (read_fd p))) \<and>
       outbox w' = (outbox w)(f := outbox w f @ take m (piped w (read_fd p))) \<and> (r = Inr () \<longrightarrow> k + m = n))"
  using assms
proof (induction "n - k" arbitrary: k w rule: less_induct)
  case less
  note R = less.prems(1) [unfolded splice_out.simps [of U f p n k w]]
  let ?rd = "read_fd p"
  show ?case
  proof (cases "n \<le> k")
    case True
    with R less.prems(3) show ?thesis by (auto simp: same_files_def intro!: exI [of _ 0])
  next
    case False
    obtain q1 w1 where s: "u_splice U ?rd (-1) f (-1) (n - k) w = (q1, w1)" by (metis surj_pair)
    from splice_out_any [OF s less.prems(2)] obtain m where
      m: "m \<le> n - k" "m \<le> length (piped w ?rd)" "piped w1 = (piped w)(?rd := drop m (piped w ?rd))"
        "outbox w1 = (outbox w)(f := outbox w f @ take m (piped w ?rd))" "\<forall>x. q1 = Inr x \<longrightarrow> x = m"
      and w1: "content w1 = content w" "opened w1 = opened w" "pipe_end w1 = pipe_end w" by auto
    show ?thesis
    proof (cases "q1 = Inr m \<and> m \<noteq> 0")
      case True
      with R s False have e: "splice_out U f p n (k + m) w1 = (r, w')" by simp
      have lt: "n - (k + m) < n - k" using True False by linarith
      have le: "k + m \<le> n" using m(1) False by simp
      from less.hyps [OF lt e _ le] less.prems(2) w1 obtain m' where
        m': "m' \<le> length (piped w1 ?rd)" "piped w' = (piped w1)(?rd := drop m' (piped w1 ?rd))"
          "outbox w' = (outbox w1)(f := outbox w1 f @ take m' (piped w1 ?rd))" "r = Inr () \<longrightarrow> k + m + m' = n"
        and ww: "same_files content opened pipe_end w1 w'" by auto
      have "piped w' = (piped w)(?rd := drop (m + m') (piped w ?rd))" using m'(2) m(3) by (simp add: add.commute)
      moreover have "outbox w' = (outbox w)(f := outbox w f @ take (m + m') (piped w ?rd))" using m'(3) m(3,4) by (simp add: take_add)
      moreover have "m + m' \<le> length (piped w ?rd)" using m'(1) m(2,3) by simp
      moreover have "same_files content opened pipe_end w w'" using ww w1 by (simp add: same_files_def)
      moreover have "r = Inr () \<longrightarrow> k + (m + m') = n" using m'(4) by (simp add: add.assoc)
      ultimately show ?thesis by blast
    next
      case F: False
      have e: "w' = w1 \<and> r \<noteq> Inr ()"
      proof (cases q1)
        case (Inl x)
        with R s False show ?thesis by auto
      next
        case (Inr x)
        with m(5) F have "x = 0" by auto
        with R s False Inr show ?thesis by auto
      qed
      moreover have "same_files content opened pipe_end w w'" using w1 e by (simp add: same_files_def)
      ultimately show ?thesis using m(2-4) by blast
    qed
  qed
qed

lemma sendfile_loop_bytes:
  assumes "sendfile_loop U out f p n off w = (r, w')" and "opened w f = Some q" and "content w q = Some c"
    and "pipe_end w (write_fd p) = Some (read_fd p)"
  shows "same_files content opened pipe_end w w' \<and>
    (\<exists>a m. a \<le> length c - off \<and> m \<le> length (piped w (read_fd p)) + a \<and>
       piped w' (read_fd p) = drop m (piped w (read_fd p) @ subspan off a c) \<and>
       outbox w' out = outbox w out @ take m (piped w (read_fd p) @ subspan off a c) \<and>
       (r = Inr () \<longrightarrow> m = a \<and> a = min n (length c - off)))"
  using assms
proof (induction n arbitrary: off w rule: less_induct)
  case (less n)
  note R = less.prems(1) [unfolded sendfile_loop.simps [of U out f p n off w]]
  let ?rd = "read_fd p" and ?k = "min n kChunkSize"
  show ?case
  proof (cases "n = 0")
    case True
    with R show ?thesis by (auto simp: same_files_def intro!: exI [of _ 0])
  next
    case False
    obtain q1 w1 where s: "splice_in U f p ?k 0 off w = (q1, w1)" by (metis surj_pair)
    from splice_in_bytes [OF s less.prems(2-4)] obtain a1 where
      a1: "a1 \<le> length c - off" "piped w1 = (piped w)(?rd := piped w ?rd @ subspan off a1 c)"
        "\<forall>x. q1 = Inr x \<longrightarrow> x = a1 \<and> x \<le> ?k \<and> (x < ?k \<longrightarrow> length c \<le> off + a1)"
      and w1: "same_files content opened pipe_end w w1" "outbox w1 = outbox w" by auto
    have z1: "piped w1 ?rd = piped w ?rd @ subspan off a1 c" using a1(2) by simp
    show ?thesis
    proof (cases "q1 = Inr a1 \<and> a1 \<noteq> 0")
      case F: False
      have e: "w' = w1 \<and> (r = Inr () \<longrightarrow> a1 = 0 \<and> length c \<le> off)"
      proof (cases q1)
        case (Inl x)
        with R s False show ?thesis by auto
      next
        case (Inr x)
        with a1(3) F have "x = 0" "a1 = 0" "x \<noteq> ?k" using False by (auto simp: kChunkSize_def)
        with R s False Inr a1(3) show ?thesis by auto
      qed
      moreover have "r = Inr () \<longrightarrow> 0 = a1 \<and> a1 = min n (length c - off)" using e by auto
      ultimately show ?thesis using w1 z1 a1(1) by (intro conjI exI [of _ a1] exI [of _ 0]) auto
    next
      case True
      obtain q2 w2 where s2: "splice_out U out p a1 0 w1 = (q2, w2)" by (metis surj_pair)
      have pe: "pipe_end w1 (write_fd p) = Some ?rd" using w1 less.prems(4) by (simp add: same_files_def)
      from splice_out_bytes [OF s2 pe] obtain m1 where
        m1: "m1 \<le> length (piped w1 ?rd)" "piped w2 = (piped w1)(?rd := drop m1 (piped w1 ?rd))"
          "outbox w2 = (outbox w1)(out := outbox w1 out @ take m1 (piped w1 ?rd))" "q2 = Inr () \<longrightarrow> m1 = a1"
        and w2: "same_files content opened pipe_end w1 w2" by auto
      have z2: "piped w2 ?rd = drop m1 (piped w ?rd @ subspan off a1 c)" "outbox w2 out = outbox w out @ take m1 (piped w ?rd @ subspan off a1 c)"
        using m1(2,3) z1 w1(2) by simp_all
      have sf2: "same_files content opened pipe_end w w2" using w1 w2 by (simp add: same_files_def)
      have l1: "m1 \<le> length (piped w ?rd) + a1" using m1(1) z1 a1(1) by simp
      show ?thesis
      proof (cases q2)
        case (Inl x)
        with R s True False s2 have "r = Inl x" "w' = w2" by auto
        with sf2 z2 l1 a1(1) show ?thesis by (intro conjI exI [of _ a1] exI [of _ m1]) auto
      next
        case (Inr u)
        then have m1a: "m1 = a1" using m1(4) by simp
        from R s True False s2 Inr have e: "sendfile_loop U out f p (n - a1) (off + a1) w2 = (r, w')" by auto
        have lt: "n - a1 < n" using True False by simp
        from less.IH [OF lt e] less.prems(2-4) sf2 obtain a2 m2 where
          a2: "a2 \<le> length c - (off + a1)" "m2 \<le> length (piped w2 ?rd) + a2"
            "piped w' ?rd = drop m2 (piped w2 ?rd @ subspan (off + a1) a2 c)"
            "outbox w' out = outbox w2 out @ take m2 (piped w2 ?rd @ subspan (off + a1) a2 c)"
            "r = Inr () \<longrightarrow> m2 = a2 \<and> a2 = min (n - a1) (length c - (off + a1))"
          and w3: "same_files content opened pipe_end w2 w'" by (auto simp: same_files_def)
        let ?d = "piped w ?rd @ subspan off (a1 + a2) c"
        have d: "?d = (piped w ?rd @ subspan off a1 c) @ subspan (off + a1) a2 c" by (simp add: subspan_split)
        have l: "m1 \<le> length (piped w ?rd @ subspan off a1 c)" using l1 a1(1) by simp
        have rest: "drop m1 ?d = piped w2 ?rd @ subspan (off + a1) a2 c" "take m1 ?d = take m1 (piped w ?rd @ subspan off a1 c)"
          unfolding d z2(1) using l by simp_all
        have "piped w' ?rd = drop (m1 + m2) ?d" using a2(3) rest(1) by (metis add.commute drop_drop)
        moreover have "outbox w' out = outbox w out @ take (m1 + m2) ?d"
          unfolding take_add [of m1 m2 ?d] rest a2(4) z2(2) by (simp only: append_assoc)
        moreover have "m1 + m2 \<le> length (piped w ?rd) + (a1 + a2)" using a2(2) z2(1) l a1(1) by simp
        moreover have "a1 + a2 \<le> length c - off" using a2(1) a1(1) by linarith
        moreover have "r = Inr () \<longrightarrow> m1 + m2 = a1 + a2 \<and> a1 + a2 = min n (length c - off)"
        proof
          assume "r = Inr ()"
          with a2(5) have x: "m2 = a2" "a2 = min (n - a1) (length c - (off + a1))" by blast+
          have "a1 \<le> n" using a1(3) True by auto
          then show "m1 + m2 = a1 + a2 \<and> a1 + a2 = min n (length c - off)" using x m1a a1(1) by linarith
        qed
        moreover have "same_files content opened pipe_end w w'" using sf2 w3 by (simp add: same_files_def)
        ultimately show ?thesis by blast
      qed
    qed
  qed
qed

end

section \<open>A kernel that moves at most three bytes at a time\<close>

record net =
  n_files :: "path \<Rightarrow> bytes option"
  n_open :: "int \<Rightarrow> path option"
  n_in :: "int \<Rightarrow> bytes"
  n_out :: "int \<Rightarrow> bytes"
  n_piped :: "int \<Rightarrow> bytes"
  n_ends :: "int \<Rightarrow> int option"

definition ebadf_no :: int where "ebadf_no = 9"

definition net_on_file :: "int \<Rightarrow> (path \<Rightarrow> bytes \<Rightarrow> net \<Rightarrow> (int + 'a) \<times> net) \<Rightarrow> (net, 'a) io" where
  "net_on_file f k w =
     (case n_open w f of
        None \<Rightarrow> (Inl ebadf_no, w)
      | Some p \<Rightarrow> (case n_files w p of None \<Rightarrow> (Inl ebadf_no, w) | Some c \<Rightarrow> k p c w))"

definition net_splice :: "int \<Rightarrow> int \<Rightarrow> int \<Rightarrow> int \<Rightarrow> nat \<Rightarrow> (net, nat) io" where
  "net_splice fd_in off_in fd_out off_out len w =
     (if 0 \<le> off_in then
        (case n_ends w fd_out of
           None \<Rightarrow> (Inl ebadf_no, w)
         | Some rd \<Rightarrow> net_on_file fd_in (\<lambda>p c w.
             let bs = subspan (nat off_in) (min 3 len) c
             in (Inr (length bs), w\<lparr>n_piped := (n_piped w)(rd := n_piped w rd @ bs)\<rparr>)) w)
      else
        let bs = take (min 3 len) (n_piped w fd_in)
        in (Inr (length bs), w\<lparr>n_piped := (n_piped w)(fd_in := drop (length bs) (n_piped w fd_in)),
                               n_out := (n_out w)(fd_out := n_out w fd_out @ bs)\<rparr>))"

definition net_uring :: "net uring" where
  "net_uring =
     \<lparr>u_read = (\<lambda>f len off. net_on_file f (\<lambda>p c w. (Inr (subspan off (min 3 len) c), w))),
      u_write = (\<lambda>f bs off. net_on_file f (\<lambda>p c w.
         (Inr (min 3 (length bs)), w\<lparr>n_files := (n_files w)(p \<mapsto> pwrite off (take 3 bs) c)\<rparr>))),
      u_recv = (\<lambda>f len fl w. let bs = take (min 3 len) (n_in w f)
         in (Inr bs, w\<lparr>n_in := (n_in w)(f := drop (length bs) (n_in w f))\<rparr>)),
      u_send = (\<lambda>f bs fl w. (Inr (min 3 (length bs)), w\<lparr>n_out := (n_out w)(f := n_out w f @ take 3 bs)\<rparr>)),
      u_splice = net_splice,
      u_pipe = (\<lambda>w. (None, w)),
      u_close = (\<lambda>fd w. w)\<rparr>"

text \<open>Three bytes, or what the file has left of them.\<close>

lemma subspan_three:
  "\<exists>n \<le> len. n \<le> length c - off \<and> subspan off (min 3 len) c = subspan off n c \<and> length (subspan off (min 3 len) c) = n \<and>
     (n = 0 \<and> 0 < len \<longrightarrow> length c \<le> off)"
proof (intro exI conjI)
  show "subspan off (min 3 len) c = subspan off (min (min 3 len) (length c - off)) c" by (rule subspan_clip)
qed (auto simp: subspan_def)

interpretation net_io: partial_io net_uring n_files n_open n_in n_out n_piped n_ends
proof unfold_locales
  fix f len off w rb w' p c
  assume "u_read net_uring f len off w = (rb, w')" "n_open w f = Some p" "n_files w p = Some c"
  then have e: "rb = Inr (subspan off (min 3 len) c)" "w' = w" by (simp_all add: net_uring_def net_on_file_def)
  from subspan_three obtain n where n: "n \<le> len" "n \<le> length c - off" "subspan off (min 3 len) c = subspan off n c"
    "length (subspan off (min 3 len) c) = n" "n = 0 \<and> 0 < len \<longrightarrow> length c \<le> off" by blast
  have "subspan off (min 3 len) c = [] \<and> 0 < len \<longrightarrow> length c \<le> off" using n(4,5) by fastforce
  then show "n_files w' = n_files w \<and> n_open w' = n_open w \<and>
      (\<forall>bs. rb = Inr bs \<longrightarrow> (\<exists>n \<le> len. n \<le> length c - off \<and> bs = subspan off n c) \<and> (bs = [] \<and> 0 < len \<longrightarrow> length c \<le> off))"
    unfolding e using n(1-3) by blast
next
  fix f bs off w r w' p c
  assume "u_write net_uring f bs off w = (r, w')" "n_open w f = Some p" "n_files w p = Some c"
  then show "n_open w' = n_open w \<and>
      (\<exists>n \<le> length bs. n_files w' = (n_files w)(p \<mapsto> pwrite off (take n bs) c) \<and> (\<forall>m. r = Inr m \<longrightarrow> m = n))"
    by (auto simp: net_uring_def net_on_file_def min_def intro!: exI [of _ "min 3 (length bs)"])
next
  fix f len fl w rb w'
  assume "u_recv net_uring f len fl w = (rb, w')"
  then show "case rb of Inl e \<Rightarrow> n_in w' f = n_in w f | Inr bs \<Rightarrow> length bs \<le> len \<and> n_in w f = bs @ n_in w' f"
    by (auto simp: net_uring_def Let_def min_def)
next
  fix f bs fl w r w'
  assume "u_send net_uring f bs fl w = (r, w')"
  then show "\<exists>n \<le> length bs. n_out w' f = n_out w f @ take n bs \<and> (\<forall>m. r = Inr m \<longrightarrow> m = n)"
    by (auto simp: net_uring_def min_def intro!: exI [of _ "min 3 (length bs)"])
next
  fix f off wr len w r w' p c rd
  assume "u_splice net_uring f (int off) wr (-1) len w = (r, w')" "n_open w f = Some p" "n_files w p = Some c" "n_ends w wr = Some rd"
  then have e: "r = Inr (length (subspan off (min 3 len) c))" "w' = w\<lparr>n_piped := (n_piped w)(rd := n_piped w rd @ subspan off (min 3 len) c)\<rparr>"
    by (simp_all add: net_uring_def net_splice_def net_on_file_def Let_def)
  from subspan_three obtain n where n: "n \<le> len" "n \<le> length c - off" "subspan off (min 3 len) c = subspan off n c"
    "length (subspan off (min 3 len) c) = n" "n = 0 \<and> 0 < len \<longrightarrow> length c \<le> off" by blast
  have w: "n_files w' = n_files w \<and> n_open w' = n_open w \<and> n_out w' = n_out w \<and> n_ends w' = n_ends w" using e by simp
  have q: "n_piped w' = (n_piped w)(rd := n_piped w rd @ subspan off n c)" "r = Inr n" using e n(3,4) by simp_all
  have "\<forall>m. r = Inr m \<longrightarrow> m = n" "r = Inr 0 \<and> 0 < len \<longrightarrow> length c \<le> off" using q(2) n(5) by simp_all
  with w q(1) n(1,2) show "n_files w' = n_files w \<and> n_open w' = n_open w \<and> n_out w' = n_out w \<and> n_ends w' = n_ends w \<and>
      (\<exists>n \<le> len. n \<le> length c - off \<and> n_piped w' = (n_piped w)(rd := n_piped w rd @ subspan off n c) \<and>
         (\<forall>m. r = Inr m \<longrightarrow> m = n) \<and> (r = Inr 0 \<and> 0 < len \<longrightarrow> length c \<le> off))"
    by blast
next
  fix rd f len w r w' wr
  assume "u_splice net_uring rd (-1) f (-1) len w = (r, w')" "n_ends w wr = Some rd"
  then show "n_files w' = n_files w \<and> n_open w' = n_open w \<and> n_ends w' = n_ends w \<and>
      (\<exists>n \<le> len. n \<le> length (n_piped w rd) \<and> n_piped w' = (n_piped w)(rd := drop n (n_piped w rd)) \<and>
         n_out w' = (n_out w)(f := n_out w f @ take n (n_piped w rd)) \<and> (\<forall>m. r = Inr m \<longrightarrow> m = n))"
    by (auto simp: net_uring_def net_splice_def Let_def min_def intro!: exI [of _ "min (min 3 len) (length (n_piped w rd))"])
qed

section \<open>Properties\<close>

text \<open>
  C23: bytes written with \<open>AsyncWriteExact\<close> are the bytes \<open>AsyncReadExact\<close> reads back, however few
  bytes the kernel moves in one operation: after a successful write of \<open>bs\<close> at an offset the file has
  exactly \<open>bs\<close> there and is unchanged elsewhere, and a read of the same range into any buffer either
  fills it with \<open>bs\<close> or reports the error of a read operation; it never reports the end of the file
  and never returns a buffer that is only partly filled.
\<close>

theorem exact_io_roundtrip:
  assumes kernel: "partial_io U content opened inbox outbox piped pipe_end"
    and f: "opened w f = Some p" "content w p = Some c"
    and lim: "offset + length bs < size_limit - 1" and len: "length buffer = length bs"
    and wr: "AsyncWriteExact U f bs offset w = (Inr (), w1)"
    and rd: "AsyncReadExact U f offset (buffer, w1) = (r, (buffer', w2))"
  shows "content w2 = (content w)(p \<mapsto> pwrite offset bs c) \<and>
    (case r of Inr _ \<Rightarrow> buffer' = bs | Inl e \<Rightarrow> \<exists>n off v v'. u_read U f n off v = (Inl e, v'))"
proof -
  have w1: "opened w1 = opened w" "content w1 = (content w)(p \<mapsto> pwrite offset bs c)"
    using partial_io.write_exact_file [OF kernel f lim wr] by auto
  then have f1: "opened w1 f = Some p" "content w1 p = Some (pwrite offset bs c)" using f by simp_all
  note k = partial_io.read_exact_file [OF kernel f1 lim [folded len] rd, unfolded len]
  have full: "\<not> length (pwrite offset bs c) < offset + length bs" if "bs \<noteq> []" using that by (simp add: length_pwrite)
  have "content w2 = content w1" using k by blast
  then have w2: "content w2 = (content w)(p \<mapsto> pwrite offset bs c)" using w1(2) by (rule trans)
  have nil: "r = Inr ()" if "bs = []"
    using rd lim len that by (auto simp: AsyncReadExact_def exact_loop.simps kUseFilePos_def split: if_splits)
  have "case r of Inr _ \<Rightarrow> buffer' = bs | Inl e \<Rightarrow> \<exists>n off v v'. u_read U f n off v = (Inl e, v')"
    using k full nil by (cases "bs = []") (auto simp: subspan_pwrite_here split: sum.splits)
  with w2 show ?thesis by (rule conjI)
qed

definition demo_net :: net where
  "demo_net = \<lparr>n_files = [''data'' \<mapsto> [1, 2, 3]], n_open = [7 \<mapsto> ''data''], n_in = (\<lambda>_. []), n_out = (\<lambda>_. []),
     n_piped = (\<lambda>_. [])(4 := [9]), n_ends = [5 \<mapsto> 4]\<rparr>"

theorem exact_io_roundtrip_witness:
  "\<exists>w1 w2 b. AsyncWriteExact net_uring 7 [10, 11, 12, 13] 2 demo_net = (Inr (), w1) \<and>
     AsyncReadExact net_uring 7 2 ([0, 0, 0, 0], w1) = (Inr (), (b, w2)) \<and>
     n_files w2 ''data'' = Some [1, 2, 10, 11, 12, 13] \<and> b = [10, 11, 12, 13]"
proof -
  let ?bs = "[10, 11, 12, 13] :: bytes" and ?z = "[0, 0, 0, 0] :: bytes"
  let ?w = "AsyncWriteExact net_uring 7 ?bs 2 demo_net"
  note run = AsyncWriteExact_def AsyncReadExact_def fill_def exact_loop.simps kUseFilePos_def size_limit_def sz_add_def
    net_uring_def net_on_file_def demo_net_def
  have ok: "fst ?w = Inr ()" "fst (AsyncReadExact net_uring 7 2 (?z, snd ?w)) = Inr ()"
    by (simp_all add: run pwrite_def memcpy_at_def subspan_def)
  have w: "?w = (Inr (), snd ?w)" using ok(1) by (cases ?w) simp
  obtain b w2 where r: "AsyncReadExact net_uring 7 2 (?z, snd ?w) = (Inr (), (b, w2))" using ok(2) by (metis prod.collapse)
  have "n_files w2 = (n_files demo_net)(''data'' \<mapsto> pwrite 2 ?bs [1, 2, 3]) \<and>
    (case Inr () :: int + unit of Inr _ \<Rightarrow> b = ?bs | Inl e \<Rightarrow> \<exists>n off v v'. u_read net_uring 7 n off v = (Inl e, v'))"
    by (rule exact_io_roundtrip [OF net_io.partial_io_axioms _ _ _ _ w r]) (simp_all add: demo_net_def size_limit_def)
  then have "n_files w2 ''data'' = Some [1, 2, 10, 11, 12, 13]" "b = ?bs" by (simp_all add: pwrite_def memcpy_at_def)
  then show ?thesis by (intro exI conjI) (rule w r | assumption)+
qed

text \<open>
  C22: \<open>AsyncSendfile\<close> moves the bytes of the file through the pipe in order and loses none: when it
  reports success, as many bytes have been sent as the file has of the range asked for, and the pipe
  goes back to the pool with as many bytes in it as before. What the socket receives are the bytes
  that were in the pooled pipe followed by those of the file, so the bytes of the file are received
  exactly when the pipe was empty; a call that fails leaves what it did not send in the pipe that it
  returns to the pool.
\<close>

theorem sendfile_delivers:
  assumes kernel: "partial_io U content opened inbox outbox piped pipe_end"
    and f: "opened w in_fd = Some q" "content w q = Some c"
    and pipe: "pipes pl = ps @ [p]" "Pipe_Valid p" "pipe_end w (write_fd p) = Some (read_fd p)" "length ps < max_size pl"
    and run: "AsyncSendfile U out_fd in_fd offset cnt (pl, w) = (r, (pl', w'))"
  shows "pl' = pl \<and> content w' = content w \<and>
    (\<exists>a m. a \<le> length c - offset \<and>
       outbox w' out_fd = outbox w out_fd @ take m (piped w (read_fd p) @ subspan offset a c) \<and>
       piped w' (read_fd p) = drop m (piped w (read_fd p) @ subspan offset a c) \<and>
       (r = Inr () \<longrightarrow> m = a \<and> a = min cnt (length c - offset)))"
proof -
  have acq: "Acquire U (pl, w) = (Some p, pl\<lparr>pipes := ps\<rparr>, w)" using pipe(1) by (simp add: Acquire_def)
  obtain r1 w1 where s: "sendfile_loop U out_fd in_fd p cnt offset w = (r1, w1)" by (metis surj_pair)
  have e: "r = r1" "w' = w1" "pl' = pl" using run pipe by (auto simp: AsyncSendfile_def acq s Release_def intro: PipePool.equality)
  from partial_io.sendfile_loop_bytes [OF kernel s f pipe(3)] show ?thesis unfolding e same_files_def by blast
qed

theorem sendfile_delivers_witness:
  "\<exists>w'. AsyncSendfile net_uring 6 7 0 3 (\<lparr>pipes = [\<lparr>read_fd = 4, write_fd = 5\<rparr>], max_size = 2\<rparr>, demo_net) =
       (Inr (), (\<lparr>pipes = [\<lparr>read_fd = 4, write_fd = 5\<rparr>], max_size = 2\<rparr>, w')) \<and>
     n_out w' 6 = [9, 1, 2] \<and> n_piped w' 4 = [3]"
proof -
  let ?p = "\<lparr>read_fd = 4, write_fd = 5\<rparr>"
  let ?s = "AsyncSendfile net_uring 6 7 0 3 (\<lparr>pipes = [?p], max_size = 2\<rparr>, demo_net)"
  obtain r pl' w' where s: "?s = (r, (pl', w'))" by (metis surj_pair)
  have "fst ?s = Inr ()"
    by (simp add: AsyncSendfile_def Acquire_def Release_def Pipe_Valid_def sendfile_loop.simps splice_in.simps splice_out.simps
      kChunkSize_def net_uring_def net_splice_def net_on_file_def demo_net_def subspan_def)
  then have r: "r = Inr ()" using s by simp
  have "pl' = \<lparr>pipes = [?p], max_size = 2\<rparr> \<and> n_files w' = n_files demo_net \<and>
    (\<exists>a m. a \<le> length [1, 2, 3 :: 8 word] - 0 \<and>
       n_out w' 6 = n_out demo_net 6 @ take m (n_piped demo_net (read_fd ?p) @ subspan 0 a [1, 2, 3]) \<and>
       n_piped w' (read_fd ?p) = drop m (n_piped demo_net (read_fd ?p) @ subspan 0 a [1, 2, 3]) \<and>
       (r = Inr () \<longrightarrow> m = a \<and> a = min 3 (length [1, 2, 3 :: 8 word] - 0)))"
    by (rule sendfile_delivers [OF net_io.partial_io_axioms _ _ _ _ _ _ s, where ps = "[]"]) (simp_all add: demo_net_def Pipe_Valid_def)
  then show ?thesis using s r by (auto simp: demo_net_def subspan_def)
qed

end
