(* ===== verification/Pending_List.thy ===== *)
theory Pending_List
  imports Kio_Prelude
begin

text \<open>
  The operations an I/O context is waiting for (\<^verbatim>\<open>include/kio/core/core.hpp\<close>, \<^verbatim>\<open>OperationState\<close>;
  \<^verbatim>\<open>src/kio/core.cpp\<close>, \<^verbatim>\<open>Track\<close> and \<^verbatim>\<open>Untrack\<close>). They form a doubly linked list through fields of the
  operations themselves. The memory of the operations is a function from addresses; a null
  pointer is \<open>None\<close>. The invariant relates the pointers to a list of addresses, and the two
  operations are shown to be insertion at the front and removal.
\<close>

type_synonym addr = nat

type_synonym handle = nat

datatype OpCancelReason = CancelNone | CancelTimeout | ExplicitCancel | ContextShutdown

record OperationState =
  op_res :: int
  op_handle :: "handle option"
  op_next :: "addr option"
  op_prev :: "addr option"
  op_tracked :: bool
  op_cancel_reason :: OpCancelReason

definition mk_OperationState :: OperationState where
  "mk_OperationState = \<lparr>op_res = 0, op_handle = None, op_next = None, op_prev = None, op_tracked = False,
     op_cancel_reason = CancelNone\<rparr>"

type_synonym op_mem = "addr \<Rightarrow> OperationState"

text \<open>The list: its memory and the pointer to its first element.\<close>

type_synonym pending = "op_mem \<times> addr option"

section \<open>Track and Untrack\<close>

definition Track :: "addr \<Rightarrow> pending \<Rightarrow> pending" where
  "Track op s =
     (case s of (m, pending_head) \<Rightarrow>
        let m = m(op := (m op)\<lparr>op_tracked := True, op_next := pending_head, op_prev := None\<rparr>);
            m = (case pending_head of None \<Rightarrow> m | Some h \<Rightarrow> m(h := (m h)\<lparr>op_prev := Some op\<rparr>))
        in (m, Some op))"

definition Untrack :: "addr \<Rightarrow> pending \<Rightarrow> pending" where
  "Untrack op s =
     (case s of (m, pending_head) \<Rightarrow>
        let (m, pending_head) =
              (case op_prev (m op) of
                 Some p \<Rightarrow> (m(p := (m p)\<lparr>op_next := op_next (m op)\<rparr>), pending_head)
               | None \<Rightarrow> (m, if pending_head = Some op then op_next (m op) else pending_head));
            m = (case op_next (m op) of None \<Rightarrow> m | Some n \<Rightarrow> m(n := (m n)\<lparr>op_prev := op_prev (m op)\<rparr>));
            m = m(op := (m op)\<lparr>op_next := None, op_prev := None, op_tracked := False\<rparr>)
        in (m, pending_head))"

section \<open>The list the pointers form\<close>

text \<open>
  \<open>seg m p h as q t\<close>: following \<open>op_next\<close> from \<open>h\<close> passes through \<open>as\<close> and arrives at \<open>t\<close>; following
  \<open>op_prev\<close> back from the last element, which is \<open>q\<close>, arrives at \<open>p\<close>.
\<close>

fun seg :: "op_mem \<Rightarrow> addr option \<Rightarrow> addr option \<Rightarrow> addr list \<Rightarrow> addr option \<Rightarrow> addr option \<Rightarrow> bool" where
  "seg m p h [] q t \<longleftrightarrow> q = p \<and> t = h"
| "seg m p h (a # as) q t \<longleftrightarrow> h = Some a \<and> op_prev (m a) = p \<and> seg m (Some a) (op_next (m a)) as q t"

definition pending_ok :: "pending \<Rightarrow> addr list \<Rightarrow> bool" where
  "pending_ok s as \<longleftrightarrow>
     (\<exists>q. seg (fst s) None (snd s) as q None) \<and> distinct as \<and>
     (\<forall>a. op_tracked (fst s a) \<longleftrightarrow> a \<in> set as) \<and>
     (\<forall>a. a \<notin> set as \<longrightarrow> op_next (fst s a) = None \<and> op_prev (fst s a) = None)"

lemma seg_append: "seg m p h (as @ bs) q t \<longleftrightarrow> (\<exists>q' t'. seg m p h as q' t' \<and> seg m q' t' bs q t)"
  by (induction as arbitrary: p h) auto

lemma seg_cong:
  "(\<And>a. a \<in> set as \<Longrightarrow> op_next (m' a) = op_next (m a) \<and> op_prev (m' a) = op_prev (m a)) \<Longrightarrow>
   seg m' p h as q t \<longleftrightarrow> seg m p h as q t"
  by (induction as arbitrary: p h) auto

lemma seg_last: "seg m p h as q t \<Longrightarrow> as \<noteq> [] \<Longrightarrow> q = Some (last as)"
  by (induction as arbitrary: p h) auto

lemma seg_first: "seg m p h as q t \<Longrightarrow> as \<noteq> [] \<Longrightarrow> h = Some (hd as)"
  by (cases as) auto

text \<open>The pointers at the two ends may be redirected.\<close>

lemma seg_redirect_end:
  assumes "seg m p h as (Some b) t" and "p \<noteq> Some b \<or> as \<noteq> []" and "distinct as"
    and "\<And>a. a \<in> set as \<Longrightarrow> op_prev (m' a) = op_prev (m a) \<and> (a \<noteq> b \<longrightarrow> op_next (m' a) = op_next (m a))"
    and "op_next (m' b) = t'"
  shows "seg m' p h as (Some b) t'"
proof -
  have ne: "as \<noteq> []" using assms(1,2) by auto
  then have as: "as = butlast as @ [b]" using seg_last [OF assms(1)] by (metis append_butlast_last_id option.inject)
  then have "seg m p h (butlast as @ [b]) (Some b) t" using assms(1) by simp
  then obtain q' where s: "seg m p h (butlast as) q' (Some b)" "op_prev (m b) = q'" by (auto simp: seg_append)
  have b: "b \<notin> set (butlast as)" using as assms(3) by (metis distinct_append disjoint_iff list.set_intros(1))
  have "seg m' p h (butlast as) q' (Some b)"
    using s(1) by (subst seg_cong [of _ m' m]) (use assms(4) b in \<open>auto dest: in_set_butlastD\<close>)
  moreover have "op_prev (m' b) = q'" using assms(4) [of b] s(2) as by (metis in_set_conv_decomp)
  ultimately have "seg m' p h (butlast as @ [b]) (Some b) t'" using assms(5) by (auto simp: seg_append)
  then show ?thesis using as by simp
qed

lemma seg_redirect_start:
  assumes "seg m p (Some c) as q t" and "as \<noteq> []" and "distinct as"
    and "\<And>a. a \<in> set as \<Longrightarrow> op_next (m' a) = op_next (m a) \<and> (a \<noteq> c \<longrightarrow> op_prev (m' a) = op_prev (m a))"
    and "op_prev (m' c) = p'"
  shows "seg m' p' (Some c) as q t"
proof (cases as)
  case (Cons a bs)
  with assms(1) have a: "a = c" and s: "seg m (Some c) (op_next (m c)) bs q t" by auto
  have "seg m' (Some c) (op_next (m c)) bs q t"
    using s by (subst seg_cong [of _ m' m]) (use assms(3,4) Cons a in auto)
  then show ?thesis using Cons a assms(4) [of c] assms(5) by simp
qed (use assms(2) in simp)

lemma pending_ok_empty: "(\<And>a. m a = mk_OperationState) \<Longrightarrow> pending_ok (m, None) []"
  by (simp add: pending_ok_def mk_OperationState_def)

lemma pending_ok_tracked: "pending_ok s as \<Longrightarrow> op_tracked (fst s a) \<longleftrightarrow> a \<in> set as"
  by (simp add: pending_ok_def)

lemma pending_ok_head: "pending_ok s as \<Longrightarrow> snd s = (case as of [] \<Rightarrow> None | a # _ \<Rightarrow> Some a)"
  by (auto simp: pending_ok_def split: list.splits)

text \<open>Fields that are not pointers do not matter.\<close>

lemma pending_ok_cong:
  assumes "pending_ok (m, h) as"
    and "\<And>a. op_next (m' a) = op_next (m a) \<and> op_prev (m' a) = op_prev (m a) \<and> op_tracked (m' a) = op_tracked (m a)"
  shows "pending_ok (m', h) as"
  using assms seg_cong [of as m' m] by (simp add: pending_ok_def)

section \<open>Track is insertion, Untrack is removal\<close>

lemma Track_ok:
  assumes "pending_ok s as" and "op \<notin> set as"
  shows "pending_ok (Track op s) (op # as)"
proof -
  obtain m h where s: "s = (m, h)" by (cases s)
  from assms(1) obtain q where sg: "seg m None h as q None" and d: "distinct as"
    and t: "\<And>a. op_tracked (m a) \<longleftrightarrow> a \<in> set as"
    and n: "\<And>a. a \<notin> set as \<Longrightarrow> op_next (m a) = None \<and> op_prev (m a) = None"
    by (auto simp: pending_ok_def s)
  let ?m = "fst (Track op s)"
  have "h \<noteq> Some op" using sg assms(2) by (cases as) auto
  then have links: "op_next (?m op) = h" "op_prev (?m op) = None" "op_tracked (?m op)"
    by (auto simp: Track_def s Let_def split: option.splits)
  have frame: "op_next (?m a) = op_next (m a) \<and> op_tracked (?m a) = op_tracked (m a) \<and>
      (Some a \<noteq> h \<longrightarrow> op_prev (?m a) = op_prev (m a))" if "a \<noteq> op" for a
    using that by (auto simp: Track_def s Let_def split: option.splits)
  have first: "op_prev (?m c) = Some op" if "h = Some c" for c
    using that by (auto simp: Track_def s Let_def)
  have "seg ?m (Some op) h as (if as = [] then Some op else q) None"
  proof (cases as)
    case Nil
    then show ?thesis using sg by simp
  next
    case (Cons c bs)
    then have h: "h = Some c" using sg by simp
    have "op_next (?m a) = op_next (m a) \<and> (a \<noteq> c \<longrightarrow> op_prev (?m a) = op_prev (m a))" if "a \<in> set as" for a
      using frame [of a] that assms(2) h by auto
    from seg_redirect_start [OF sg [unfolded h] _ d this first [OF h]] show ?thesis using h Cons by simp
  qed
  then have "seg ?m None (Some op) (op # as) (if as = [] then Some op else q) None" using links by simp
  moreover have "snd (Track op s) = Some op" by (simp add: Track_def s Let_def)
  moreover have "op_tracked (?m a) \<longleftrightarrow> a \<in> set (op # as)" for a using frame [of a] links(3) t by (cases "a = op") auto
  moreover have "op_next (?m a) = None \<and> op_prev (?m a) = None" if "a \<notin> set (op # as)" for a
    using frame [of a] n [of a] that seg_first [OF sg] sg by (cases as) auto
  ultimately show ?thesis using d assms(2) unfolding pending_ok_def by (metis distinct.simps(2))
qed

text \<open>What the removal of \<open>op\<close> from between \<open>xs\<close> and \<open>ys\<close> does to the pointers.\<close>

lemma Untrack_fields:
  assumes "op_prev (m op) \<noteq> Some op" and "op_next (m op) \<noteq> Some op"
  shows "op_next (fst (Untrack op (m, h)) a) = (if a = op then None else if op_prev (m op) = Some a then op_next (m op) else op_next (m a)) \<and>
    op_prev (fst (Untrack op (m, h)) a) = (if a = op then None else if op_next (m op) = Some a then op_prev (m op) else op_prev (m a)) \<and>
    op_tracked (fst (Untrack op (m, h)) a) = (a \<noteq> op \<and> op_tracked (m a)) \<and>
    snd (Untrack op (m, h)) = (if op_prev (m op) = None \<and> h = Some op then op_next (m op) else h)"
  using assms by (auto simp: Untrack_def Let_def split: option.splits)

lemma Untrack_absent:
  assumes "pending_ok s as" and "op \<notin> set as"
  shows "pending_ok (Untrack op s) as"
proof -
  obtain m h where s: "s = (m, h)" by (cases s)
  have n: "op_next (m op) = None" "op_prev (m op) = None" "\<not> op_tracked (m op)" using assms by (auto simp: pending_ok_def s)
  have "h \<noteq> Some op" using pending_ok_head [OF assms(1)] assms(2) by (cases as) (auto simp: s)
  then have "Untrack op s = (m(op := (m op)\<lparr>op_next := None, op_prev := None, op_tracked := False\<rparr>), h)"
    using n by (simp add: Untrack_def s Let_def)
  then show ?thesis using pending_ok_cong [OF assms(1) [unfolded s]] n by simp
qed

lemma Untrack_ok:
  assumes "pending_ok s as"
  shows "pending_ok (Untrack op s) (remove1 op as)"
proof (cases "op \<in> set as")
  case False
  then show ?thesis using Untrack_absent [OF assms] by (simp add: remove1_idem)
next
  case True
  obtain m h where s: "s = (m, h)" by (cases s)
  from True obtain xs ys where as: "as = xs @ op # ys" by (meson split_list)
  from assms obtain q where sg: "seg m None h (xs @ op # ys) q None" and d: "distinct (xs @ op # ys)"
    and t: "\<And>a. op_tracked (m a) \<longleftrightarrow> a \<in> set as"
    and n: "\<And>a. a \<notin> set as \<Longrightarrow> op_next (m a) = None \<and> op_prev (m a) = None"
    by (auto simp: pending_ok_def s as)
  from sg obtain q1 t1 where x: "seg m None h xs q1 (Some op)" and l: "op_prev (m op) = q1" "op_next (m op) = t1"
    and y: "seg m (Some op) t1 ys q None" by (auto simp: seg_append)
  have q1: "q1 = (if xs = [] then None else Some (last xs))" using seg_last [OF x] x by (cases xs) auto
  have t1: "t1 = (if ys = [] then None else Some (hd ys))" using seg_first [OF y] y by (cases ys) auto
  have ne: "op_prev (m op) \<noteq> Some op" "op_next (m op) \<noteq> Some op"
    using l q1 t1 d last_in_set [of xs] hd_in_set [of ys] by (auto split: if_splits)
  let ?m = "fst (Untrack op s)" and ?h = "snd (Untrack op s)"
  note U = Untrack_fields [where m = m and op = op and h = h, OF ne, folded s]
  have h: "?h = (if xs = [] then t1 else h)" using U [of op] l q1 x by auto
  have xs: "seg ?m None ?h xs q1 t1"
  proof (cases "xs = []")
    case True
    then show ?thesis using h q1 by simp
  next
    case False
    then have b: "q1 = Some (last xs)" using q1 by simp
    have "seg ?m None h xs (Some (last xs)) t1"
    proof (rule seg_redirect_end [OF x [unfolded b]])
      show "op_prev (?m a) = op_prev (m a) \<and> (a \<noteq> last xs \<longrightarrow> op_next (?m a) = op_next (m a))" if "a \<in> set xs" for a
      proof -
        have "op_next (m op) \<noteq> Some a" using that d l t1 hd_in_set [of ys] by (auto split: if_splits)
        then show ?thesis using U [of a] that d l b by auto
      qed
      show "op_next (?m (last xs)) = t1" using U [of "last xs"] d l b False last_in_set [of xs] by auto
    qed (use False d in auto)
    then show ?thesis using h False b by simp
  qed
  have ys: "seg ?m q1 t1 ys (if ys = [] then q1 else q) None"
  proof (cases "ys = []")
    case True
    then show ?thesis using t1 by simp
  next
    case False
    then have c: "t1 = Some (hd ys)" using t1 by simp
    have "seg ?m q1 (Some (hd ys)) ys q None"
    proof (rule seg_redirect_start [OF y [unfolded c]])
      show "op_next (?m a) = op_next (m a) \<and> (a \<noteq> hd ys \<longrightarrow> op_prev (?m a) = op_prev (m a))" if "a \<in> set ys" for a
      proof -
        have "op_prev (m op) \<noteq> Some a" using that d l q1 last_in_set [of xs] disjoint_iff [of "set xs" "set ys"] by (auto split: if_splits)
        then show ?thesis using U [of a] that d l c by auto
      qed
      show "op_prev (?m (hd ys)) = q1" using U [of "hd ys"] d l c False hd_in_set [of ys] by auto
    qed (use False d in auto)
    then show ?thesis using c False by simp
  qed
  have "\<exists>q. seg ?m None ?h (xs @ ys) q None" unfolding seg_append using xs ys by blast
  moreover have "op_tracked (?m a) \<longleftrightarrow> a \<in> set (xs @ ys)" for a using U [of a] t [of a] d as by auto
  moreover have "op_next (?m a) = None \<and> op_prev (?m a) = None" if "a \<notin> set (xs @ ys)" for a
    using U [of a] n [of a] that as l q1 t1 last_in_set [of xs] hd_in_set [of ys] by (auto split: if_splits)
  moreover have "remove1 op as = xs @ ys" using d as by (simp add: remove1_append)
  ultimately show ?thesis using d by (simp add: pending_ok_def)
qed

text \<open>What the two operations leave alone.\<close>

lemma Track_frame [simp]:
  "op_res (fst (Track op s) a) = op_res (fst s a)"
  "op_handle (fst (Track op s) a) = op_handle (fst s a)"
  "op_cancel_reason (fst (Track op s) a) = op_cancel_reason (fst s a)"
  by (auto simp: Track_def Let_def split: prod.splits option.splits)

lemma Untrack_frame [simp]:
  "op_res (fst (Untrack op s) a) = op_res (fst s a)"
  "op_handle (fst (Untrack op s) a) = op_handle (fst s a)"
  "op_cancel_reason (fst (Untrack op s) a) = op_cancel_reason (fst s a)"
  by (auto simp: Untrack_def Let_def split: prod.splits option.splits)

section \<open>Walking the list\<close>

text \<open>The loop that follows \<open>op_next\<close> to the end; on a list with a cycle it does not return.\<close>

partial_function (option) collect_pending :: "op_mem \<Rightarrow> addr option \<Rightarrow> addr list \<Rightarrow> addr list option" where
  "collect_pending m p ops_to_cancel =
     (case p of
        None \<Rightarrow> Some ops_to_cancel
      | Some op \<Rightarrow> collect_pending m (op_next (m op)) (ops_to_cancel @ [op]))"

lemma collect_pending_seg: "seg m p h as q None \<Longrightarrow> collect_pending m h acc = Some (acc @ as)"
proof (induction as arbitrary: p h acc)
  case Nil
  then show ?case by (simp add: collect_pending.simps)
next
  case (Cons a as)
  then have "collect_pending m (op_next (m a)) (acc @ [a]) = Some (acc @ a # as)" by fastforce
  then show ?case using Cons.prems by (subst collect_pending.simps) simp
qed

lemma collect_pending_ok: "pending_ok s as \<Longrightarrow> collect_pending (fst s) (snd s) [] = Some as"
  using collect_pending_seg [where acc = "[]"] by (auto simp: pending_ok_def)

section \<open>The interface the event loop relies on\<close>

locale operation_set =
  fixes track :: "addr \<Rightarrow> 's \<Rightarrow> 's" and untrack :: "addr \<Rightarrow> 's \<Rightarrow> 's"
    and collect :: "'s \<Rightarrow> addr list option" and ok :: "'s \<Rightarrow> addr list \<Rightarrow> bool"
  assumes track_ok: "ok s as \<Longrightarrow> a \<notin> set as \<Longrightarrow> ok (track a s) (a # as)"
    and untrack_ok: "ok s as \<Longrightarrow> ok (untrack a s) (remove1 a as)"
    and collect_ok: "ok s as \<Longrightarrow> collect s = Some as"
    and ok_distinct: "ok s as \<Longrightarrow> distinct as"
begin

lemma untrack_all: "ok s as \<Longrightarrow> ok (fold untrack bs s) (filter (\<lambda>a. a \<notin> set bs) as)"
proof (induction bs arbitrary: s as)
  case (Cons b bs)
  have "ok (fold untrack bs (untrack b s)) (filter (\<lambda>a. a \<notin> set bs) (remove1 b as))"
    using Cons.IH [OF untrack_ok [OF Cons.prems]] .
  moreover have "filter (\<lambda>a. a \<notin> set bs) (remove1 b as) = filter (\<lambda>a. a \<notin> set (b # bs)) as"
    using ok_distinct [OF Cons.prems] by (simp add: distinct_remove1_removeAll removeAll_filter_not_eq conj_commute eq_commute)
  ultimately show ?case by simp
qed simp

end

interpretation pending: operation_set Track Untrack "\<lambda>s. collect_pending (fst s) (snd s) []" pending_ok
  by unfold_locales (simp_all add: Track_ok Untrack_ok collect_pending_ok, simp add: pending_ok_def)

section \<open>Sequences of insertions and removals\<close>

datatype pending_op = OpTrack addr | OpUntrack addr

fun pending_run :: "pending_op list \<Rightarrow> pending \<Rightarrow> pending" where
  "pending_run [] s = s"
| "pending_run (OpTrack a # ops) s = pending_run ops (Track a s)"
| "pending_run (OpUntrack a # ops) s = pending_run ops (Untrack a s)"

fun list_run :: "pending_op list \<Rightarrow> addr list \<Rightarrow> addr list option" where
  "list_run [] as = Some as"
| "list_run (OpTrack a # ops) as = (if a \<in> set as then None else list_run ops (a # as))"
| "list_run (OpUntrack a # ops) as = list_run ops (remove1 a as)"

text \<open>
  C13: the intrusive list of pending operations is a list. Whatever operations are tracked and
  untracked in whatever order, as long as none is tracked that already is, the pointers
  form the list that insertion at the front and removal give: walking it from the head
  terminates and visits exactly these operations, the backward pointers mirror the forward ones,
  the flag of an operation says whether it is in the list, and operations outside have no links.
\<close>

theorem pending_list_refines:
  assumes "pending_ok s as" and "list_run ops as = Some bs"
  shows "pending_ok (pending_run ops s) bs \<and> collect_pending (fst (pending_run ops s)) (snd (pending_run ops s)) [] = Some bs"
proof -
  have "pending_ok (pending_run ops s) bs" using assms
  proof (induction ops as arbitrary: s rule: list_run.induct)
    case (2 a ops as)
    then show ?case using pending.track_ok by (simp split: if_splits)
  next
    case (3 a ops as)
    then show ?case using pending.untrack_ok by simp
  qed simp
  then show ?thesis using pending.collect_ok by blast
qed

theorem pending_list_refines_witness:
  "collect_pending (fst (pending_run [OpTrack 16, OpTrack 32, OpTrack 48, OpUntrack 32] (\<lambda>_. mk_OperationState, None)))
     (snd (pending_run [OpTrack 16, OpTrack 32, OpTrack 48, OpUntrack 32] (\<lambda>_. mk_OperationState, None))) [] = Some [48, 16]"
  using pending_list_refines [OF pending_ok_empty, of "\<lambda>_. mk_OperationState" "[OpTrack 16, OpTrack 32, OpTrack 48, OpUntrack 32]" "[48, 16]"]
  by simp

end
