(* ===== verification/Uring_Ops.thy ===== *)
theory Uring_Ops
  imports Kio_Prelude
begin

text \<open>
  The operations of the ring (\<^verbatim>\<open>include/kio/io.hpp\<close>, with \<^verbatim>\<open>SpliceOp\<close> of \<^verbatim>\<open>io_helpers.hpp\<close>, \<^verbatim>\<open>WaitSignalOp\<close>,
  \<^verbatim>\<open>Notifier::WaitOp\<close> and \<^verbatim>\<open>WithTimeoutOp\<close> of \<^verbatim>\<open>core.hpp\<close>). An operation is what it asks the kernel for,
  the submission entry that its \<^verbatim>\<open>PrepareSqe\<close> fills, together with the translation of the result
  code that its \<^verbatim>\<open>await_resume\<close> does. Buffers appear as their length where the kernel writes
  and as their bytes where it reads. The lengths the \<^verbatim>\<open>io_uring_prep\<close> functions take are 32 bits
  wide. An error code is its number.
\<close>

section \<open>Submission entries\<close>

datatype prep =
    PrepAccept int
  | PrepRecv int nat int
  | PrepSend int bytes int
  | PrepOpenat string int nat
  | PrepRead int nat nat
  | PrepWrite int bytes nat
  | PrepClose int
  | PrepConnect int bytes nat
  | PrepFsync int bool
  | PrepFallocate int int int int
  | PrepFtruncate int int
  | PrepPollAdd int nat
  | PrepReadv int "nat list" nat
  | PrepWritev int "bytes list" nat
  | PrepSendmsg int "bytes list" nat
  | PrepTimeout int int
  | PrepLinkTimeout int int
  | PrepSplice int int int int nat
  | PrepCancel nat

datatype sqe_flag = IOSQE_IO_LINK | IOSQE_FIXED_FILE | IOSQE_CQE_SKIP_SUCCESS

record sqe =
  sqe_prep :: prep
  sqe_flags :: "sqe_flag set"
  sqe_data :: nat

text \<open>An entry as \<^verbatim>\<open>io_uring_prep\<close> leaves it.\<close>

definition sqe_of :: "prep \<Rightarrow> sqe" where
  "sqe_of p = \<lparr>sqe_prep = p, sqe_flags = {}, sqe_data = 0\<rparr>"

record 'r uring_op =
  op_sqe :: sqe
  op_resume :: "int \<Rightarrow> int + 'r"

section \<open>Results\<close>

definition EINTR :: int where "EINTR = 4"
definition ETIME :: int where "ETIME = 62"
definition ETIMEDOUT :: int where "ETIMEDOUT = 110"
definition ECANCELED :: int where "ECANCELED = 125"

definition MakeErrorCode :: "int \<Rightarrow> int" where
  "MakeErrorCode err = (if 0 < err then err else - err)"

text \<open>\<^verbatim>\<open>UringOp::await_resume\<close>: the number of bytes.\<close>

definition size_result :: "int \<Rightarrow> int + nat" where
  "size_result res = (if res < 0 then Inl (MakeErrorCode res) else Inr (nat res))"

definition void_result :: "int \<Rightarrow> int + unit" where
  "void_result res = (if res < 0 then Inl (MakeErrorCode res) else Inr ())"

section \<open>Operations\<close>

definition AcceptOp :: "int \<Rightarrow> 'a \<Rightarrow> (int \<times> 'a) uring_op" where
  "AcceptOp fd client_addr =
     \<lparr>op_sqe = sqe_of (PrepAccept fd),
      op_resume = (\<lambda>res. if res < 0 then Inl (MakeErrorCode res) else Inr (res, client_addr))\<rparr>"

definition RecvOp :: "int \<Rightarrow> nat \<Rightarrow> int \<Rightarrow> nat uring_op" where
  "RecvOp fd len flags = \<lparr>op_sqe = sqe_of (PrepRecv fd (trunc32 len) flags), op_resume = size_result\<rparr>"

definition SendOp :: "int \<Rightarrow> bytes \<Rightarrow> int \<Rightarrow> nat uring_op" where
  "SendOp fd buffer flags =
     \<lparr>op_sqe = sqe_of (PrepSend fd (take (trunc32 (length buffer)) buffer) flags), op_resume = size_result\<rparr>"

definition OpenOp :: "string \<Rightarrow> int \<Rightarrow> nat \<Rightarrow> int uring_op" where
  "OpenOp p flags mode =
     \<lparr>op_sqe = sqe_of (PrepOpenat p flags mode), op_resume = (\<lambda>res. if res < 0 then Inl (MakeErrorCode res) else Inr res)\<rparr>"

definition ReadOp :: "int \<Rightarrow> nat \<Rightarrow> nat \<Rightarrow> nat uring_op" where
  "ReadOp fd len offset = \<lparr>op_sqe = sqe_of (PrepRead fd (trunc32 len) offset), op_resume = size_result\<rparr>"

definition WriteOp :: "int \<Rightarrow> bytes \<Rightarrow> nat \<Rightarrow> nat uring_op" where
  "WriteOp fd buffer offset =
     \<lparr>op_sqe = sqe_of (PrepWrite fd (take (trunc32 (length buffer)) buffer) offset), op_resume = size_result\<rparr>"

definition CloseOp :: "int \<Rightarrow> unit uring_op" where
  "CloseOp fd = \<lparr>op_sqe = sqe_of (PrepClose fd), op_resume = void_result\<rparr>"

definition ReadFixedOp :: "int \<Rightarrow> nat \<Rightarrow> nat \<Rightarrow> nat uring_op" where
  "ReadFixedOp file_index len offset =
     \<lparr>op_sqe = (sqe_of (PrepRead file_index (trunc32 len) offset))\<lparr>sqe_flags := {IOSQE_FIXED_FILE}\<rparr>, op_resume = size_result\<rparr>"

definition WriteFixedOp :: "int \<Rightarrow> bytes \<Rightarrow> nat \<Rightarrow> nat uring_op" where
  "WriteFixedOp file_index buffer offset =
     \<lparr>op_sqe = (sqe_of (PrepWrite file_index (take (trunc32 (length buffer)) buffer) offset))\<lparr>sqe_flags := {IOSQE_FIXED_FILE}\<rparr>,
      op_resume = size_result\<rparr>"

text \<open>The address is copied into storage of 128 bytes inside the operation.\<close>

definition ConnectOp :: "int \<Rightarrow> bytes \<Rightarrow> nat \<Rightarrow> unit uring_op" where
  "ConnectOp fd sockaddr addrlen =
     \<lparr>op_sqe = sqe_of (PrepConnect fd (memcpy_at 0 (take addrlen sockaddr) (replicate 128 0)) addrlen), op_resume = void_result\<rparr>"

definition FsyncOp :: "int \<Rightarrow> nat uring_op" where
  "FsyncOp fd = \<lparr>op_sqe = sqe_of (PrepFsync fd False), op_resume = size_result\<rparr>"

definition FdatasyncOp :: "int \<Rightarrow> nat uring_op" where
  "FdatasyncOp fd = \<lparr>op_sqe = sqe_of (PrepFsync fd True), op_resume = size_result\<rparr>"

definition FallocateOp :: "int \<Rightarrow> int \<Rightarrow> int \<Rightarrow> int \<Rightarrow> nat uring_op" where
  "FallocateOp fd mode offset len = \<lparr>op_sqe = sqe_of (PrepFallocate fd mode offset len), op_resume = size_result\<rparr>"

definition FtruncateOp :: "int \<Rightarrow> int \<Rightarrow> nat uring_op" where
  "FtruncateOp fd len = \<lparr>op_sqe = sqe_of (PrepFtruncate fd len), op_resume = size_result\<rparr>"

definition PollOp :: "int \<Rightarrow> nat \<Rightarrow> nat uring_op" where
  "PollOp fd poll_mask = \<lparr>op_sqe = sqe_of (PrepPollAdd fd poll_mask), op_resume = size_result\<rparr>"

definition ReadvOp :: "int \<Rightarrow> nat list \<Rightarrow> nat \<Rightarrow> nat uring_op" where
  "ReadvOp fd iovecs offset =
     \<lparr>op_sqe = sqe_of (PrepReadv fd (take (trunc32 (length iovecs)) iovecs) offset), op_resume = size_result\<rparr>"

definition WritevOp :: "int \<Rightarrow> bytes list \<Rightarrow> nat \<Rightarrow> nat uring_op" where
  "WritevOp fd iovecs offset =
     \<lparr>op_sqe = sqe_of (PrepWritev fd (take (trunc32 (length iovecs)) iovecs) offset), op_resume = size_result\<rparr>"

definition SendmsgOp :: "int \<Rightarrow> bytes list \<Rightarrow> nat \<Rightarrow> nat uring_op" where
  "SendmsgOp fd msg flags = \<lparr>op_sqe = sqe_of (PrepSendmsg fd msg flags), op_resume = size_result\<rparr>"

definition SpliceOp :: "int \<Rightarrow> int \<Rightarrow> int \<Rightarrow> int \<Rightarrow> nat \<Rightarrow> nat uring_op" where
  "SpliceOp fd_in off_in fd_out off_out len =
     \<lparr>op_sqe = sqe_of (PrepSplice fd_in off_in fd_out off_out (trunc32 len)), op_resume = size_result\<rparr>"

text \<open>Both read eight bytes of an event counter; \<open>value\<close> is what the read leaves in the operation.\<close>

definition WaitSignalOp :: "int \<Rightarrow> u64 \<Rightarrow> int uring_op" where
  "WaitSignalOp fd signo =
     \<lparr>op_sqe = sqe_of (PrepRead fd 8 0),
      op_resume = (\<lambda>res. if res < 0 then Inl (MakeErrorCode res) else Inr (sint (ucast signo :: 32 word)))\<rparr>"

definition WaitOp :: "int \<Rightarrow> u64 \<Rightarrow> u64 uring_op" where
  "WaitOp fd val =
     \<lparr>op_sqe = sqe_of (PrepRead fd 8 0), op_resume = (\<lambda>res. if res < 0 then Inl (MakeErrorCode res) else Inr val)\<rparr>"

section \<open>Durations\<close>

text \<open>Division of C++ rounds towards zero and the remainder has the sign of the dividend.\<close>

definition quot :: "int \<Rightarrow> int \<Rightarrow> int" where
  "quot a b = (if a < 0 then - (- a div b) else a div b)"

definition rem :: "int \<Rightarrow> int \<Rightarrow> int" where
  "rem a b = a - b * quot a b"

definition timespec_of :: "int \<Rightarrow> int \<times> int" where
  "timespec_of ns = (quot ns 1000000000, rem ns 1000000000)"

definition SleepOp :: "int \<Rightarrow> unit uring_op" where
  "SleepOp ns =
     \<lparr>op_sqe = sqe_of (case timespec_of ns of (sec, nsec) \<Rightarrow> PrepTimeout sec nsec),
      op_resume = (\<lambda>res. if res = - ETIME then Inr () else void_result res)\<rparr>"

lemma timespec_split: "fst (timespec_of ns) * 1000000000 + snd (timespec_of ns) = ns"
  by (simp add: timespec_of_def rem_def)

lemma timespec_range: "0 \<le> ns \<Longrightarrow> 0 \<le> snd (timespec_of ns) \<and> snd (timespec_of ns) < 1000000000 \<and> 0 \<le> fst (timespec_of ns)"
  by (simp add: timespec_of_def rem_def quot_def minus_mult_div_eq_mod)

lemma timespec_negative:
  assumes "ns < 0"
  shows "- 1000000000 < snd (timespec_of ns) \<and> snd (timespec_of ns) \<le> 0"
proof -
  have "ns + 1000000000 * (- ns div 1000000000) = - (- ns mod 1000000000)"
    by (simp add: minus_mult_div_eq_mod [symmetric])
  then show ?thesis using assms by (simp add: timespec_of_def rem_def quot_def)
qed

end
