(* ===== verification/Io_Context.thy ===== *)
theory Io_Context
  imports Pending_List Uring_Ops
begin

text \<open>
  The event loop (\<^verbatim>\<open>class IoContext\<close> of \<^verbatim>\<open>include/kio/core/core.hpp\<close>, \<^verbatim>\<open>src/kio/core.cpp\<close>): submission of
  operations, collection of completions, completions that other threads inject, cancellation.
  The library \<^verbatim>\<open>liburing\<close> and the kernel behind it are the record \<open>liburing\<close>; the coroutines
  that the loop resumes are the record \<open>coroutines\<close>. While the loop waits for the kernel other
  threads may inject completions, so the waiting calls act on the ring and on the injected
  completions. A loop that need not end returns \<open>None\<close> if it does not. The statistics are
  compiled out in the default build and left out.
\<close>

section \<open>State\<close>

record cqe =
  user_data :: nat
  cqe_res :: int

record ext =
  ext_done :: "addr option list"
  ext_wake_pending :: bool
  ext_hint :: bool

record 'k liburing =
  sq_space_left :: "'k \<Rightarrow> nat"
  put_sqe :: "sqe \<Rightarrow> 'k \<Rightarrow> 'k option"
  submit :: "'k \<Rightarrow> 'k"
  submit_and_wait :: "'k \<times> ext \<Rightarrow> int \<times> 'k \<times> ext"
  wait_cqe :: "'k \<times> ext \<Rightarrow> int \<times> 'k \<times> ext"
  cq_ready :: "'k \<Rightarrow> cqe list"
  cq_advance :: "nat \<Rightarrow> 'k \<Rightarrow> 'k"

record 'k IoContext =
  c_ring :: 'k
  c_ready :: "handle option list"
  c_pending :: pending
  c_running :: bool
  c_shutdown_requested :: bool
  c_wake_fd :: int
  c_ext :: ext

record 'k coroutines =
  co_done :: "handle \<Rightarrow> 'k IoContext \<Rightarrow> bool"
  co_resume :: "handle \<Rightarrow> 'k IoContext \<Rightarrow> 'k IoContext"

definition WAKE_TAG :: nat where
  "WAKE_TAG = 1"

section \<open>Submission\<close>

definition wake_sqe :: "int \<Rightarrow> sqe" where
  "wake_sqe wake_fd = (sqe_of (PrepRead wake_fd 8 0))\<lparr>sqe_data := WAKE_TAG\<rparr>"

text \<open>When no entry is free even after a flush, the read of the wake descriptor is not armed.\<close>

definition SubmitWakeRead :: "'k liburing \<Rightarrow> 'k IoContext \<Rightarrow> 'k IoContext" where
  "SubmitWakeRead U c =
     (case put_sqe U (wake_sqe (c_wake_fd c)) (c_ring c) of
        Some r \<Rightarrow> c\<lparr>c_ring := r\<rparr>
      | None \<Rightarrow>
          let r = submit U (c_ring c)
          in case put_sqe U (wake_sqe (c_wake_fd c)) r of None \<Rightarrow> c\<lparr>c_ring := r\<rparr> | Some r' \<Rightarrow> c\<lparr>c_ring := r'\<rparr>)"

text \<open>
  The constructor: \<open>init\<close> is the result of \<^verbatim>\<open>io_uring_queue_init_params\<close>, a ring or a negative error
  number, \<open>wake_fd\<close> that of \<^verbatim>\<open>eventfd\<close>, with \<open>err\<close> the value of \<^verbatim>\<open>errno\<close> after it. What is thrown is the
  error number.
\<close>

definition mk_IoContext :: "'k liburing \<Rightarrow> int + 'k \<Rightarrow> int \<Rightarrow> int \<Rightarrow> int + 'k IoContext" where
  "mk_IoContext U init wake_fd err =
     (case init of
        Inl ret \<Rightarrow> Inl (- ret)
      | Inr r \<Rightarrow>
          if wake_fd < 0 then Inl err
          else
            let c = \<lparr>c_ring = r, c_ready = [], c_pending = (\<lambda>_. mk_OperationState, None), c_running = False,
                     c_shutdown_requested = False, c_wake_fd = wake_fd,
                     c_ext = \<lparr>ext_done = [], ext_wake_pending = False, ext_hint = False\<rparr>\<rparr>;
                c = SubmitWakeRead U c
            in Inr (c\<lparr>c_ring := submit U (c_ring c)\<rparr>))"

definition sq_full :: string where
  "sq_full = ''SQ full after submit''"

definition null_sqe :: string where
  "null_sqe = ''null submission entry''"

definition EnsureSqes :: "'k liburing \<Rightarrow> nat \<Rightarrow> 'k IoContext \<Rightarrow> (string + unit) \<times> 'k IoContext" where
  "EnsureSqes U n c =
     (if sq_space_left U (c_ring c) < n then
        let r = submit U (c_ring c)
        in (if sq_space_left U r < n then Inl sq_full else Inr (), c\<lparr>c_ring := r\<rparr>)
      else (Inr (), c))"

text \<open>The handle is stored in the operation and the operation put into the list of pending ones.\<close>

definition start_op :: "addr \<Rightarrow> handle \<Rightarrow> 'k IoContext \<Rightarrow> 'k IoContext" where
  "start_op op h c =
     (case c_pending c of (m, p) \<Rightarrow> c\<lparr>c_pending := Track op (m(op := (m op)\<lparr>op_handle := Some h\<rparr>), p)\<rparr>)"

definition UringOp_await_suspend :: "'k liburing \<Rightarrow> addr \<Rightarrow> sqe \<Rightarrow> handle \<Rightarrow> 'k IoContext \<Rightarrow> (string + unit) \<times> 'k IoContext" where
  "UringOp_await_suspend U op s h c =
     (case EnsureSqes U 1 (start_op op h c) of
        (Inl e, c') \<Rightarrow> (Inl e, c')
      | (Inr _, c') \<Rightarrow>
          (case put_sqe U (s\<lparr>sqe_data := op\<rparr>) (c_ring c') of
             None \<Rightarrow> (Inl null_sqe, c')
           | Some r \<Rightarrow> (Inr (), c'\<lparr>c_ring := r\<rparr>)))"

text \<open>An operation with a timeout: its entry is linked to the entry of the timer behind it.\<close>

definition link_timeout_sqe :: "int \<Rightarrow> sqe" where
  "link_timeout_sqe ns =
     (sqe_of (case timespec_of ns of (sec, nsec) \<Rightarrow> PrepLinkTimeout sec nsec))\<lparr>sqe_flags := {IOSQE_CQE_SKIP_SUCCESS}\<rparr>"

definition WithTimeoutOp_await_suspend ::
  "'k liburing \<Rightarrow> addr \<Rightarrow> sqe \<Rightarrow> int \<Rightarrow> handle \<Rightarrow> 'k IoContext \<Rightarrow> (string + unit) \<times> 'k IoContext" where
  "WithTimeoutOp_await_suspend U op s ns h c =
     (case EnsureSqes U 2 (start_op op h c) of
        (Inl e, c') \<Rightarrow> (Inl e, c')
      | (Inr _, c') \<Rightarrow>
          (case put_sqe U (s\<lparr>sqe_flags := insert IOSQE_IO_LINK (sqe_flags s), sqe_data := op\<rparr>) (c_ring c') of
             None \<Rightarrow> (Inl null_sqe, c')
           | Some r \<Rightarrow>
               (case put_sqe U (link_timeout_sqe ns) r of
                  None \<Rightarrow> (Inl null_sqe, c'\<lparr>c_ring := r\<rparr>)
                | Some r' \<Rightarrow> (Inr (), c'\<lparr>c_ring := r'\<rparr>))))"

definition WithTimeoutOp_await_resume :: "(int \<Rightarrow> int + 'r) \<Rightarrow> OperationState \<Rightarrow> int + 'r" where
  "WithTimeoutOp_await_resume await_resume op =
     (case await_resume (op_res op) of
        Inr v \<Rightarrow> Inr v
      | Inl e \<Rightarrow>
          if e = ECANCELED then
            (if op_cancel_reason op = CancelNone \<or> op_cancel_reason op = CancelTimeout then Inl ETIMEDOUT else Inl e)
          else Inl e)"

section \<open>Completions injected by other threads\<close>

definition EnqueueExternalDone :: "addr \<Rightarrow> ext \<Rightarrow> bool \<times> ext" where
  "EnqueueExternalDone op e =
     (let e = e\<lparr>ext_done := ext_done e @ [Some op], ext_hint := True\<rparr>
      in if \<not> ext_wake_pending e then (True, e\<lparr>ext_wake_pending := True\<rparr>) else (False, e))"

definition take_external :: "ext \<Rightarrow> addr option list \<times> ext" where
  "take_external e = (ext_done e, \<lparr>ext_done = [], ext_wake_pending = False, ext_hint = False\<rparr>)"

fun drain_ops :: "addr option list \<Rightarrow> 'k IoContext \<Rightarrow> 'k IoContext" where
  "drain_ops [] c = c"
| "drain_ops (None # ops) c = drain_ops ops c"
| "drain_ops (Some op # ops) c =
     (let p = Untrack op (c_pending c)
      in drain_ops ops (c\<lparr>c_pending := p, c_ready := c_ready c @ [op_handle (fst p op)]\<rparr>))"

definition DrainExternal :: "'k IoContext \<Rightarrow> 'k IoContext" where
  "DrainExternal c = (case take_external (c_ext c) of (ops, e) \<Rightarrow> drain_ops ops (c\<lparr>c_ext := e\<rparr>))"

fun drop_ops :: "addr option list \<Rightarrow> 'k IoContext \<Rightarrow> 'k IoContext" where
  "drop_ops [] c = c"
| "drop_ops (None # ops) c = drop_ops ops c"
| "drop_ops (Some op # ops) c =
     (case Untrack op (c_pending c) of (m, p) \<Rightarrow> drop_ops ops (c\<lparr>c_pending := (m(op := (m op)\<lparr>op_handle := None\<rparr>), p)\<rparr>))"

definition DrainExternalWithoutResume :: "'k IoContext \<Rightarrow> 'k IoContext" where
  "DrainExternalWithoutResume c =
     (if \<not> ext_hint (c_ext c) then c
      else case take_external (c_ext c) of (ops, e) \<Rightarrow> drop_ops ops (c\<lparr>c_ext := e\<rparr>))"

section \<open>One round of the loop\<close>

fun process_cqes :: "'k liburing \<Rightarrow> cqe list \<Rightarrow> bool \<times> 'k IoContext \<Rightarrow> bool \<times> 'k IoContext" where
  "process_cqes U [] s = s"
| "process_cqes U (e # es) (saw_wake, c) =
     (if user_data e = 0 then process_cqes U es (saw_wake, c)
      else if user_data e = WAKE_TAG then process_cqes U es (True, SubmitWakeRead U c)
      else
        let op = user_data e;
            (m, p) = Untrack op (c_pending c);
            m = m(op := (m op)\<lparr>op_res := cqe_res e\<rparr>)
        in process_cqes U es (saw_wake, c\<lparr>c_pending := (m, p), c_ready := c_ready c @ [op_handle (m op)]\<rparr>))"

definition ProcessReadyCompletions :: "'k liburing \<Rightarrow> 'k IoContext \<Rightarrow> (nat \<times> bool) \<times> 'k IoContext" where
  "ProcessReadyCompletions U c =
     (let cqes = cq_ready U (c_ring c);
          (saw_wake, c) = process_cqes U cqes (False, c);
          n = length cqes
      in ((n, saw_wake), c\<lparr>c_ring := cq_advance U n (c_ring c)\<rparr>))"

text \<open>A waiting call is repeated while a signal interrupts it.\<close>

partial_function (option) retry_eintr :: "('s \<Rightarrow> int \<times> 's) \<Rightarrow> 's \<Rightarrow> (int \<times> 's) option" where
  "retry_eintr f s = (case f s of (ret, s') \<Rightarrow> if ret = - EINTR then retry_eintr f s' else Some (ret, s'))"

fun resume_all :: "'k coroutines \<Rightarrow> handle option list \<Rightarrow> 'k IoContext \<Rightarrow> 'k IoContext" where
  "resume_all C [] c = c"
| "resume_all C (None # hs) c = resume_all C hs c"
| "resume_all C (Some h # hs) c = resume_all C hs (if co_done C h c then c else co_resume C h c)"

definition Step :: "'k liburing \<Rightarrow> 'k coroutines \<Rightarrow> 'k IoContext \<Rightarrow> 'k IoContext option" where
  "Step U C c =
     (case retry_eintr (submit_and_wait U) (c_ring c, c_ext c) of
        None \<Rightarrow> None
      | Some (ret, r, e) \<Rightarrow>
          let c = c\<lparr>c_ring := r, c_ext := e\<rparr>
          in if ret < 0 then Some c
             else
               let ((_, saw_wake), c) = ProcessReadyCompletions U (c\<lparr>c_ready := []\<rparr>);
                   c = (if saw_wake \<or> ext_hint (c_ext c) then DrainExternal c else c)
               in Some (resume_all C (c_ready c) c))"

section \<open>Running\<close>

partial_function (option) run_loop :: "('k IoContext \<Rightarrow> bool) \<Rightarrow> ('k IoContext \<Rightarrow> 'k IoContext option) \<Rightarrow> 'k IoContext \<Rightarrow> 'k IoContext option" where
  "run_loop go step c = (if go c then Option.bind (step c) (run_loop go step) else Some c)"

definition Run :: "'k liburing \<Rightarrow> 'k coroutines \<Rightarrow> 'k IoContext \<Rightarrow> 'k IoContext option" where
  "Run U C c = run_loop (\<lambda>c. \<not> c_shutdown_requested c) (Step U C) (c\<lparr>c_running := True\<rparr>)"

definition Run_tick :: "'k liburing \<Rightarrow> 'k coroutines \<Rightarrow> ('k IoContext \<Rightarrow> 'k IoContext) \<Rightarrow> 'k IoContext \<Rightarrow> 'k IoContext option" where
  "Run_tick U C tick c = run_loop c_shutdown_requested (\<lambda>c. map_option tick (Step U C c)) (c\<lparr>c_running := True\<rparr>)"

definition task_resume :: "'k coroutines \<Rightarrow> handle \<Rightarrow> 'k IoContext \<Rightarrow> 'k IoContext" where
  "task_resume C t c = (if co_done C t c then c else co_resume C t c)"

definition RunUntilDone :: "'k liburing \<Rightarrow> 'k coroutines \<Rightarrow> handle \<Rightarrow> 'k IoContext \<Rightarrow> 'k IoContext option" where
  "RunUntilDone U C t c =
     run_loop (\<lambda>c. \<not> c_shutdown_requested c \<and> \<not> co_done C t c) (Step U C) (task_resume C t (c\<lparr>c_running := True\<rparr>))"

definition IoContext_Stop :: "'k IoContext \<Rightarrow> 'k IoContext" where
  "IoContext_Stop c = c\<lparr>c_running := False\<rparr>"

text \<open>\<open>wr\<close> writes to the wake descriptor and says whether all eight bytes were taken.\<close>

definition Notify :: "(int \<Rightarrow> 'k \<Rightarrow> bool \<times> 'k) \<Rightarrow> 'k IoContext \<Rightarrow> bool \<times> 'k IoContext" where
  "Notify wr c =
     (if c_wake_fd c = -1 then (False, c)
      else case wr (c_wake_fd c) (c_ring c) of (b, r) \<Rightarrow> (b, c\<lparr>c_ring := r\<rparr>))"

definition RequestShutdown :: "(int \<Rightarrow> 'k \<Rightarrow> bool \<times> 'k) \<Rightarrow> 'k IoContext \<Rightarrow> 'k IoContext" where
  "RequestShutdown wr c = snd (Notify wr (IoContext_Stop (c\<lparr>c_shutdown_requested := True\<rparr>)))"

section \<open>Cancellation\<close>

definition cancel_sqe :: "addr \<Rightarrow> sqe" where
  "cancel_sqe op = sqe_of (PrepCancel op)"

text \<open>The loop gives up when no entry is free even after a flush.\<close>

fun cancel_ops :: "'k liburing \<Rightarrow> OpCancelReason \<Rightarrow> addr list \<Rightarrow> 'k IoContext \<Rightarrow> 'k IoContext" where
  "cancel_ops U reason [] c = c"
| "cancel_ops U reason (op # ops) c =
     (let r = (case put_sqe U (cancel_sqe op) (c_ring c) of
                 Some r \<Rightarrow> Inr r
               | None \<Rightarrow> (let r = submit U (c_ring c) in case put_sqe U (cancel_sqe op) r of Some r' \<Rightarrow> Inr r' | None \<Rightarrow> Inl r))
      in case r of
           Inl r \<Rightarrow> c\<lparr>c_ring := r\<rparr>
         | Inr r \<Rightarrow>
             (case c_pending c of (m, p) \<Rightarrow>
                cancel_ops U reason ops (c\<lparr>c_ring := r, c_pending := (m(op := (m op)\<lparr>op_cancel_reason := reason\<rparr>), p)\<rparr>)))"

text \<open>What draining does with one completion.\<close>

definition drain_cqe :: "'k liburing \<Rightarrow> cqe \<Rightarrow> 'k IoContext \<Rightarrow> 'k IoContext" where
  "drain_cqe U e c =
     (let c = (if user_data e = WAKE_TAG then
                 let c = SubmitWakeRead U (DrainExternalWithoutResume c)
                 in c\<lparr>c_ring := submit U (c_ring c)\<rparr>
               else if user_data e \<noteq> 0 then c\<lparr>c_pending := Untrack (user_data e) (c_pending c)\<rparr>
               else c)
      in c\<lparr>c_ring := cq_advance U 1 (c_ring c)\<rparr>)"

partial_function (option) DrainWithoutResume :: "'k liburing \<Rightarrow> 'k IoContext \<Rightarrow> 'k IoContext option" where
  "DrainWithoutResume U c =
     (if snd (c_pending c) = None then Some c
      else case retry_eintr (wait_cqe U) (c_ring c, c_ext c) of
             None \<Rightarrow> None
           | Some (ret, r, e) \<Rightarrow>
               let c = c\<lparr>c_ring := r, c_ext := e\<rparr>
               in if ret < 0 then Some c else DrainWithoutResume U (drain_cqe U (hd (cq_ready U r)) c))"

definition CancelAllPending :: "'k liburing \<Rightarrow> OpCancelReason \<Rightarrow> 'k IoContext \<Rightarrow> 'k IoContext option" where
  "CancelAllPending U reason c =
     (case collect_pending (fst (c_pending c)) (snd (c_pending c)) [] of
        None \<Rightarrow> None
      | Some ops_to_cancel \<Rightarrow>
          let c = cancel_ops U reason ops_to_cancel c
          in DrainWithoutResume U (c\<lparr>c_ring := submit U (c_ring c)\<rparr>))"

section \<open>What one round does\<close>

text \<open>The operations among a list of completions, in the order of the completions.\<close>

definition completed :: "cqe list \<Rightarrow> addr list" where
  "completed es = map user_data (filter (\<lambda>e. WAKE_TAG < user_data e) es)"

definition handle_of :: "'k IoContext \<Rightarrow> addr \<Rightarrow> handle option" where
  "handle_of c a = op_handle (fst (c_pending c) a)"

definition res_of :: "'k IoContext \<Rightarrow> addr \<Rightarrow> int" where
  "res_of c a = op_res (fst (c_pending c) a)"

lemma completed_simps [simp]:
  "completed [] = []"
  "completed (e # es) = (if WAKE_TAG < user_data e then user_data e # completed es else completed es)"
  by (simp_all add: completed_def)

lemma SubmitWakeRead_fields [simp]:
  "c_pending (SubmitWakeRead U c) = c_pending c" "c_ready (SubmitWakeRead U c) = c_ready c"
  "c_ext (SubmitWakeRead U c) = c_ext c" "c_wake_fd (SubmitWakeRead U c) = c_wake_fd c"
  "handle_of (SubmitWakeRead U c) = handle_of c" "res_of (SubmitWakeRead U c) = res_of c"
  by (auto simp: SubmitWakeRead_def Let_def handle_of_def res_of_def fun_eq_iff split: option.splits)

lemma filter_removed:
  "distinct as \<Longrightarrow> filter (\<lambda>x. x \<notin> set bs) (remove1 a as) = filter (\<lambda>x. x \<notin> set (a # bs)) as"
  by (simp add: distinct_remove1_removeAll removeAll_filter_not_eq conj_commute eq_commute)

lemma process_cqes_ok:
  assumes "pending_ok (c_pending c) as" and "distinct (completed es)" and "process_cqes U es (b, c) = (b', c')"
  shows "pending_ok (c_pending c') (filter (\<lambda>a. a \<notin> set (completed es)) as) \<and>
    b' = (b \<or> WAKE_TAG \<in> user_data ` set es) \<and>
    c_ready c' = c_ready c @ map (handle_of c) (completed es) \<and> c_ext c' = c_ext c \<and> handle_of c' = handle_of c \<and>
    (\<forall>e \<in> set es. WAKE_TAG < user_data e \<longrightarrow> res_of c' (user_data e) = cqe_res e) \<and>
    (\<forall>a. a \<notin> set (completed es) \<longrightarrow> res_of c' a = res_of c a)"
  using assms
proof (induction es arbitrary: b c as)
  case (Cons e es)
  consider "user_data e = 0" | "user_data e = WAKE_TAG" | "WAKE_TAG < user_data e" by (force simp: WAKE_TAG_def)
  then show ?case
  proof cases
    case 1
    then show ?thesis using Cons.IH [OF Cons.prems(1)] Cons.prems(2,3) by (simp add: WAKE_TAG_def)
  next
    case 2
    then have "process_cqes U es (True, SubmitWakeRead U c) = (b', c')" using Cons.prems(3) by (simp add: WAKE_TAG_def)
    from Cons.IH [OF _ _ this, of as] Cons.prems(1,2) 2 show ?thesis by simp
  next
    case 3
    let ?op = "user_data e"
    obtain m p where u: "Untrack ?op (c_pending c) = (m, p)" by (metis surj_pair)
    let ?m = "m(?op := (m ?op)\<lparr>op_res := cqe_res e\<rparr>)"
    let ?c = "c\<lparr>c_pending := (?m, p), c_ready := c_ready c @ [op_handle (m ?op)]\<rparr>"
    have h: "op_handle (m a) = handle_of c a" "op_res (m a) = res_of c a" for a
      using Untrack_frame [of ?op "c_pending c" a] by (simp_all add: u handle_of_def res_of_def)
    have ok: "pending_ok (c_pending ?c) (remove1 ?op as)"
      using pending_ok_cong [OF pending.untrack_ok [OF Cons.prems(1), of ?op, unfolded u], of ?m] by simp
    have run: "process_cqes U es (b, ?c) = (b', c')" using Cons.prems(3) 3 u by (simp add: WAKE_TAG_def Let_def)
    have d: "distinct (completed es)" "?op \<notin> set (completed es)" using Cons.prems(2) 3 by simp_all
    have hc: "handle_of ?c = handle_of c" using h by (simp add: handle_of_def fun_eq_iff)
    have rc: "res_of ?c a = (if a = ?op then cqe_res e else res_of c a)" for a using h by (simp add: res_of_def)
    have da: "distinct as" using pending.ok_distinct [OF Cons.prems(1)] .
    from Cons.IH [OF ok d(1) run] show ?thesis
      using 3 d(2) h hc rc filter_removed [OF da, of "completed es" ?op] by auto
  qed
qed simp

definition externals :: "addr option list \<Rightarrow> addr list" where
  "externals ops = map the (filter (\<lambda>x. x \<noteq> None) ops)"

lemma externals_simps [simp]:
  "externals [] = []" "externals (None # ops) = externals ops" "externals (Some a # ops) = a # externals ops"
  by (simp_all add: externals_def)

lemma drain_ops_ok:
  assumes "pending_ok (c_pending c) as"
  shows "pending_ok (c_pending (drain_ops ops c)) (filter (\<lambda>a. a \<notin> set (externals ops)) as) \<and>
    c_ready (drain_ops ops c) = c_ready c @ map (handle_of c) (externals ops) \<and> c_ext (drain_ops ops c) = c_ext c \<and>
    handle_of (drain_ops ops c) = handle_of c \<and> res_of (drain_ops ops c) = res_of c \<and> c_ring (drain_ops ops c) = c_ring c"
  using assms
proof (induction ops c arbitrary: as rule: drain_ops.induct)
  case (3 op ops c)
  let ?p = "Untrack op (c_pending c)"
  let ?c = "c\<lparr>c_pending := ?p, c_ready := c_ready c @ [op_handle (fst ?p op)]\<rparr>"
  have hc: "handle_of ?c = handle_of c" "res_of ?c = res_of c" by (simp_all add: handle_of_def res_of_def fun_eq_iff)
  have ok: "pending_ok (c_pending ?c) (remove1 op as)" using pending.untrack_ok [OF 3(2)] by simp
  show ?case using 3(1) [OF refl ok] hc filter_removed [OF pending.ok_distinct [OF 3(2)], of "externals ops" op]
    by (simp add: Let_def handle_of_def)
qed simp_all

lemma DrainExternal_ok:
  assumes "pending_ok (c_pending c) as"
  shows "pending_ok (c_pending (DrainExternal c)) (filter (\<lambda>a. a \<notin> set (externals (ext_done (c_ext c)))) as) \<and>
    c_ready (DrainExternal c) = c_ready c @ map (handle_of c) (externals (ext_done (c_ext c))) \<and>
    ext_done (c_ext (DrainExternal c)) = [] \<and> handle_of (DrainExternal c) = handle_of c \<and> res_of (DrainExternal c) = res_of c"
proof -
  let ?e = "\<lparr>ext_done = [], ext_wake_pending = False, ext_hint = False\<rparr>"
  have "DrainExternal c = drain_ops (ext_done (c_ext c)) (c\<lparr>c_ext := ?e\<rparr>)" by (simp add: DrainExternal_def take_external_def)
  moreover have "handle_of (c\<lparr>c_ext := ?e\<rparr>) = handle_of c" "res_of (c\<lparr>c_ext := ?e\<rparr>) = res_of c"
    by (simp_all add: handle_of_def res_of_def fun_eq_iff)
  ultimately show ?thesis using drain_ops_ok [of "c\<lparr>c_ext := ?e\<rparr>" as "ext_done (c_ext c)"] assms by simp
qed

text \<open>
  C12: one round of the event loop completes exactly the operations that are done. When the
  kernel has returned from the wait with the completions \<open>es\<close> and other threads have injected
  the operations \<open>xs\<close> and announced them, the round takes the operations of \<open>es\<close> and of \<open>xs\<close>, and no
  others, out of the list of pending operations, stores the result of every completion in its
  operation and changes the result of no other operation, empties the list of injected
  operations, and then resumes the coroutines waiting for them, in the order of the completions
  and then of the injections.
\<close>

theorem step_completes:
  assumes ok: "pending_ok (c_pending c) as"
    and wait: "retry_eintr (submit_and_wait U) (c_ring c, c_ext c) = Some (ret, r, e)" "0 \<le> ret"
    and once: "distinct (completed (cq_ready U r))" and hint: "ext_done e \<noteq> [] \<longrightarrow> ext_hint e"
  shows "\<exists>c'. Step U C c = Some (resume_all C (map (handle_of c) (completed (cq_ready U r) @ externals (ext_done e))) c') \<and>
    pending_ok (c_pending c') (filter (\<lambda>a. a \<notin> set (completed (cq_ready U r) @ externals (ext_done e))) as) \<and>
    (\<forall>q \<in> set (cq_ready U r). WAKE_TAG < user_data q \<longrightarrow> res_of c' (user_data q) = cqe_res q) \<and>
    (\<forall>a. a \<notin> set (completed (cq_ready U r)) \<longrightarrow> res_of c' a = res_of c a) \<and> ext_done (c_ext c') = []"
proof -
  let ?es = "cq_ready U r" and ?c0 = "c\<lparr>c_ring := r, c_ext := e, c_ready := []\<rparr>"
  obtain w c1 where run: "process_cqes U ?es (False, ?c0) = (w, c1)" by (metis surj_pair)
  have c0: "handle_of ?c0 = handle_of c" "res_of ?c0 = res_of c" by (simp_all add: handle_of_def res_of_def fun_eq_iff)
  have "pending_ok (c_pending ?c0) as" using ok by simp
  note P = process_cqes_ok [OF this once run, unfolded c0]
  let ?c2 = "c1\<lparr>c_ring := cq_advance U (length ?es) (c_ring c1)\<rparr>"
  let ?c3 = "if w \<or> ext_hint (c_ext ?c2) then DrainExternal ?c2 else ?c2"
  have step: "Step U C c = Some (resume_all C (c_ready ?c3) ?c3)"
    using wait by (simp add: Step_def ProcessReadyCompletions_def run Let_def)
  have c2: "handle_of ?c2 = handle_of c" "res_of ?c2 = res_of c1" using P by (simp_all add: handle_of_def res_of_def fun_eq_iff)
  have p2: "pending_ok (c_pending ?c2) (filter (\<lambda>a. a \<notin> set (completed ?es)) as)" using P by simp
  have e2: "c_ext ?c2 = e" "c_ready ?c2 = map (handle_of c) (completed ?es)" using P by simp_all
  note D = DrainExternal_ok [OF p2, unfolded c2 e2]
  have "pending_ok (c_pending ?c3) (filter (\<lambda>a. a \<notin> set (completed ?es @ externals (ext_done e))) as) \<and>
      c_ready ?c3 = map (handle_of c) (completed ?es @ externals (ext_done e)) \<and> ext_done (c_ext ?c3) = [] \<and> res_of ?c3 = res_of c1"
  proof (cases "w \<or> ext_hint (c_ext ?c2)")
    case True
    then show ?thesis using D by (auto simp: filter_filter conj_commute)
  next
    case False
    then have x: "ext_done e = []" using hint e2(1) by auto
    from False have "?c3 = ?c2" by simp
    then show ?thesis using p2 c2 e2 x by simp
  qed
  with step P show ?thesis by (intro exI [of _ ?c3]) simp
qed

lemma start_op_ok:
  assumes "pending_ok (c_pending c) as" and "op \<notin> set as"
  shows "pending_ok (c_pending (start_op op h c)) (op # as)"
proof -
  obtain m p where mp: "c_pending c = (m, p)" by (cases "c_pending c")
  show ?thesis
    using pending.track_ok [OF pending_ok_cong [OF assms(1) [unfolded mp], of "m(op := (m op)\<lparr>op_handle := Some h\<rparr>)"] assms(2)]
    by (simp add: start_op_def mp)
qed

section \<open>Cancelling everything\<close>

text \<open>
  What the kernel promises. \<open>upcoming r\<close> are the completions it will deliver one after the other if
  nothing more is submitted, those already in the queue first; \<open>inflight r\<close> are the operations it
  knows and whose completion has not been consumed; \<open>asked r\<close> are the operations with a request for
  cancellation among the entries not yet submitted. A wait for a completion that will come
  returns, after finitely many interruptions.
\<close>

definition ext_grows :: "ext \<Rightarrow> ext \<Rightarrow> bool" where
  "ext_grows e e' \<longleftrightarrow> (\<exists>xs. ext_done e' = ext_done e @ xs) \<and> (ext_hint e \<longrightarrow> ext_hint e')"

definition due :: "cqe list \<Rightarrow> ext \<Rightarrow> addr \<Rightarrow> bool" where
  "due us e a \<longleftrightarrow> a \<in> user_data ` set us \<or> (WAKE_TAG \<in> user_data ` set us \<and> Some a \<in> set (ext_done e) \<and> ext_hint e)"

locale uring_kernel =
  fixes U :: "'k liburing" and upcoming :: "'k \<Rightarrow> cqe list" and inflight :: "'k \<Rightarrow> addr set" and asked :: "'k \<Rightarrow> addr set"
  assumes put_keeps: "put_sqe U s r = Some r' \<Longrightarrow>
      upcoming r' = upcoming r \<and> cq_ready U r' = cq_ready U r \<and> inflight r \<subseteq> inflight r' \<and> asked r \<subseteq> asked r'"
    and put_cancel: "put_sqe U (cancel_sqe a) r = Some r' \<Longrightarrow> a \<in> asked r'"
    and put_after_submit: "\<exists>r'. put_sqe U s (submit U r) = Some r'"
    and submit_keeps: "(\<exists>es. upcoming (submit U r) = upcoming r @ es) \<and> (\<exists>es. cq_ready U (submit U r) = cq_ready U r @ es) \<and>
      inflight r \<subseteq> inflight (submit U r)"
    and submit_cancels: "a \<in> asked r \<Longrightarrow> a \<in> inflight r \<Longrightarrow> a \<in> user_data ` set (upcoming (submit U r))"
    and wait_next: "upcoming r = u # us \<Longrightarrow>
      \<exists>ret r' e'. retry_eintr (wait_cqe U) (r, e) = Some (ret, r', e') \<and> 0 \<le> ret \<and> upcoming r' = u # us \<and>
        (\<exists>es. cq_ready U r' = u # es) \<and> ext_grows e e'"
    and seen: "cq_ready U r = u # es \<Longrightarrow> upcoming r = u # us \<Longrightarrow> upcoming (cq_advance U 1 r) = us"
begin

lemma SubmitWakeRead_ring:
  "(\<exists>es. upcoming (c_ring (SubmitWakeRead U c)) = upcoming (c_ring c) @ es) \<and>
   (\<exists>es. cq_ready U (c_ring (SubmitWakeRead U c)) = cq_ready U (c_ring c) @ es)"
proof (cases "put_sqe U (wake_sqe (c_wake_fd c)) (c_ring c)")
  case None
  obtain r' where r': "put_sqe U (wake_sqe (c_wake_fd c)) (submit U (c_ring c)) = Some r'" using put_after_submit by blast
  then show ?thesis using None put_keeps [OF r'] submit_keeps [of "c_ring c"] by (simp add: SubmitWakeRead_def)
next
  case (Some r')
  then show ?thesis using put_keeps [OF Some] by (simp add: SubmitWakeRead_def)
qed

end

lemma drop_ops_ok:
  assumes "pending_ok (c_pending c) as"
  shows "pending_ok (c_pending (drop_ops ops c)) (filter (\<lambda>a. a \<notin> set (externals ops)) as) \<and>
    c_ready (drop_ops ops c) = c_ready c \<and> c_ext (drop_ops ops c) = c_ext c \<and> c_ring (drop_ops ops c) = c_ring c"
  using assms
proof (induction ops c arbitrary: as rule: drop_ops.induct)
  case (3 op ops c)
  obtain m p where u: "Untrack op (c_pending c) = (m, p)" by (metis surj_pair)
  let ?m = "m(op := (m op)\<lparr>op_handle := None\<rparr>)"
  have "pending_ok (?m, p) (remove1 op as)"
    using pending_ok_cong [OF pending.untrack_ok [OF 3(2), of op, unfolded u], of ?m] by simp
  then have "pending_ok (c_pending (c\<lparr>c_pending := (?m, p)\<rparr>)) (remove1 op as)" by simp
  from 3(1) [OF u [symmetric] this] show ?case
    using filter_removed [OF pending.ok_distinct [OF 3(2)], of "externals ops" op] by (simp add: u)
qed simp_all

lemma DrainExternalWithoutResume_ok:
  assumes "pending_ok (c_pending c) as"
  shows "\<exists>bs. pending_ok (c_pending (DrainExternalWithoutResume c)) bs \<and> set bs \<subseteq> set as \<and>
    (\<forall>a. ext_hint (c_ext c) \<and> Some a \<in> set (ext_done (c_ext c)) \<longrightarrow> a \<notin> set bs) \<and>
    c_ready (DrainExternalWithoutResume c) = c_ready c \<and> c_ring (DrainExternalWithoutResume c) = c_ring c"
proof (cases "ext_hint (c_ext c)")
  case True
  let ?ops = "ext_done (c_ext c)" and ?e = "\<lparr>ext_done = [], ext_wake_pending = False, ext_hint = False\<rparr>"
  have d: "DrainExternalWithoutResume c = drop_ops ?ops (c\<lparr>c_ext := ?e\<rparr>)"
    using True by (simp add: DrainExternalWithoutResume_def take_external_def)
  have x: "a \<in> set (externals ops) \<longleftrightarrow> Some a \<in> set ops" for a ops by (force simp: externals_def)
  show ?thesis unfolding d using drop_ops_ok [of "c\<lparr>c_ext := ?e\<rparr>" as ?ops] assms x
    by (intro exI [of _ "filter (\<lambda>a. a \<notin> set (externals ?ops)) as"]) auto
next
  case False
  then show ?thesis using assms by (intro exI [of _ as]) (simp add: DrainExternalWithoutResume_def)
qed

context uring_kernel
begin

text \<open>One completion is consumed; what was due by it is no longer pending.\<close>

lemma drain_cqe_ok:
  assumes ok: "pending_ok (c_pending c) as" and up: "upcoming (c_ring c) = u # us @ vs" and cq: "cq_ready U (c_ring c) = u # es"
    and d: "\<forall>a \<in> set as. WAKE_TAG < a \<and> due (u # us) (c_ext c) a"
  shows "\<exists>bs vs'. pending_ok (c_pending (drain_cqe U u c)) bs \<and> upcoming (c_ring (drain_cqe U u c)) = us @ vs' \<and>
    (\<forall>a \<in> set bs. WAKE_TAG < a \<and> due us (c_ext (drain_cqe U u c)) a) \<and> c_ready (drain_cqe U u c) = c_ready c"
proof -
  consider (wake) "user_data u = WAKE_TAG" | (null) "user_data u = 0" | (op) "WAKE_TAG < user_data u" by (force simp: WAKE_TAG_def)
  then show ?thesis
  proof cases
    case wake
    let ?c1 = "DrainExternalWithoutResume c"
    let ?c2 = "SubmitWakeRead U ?c1"
    from DrainExternalWithoutResume_ok [OF ok] obtain bs where
      b: "pending_ok (c_pending ?c1) bs" "set bs \<subseteq> set as" "\<forall>a. ext_hint (c_ext c) \<and> Some a \<in> set (ext_done (c_ext c)) \<longrightarrow> a \<notin> set bs"
        "c_ready ?c1 = c_ready c" "c_ring ?c1 = c_ring c" by blast
    let ?r = "submit U (c_ring ?c2)"
    obtain es1 fs1 where e1: "upcoming (c_ring ?c2) = upcoming (c_ring c) @ es1" "cq_ready U (c_ring ?c2) = cq_ready U (c_ring c) @ fs1"
      using SubmitWakeRead_ring [of ?c1] b(5) by auto
    obtain es2 fs2 where e2: "upcoming ?r = upcoming (c_ring ?c2) @ es2" "cq_ready U ?r = cq_ready U (c_ring ?c2) @ fs2"
      using submit_keeps by blast
    have "upcoming (cq_advance U 1 ?r) = us @ vs @ es1 @ es2"
      by (rule seen [of _ u "es @ fs1 @ fs2"]) (simp_all add: e1 e2 up cq)
    moreover have "drain_cqe U u c = ?c2\<lparr>c_ring := cq_advance U 1 ?r\<rparr>" using wake by (simp add: drain_cqe_def Let_def)
    moreover have "due us (c_ext ?c2) a \<and> WAKE_TAG < a" if "a \<in> set bs" for a
    proof -
      have "a \<noteq> user_data u" using that b(2) d wake by auto
      then show ?thesis using that b(2,3) d by (fastforce simp: due_def)
    qed
    ultimately show ?thesis using b(1,4) by (intro exI [of _ bs] exI [of _ "vs @ es1 @ es2"]) auto
  next
    case null
    have "drain_cqe U u c = c\<lparr>c_ring := cq_advance U 1 (c_ring c)\<rparr>" using null by (simp add: drain_cqe_def WAKE_TAG_def)
    moreover have "due us (c_ext c) a" if "a \<in> set as" for a using d that null by (auto simp: due_def WAKE_TAG_def)
    ultimately show ?thesis using ok d seen [OF cq up] by auto
  next
    case op
    have "drain_cqe U u c = c\<lparr>c_pending := Untrack (user_data u) (c_pending c), c_ring := cq_advance U 1 (c_ring c)\<rparr>"
      using op by (simp add: drain_cqe_def Let_def)
    moreover have "due us (c_ext c) a" if "a \<in> set (remove1 (user_data u) as)" for a
      using d that op pending.ok_distinct [OF ok] by (auto simp: due_def)
    moreover have "WAKE_TAG < a" if "a \<in> set (remove1 (user_data u) as)" for a using d that by (meson notin_set_remove1)
    ultimately show ?thesis using pending.untrack_ok [OF ok] seen [OF cq up]
      by (intro exI [of _ "remove1 (user_data u) as"] exI [of _ vs]) simp
  qed
qed

lemma ext_grows_due: "ext_grows e e' \<Longrightarrow> due us e a \<Longrightarrow> due us e' a"
  by (auto simp: ext_grows_def due_def)

lemma DrainWithoutResume_ends:
  assumes "pending_ok (c_pending c) as" and "upcoming (c_ring c) = us @ vs" and "\<forall>a \<in> set as. WAKE_TAG < a \<and> due us (c_ext c) a"
  shows "\<exists>c'. DrainWithoutResume U c = Some c' \<and> pending_ok (c_pending c') [] \<and> c_ready c' = c_ready c"
  using assms
proof (induction us arbitrary: c as vs)
  case Nil
  then have "as = []" by (cases as) (auto simp: due_def)
  with Nil.prems(1) show ?case using pending_ok_head [OF Nil.prems(1)] by (simp add: DrainWithoutResume.simps)
next
  case (Cons u us)
  show ?case
  proof (cases as)
    case Nil
    with Cons.prems(1) show ?thesis using pending_ok_head [OF Cons.prems(1)] by (simp add: DrainWithoutResume.simps)
  next
    case (Cons b bs)
    have up: "upcoming (c_ring c) = u # us @ vs" using Cons.prems(2) by simp
    from wait_next [OF up, of "c_ext c"] obtain ret r e es where
      w: "retry_eintr (wait_cqe U) (c_ring c, c_ext c) = Some (ret, r, e)" "0 \<le> ret" "upcoming r = u # us @ vs" "cq_ready U r = u # es"
        "ext_grows (c_ext c) e" by blast
    let ?c = "c\<lparr>c_ring := r, c_ext := e\<rparr>"
    have "\<forall>a \<in> set as. WAKE_TAG < a \<and> due (u # us) (c_ext ?c) a" using Cons.prems(3) ext_grows_due [OF w(5)] by auto
    from drain_cqe_ok [of ?c as u us vs es, OF _ _ _ this] Cons.prems(1) w(3,4) obtain bs' vs' where
      n: "pending_ok (c_pending (drain_cqe U u ?c)) bs'" "upcoming (c_ring (drain_cqe U u ?c)) = us @ vs'"
        "\<forall>a \<in> set bs'. WAKE_TAG < a \<and> due us (c_ext (drain_cqe U u ?c)) a" "c_ready (drain_cqe U u ?c) = c_ready c" by auto
    have "DrainWithoutResume U c = DrainWithoutResume U (drain_cqe U u ?c)"
      using pending_ok_head [OF Cons.prems(1)] Cons w by (subst DrainWithoutResume.simps) simp
    then show ?thesis using Cons.IH [OF n(1-3)] n(4) by simp
  qed
qed

end

context uring_kernel
begin

lemma cancel_ops_ok:
  assumes "pending_ok (c_pending c) as"
  shows "pending_ok (c_pending (cancel_ops U reason ops c)) as \<and> c_ready (cancel_ops U reason ops c) = c_ready c \<and>
    c_ext (cancel_ops U reason ops c) = c_ext c \<and>
    (\<exists>es. upcoming (c_ring (cancel_ops U reason ops c)) = upcoming (c_ring c) @ es) \<and>
    inflight (c_ring c) \<subseteq> inflight (c_ring (cancel_ops U reason ops c)) \<and>
    (\<forall>a \<in> set ops \<union> asked (c_ring c). a \<in> inflight (c_ring c) \<longrightarrow>
       a \<in> asked (c_ring (cancel_ops U reason ops c)) \<or> a \<in> user_data ` set (upcoming (c_ring (cancel_ops U reason ops c))))"
  using assms
proof (induction ops arbitrary: c)
  case (Cons op ops)
  let ?r1 = "case put_sqe U (cancel_sqe op) (c_ring c) of Some r \<Rightarrow> r | None \<Rightarrow> the (put_sqe U (cancel_sqe op) (submit U (c_ring c)))"
  have r1: "(\<exists>es. upcoming ?r1 = upcoming (c_ring c) @ es) \<and> inflight (c_ring c) \<subseteq> inflight ?r1 \<and> op \<in> asked ?r1 \<and>
      (\<forall>a \<in> asked (c_ring c). a \<in> inflight (c_ring c) \<longrightarrow> a \<in> asked ?r1 \<or> a \<in> user_data ` set (upcoming ?r1))"
  proof (cases "put_sqe U (cancel_sqe op) (c_ring c)")
    case None
    obtain r' where r': "put_sqe U (cancel_sqe op) (submit U (c_ring c)) = Some r'" using put_after_submit by blast
    then show ?thesis using None put_keeps [OF r'] put_cancel [OF r'] submit_keeps [of "c_ring c"] submit_cancels by auto
  next
    case (Some r')
    then show ?thesis using put_keeps [OF Some] put_cancel [OF Some] by auto
  qed
  obtain m p where mp: "c_pending c = (m, p)" by (cases "c_pending c")
  let ?c = "c\<lparr>c_ring := ?r1, c_pending := (m(op := (m op)\<lparr>op_cancel_reason := reason\<rparr>), p)\<rparr>"
  have step: "cancel_ops U reason (op # ops) c = cancel_ops U reason ops ?c"
    using put_after_submit [of "cancel_sqe op" "c_ring c"] by (auto simp: mp Let_def split: option.splits)
  have ok: "pending_ok (c_pending ?c) as" using pending_ok_cong [OF Cons.prems [unfolded mp]] by simp
  note IH = Cons.IH [OF ok]
  have ring: "c_ring ?c = ?r1" by simp
  have "\<exists>es. upcoming (c_ring (cancel_ops U reason ops ?c)) = upcoming (c_ring c) @ es" using IH r1 unfolding ring by auto
  moreover have "inflight (c_ring c) \<subseteq> inflight (c_ring (cancel_ops U reason ops ?c))" using IH r1 unfolding ring by blast
  moreover have "a \<in> asked (c_ring (cancel_ops U reason ops ?c)) \<or> a \<in> user_data ` set (upcoming (c_ring (cancel_ops U reason ops ?c)))"
    if "a \<in> set (op # ops) \<union> asked (c_ring c)" "a \<in> inflight (c_ring c)" for a
  proof -
    have i: "a \<in> inflight (c_ring ?c)" using that(2) r1 unfolding ring by blast
    have "a \<in> set ops \<union> asked (c_ring ?c) \<or> a \<in> user_data ` set (upcoming (c_ring ?c))"
      using that r1 unfolding ring by (cases "a = op") auto
    then consider "a \<in> set ops \<union> asked (c_ring ?c)" | "a \<in> user_data ` set (upcoming (c_ring ?c))" by blast
    then show ?thesis
    proof cases
      case 1
      with IH i show ?thesis by blast
    next
      case 2
      with IH show ?thesis by auto
    qed
  qed
  ultimately show ?case unfolding step using IH by simp
qed simp

lemma CancelAllPending_drains:
  assumes ok: "pending_ok (c_pending c) as"
    and known: "\<forall>a \<in> set as. WAKE_TAG < a \<and>
      (a \<in> inflight (c_ring c) \<or> (WAKE_TAG \<in> user_data ` set (upcoming (c_ring c)) \<and> Some a \<in> set (ext_done (c_ext c)) \<and> ext_hint (c_ext c)))"
  shows "\<exists>c'. CancelAllPending U reason c = Some c' \<and> pending_ok (c_pending c') [] \<and> c_ready c' = c_ready c"
proof -
  let ?c1 = "cancel_ops U reason as c"
  let ?c2 = "?c1\<lparr>c_ring := submit U (c_ring ?c1)\<rparr>"
  note X = cancel_ops_ok [OF ok, of reason as]
  obtain es where es: "upcoming (c_ring ?c2) = upcoming (c_ring ?c1) @ es" using submit_keeps by auto
  obtain fs where fs: "upcoming (c_ring ?c1) = upcoming (c_ring c) @ fs" using X by blast
  have "WAKE_TAG < a \<and> due (upcoming (c_ring ?c2)) (c_ext ?c2) a" if a: "a \<in> set as" for a
  proof (cases "a \<in> inflight (c_ring c)")
    case True
    then have "a \<in> asked (c_ring ?c1) \<or> a \<in> user_data ` set (upcoming (c_ring ?c1))" "a \<in> inflight (c_ring ?c1)" using X a by blast+
    then show ?thesis using submit_cancels [of a "c_ring ?c1"] es known a by (auto simp: due_def)
  next
    case False
    then show ?thesis using known a X es fs by (auto simp: due_def)
  qed
  moreover have "CancelAllPending U reason c = DrainWithoutResume U ?c2"
    using pending.collect_ok [OF ok] by (simp add: CancelAllPending_def Let_def)
  ultimately show ?thesis using DrainWithoutResume_ends [of ?c2 as "upcoming (c_ring ?c2)" "[]"] X by simp
qed

end

section \<open>A small kernel\<close>

text \<open>Four submission entries; only cancelled operations complete.\<close>

record sim =
  s_sq :: "sqe list"
  s_cq :: "cqe list"

definition sim_complete :: "sqe \<Rightarrow> cqe list" where
  "sim_complete s =
     (case sqe_prep s of
        PrepCancel a \<Rightarrow> [\<lparr>user_data = a, cqe_res = - ECANCELED\<rparr>, \<lparr>user_data = sqe_data s, cqe_res = 0\<rparr>]
      | _ \<Rightarrow> [])"

definition sim_submit :: "sim \<Rightarrow> sim" where
  "sim_submit r = \<lparr>s_sq = [], s_cq = s_cq r @ concat (map sim_complete (s_sq r))\<rparr>"

definition sim_uring :: "sim liburing" where
  "sim_uring =
     \<lparr>sq_space_left = (\<lambda>r. 4 - length (s_sq r)),
      put_sqe = (\<lambda>s r. if length (s_sq r) < 4 then Some (r\<lparr>s_sq := s_sq r @ [s]\<rparr>) else None),
      submit = sim_submit,
      submit_and_wait = (\<lambda>(r, e). (0, sim_submit r, e)),
      wait_cqe = (\<lambda>(r, e). (if s_cq r = [] then -11 else 0, r, e)),
      cq_ready = s_cq,
      cq_advance = (\<lambda>n r. r\<lparr>s_cq := drop n (s_cq r)\<rparr>)\<rparr>"

definition sim_asked :: "sim \<Rightarrow> addr set" where
  "sim_asked r = {a. PrepCancel a \<in> sqe_prep ` set (s_sq r)}"

lemma sim_submit_cancels: "a \<in> sim_asked r \<Longrightarrow> a \<in> user_data ` set (s_cq (sim_submit r))"
  by (force simp: sim_asked_def sim_submit_def sim_complete_def)

interpretation sim_kernel: uring_kernel sim_uring s_cq "\<lambda>_. UNIV" sim_asked
proof unfold_locales
  fix r :: sim and u us and e :: ext
  assume u: "s_cq r = u # us"
  then have "retry_eintr (wait_cqe sim_uring) (r, e) = Some (0, r, e)" by (subst retry_eintr.simps) (simp add: sim_uring_def EINTR_def)
  then show "\<exists>ret r' e'. retry_eintr (wait_cqe sim_uring) (r, e) = Some (ret, r', e') \<and> 0 \<le> ret \<and> s_cq r' = u # us \<and>
      (\<exists>es. cq_ready sim_uring r' = u # es) \<and> ext_grows e e'"
    using u by (intro exI [of _ 0] exI [of _ r] exI [of _ e]) (simp add: sim_uring_def ext_grows_def)
qed (auto simp: sim_uring_def sim_asked_def cancel_sqe_def sqe_of_def sim_submit_def intro: sim_submit_cancels [unfolded sim_submit_def sim_asked_def, simplified] split: if_splits)


definition sim_context :: "sim IoContext" where
  "sim_context = \<lparr>c_ring = \<lparr>s_sq = [], s_cq = []\<rparr>, c_ready = [], c_pending = Track 32 (Track 16 (\<lambda>_. mk_OperationState, None)),
     c_running = True, c_shutdown_requested = False, c_wake_fd = 3, c_ext = \<lparr>ext_done = [], ext_wake_pending = False, ext_hint = False\<rparr>\<rparr>"

lemma sim_context_ok: "pending_ok (c_pending sim_context) [32, 16]"
  by (simp add: sim_context_def pending.track_ok pending_ok_empty)


theorem step_completes_witness:
  "\<exists>c'. Step sim_uring \<lparr>co_done = (\<lambda>_ _. False), co_resume = (\<lambda>_ c. c)\<rparr>
       (sim_context\<lparr>c_ring := \<lparr>s_sq = [], s_cq = [\<lparr>user_data = 16, cqe_res = 5\<rparr>]\<rparr>\<rparr>) = Some c' \<and>
     pending_ok (c_pending c') [32] \<and> res_of c' 16 = 5"
proof -
  let ?r = "\<lparr>s_sq = [], s_cq = [\<lparr>user_data = 16, cqe_res = 5\<rparr>]\<rparr>"
  let ?c = "sim_context\<lparr>c_ring := ?r\<rparr>" and ?C = "\<lparr>co_done = (\<lambda>_ _. False), co_resume = (\<lambda>_ c. c)\<rparr> :: sim coroutines"
  have cq: "cq_ready sim_uring ?r = [\<lparr>user_data = 16, cqe_res = 5\<rparr>]" by (simp add: sim_uring_def)
  have w: "retry_eintr (submit_and_wait sim_uring) (c_ring ?c, c_ext ?c) = Some (0, ?r, c_ext ?c)"
    by (subst retry_eintr.simps) (simp add: sim_uring_def sim_submit_def EINTR_def)
  have ok: "pending_ok (c_pending ?c) [32, 16]" using sim_context_ok by simp
  have id: "resume_all ?C hs c' = c'" for hs c' by (induction ?C hs c' rule: resume_all.induct) simp_all
  have x: "ext_done (c_ext ?c) = []" by (simp add: sim_context_def)
  from step_completes [OF ok w, of ?C] obtain c' where
    "Step sim_uring ?C ?c = Some c'" "pending_ok (c_pending c') [32]" "res_of c' 16 = 5"
    unfolding cq x id by (auto simp: WAKE_TAG_def)
  then show ?thesis by blast
qed

section \<open>Operations with a timeout\<close>

text \<open>
  The submission queue as a list of entries not yet submitted; an entry can be added as long
  as there is space.
\<close>

locale sq_ring =
  fixes U :: "'k liburing" and sq :: "'k \<Rightarrow> sqe list"
  assumes put_space: "0 < sq_space_left U r \<Longrightarrow>
      \<exists>r'. put_sqe U s r = Some r' \<and> sq r' = sq r @ [s] \<and> sq_space_left U r' = sq_space_left U r - 1"
    and submit_empties: "sq (submit U r) = []"
begin

lemma EnsureSqes_space:
  "EnsureSqes U n c = (q, c') \<Longrightarrow>
   (case q of Inr _ \<Rightarrow> n \<le> sq_space_left U (c_ring c') | Inl e \<Rightarrow> e = sq_full \<and> sq (c_ring c') = []) \<and>
   c_pending c' = c_pending c"
  by (auto simp: EnsureSqes_def Let_def submit_empties split: if_splits)

lemma timed_op:
  assumes ok: "pending_ok (c_pending c) as" "op \<notin> set as"
    and run: "WithTimeoutOp_await_suspend U op s ns h c = (q, c')"
  shows "pending_ok (c_pending c') (op # as) \<and>
    (case q of
       Inr _ \<Rightarrow> (\<exists>es. sq (c_ring c') = es @ [s\<lparr>sqe_flags := insert IOSQE_IO_LINK (sqe_flags s), sqe_data := op\<rparr>, link_timeout_sqe ns])
     | Inl e \<Rightarrow> e = sq_full \<and> sq (c_ring c') = [])"
proof -
  note st = start_op_ok [OF ok, of h]
  obtain q1 c1 where e: "EnsureSqes U 2 (start_op op h c) = (q1, c1)" by (metis surj_pair)
  note E = EnsureSqes_space [OF e]
  show ?thesis
  proof (cases q1)
    case (Inl x)
    then show ?thesis using run e E st by (auto simp: WithTimeoutOp_await_suspend_def)
  next
    case (Inr u)
    then have "0 < sq_space_left U (c_ring c1)" using E by simp
    from put_space [OF this] obtain r1 where r1: "put_sqe U (s\<lparr>sqe_flags := insert IOSQE_IO_LINK (sqe_flags s), sqe_data := op\<rparr>) (c_ring c1) = Some r1"
      "sq r1 = sq (c_ring c1) @ [s\<lparr>sqe_flags := insert IOSQE_IO_LINK (sqe_flags s), sqe_data := op\<rparr>]"
      "sq_space_left U r1 = sq_space_left U (c_ring c1) - 1" by blast
    then have "0 < sq_space_left U r1" using E Inr by simp
    from put_space [OF this] obtain r2 where r2: "put_sqe U (link_timeout_sqe ns) r1 = Some r2" "sq r2 = sq r1 @ [link_timeout_sqe ns]" by blast
    have "q = Inr ()" "c' = c1\<lparr>c_ring := r2\<rparr>" using run e Inr r1(1) r2(1) by (auto simp: WithTimeoutOp_await_suspend_def)
    then show ?thesis using E st r1(2) r2(2) by simp
  qed
qed

end

interpretation sim_sq: sq_ring sim_uring s_sq
  by unfold_locales (auto simp: sim_uring_def sim_submit_def)

text \<open>
  An operation with a timeout is never submitted without its timer. When the call succeeds, the
  last two entries of the submission queue are that of the operation, marked as linked and
  carrying its address, and directly behind it that of the timer; no submission can fall
  between them. The only failure is a ring too small for two entries, and then neither entry has
  been queued; the operation stays in the list of pending ones in that case too, so that its
  destruction ends the program.
\<close>

theorem timed_op_linked:
  assumes "sq_ring U sq" and "pending_ok (c_pending c) as" and "op \<notin> set as"
    and "WithTimeoutOp_await_suspend U op s ns h c = (q, c')"
  shows "pending_ok (c_pending c') (op # as) \<and>
    (case q of
       Inr _ \<Rightarrow> (\<exists>es. sq (c_ring c') = es @ [s\<lparr>sqe_flags := insert IOSQE_IO_LINK (sqe_flags s), sqe_data := op\<rparr>, link_timeout_sqe ns])
     | Inl e \<Rightarrow> e = sq_full \<and> sq (c_ring c') = [])"
  by (rule sq_ring.timed_op [OF assms])

theorem timed_op_linked_witness:
  "\<exists>c'. WithTimeoutOp_await_suspend sim_uring 48 (op_sqe (ReadOp 5 100 0)) 1500000000 7 sim_context = (Inr (), c') \<and>
     pending_ok (c_pending c') [48, 32, 16] \<and>
     (\<exists>es. s_sq (c_ring c') = es @ [(sqe_of (PrepRead 5 100 0))\<lparr>sqe_flags := {IOSQE_IO_LINK}, sqe_data := 48\<rparr>,
       (sqe_of (PrepLinkTimeout 1 500000000))\<lparr>sqe_flags := {IOSQE_CQE_SKIP_SUCCESS}\<rparr>])"
proof -
  let ?s = "op_sqe (ReadOp 5 100 0)"
  obtain q c' where r: "WithTimeoutOp_await_suspend sim_uring 48 ?s 1500000000 7 sim_context = (q, c')" by (metis surj_pair)
  have "fst (WithTimeoutOp_await_suspend sim_uring 48 ?s 1500000000 7 sim_context) = Inr ()"
    by (simp add: WithTimeoutOp_await_suspend_def EnsureSqes_def start_op_def sim_context_def sim_uring_def split: prod.split)
  then have q: "q = Inr ()" using r by simp
  have s: "?s = sqe_of (PrepRead 5 100 0)" by (simp add: ReadOp_def trunc32_def)
  have t: "link_timeout_sqe 1500000000 = (sqe_of (PrepLinkTimeout 1 500000000))\<lparr>sqe_flags := {IOSQE_CQE_SKIP_SUCCESS}\<rparr>"
    by (simp add: link_timeout_sqe_def timespec_of_def quot_def rem_def)
  have "48 \<notin> set [32, 16 :: addr]" by simp
  from timed_op_linked [OF sim_sq.sq_ring_axioms sim_context_ok this r] show ?thesis
    unfolding q s t using r q s by (auto simp: sqe_of_def)
qed

end
