(* ===== verification/Blocking_Pool.thy ===== *)
theory Blocking_Pool
  imports Fifo "HOL-Library.Multiset"
begin

text \<open>
  The thread pool for blocking calls (\<^verbatim>\<open>include/kio/core/blocking_pool.hpp\<close>): a ring of jobs
  under a mutex, submitting threads and workers that take the jobs. A critical section is one
  step; the step relation \<open>pool_step\<close> interleaves submissions, the phases of any number of
  workers and the call of \<^verbatim>\<open>Stop\<close>. A job is a value of an arbitrary type \<open>'j\<close>; running it is one
  step that records it.
\<close>

section \<open>The queue of jobs\<close>

record 'j BlockingPool =
  stopping :: bool
  cap :: nat
  jobs :: "'j option list"
  q_head :: nat
  q_tail :: nat
  q_count :: nat

definition mk_BlockingPool :: "nat \<Rightarrow> 'j BlockingPool" where
  "mk_BlockingPool capacity =
     \<lparr>stopping = False, cap = capacity, jobs = replicate capacity None, q_head = 0, q_tail = 0, q_count = 0\<rparr>"

definition worker_threads :: "nat \<Rightarrow> nat" where
  "worker_threads threads = (if threads = 0 then 1 else threads)"

definition TrySubmit :: "'j \<Rightarrow> 'j BlockingPool \<Rightarrow> bool \<times> 'j BlockingPool" where
  "TrySubmit job p =
     (if stopping p then (False, p)
      else if q_count p = cap p then (False, p)
      else (True, p\<lparr>jobs := (jobs p)[q_tail p := Some job], q_tail := (q_tail p + 1) mod cap p, q_count := q_count p + 1\<rparr>))"

text \<open>The critical section of a worker, entered when there is a job or the pool is stopping.\<close>

definition take_job :: "'j BlockingPool \<Rightarrow> 'j option \<times> 'j BlockingPool" where
  "take_job p =
     (if q_count p = 0 then (None, p)
      else (jobs p ! q_head p,
            p\<lparr>jobs := (jobs p)[q_head p := None], q_head := (q_head p + 1) mod cap p, q_count := q_count p - 1\<rparr>))"

definition Pool_Stop :: "'j BlockingPool \<Rightarrow> 'j BlockingPool" where
  "Pool_Stop p = p\<lparr>stopping := True\<rparr>"

definition pool_inv :: "'j BlockingPool \<Rightarrow> bool" where
  "pool_inv p \<longleftrightarrow>
     length (jobs p) = cap p \<and> q_count p \<le> cap p \<and> (0 < cap p \<longrightarrow> q_head p < cap p) \<and>
     (0 < cap p \<longrightarrow> q_tail p = (q_head p + q_count p) mod cap p) \<and>
     (\<forall>k < q_count p. jobs p ! ((q_head p + k) mod cap p) \<noteq> None)"

definition pool_contents :: "'j BlockingPool \<Rightarrow> 'j list" where
  "pool_contents p = map the (ring (q_head p) (q_count p) (jobs p))"

lemma pool_contents_empty: "pool_contents p = [] \<longleftrightarrow> q_count p = 0"
  by (simp add: pool_contents_def flip: length_0_conv)

lemma submit_ok:
  assumes inv: "pool_inv p" and room: "q_count p < cap p" and run: "\<not> stopping p"
  shows "\<exists>p'. TrySubmit j p = (True, p') \<and> pool_inv p' \<and> pool_contents p' = pool_contents p @ [j] \<and> cap p' = cap p \<and> stopping p' = stopping p"
proof -
  let ?m = "(q_head p + q_count p) mod cap p"
  let ?p = "p\<lparr>jobs := (jobs p)[?m := Some j], q_tail := (?m + 1) mod cap p, q_count := q_count p + 1\<rparr>"
  have t: "q_tail p = ?m" and l: "length (jobs p) = cap p" using inv room by (simp_all add: pool_inv_def)
  have e: "TrySubmit j p = (True, ?p)" using room run t by (simp add: TrySubmit_def)
  have "ring (q_head p) (Suc (q_count p)) ((jobs p)[?m := Some j]) = ring (q_head p) (q_count p) (jobs p) @ [Some j]"
    using ring_snoc [of "q_count p" "jobs p"] room l by simp
  then have c: "pool_contents ?p = pool_contents p @ [j]" by (simp add: pool_contents_def)
  have m: "?m < cap p" using room by (intro mod_less_divisor) simp
  have "(jobs p)[?m := Some j] ! ((q_head p + k) mod cap p) \<noteq> None" if "k < Suc (q_count p)" for k
  proof (cases "k = q_count p")
    case False
    with that inv have "jobs p ! ((q_head p + k) mod cap p) \<noteq> None" by (simp add: pool_inv_def)
    then show ?thesis using m l by (auto simp: nth_list_update)
  qed (simp add: l m)
  moreover have "(?m + 1) mod cap p = (q_head p + Suc (q_count p)) mod cap p" by (simp add: mod_add_left_eq mod_Suc_eq)
  ultimately have "pool_inv ?p" using inv room by (simp add: pool_inv_def)
  with e c show ?thesis by auto
qed

lemma take_ok:
  assumes inv: "pool_inv p" and c: "pool_contents p = j # js"
  shows "\<exists>p'. take_job p = (Some j, p') \<and> pool_inv p' \<and> pool_contents p' = js \<and> cap p' = cap p \<and> stopping p' = stopping p"
proof -
  obtain n where n: "q_count p = Suc n" using c pool_contents_empty [of p] by (cases "q_count p") auto
  have l: "length (jobs p) = cap p" and h: "q_head p < cap p" "Suc n \<le> cap p" using inv n by (auto simp: pool_inv_def)
  have r: "ring (q_head p) (Suc n) (jobs p) = jobs p ! q_head p # ring (Suc (q_head p)) n (jobs p)"
    using h(1) by (simp add: ring_Suc l)
  have "jobs p ! q_head p \<noteq> None" using inv n h(1) by (auto simp: pool_inv_def dest!: spec [of _ 0])
  with c r n have j: "jobs p ! q_head p = Some j" "js = map the (ring (Suc (q_head p)) n (jobs p))" by (auto simp: pool_contents_def)
  have ne: "q_head p \<noteq> (Suc (q_head p) + k) mod cap p" if "k < n" for k
    using mod_eq_close [of "q_head p" "cap p" "Suc (q_head p) + k"] that h by auto
  let ?p = "p\<lparr>jobs := (jobs p)[q_head p := None], q_head := (q_head p + 1) mod cap p, q_count := n\<rparr>"
  have e: "take_job p = (Some j, ?p)" using n j(1) by (simp add: take_job_def)
  have "ring ((q_head p + 1) mod cap p) n ((jobs p)[q_head p := None]) = ring (Suc (q_head p)) n (jobs p)"
  proof -
    have "ring ((q_head p + 1) mod cap p) n ((jobs p)[q_head p := None]) = ring (Suc (q_head p)) n ((jobs p)[q_head p := None])"
      using ring_mod [of "Suc (q_head p)" "(jobs p)[q_head p := None]" n] l by simp
    also have "\<dots> = ring (Suc (q_head p)) n (jobs p)"
      unfolding ring_def length_list_update l by (rule map_cong [OF refl]) (use ne in \<open>auto simp: nth_list_update_neq\<close>)
    finally show ?thesis .
  qed
  then have "pool_contents ?p = js" by (simp add: pool_contents_def j(2))
  moreover have "(jobs p)[q_head p := None] ! (((q_head p + 1) mod cap p + k) mod cap p) \<noteq> None" if "k < n" for k
  proof -
    have "((q_head p + 1) mod cap p + k) mod cap p = (q_head p + Suc k) mod cap p" by (simp add: mod_simps)
    moreover have "jobs p ! ((q_head p + Suc k) mod cap p) \<noteq> None" using inv n Suc_less_eq [THEN iffD2, OF that] unfolding pool_inv_def by metis
    ultimately show ?thesis using ne [OF that] by (simp add: nth_list_update_neq)
  qed
  then have "pool_inv ?p" using inv n h by (simp add: pool_inv_def mod_simps)
  ultimately show ?thesis using e by auto
qed

section \<open>Workers\<close>

text \<open>A running pool provides the contract of a bounded queue.\<close>

interpretation job_queue: bounded_fifo TrySubmit take_job pool_contents "\<lambda>p. pool_inv p \<and> \<not> stopping p" cap
proof unfold_locales
  fix s x
  assume "pool_inv s \<and> \<not> stopping s" and "length (pool_contents s) < cap s"
  then show "\<exists>s'. TrySubmit x s = (True, s') \<and> (pool_inv s' \<and> \<not> stopping s') \<and> pool_contents s' = pool_contents s @ [x] \<and> cap s' = cap s"
    using submit_ok [of s x] by (auto simp: pool_contents_def)
next
  fix s x
  assume "pool_inv s \<and> \<not> stopping s" and "cap s \<le> length (pool_contents s)"
  then show "TrySubmit x s = (False, s)" by (auto simp: TrySubmit_def pool_contents_def pool_inv_def)
next
  fix s x xs
  assume "pool_inv s \<and> \<not> stopping s" and "pool_contents s = x # xs"
  then show "\<exists>s'. take_job s = (Some x, s') \<and> (pool_inv s' \<and> \<not> stopping s') \<and> pool_contents s' = xs \<and> cap s' = cap s"
    using take_ok [of s x xs] by auto
qed (auto simp: take_job_def pool_contents_empty pool_inv_def, simp add: pool_contents_def)

datatype 'j worker = WTop | WWait | WTaken 'j | WRunning 'j | WExited

text \<open>\<open>accepted\<close>: jobs whose submission returned true; \<open>taken\<close>: in the order they left the queue.\<close>

record 'j pool_state =
  pool :: "'j BlockingPool"
  workers :: "'j worker list"
  accepted :: "'j list"
  taken :: "'j list"
  executed :: "'j list"
  discarded :: "'j list"

inductive pool_step :: "'j pool_state \<Rightarrow> 'j pool_state \<Rightarrow> bool" where
  submit: "TrySubmit j (pool s) = (ok, p) \<Longrightarrow> pool_step s (s\<lparr>pool := p, accepted := accepted s @ (if ok then [j] else [])\<rparr>)"
| stop: "pool_step s (s\<lparr>pool := Pool_Stop (pool s)\<rparr>)"
| w_top: "i < length (workers s) \<Longrightarrow> workers s ! i = WTop \<Longrightarrow>
    pool_step s (s\<lparr>workers := (workers s)[i := if stopping (pool s) then WExited else WWait]\<rparr>)"
| w_exit: "i < length (workers s) \<Longrightarrow> workers s ! i = WWait \<Longrightarrow> stopping (pool s) \<Longrightarrow> q_count (pool s) = 0 \<Longrightarrow>
    pool_step s (s\<lparr>workers := (workers s)[i := WExited]\<rparr>)"
| w_take: "i < length (workers s) \<Longrightarrow> workers s ! i = WWait \<Longrightarrow> take_job (pool s) = (Some j, p) \<Longrightarrow>
    pool_step s (s\<lparr>pool := p, workers := (workers s)[i := WTaken j], taken := taken s @ [j]\<rparr>)"
| w_discard: "i < length (workers s) \<Longrightarrow> workers s ! i = WTaken j \<Longrightarrow> stopping (pool s) \<Longrightarrow>
    pool_step s (s\<lparr>workers := (workers s)[i := WExited], discarded := discarded s @ [j]\<rparr>)"
| w_run: "i < length (workers s) \<Longrightarrow> workers s ! i = WTaken j \<Longrightarrow> \<not> stopping (pool s) \<Longrightarrow>
    pool_step s (s\<lparr>workers := (workers s)[i := WRunning j]\<rparr>)"
| w_done: "i < length (workers s) \<Longrightarrow> workers s ! i = WRunning j \<Longrightarrow>
    pool_step s (s\<lparr>workers := (workers s)[i := WTop], executed := executed s @ [j]\<rparr>)"

inductive_simps pool_step_simp: "pool_step s s'"

fun in_hand :: "'j worker \<Rightarrow> 'j multiset" where
  "in_hand (WTaken j) = {#j#}"
| "in_hand (WRunning j) = {#j#}"
| "in_hand _ = {#}"

definition pool_ok :: "'j pool_state \<Rightarrow> bool" where
  "pool_ok s \<longleftrightarrow>
     pool_inv (pool s) \<and> accepted s = taken s @ pool_contents (pool s) \<and>
     mset (taken s) = mset (executed s) + mset (discarded s) + (\<Sum>w \<leftarrow> workers s. in_hand w) \<and>
     (\<not> stopping (pool s) \<longrightarrow> discarded s = [])"

lemma in_hand_update:
  assumes "i < length ws"
  shows "(\<Sum>w \<leftarrow> ws[i := v]. in_hand w) + in_hand (ws ! i) = (\<Sum>w \<leftarrow> ws. in_hand w) + in_hand v"
  using assms by (induction ws arbitrary: i) (auto simp: less_Suc_eq_0_disj ac_simps split: nat.splits)

lemma pool_step_ok: "pool_step s s' \<Longrightarrow> pool_ok s \<Longrightarrow> pool_ok s'"
proof (induction rule: pool_step.induct)
  case (submit j s ok p)
  then have i: "pool_inv (pool s)" by (simp add: pool_ok_def)
  show ?case
  proof (cases "\<not> stopping (pool s) \<and> q_count (pool s) < cap (pool s)")
    case True
    with submit_ok [OF i, of j] submit show ?thesis by (auto simp: pool_ok_def)
  next
    case False
    then have "ok = False" "p = pool s" using submit.hyps i by (auto simp: TrySubmit_def pool_inv_def split: if_splits)
    with submit.prems show ?thesis by (simp add: pool_ok_def)
  qed
next
  case (stop s)
  then show ?case by (simp add: pool_ok_def Pool_Stop_def pool_inv_def pool_contents_def)
next
  case (w_top i s)
  then show ?case using in_hand_update [OF w_top.hyps(1)] by (auto simp: pool_ok_def dest!: spec)
next
  case (w_exit i s)
  then show ?case using in_hand_update [OF w_exit.hyps(1), of WExited] by (simp add: pool_ok_def)
next
  case (w_take i s j p)
  then have inv: "pool_inv (pool s)" by (simp add: pool_ok_def)
  have "q_count (pool s) \<noteq> 0" using w_take.hyps(3) by (auto simp: take_job_def split: if_splits)
  then obtain j' js where c: "pool_contents (pool s) = j' # js" using pool_contents_empty [of "pool s"] by (cases "pool_contents (pool s)") auto
  from take_ok [OF inv c] w_take.hyps(3) have p: "j' = j" "pool_inv p" "pool_contents p = js" "stopping p = stopping (pool s)" by auto
  show ?case using w_take.prems w_take.hyps(2) p c in_hand_update [OF w_take.hyps(1), of "WTaken j"]
    by (simp add: pool_ok_def)
next
  case (w_discard i s j)
  then show ?case using in_hand_update [OF w_discard.hyps(1), of WExited] by (simp add: pool_ok_def)
next
  case (w_run i s j)
  then show ?case using in_hand_update [OF w_run.hyps(1), of "WRunning j"] by (simp add: pool_ok_def)
next
  case (w_done i s j)
  then show ?case using in_hand_update [OF w_done.hyps(1), of WTop] by (simp add: pool_ok_def)
qed

definition pool_start :: "nat \<Rightarrow> nat \<Rightarrow> 'j pool_state" where
  "pool_start threads capacity =
     \<lparr>pool = mk_BlockingPool capacity, workers = replicate (worker_threads threads) WTop, accepted = [], taken = [],
      executed = [], discarded = []\<rparr>"

lemma pool_start_ok: "pool_ok (pool_start threads capacity)"
proof -
  have "(\<Sum>w \<leftarrow> replicate n WTop. in_hand w) = {#}" for n by (induction n) simp_all
  then show ?thesis by (simp add: pool_ok_def pool_start_def pool_inv_def mk_BlockingPool_def pool_contents_def)
qed

lemma pool_start_fields:
  "pool_inv (pool (pool_start t c))" "q_count (pool (pool_start t c)) = 0" "cap (pool (pool_start t c)) = c"
  "\<not> stopping (pool (pool_start t c))" "pool_contents (pool (pool_start t c)) = []" "accepted (pool_start t c) = []"
  "executed (pool_start t c) = []" "workers (pool_start (Suc 0) c) = [WTop]"
  by (simp_all add: pool_start_def mk_BlockingPool_def pool_contents_def pool_inv_def worker_threads_def)

text \<open>The first submission to a pool with room.\<close>

lemma first_submit:
  assumes "0 < c"
  obtains p where "TrySubmit j (pool (pool_start t c)) = (True, p)" "pool_inv p" "pool_contents p = [j]" "\<not> stopping p"
  using submit_ok [of "pool (pool_start t c)" j] assms by (auto simp: pool_start_fields)

section \<open>Properties of the pool\<close>

text \<open>
  C21: every accepted job is accounted for exactly once. In every interleaving of submissions,
  workers and \<^verbatim>\<open>Stop\<close>, jobs leave the queue in the order in which they were accepted; each
  accepted job is waiting in the queue, in the hands of one worker, executed once, or
  discarded, and none is discarded before the pool is stopped.
\<close>

theorem pool_jobs_accounted:
  assumes "pool_step\<^sup>*\<^sup>* (pool_start threads capacity) s"
  shows "accepted s = taken s @ pool_contents (pool s) \<and>
    mset (accepted s) = mset (executed s) + mset (discarded s) + (\<Sum>w \<leftarrow> workers s. in_hand w) + mset (pool_contents (pool s)) \<and>
    (\<not> stopping (pool s) \<longrightarrow> discarded s = [])"
proof -
  have "pool_ok s" using assms
  proof (induction rule: rtranclp_induct)
    case base
    show ?case by (rule pool_start_ok)
  qed (rule pool_step_ok)
  then show ?thesis by (auto simp: pool_ok_def)
qed

text \<open>Three steps of a pool with one worker: a job is submitted, taken and run.\<close>

lemma demo_pool_runs:
  "\<exists>s. pool_step\<^sup>*\<^sup>* (pool_start 1 4) s \<and> accepted s = [7 :: nat] \<and> executed s = [7]"
proof -
  let ?s0 = "pool_start 1 4 :: nat pool_state"
  obtain p where p: "TrySubmit 7 (pool ?s0) = (True, p)" "pool_inv p" "pool_contents p = [7]" "\<not> stopping p"
    using first_submit [of 4 7 1] by auto
  obtain p' where p': "take_job p = (Some 7, p')" "\<not> stopping p'" using take_ok [OF p(2,3)] p(4) by auto
  note w = pool_start_fields(6-8)
  let ?s1 = "?s0\<lparr>pool := p, accepted := [7]\<rparr>"
  let ?s2 = "?s1\<lparr>workers := [WWait]\<rparr>"
  let ?s3 = "?s2\<lparr>pool := p', workers := [WTaken 7], taken := taken ?s2 @ [7]\<rparr>"
  let ?s4 = "?s3\<lparr>workers := [WRunning 7]\<rparr>"
  let ?s5 = "?s4\<lparr>workers := [WTop], executed := [7]\<rparr>"
  have "pool_step ?s0 ?s1" using submit [OF p(1)] by (simp add: w)
  moreover have "pool_step ?s1 ?s2" using w_top [of 0 ?s1] p(4) by (simp add: w)
  moreover have "pool_step ?s2 ?s3" using w_take [of 0 ?s2 7 p'] p'(1) by simp
  moreover have "pool_step ?s3 ?s4" using w_run [of 0 ?s3 7] p'(2) by simp
  moreover have "pool_step ?s4 ?s5" using w_done [of 0 ?s4 7] by (simp add: w)
  ultimately have "pool_step\<^sup>*\<^sup>* ?s0 ?s5" by (meson converse_rtranclp_into_rtranclp r_into_rtranclp)
  then show ?thesis by (intro exI [of _ ?s5]) simp
qed

theorem pool_jobs_accounted_witness:
  "\<exists>s. pool_step\<^sup>*\<^sup>* (pool_start 1 4) s \<and> executed s = [7 :: nat] \<and> pool_contents (pool s) = [] \<and> discarded s = []"
proof -
  obtain s where s: "pool_step\<^sup>*\<^sup>* (pool_start 1 4) s" "accepted s = [7 :: nat]" "executed s = [7]" using demo_pool_runs by blast
  from pool_jobs_accounted [OF s(1)] s(2,3)
  have "{#} = mset (discarded s) + (\<Sum>w \<leftarrow> workers s. in_hand w) + mset (pool_contents (pool s))" by simp
  then have "pool_contents (pool s) = []" "discarded s = []" by simp_all
  with s show ?thesis by blast
qed

text \<open>
  Stopping the pool abandons accepted jobs. A job that was accepted and is still queued when
  \<^verbatim>\<open>Stop\<close> is called need not be executed: all workers may exit without taking it, so that
  whoever awaits the job is never resumed.
\<close>

theorem pool_stop_abandons_jobs:
  "\<exists>s. pool_step\<^sup>*\<^sup>* (pool_start 1 4) s \<and> accepted s = [j] \<and> executed s = [] \<and> pool_contents (pool s) = [j] \<and> workers s = [WExited]"
proof -
  let ?s0 = "pool_start 1 4 :: 'a pool_state"
  obtain p where p: "TrySubmit j (pool ?s0) = (True, p)" "pool_contents p = [j]" using first_submit [of 4 j 1] by auto
  note w = pool_start_fields(6-8)
  let ?s1 = "?s0\<lparr>pool := p, accepted := [j]\<rparr>"
  let ?s2 = "?s1\<lparr>pool := Pool_Stop p\<rparr>"
  let ?s3 = "?s2\<lparr>workers := [WExited]\<rparr>"
  have "pool_step ?s0 ?s1" using submit [OF p(1)] by (simp add: w)
  moreover have "pool_step ?s1 ?s2" using stop [of ?s1] by simp
  moreover have "pool_step ?s2 ?s3" using w_top [of 0 ?s2] by (simp add: w Pool_Stop_def)
  ultimately have "pool_step\<^sup>*\<^sup>* ?s0 ?s3" by (meson converse_rtranclp_into_rtranclp r_into_rtranclp)
  then show ?thesis using p(2) by (intro exI [of _ ?s3]) (simp add: w Pool_Stop_def pool_contents_def)
qed

end
