(* ===== verification/External_Wake.thy ===== *)
theory External_Wake
  imports Io_Context Blocking_Pool
begin

text \<open>
  Completions that other threads inject into an event loop (\<^verbatim>\<open>EnqueueExternalDone\<close> and
  \<^verbatim>\<open>DrainExternal\<close> of \<^verbatim>\<open>src/kio/core.cpp\<close>, \<^verbatim>\<open>RingWaker\<close> of \<^verbatim>\<open>core.hpp\<close>, \<^verbatim>\<open>OffloadOp\<close> of \<^verbatim>\<open>blocking_pool.hpp\<close>) as a
  step relation. What a thread does under the mutex is one step. A thread that has been told to
  wake the loop does so in a later step, by adding to the event counter; the loop sleeps until
  the counter is positive or some other completion arrives, and the read that it keeps armed
  on the counter resets it. The hint that the loop reads without the mutex may be stale.
\<close>

section \<open>The threads\<close>

text \<open>A job of \<^verbatim>\<open>OffloadOp\<close> after its function has returned: enqueue, perhaps wake, end.\<close>

datatype job = JFinished addr | JMustWake | JEnded

datatype loop = LWaiting | LSawWake | LOther

record ext_state =
  x_ext :: ext
  x_counter :: nat
  x_jobs :: "job list"
  x_loop :: loop
  x_enqueued :: "addr list"
  x_drained :: "addr list"

definition enqueue_job :: "nat \<Rightarrow> addr \<Rightarrow> ext_state \<Rightarrow> ext_state" where
  "enqueue_job i op s =
     (case EnqueueExternalDone op (x_ext s) of
        (wake, e) \<Rightarrow> s\<lparr>x_ext := e, x_jobs := (x_jobs s)[i := if wake then JMustWake else JEnded], x_enqueued := x_enqueued s @ [op]\<rparr>)"

definition drain_step :: "ext_state \<Rightarrow> ext_state" where
  "drain_step s =
     (case take_external (x_ext s) of
        (ops, e) \<Rightarrow> s\<lparr>x_ext := e, x_loop := LWaiting, x_drained := x_drained s @ externals ops\<rparr>)"

inductive ext_step :: "ext_state \<Rightarrow> ext_state \<Rightarrow> bool" where
  finish: "ext_step s (s\<lparr>x_jobs := x_jobs s @ [JFinished op]\<rparr>)"
| enqueue: "i < length (x_jobs s) \<Longrightarrow> x_jobs s ! i = JFinished op \<Longrightarrow> ext_step s (enqueue_job i op s)"
| wake: "i < length (x_jobs s) \<Longrightarrow> x_jobs s ! i = JMustWake \<Longrightarrow>
    ext_step s (s\<lparr>x_counter := x_counter s + 1, x_jobs := (x_jobs s)[i := JEnded]\<rparr>)"
| see_wake: "x_loop s = LWaiting \<Longrightarrow> 0 < x_counter s \<Longrightarrow> ext_step s (s\<lparr>x_counter := 0, x_loop := LSawWake\<rparr>)"
| see_other: "x_loop s = LWaiting \<Longrightarrow> ext_step s (s\<lparr>x_loop := LOther\<rparr>)"
| drain: "x_loop s = LSawWake \<or> x_loop s = LOther \<Longrightarrow> ext_step s (drain_step s)"
| no_hint: "x_loop s = LOther \<Longrightarrow> ext_step s (s\<lparr>x_loop := LWaiting\<rparr>)"

inductive_cases ext_stepE: "ext_step s s'"

definition ext_start :: ext_state where
  "ext_start = \<lparr>x_ext = \<lparr>ext_done = [], ext_wake_pending = False, ext_hint = False\<rparr>, x_counter = 0, x_jobs = [],
     x_loop = LWaiting, x_enqueued = [], x_drained = []\<rparr>"

section \<open>Invariant\<close>

text \<open>
  If the flag says that a wake-up is on its way then it is: the counter is positive, some job is
  about to add to it, or the loop has just seen it and will drain before it sleeps.
\<close>

definition wake_ok :: "ext_state \<Rightarrow> bool" where
  "wake_ok s \<longleftrightarrow>
     (ext_done (x_ext s) \<noteq> [] \<longrightarrow> ext_wake_pending (x_ext s)) \<and>
     (ext_wake_pending (x_ext s) \<longrightarrow> 0 < x_counter s \<or> JMustWake \<in> set (x_jobs s) \<or> x_loop s = LSawWake) \<and>
     x_enqueued s = x_drained s @ externals (ext_done (x_ext s))"

lemma externals_append [simp]: "externals (xs @ ys) = externals xs @ externals ys"
  by (simp add: externals_def)

lemma must_wake_update:
  "JMustWake \<in> set js \<Longrightarrow> js ! i \<noteq> JMustWake \<Longrightarrow> JMustWake \<in> set (js[i := j])"
  by (metis in_set_conv_nth length_list_update nth_list_update_neq)

lemma wake_ok_step:
  assumes "ext_step s s'" and "wake_ok s"
  shows "wake_ok s'"
  using assms
proof (cases rule: ext_step.cases)
  case (enqueue i op)
  then show ?thesis using assms(2) must_wake_update [of "x_jobs s" i] set_update_memI [of i "x_jobs s" JMustWake]
    by (auto simp: wake_ok_def enqueue_job_def EnqueueExternalDone_def Let_def)
next
  case (drain)
  then show ?thesis using assms(2) by (auto simp: wake_ok_def drain_step_def take_external_def)
qed (auto simp: wake_ok_def)

lemma wake_reachable_ok:
  assumes "ext_step\<^sup>*\<^sup>* ext_start s"
  shows "wake_ok s"
  using assms
proof (induction rule: rtranclp_induct)
  case base
  show ?case by (simp add: wake_ok_def ext_start_def)
qed (blast intro: wake_ok_step)

section \<open>The loop can always catch up\<close>

text \<open>Steps of the loop and of jobs that owe a wake-up, without a new injection, empty the list.\<close>

lemma drain_now:
  assumes "x_loop s = LSawWake \<or> x_loop s = LOther"
  shows "\<exists>s'. ext_step\<^sup>*\<^sup>* s s' \<and> ext_done (x_ext s') = [] \<and> x_loop s' = LWaiting \<and> x_enqueued s' = x_enqueued s"
  using ext_step.drain [OF assms] by (intro exI [of _ "drain_step s"]) (auto simp: drain_step_def take_external_def)

lemma drain_after_wake:
  assumes "x_loop s = LWaiting" and "0 < x_counter s"
  shows "\<exists>s'. ext_step\<^sup>*\<^sup>* s s' \<and> ext_done (x_ext s') = [] \<and> x_loop s' = LWaiting \<and> x_enqueued s' = x_enqueued s"
proof -
  let ?t = "s\<lparr>x_counter := 0, x_loop := LSawWake\<rparr>"
  have "ext_step s ?t" using ext_step.see_wake [OF assms] .
  moreover obtain s' where "ext_step\<^sup>*\<^sup>* ?t s'" "ext_done (x_ext s') = []" "x_loop s' = LWaiting" "x_enqueued s' = x_enqueued ?t"
    using drain_now [of ?t] by auto
  ultimately show ?thesis by (metis converse_rtranclp_into_rtranclp ext_state.select_convs(5) ext_state.surjective ext_state.update_convs(2,4))
qed

text \<open>
  C15: no injected completion is forgotten. In every interleaving of any number of threads with the
  loop, the operations that threads have injected are, in order and each once, those the loop has
  taken over followed by those still in the list. When the loop sleeps while the list is not
  empty, the counter it waits for is already positive or some thread is just about to
  add to it, so the sleep ends; no further injection is needed.
\<close>

theorem external_wake_not_lost:
  assumes "ext_step\<^sup>*\<^sup>* ext_start s"
  shows "x_enqueued s = x_drained s @ externals (ext_done (x_ext s)) \<and>
    (x_loop s = LWaiting \<and> ext_done (x_ext s) \<noteq> [] \<longrightarrow> 0 < x_counter s \<or> JMustWake \<in> set (x_jobs s)) \<and>
    (\<exists>s'. ext_step\<^sup>*\<^sup>* s s' \<and> x_enqueued s' = x_enqueued s \<and> x_drained s' = x_enqueued s)"
proof -
  note ok = wake_reachable_ok [OF assms]
  have "\<exists>s'. ext_step\<^sup>*\<^sup>* s s' \<and> ext_done (x_ext s') = [] \<and> x_enqueued s' = x_enqueued s"
  proof (cases "ext_done (x_ext s) = []")
    case True
    then show ?thesis by blast
  next
    case False
    then consider (run) "x_loop s = LSawWake \<or> x_loop s = LOther" | (up) "x_loop s = LWaiting" "0 < x_counter s"
      | (owed) i where "x_loop s = LWaiting" "i < length (x_jobs s)" "x_jobs s ! i = JMustWake"
      using ok by (cases "x_loop s") (auto simp: wake_ok_def in_set_conv_nth)
    then show ?thesis
    proof cases
      case run
      then show ?thesis using drain_now by blast
    next
      case up
      then show ?thesis using drain_after_wake by blast
    next
      case (owed i)
      let ?t = "s\<lparr>x_counter := x_counter s + 1, x_jobs := (x_jobs s)[i := JEnded]\<rparr>"
      obtain s' where "ext_step\<^sup>*\<^sup>* ?t s'" "ext_done (x_ext s') = []" "x_enqueued s' = x_enqueued s"
        using drain_after_wake [of ?t] owed(1) by auto
      then show ?thesis using ext_step.wake [OF owed(2,3)] converse_rtranclp_into_rtranclp by metis
    qed
  qed
  then obtain s' where s': "ext_step\<^sup>*\<^sup>* s s'" "ext_done (x_ext s') = []" "x_enqueued s' = x_enqueued s" by blast
  have "wake_ok s'" using wake_reachable_ok rtranclp_trans [OF assms s'(1)] by blast
  then show ?thesis using ok s' unfolding wake_ok_def by auto
qed

theorem external_wake_not_lost_witness:
  "\<exists>s s'. ext_step\<^sup>*\<^sup>* ext_start s \<and> x_loop s = LWaiting \<and> ext_done (x_ext s) = [Some 16] \<and>
     ext_step\<^sup>*\<^sup>* s s' \<and> x_drained s' = [16]"
proof -
  let ?s1 = "ext_start\<lparr>x_jobs := [JFinished 16]\<rparr>"
  let ?s2 = "enqueue_job 0 16 ?s1"
  have "ext_step ext_start ?s1" using ext_step.finish [of ext_start 16] by (simp add: ext_start_def)
  moreover have "ext_step ?s1 ?s2" by (rule ext_step.enqueue) (simp_all add: ext_start_def)
  ultimately have r: "ext_step\<^sup>*\<^sup>* ext_start ?s2" by (meson converse_rtranclp_into_rtranclp rtranclp.rtrancl_refl)
  have f: "x_loop ?s2 = LWaiting" "ext_done (x_ext ?s2) = [Some 16]" "x_enqueued ?s2 = [16]"
    by (simp_all add: enqueue_job_def EnqueueExternalDone_def ext_start_def Let_def)
  from external_wake_not_lost [OF r] have "\<exists>s'. ext_step\<^sup>*\<^sup>* ?s2 s' \<and> x_enqueued s' = x_enqueued ?s2 \<and> x_drained s' = x_enqueued ?s2"
    by (elim conjE)
  then obtain s' where "ext_step\<^sup>*\<^sup>* ?s2 s'" "x_drained s' = [16]" unfolding f(3) by blast
  with r f show ?thesis by blast
qed

section \<open>Offloading a function to the pool\<close>

text \<open>
  The operation is pending from before the job is submitted; when the pool refuses the job the
  operation is taken back and the caller gets an exception.
\<close>

definition queue_full :: string where
  "queue_full = ''blocking_pool queue full''"

definition OffloadOp_await_suspend ::
  "addr \<Rightarrow> handle \<Rightarrow> addr BlockingPool \<times> 'k IoContext \<Rightarrow> (string + unit) \<times> addr BlockingPool \<times> 'k IoContext" where
  "OffloadOp_await_suspend op h s =
     (case s of (bp, c) \<Rightarrow>
        let c = start_op op h c
        in case TrySubmit op bp of
             (True, bp') \<Rightarrow> (Inr (), bp', c)
           | (False, bp') \<Rightarrow> (Inl queue_full, bp', c\<lparr>c_pending := Untrack op (c_pending c)\<rparr>))"

text \<open>What the job leaves in the operation: the exception of the function or its value.\<close>

definition OffloadOp_await_resume :: "'x option \<Rightarrow> 'v option \<Rightarrow> 'x + 'v" where
  "OffloadOp_await_resume ep val = (case ep of Some x \<Rightarrow> Inl x | None \<Rightarrow> Inr (the val))"

lemma offload_pending:
  assumes "pending_ok (c_pending c) as" and "op \<notin> set as" and "OffloadOp_await_suspend op h (bp, c) = (q, bp', c')"
  shows "pending_ok (c_pending c') (case q of Inr _ \<Rightarrow> op # as | Inl _ \<Rightarrow> as)"
proof -
  note st = start_op_ok [OF assms(1,2), of h]
  show ?thesis using st assms(3) pending.untrack_ok [OF st, of op]
    by (auto simp: OffloadOp_await_suspend_def Let_def split: prod.splits bool.splits)
qed

end
