(* ===== verification/Task_Group.thy ===== *)
theory Task_Group
  imports Pending_List
begin

text \<open>
  Groups of tasks (\<^verbatim>\<open>include/kio/core/task_group.hpp\<close>) with the notifier of \<^verbatim>\<open>core.hpp\<close> they wait on.
  A task is its coroutine handle; \<open>g_done\<close> are the handles whose coroutine has reached its end
  and not been destroyed. The notifier is an event counter: a signal adds one, a read waits
  until it is positive and resets it. A coroutine in \<^verbatim>\<open>JoinAll\<close> or \<^verbatim>\<open>JoinAllTimeout\<close> is a program counter, since
  tasks finish and are spawned while it waits.
\<close>

section \<open>Operations\<close>

record TaskGroup =
  g_tasks :: "handle list"
  g_done :: "handle set"
  g_counter :: nat
  g_sweep_interval :: u64
  g_spawn_count :: u64
  g_active_count :: nat
  g_waiting :: bool

definition mk_TaskGroup :: TaskGroup where
  "mk_TaskGroup = \<lparr>g_tasks = [], g_done = {}, g_counter = 0, g_sweep_interval = 1024, g_spawn_count = 0,
     g_active_count = 0, g_waiting = False\<rparr>"

definition Signal :: "TaskGroup \<Rightarrow> TaskGroup" where
  "Signal g = g\<lparr>g_counter := g_counter g + 1\<rparr>"

definition OnTaskDone :: "TaskGroup \<Rightarrow> TaskGroup" where
  "OnTaskDone g =
     (let g = g\<lparr>g_active_count := sz_sub (g_active_count g) 1\<rparr>
      in if g_active_count g = 0 \<or> g_waiting g then Signal g else g)"

text \<open>Erased tasks are destroyed.\<close>

definition Sweep :: "TaskGroup \<Rightarrow> nat \<times> TaskGroup" where
  "Sweep g =
     (let before = length (g_tasks g);
          g' = g\<lparr>g_tasks := filter (\<lambda>t. t \<notin> g_done g) (g_tasks g), g_done := g_done g - set (g_tasks g)\<rparr>
      in (before - length (g_tasks g'), g'))"

text \<open>\<open>run\<close> is what the task does until it is suspended for the first time or ends.\<close>

definition Spawn :: "(TaskGroup \<Rightarrow> TaskGroup) \<Rightarrow> handle \<Rightarrow> TaskGroup \<Rightarrow> TaskGroup" where
  "Spawn run t g =
     (let g = g\<lparr>g_spawn_count := g_spawn_count g + 1, g_active_count := sz_add (g_active_count g) 1\<rparr>;
          g = run g;
          g = g\<lparr>g_tasks := g_tasks g @ [t]\<rparr>
      in if g_spawn_count g AND (g_sweep_interval g - 1) = 0 then snd (Sweep g) else g)"

text \<open>The end of a wrapped task: the guard is destroyed, then the coroutine is at its end.\<close>

definition task_ends :: "handle \<Rightarrow> TaskGroup \<Rightarrow> TaskGroup" where
  "task_ends t g = (let g = OnTaskDone g in g\<lparr>g_done := insert t (g_done g)\<rparr>)"

partial_function (option) round_up_pow2 :: "u64 \<Rightarrow> u64 \<Rightarrow> u64 option" where
  "round_up_pow2 interval pow2 = (if pow2 < interval then round_up_pow2 interval (push_bit 1 pow2) else Some pow2)"

definition SetSweepInterval :: "u64 \<Rightarrow> TaskGroup \<Rightarrow> TaskGroup option" where
  "SetSweepInterval interval g = map_option (\<lambda>p. g\<lparr>g_sweep_interval := p\<rparr>) (round_up_pow2 interval 1)"

section \<open>The sweep interval\<close>

lemma unat_pow2: "k < 64 \<Longrightarrow> unat ((2 :: u64) ^ k) = 2 ^ k"
proof -
  assume "k < 64"
  then have "(2 :: nat) ^ k < 2 ^ 64" by (rule power_strict_increasing) simp
  then show ?thesis using unat_of_nat [where 'a = 64, of "2 ^ k"] by simp
qed

lemma pow2_rounds:
  assumes "k \<le> n" and "n < 64" and "unat interval \<le> 2 ^ n" and "\<And>j. k \<le> j \<Longrightarrow> j < n \<Longrightarrow> 2 ^ j < unat interval"
  shows "round_up_pow2 interval (2 ^ k) = Some (2 ^ n)"
  using assms
proof (induction "n - k" arbitrary: k)
  case 0
  then have "\<not> (2 :: u64) ^ k < interval" using unat_pow2 [of k] by (simp add: word_less_nat_alt)
  with 0 show ?case by (simp add: round_up_pow2.simps)
next
  case (Suc x)
  then have lt: "(2 :: u64) ^ k < interval" using unat_pow2 [of k] Suc.prems(4) [of k] by (simp add: word_less_nat_alt)
  have "round_up_pow2 interval (2 ^ k) = round_up_pow2 interval (2 ^ Suc k)"
    using lt by (subst round_up_pow2.simps) (simp add: push_bit_eq_mult mult.commute)
  also have "\<dots> = Some (2 ^ n)" using Suc by (intro Suc.hyps(1)) auto
  finally show ?case .
qed

text \<open>The smallest exponent that is large enough.\<close>

lemma least_exponent:
  assumes "m \<le> 2 ^ 63"
  shows "\<exists>n < 64. m \<le> 2 ^ n \<and> (\<forall>j < n. 2 ^ j < (m :: nat))"
proof -
  define n where "n = (LEAST n. m \<le> 2 ^ n)"
  have "m \<le> 2 ^ n" unfolding n_def by (rule LeastI [of "\<lambda>n. m \<le> 2 ^ n", OF assms])
  moreover have "n \<le> 63" unfolding n_def by (rule Least_le [of "\<lambda>n. m \<le> 2 ^ n", OF assms])
  moreover have "\<forall>j < n. 2 ^ j < m" using not_less_Least [of _ "\<lambda>n. m \<le> 2 ^ n"] unfolding n_def by (meson not_le)
  ultimately show ?thesis by (intro exI [of _ n]) simp
qed

text \<open>Beyond the largest power of two the shift arrives at zero and stays there.\<close>

lemma pow2_zero:
  assumes "0 < interval"
  shows "round_up_pow2 interval 0 = None"
proof (cases "round_up_pow2 interval 0")
  case (Some p)
  have "0 < interval \<longrightarrow> 0 \<noteq> (0 :: u64)"
    by (rule round_up_pow2.raw_induct [where P = "\<lambda>i q r. 0 < i \<longrightarrow> q \<noteq> 0", OF _ Some]) (auto split: if_splits; blast)
  then show ?thesis using assms by simp
qed

lemma pow2_diverges:
  assumes "2 ^ 63 < unat interval" and "k \<le> 64"
  shows "round_up_pow2 interval (2 ^ k) = None"
  using assms(2)
proof (induction rule: inc_induct)
  case base
  have "(2 :: u64) ^ 64 = 0" by simp
  moreover have "0 < interval" using assms(1) by (simp add: word_less_nat_alt)
  ultimately show ?case using pow2_zero by (simp only:)
next
  case (step k)
  have "(2 :: nat) ^ k \<le> 2 ^ 63" using step by (intro power_increasing) auto
  then have "(2 :: u64) ^ k < interval" using assms(1) unat_pow2 [of k] step by (simp add: word_less_nat_alt)
  then have "round_up_pow2 interval (2 ^ k) = round_up_pow2 interval (2 ^ Suc k)"
    by (subst round_up_pow2.simps) (simp add: push_bit_eq_mult mult.commute)
  then show ?case using step by simp
qed

text \<open>
  \<^verbatim>\<open>SetSweepInterval\<close> returns exactly when the interval is at most \<open>2 ^ 63\<close>. It then sets the interval to
  the smallest power of two that is not smaller, and nothing else; the test in \<^verbatim>\<open>Spawn\<close>
  that uses the interval as a mask depends on it being one. For a larger
  interval the loop shifts the bit out of the word and never ends.
\<close>

theorem sweep_interval_terminates:
  "(if unat interval \<le> 2 ^ 63
    then \<exists>n < 64. SetSweepInterval interval g = Some (g\<lparr>g_sweep_interval := 2 ^ n\<rparr>) \<and> unat interval \<le> 2 ^ n \<and>
           (n = 0 \<or> 2 ^ (n - 1) < unat interval)
    else SetSweepInterval interval g = None)"
proof (cases "unat interval \<le> 2 ^ 63")
  case True
  obtain n where n: "n < 64" "unat interval \<le> 2 ^ n" "\<forall>j < n. 2 ^ j < unat interval" using least_exponent [OF True] by blast
  have "round_up_pow2 interval (2 ^ 0) = Some (2 ^ n)" by (rule pow2_rounds) (use n in auto)
  then have "SetSweepInterval interval g = Some (g\<lparr>g_sweep_interval := 2 ^ n\<rparr>)" by (simp add: SetSweepInterval_def)
  moreover have "n = 0 \<or> 2 ^ (n - 1) < unat interval" using n(3) by (cases n) auto
  ultimately show ?thesis using True n(1,2) by auto
next
  case False
  then have "round_up_pow2 interval (2 ^ 0) = None" by (intro pow2_diverges) simp_all
  then show ?thesis using False by (simp add: SetSweepInterval_def)
qed

section \<open>Joining\<close>

datatype joiner = JIdle | JCheck | JWait | JReturned | JExpired

text \<open>\<open>live\<close> are the tasks that have been spawned and not ended; \<open>timed\<close> tells \<^verbatim>\<open>JoinAllTimeout\<close> from \<^verbatim>\<open>JoinAll\<close>.\<close>

record tg_state =
  group :: TaskGroup
  live :: "handle set"
  joiner :: joiner
  timed :: bool

definition tg_begin :: "bool \<Rightarrow> tg_state" where
  "tg_begin t = \<lparr>group = mk_TaskGroup, live = {}, joiner = JIdle, timed = t\<rparr>"

definition fresh :: "handle \<Rightarrow> tg_state \<Rightarrow> bool" where
  "fresh t s \<longleftrightarrow> t \<notin> live s \<and> t \<notin> set (g_tasks (group s)) \<and> t \<notin> g_done (group s) \<and> g_active_count (group s) + 1 < size_limit"

inductive tg_step :: "tg_state \<Rightarrow> tg_state \<Rightarrow> bool" where
  spawn: "fresh t s \<Longrightarrow> tg_step s (s\<lparr>group := Spawn (\<lambda>g. g) t (group s), live := insert t (live s)\<rparr>)"
| spawn_ended: "fresh t s \<Longrightarrow> tg_step s (s\<lparr>group := Spawn (task_ends t) t (group s)\<rparr>)"
| ended: "t \<in> live s \<Longrightarrow> tg_step s (s\<lparr>group := task_ends t (group s), live := live s - {t}\<rparr>)"
| sweep: "tg_step s (s\<lparr>group := snd (Sweep (group s))\<rparr>)"
| join_nothing: "joiner s \<noteq> JCheck \<Longrightarrow> joiner s \<noteq> JWait \<Longrightarrow> g_active_count (group s) = 0 \<Longrightarrow> tg_step s (s\<lparr>joiner := JReturned\<rparr>)"
| join: "joiner s \<noteq> JCheck \<Longrightarrow> joiner s \<noteq> JWait \<Longrightarrow> g_active_count (group s) \<noteq> 0 \<Longrightarrow>
    tg_step s (s\<lparr>group := (group s)\<lparr>g_waiting := True\<rparr>, joiner := JCheck\<rparr>)"
| wait: "joiner s = JCheck \<Longrightarrow> 0 < g_active_count (group s) \<Longrightarrow> tg_step s (s\<lparr>joiner := JWait\<rparr>)"
| signalled: "joiner s = JWait \<Longrightarrow> 0 < g_counter (group s) \<Longrightarrow>
    tg_step s (s\<lparr>group := (group s)\<lparr>g_counter := 0\<rparr>, joiner := JCheck\<rparr>)"
| return: "joiner s = JCheck \<Longrightarrow> g_active_count (group s) = 0 \<Longrightarrow>
    tg_step s (s\<lparr>group := snd (Sweep ((group s)\<lparr>g_waiting := False\<rparr>)), joiner := JReturned\<rparr>)"
| expire: "timed s \<Longrightarrow> joiner s = JWait \<or> joiner s = JCheck \<and> 0 < g_active_count (group s) \<Longrightarrow>
    tg_step s (s\<lparr>group := (group s)\<lparr>g_waiting := False\<rparr>, joiner := JExpired\<rparr>)"

definition tg_ok :: "tg_state \<Rightarrow> bool" where
  "tg_ok s \<longleftrightarrow>
     finite (live s) \<and> g_active_count (group s) = card (live s) \<and> card (live s) < size_limit \<and>
     live s \<subseteq> set (g_tasks (group s)) \<and> live s \<inter> g_done (group s) = {} \<and> set (g_tasks (group s)) \<subseteq> live s \<union> g_done (group s) \<and>
     (joiner s = JCheck \<or> joiner s = JWait \<longrightarrow> g_waiting (group s)) \<and>
     (joiner s = JWait \<and> live s = {} \<longrightarrow> 0 < g_counter (group s))"

lemma Sweep_fields [simp]:
  "set (g_tasks (snd (Sweep g))) = set (g_tasks g) - g_done g" "g_done (snd (Sweep g)) = g_done g - set (g_tasks g)"
  "g_counter (snd (Sweep g)) = g_counter g" "g_active_count (snd (Sweep g)) = g_active_count g"
  "g_waiting (snd (Sweep g)) = g_waiting g"
  by (auto simp: Sweep_def Let_def)

lemma tg_ok_sweep: "tg_ok (s\<lparr>group := g, live := l\<rparr>) \<Longrightarrow> tg_ok (s\<lparr>group := snd (Sweep g), live := l\<rparr>)"
  by (auto simp: tg_ok_def)

lemma tg_ok_same_live: "tg_ok (s\<lparr>group := g, live := live s\<rparr>) \<longleftrightarrow> tg_ok (s\<lparr>group := g\<rparr>)"
  by (simp add: tg_ok_def)

lemma tg_ok_ended:
  assumes "tg_ok s" and "t \<in> live s"
  shows "tg_ok (s\<lparr>group := task_ends t (group s), live := live s - {t}\<rparr>)"
proof -
  have c: "g_active_count (group s) = card (live s)" "0 < card (live s)" "card (live s) < size_limit" "finite (live s)"
    using assms by (auto simp: tg_ok_def card_gt_0_iff)
  then have "sz_sub (g_active_count (group s)) 1 = card (live s - {t})" using assms(2) by (simp add: sz_sub_eq)
  then show ?thesis using assms c
    by (auto simp: tg_ok_def task_ends_def OnTaskDone_def Signal_def Let_def)
qed

text \<open>A spawned task that is suspended; the sweep that may follow is the one above.\<close>

lemma tg_ok_spawned:
  assumes "tg_ok s" and "fresh t s"
  shows "tg_ok (s\<lparr>group := (group s)\<lparr>g_spawn_count := n, g_active_count := sz_add (g_active_count (group s)) 1,
    g_tasks := g_tasks (group s) @ [t]\<rparr>, live := insert t (live s)\<rparr>)"
proof -
  have "sz_add (g_active_count (group s)) 1 = card (insert t (live s))"
    using assms by (simp add: tg_ok_def fresh_def sz_add_eq)
  then show ?thesis using assms by (auto simp: tg_ok_def fresh_def)
qed

lemma Spawn_cases:
  "Spawn run t g = (let g1 = run (g\<lparr>g_spawn_count := g_spawn_count g + 1, g_active_count := sz_add (g_active_count g) 1\<rparr>);
      g2 = g1\<lparr>g_tasks := g_tasks g1 @ [t]\<rparr> in if g_spawn_count g2 AND (g_sweep_interval g2 - 1) = 0 then snd (Sweep g2) else g2)"
  by (simp add: Spawn_def Let_def)

lemma tg_ok_spawn:
  assumes "tg_ok s" and "fresh t s"
  shows "tg_ok (s\<lparr>group := Spawn (\<lambda>g. g) t (group s), live := insert t (live s)\<rparr>)"
  using tg_ok_spawned [OF assms, of "g_spawn_count (group s) + 1"]
    tg_ok_sweep [OF tg_ok_spawned [OF assms, of "g_spawn_count (group s) + 1"]] by (simp add: Spawn_cases Let_def)

text \<open>A task that ends at once is one that is spawned and then ends.\<close>

lemma tg_ok_spawn_ended:
  assumes "tg_ok s" and "fresh t s"
  shows "tg_ok (s\<lparr>group := Spawn (task_ends t) t (group s)\<rparr>)"
proof -
  let ?g = "(group s)\<lparr>g_spawn_count := g_spawn_count (group s) + 1, g_active_count := sz_add (g_active_count (group s)) 1\<rparr>"
  let ?t = "?g\<lparr>g_tasks := g_tasks (group s) @ [t]\<rparr>"
  let ?s = "s\<lparr>group := ?t, live := insert t (live s)\<rparr>"
  let ?e = "(task_ends t ?g)\<lparr>g_tasks := g_tasks (task_ends t ?g) @ [t]\<rparr>"
  have spawned: "tg_ok ?s" using tg_ok_spawned [OF assms, of "g_spawn_count (group s) + 1"] by simp
  have "tg_ok (?s\<lparr>group := task_ends t (group ?s), live := live ?s - {t}\<rparr>)" by (rule tg_ok_ended [OF spawned]) simp
  moreover have "?s\<lparr>group := task_ends t (group ?s), live := live ?s - {t}\<rparr> = s\<lparr>group := task_ends t ?t, live := live s\<rparr>"
    using assms(2) by (simp add: fresh_def)
  moreover have "task_ends t ?t = ?e" by (simp add: task_ends_def OnTaskDone_def Signal_def Let_def)
  ultimately have ok: "tg_ok (s\<lparr>group := ?e, live := live s\<rparr>)" by simp
  then show ?thesis using tg_ok_sweep [OF ok] unfolding tg_ok_same_live by (simp add: Spawn_cases Let_def)
qed

lemma tg_ok_step: "tg_step s s' \<Longrightarrow> tg_ok s \<Longrightarrow> tg_ok s'"
proof (induction rule: tg_step.induct)
  case (spawn t s)
  then show ?case by (intro tg_ok_spawn)
next
  case (spawn_ended t s)
  then show ?case by (intro tg_ok_spawn_ended)
next
  case (ended t s)
  then show ?case using tg_ok_ended by blast
next
  case (sweep s)
  then show ?case using tg_ok_sweep [where s = s and g = "group s" and l = "live s"] by (simp add: tg_ok_same_live)
qed (auto simp: tg_ok_def)

lemma tg_reachable_ok: "tg_step\<^sup>*\<^sup>* (tg_begin b) s \<Longrightarrow> tg_ok s"
proof (induction rule: rtranclp_induct)
  case base
  show ?case by (simp add: tg_ok_def tg_begin_def mk_TaskGroup_def size_limit_def)
qed (blast intro: tg_ok_step)

text \<open>Once no task is left, the joiner can only go on to return.\<close>

lemma check_returns:
  assumes "tg_ok s" and "joiner s = JCheck" and "live s = {}"
  shows "\<exists>s'. tg_step s s' \<and> joiner s' = JReturned \<and> g_tasks (group s') = []"
proof -
  let ?s = "s\<lparr>group := snd (Sweep ((group s)\<lparr>g_waiting := False\<rparr>)), joiner := JReturned\<rparr>"
  have "tg_step s ?s" using assms by (intro tg_step.return) (simp_all add: tg_ok_def)
  moreover have "g_tasks (group ?s) = []" using assms by (auto simp: tg_ok_def Sweep_def Let_def filter_empty_conv)
  moreover have "joiner ?s = JReturned" by simp
  ultimately show ?thesis by blast
qed


text \<open>One task is spawned, the joiner waits, the task ends.\<close>

definition demo_group :: tg_state where
  "demo_group =
     (let s = (tg_begin False)\<lparr>group := Spawn (\<lambda>g. g) 8 mk_TaskGroup, live := {8}\<rparr>;
          s = s\<lparr>group := (group s)\<lparr>g_waiting := True\<rparr>, joiner := JWait\<rparr>
      in s\<lparr>group := task_ends 8 (group s), live := {}\<rparr>)"

lemma demo_group_reached: "tg_step\<^sup>*\<^sup>* (tg_begin False) demo_group"
proof -
  let ?s1 = "(tg_begin False)\<lparr>group := Spawn (\<lambda>g. g) 8 (group (tg_begin False)), live := insert 8 (live (tg_begin False))\<rparr>"
  let ?s2 = "?s1\<lparr>group := (group ?s1)\<lparr>g_waiting := True\<rparr>, joiner := JCheck\<rparr>"
  let ?s3 = "?s2\<lparr>joiner := JWait\<rparr>"
  let ?s4 = "?s3\<lparr>group := task_ends 8 (group ?s3), live := live ?s3 - {8}\<rparr>"
  have c: "g_active_count (group ?s1) = 1" by (simp add: Spawn_def tg_begin_def mk_TaskGroup_def Sweep_def Let_def sz_add_def)
  have "tg_step (tg_begin False) ?s1"
    by (rule tg_step.spawn) (simp add: fresh_def tg_begin_def mk_TaskGroup_def size_limit_def)
  moreover have "tg_step ?s1 ?s2" by (rule tg_step.join) (use c in \<open>simp_all add: tg_begin_def\<close>)
  moreover have "tg_step ?s2 ?s3" by (rule tg_step.wait) (use c in simp_all)
  moreover have "tg_step ?s3 ?s4" by (rule tg_step.ended) simp
  moreover have "?s4 = demo_group" by (simp add: demo_group_def tg_begin_def Let_def)
  ultimately show ?thesis by (metis (no_types, lifting) converse_rtranclp_into_rtranclp rtranclp.rtrancl_refl)
qed


end
