(* ===== verification/Baton.thy ===== *)
theory Baton
  imports Kio_Prelude "HOL-Library.Multiset"
begin

text \<open>
  The manual-reset event \<^verbatim>\<open>AsyncBaton\<close> (\<^verbatim>\<open>utilities/baton.hpp\<close>). Waiters form a stack through a field of
  their own; the head of the stack and the signalled state share one atomic word. The atomic
  accesses of waiters, of any number of threads that post and of threads that reset are single
  steps. Thread and coroutine waiters differ only in how they are woken. The second part is
  the race between a post and the timeout of a timed wait.
\<close>

section \<open>The lock-free part\<close>

type_synonym waiter = nat

text \<open>The atomic word: \<^verbatim>\<open>SET_PTR\<close> or a pointer to the first waiter.\<close>

datatype baton_word = SET_PTR | Head "waiter option"

text \<open>
  A waiter before the call, after it has loaded the word, waiting, woken, or continuing at once
  because the baton is signalled.
\<close>

datatype waiter_pc = WBefore | WLoaded baton_word | WWaiting | WWoken | WReady

record baton =
  b_word :: baton_word
  b_next :: "waiter \<Rightarrow> waiter option"
  b_pc :: "waiter \<Rightarrow> waiter_pc"
  b_posts :: "waiter option list"
  b_woken :: "waiter list"

definition mk_AsyncBaton :: baton where
  "mk_AsyncBaton = \<lparr>b_word = Head None, b_next = (\<lambda>_. None), b_pc = (\<lambda>_. WBefore), b_posts = [], b_woken = []\<rparr>"

definition is_set :: "baton \<Rightarrow> bool" where
  "is_set b \<longleftrightarrow> b_word b = SET_PTR"

text \<open>The compare-and-swap of \<^verbatim>\<open>push_waiter\<close>, when it succeeds.\<close>

definition push_cas :: "waiter \<Rightarrow> waiter option \<Rightarrow> baton \<Rightarrow> baton" where
  "push_cas w h b = b\<lparr>b_next := (b_next b)(w := h), b_word := Head (Some w), b_pc := (b_pc b)(w := WWaiting)\<rparr>"

text \<open>The exchange of \<^verbatim>\<open>post\<close>: the poster takes the whole stack.\<close>

definition post_exchange :: "baton \<Rightarrow> baton" where
  "post_exchange b =
     (case b_word b of SET_PTR \<Rightarrow> b | Head h \<Rightarrow> b\<lparr>b_word := SET_PTR, b_posts := b_posts b @ [h]\<rparr>)"

text \<open>One turn of its loop; the link is read before the waiter is woken.\<close>

definition post_wake :: "nat \<Rightarrow> waiter \<Rightarrow> baton \<Rightarrow> baton" where
  "post_wake i w b =
     b\<lparr>b_posts := (b_posts b)[i := b_next b w], b_pc := (b_pc b)(w := WWoken), b_woken := b_woken b @ [w]\<rparr>"

definition reset :: "baton \<Rightarrow> baton" where
  "reset b = (if b_word b = SET_PTR then b\<lparr>b_word := Head None\<rparr> else b)"

inductive baton_step :: "baton \<Rightarrow> baton \<Rightarrow> bool" where
  ready: "b_pc b w = WBefore \<Longrightarrow> is_set b \<Longrightarrow> baton_step b (b\<lparr>b_pc := (b_pc b)(w := WReady)\<rparr>)"
| load: "b_pc b w = WBefore \<Longrightarrow> baton_step b (b\<lparr>b_pc := (b_pc b)(w := WLoaded (b_word b))\<rparr>)"
| saw_set: "b_pc b w = WLoaded SET_PTR \<Longrightarrow> baton_step b (b\<lparr>b_pc := (b_pc b)(w := WReady)\<rparr>)"
| cas_ok: "b_pc b w = WLoaded (Head h) \<Longrightarrow> b_word b = Head h \<Longrightarrow> baton_step b (push_cas w h b)"
| cas_failed: "b_pc b w = WLoaded (Head h) \<Longrightarrow>
    baton_step b (b\<lparr>b_next := (b_next b)(w := h), b_pc := (b_pc b)(w := WLoaded (b_word b))\<rparr>)"
| post: "baton_step b (post_exchange b)"
| wake: "i < length (b_posts b) \<Longrightarrow> b_posts b ! i = Some w \<Longrightarrow> baton_step b (post_wake i w b)"
| reset: "baton_step b (reset b)"

section \<open>Stacks\<close>

fun chain :: "(waiter \<Rightarrow> waiter option) \<Rightarrow> waiter option \<Rightarrow> waiter list \<Rightarrow> bool" where
  "chain n h [] \<longleftrightarrow> h = None"
| "chain n h (w # ws) \<longleftrightarrow> h = Some w \<and> chain n (n w) ws"

lemma chain_update: "w \<notin> set ws \<Longrightarrow> chain (n(w := x)) h ws \<longleftrightarrow> chain n h ws"
  by (induction ws arbitrary: h) auto

lemma chains_update: "w \<notin> set (concat wss) \<Longrightarrow> list_all2 (chain n) hs wss \<Longrightarrow> list_all2 (chain (n(w := x))) hs wss"
  by (auto simp: list_all2_conv_all_nth) (metis chain_update nth_mem)

definition stack_of :: "baton \<Rightarrow> waiter option" where
  "stack_of b = (case b_word b of SET_PTR \<Rightarrow> None | Head h \<Rightarrow> h)"

definition baton_ok :: "baton \<Rightarrow> waiter list \<Rightarrow> waiter list list \<Rightarrow> bool" where
  "baton_ok b ws wss \<longleftrightarrow>
     chain (b_next b) (stack_of b) ws \<and> list_all2 (chain (b_next b)) (b_posts b) wss \<and> distinct (ws @ concat wss) \<and>
     (\<forall>w. b_pc b w = WWaiting \<longleftrightarrow> w \<in> set (ws @ concat wss)) \<and>
     distinct (b_woken b) \<and> (\<forall>w. w \<in> set (b_woken b) \<longleftrightarrow> b_pc b w = WWoken)"

text \<open>Taking the first waiter off one of the chains.\<close>

lemma concat_update_tl:
  assumes "i < length wss" and "wss ! i = w # us"
  shows "mset (concat wss) = add_mset w (mset (concat (wss[i := us])))"
proof -
  have w: "wss = take i wss @ (w # us) # drop (Suc i) wss" using assms by (metis id_take_nth_drop)
  have "wss[i := us] = take i wss @ us # drop (Suc i) wss" using assms(1) by (simp add: upd_conv_take_nth_drop)
  then have "mset (concat (wss[i := us])) = mset (concat (take i wss)) + mset us + mset (concat (drop (Suc i) wss))"
    by (simp add: ac_simps)
  moreover have "mset (concat wss) = mset (concat (take i wss)) + (add_mset w (mset us)) + mset (concat (drop (Suc i) wss))"
    by (subst w) (simp add: ac_simps)
  ultimately show ?thesis by simp
qed

text \<open>A waiter that is in no chain may change its program counter and its link.\<close>

lemma baton_ok_outside:
  assumes "baton_ok b ws wss" and "b_pc b w \<noteq> WWaiting" and "b_pc b w \<noteq> WWoken" and "c \<noteq> WWaiting" and "c \<noteq> WWoken"
  shows "baton_ok (b\<lparr>b_next := (b_next b)(w := x), b_pc := (b_pc b)(w := c)\<rparr>) ws wss"
    and "baton_ok (b\<lparr>b_pc := (b_pc b)(w := c)\<rparr>) ws wss"
proof -
  have w: "w \<notin> set (ws @ concat wss)" "w \<notin> set (b_woken b)" using assms(1-3) by (auto simp: baton_ok_def)
  have l: "list_all2 (chain ((b_next b)(w := x))) (b_posts b) wss"
    by (rule chains_update) (use assms(1) w(1) in \<open>auto simp: baton_ok_def\<close>)
  show "baton_ok (b\<lparr>b_next := (b_next b)(w := x), b_pc := (b_pc b)(w := c)\<rparr>) ws wss"
    using assms w l unfolding baton_ok_def by (simp add: chain_update stack_of_def)
  show "baton_ok (b\<lparr>b_pc := (b_pc b)(w := c)\<rparr>) ws wss"
    using assms w unfolding baton_ok_def by (simp add: stack_of_def)
qed

lemma baton_ok_push:
  assumes "baton_ok b ws wss" and "b_pc b w = WLoaded (Head h)" and "b_word b = Head h"
  shows "baton_ok (push_cas w h b) (w # ws) wss"
proof -
  have "b_pc b w \<noteq> WWaiting" "b_pc b w \<noteq> WWoken" using assms(2) by simp_all
  then have w: "w \<notin> set (ws @ concat wss)" "w \<notin> set (b_woken b)" using assms(1) by (auto simp: baton_ok_def)
  have l: "list_all2 (chain ((b_next b)(w := h))) (b_posts b) wss"
    by (rule chains_update) (use assms(1) w(1) in \<open>auto simp: baton_ok_def\<close>)
  show ?thesis using assms w l unfolding baton_ok_def by (simp add: chain_update stack_of_def push_cas_def)
qed

lemma baton_ok_post:
  assumes "baton_ok b ws wss"
  shows "\<exists>ws' wss'. baton_ok (post_exchange b) ws' wss'"
proof (cases "b_word b")
  case SET_PTR
  then show ?thesis using assms by (auto simp: post_exchange_def)
next
  case (Head h)
  then have "baton_ok (post_exchange b) [] (wss @ [ws])"
    using assms by (auto simp: post_exchange_def baton_ok_def stack_of_def list_all2_appendI)
  then show ?thesis by blast
qed

lemma baton_ok_wake:
  assumes ok: "baton_ok b ws wss" and i: "i < length (b_posts b)" "b_posts b ! i = Some w"
  shows "\<exists>wss'. baton_ok (post_wake i w b) ws wss'"
proof -
  have l: "length wss = length (b_posts b)" "chain (b_next b) (b_posts b ! i) (wss ! i)"
    using ok i(1) by (auto simp: baton_ok_def list_all2_conv_all_nth)
  then obtain us where us: "wss ! i = w # us" "chain (b_next b) (b_next b w) us" using i(2) by (cases "wss ! i") auto
  let ?wss = "wss[i := us]"
  have m: "mset (concat wss) = add_mset w (mset (concat ?wss))" using concat_update_tl [of i wss w us] l(1) i(1) us(1) by simp
  have s: "set (concat wss) = insert w (set (concat ?wss))" using arg_cong [OF m, of set_mset] by simp
  have d: "distinct (ws @ concat wss)" using ok by (simp add: baton_ok_def)
  have "mset (concat wss) = mset (w # concat ?wss)" using m by simp
  then have dd: "distinct (w # concat ?wss)" using d by (metis distinct_append mset_eq_imp_distinct_iff)
  have "list_all2 (chain (b_next b)) ((b_posts b)[i := b_next b w]) ?wss"
    using ok us(2) by (auto simp: baton_ok_def intro: list_all2_update_cong)
  moreover have "b_pc b w = WWaiting" using ok s by (auto simp: baton_ok_def)
  moreover have "distinct (ws @ concat ?wss)" "w \<notin> set (ws @ concat ?wss)" using d dd s by auto
  ultimately show ?thesis using ok s unfolding baton_ok_def
    by (intro exI [of _ ?wss]) (auto simp: post_wake_def stack_of_def)
qed

lemma baton_ok_step:
  assumes "baton_step b b'" and "baton_ok b ws wss"
  shows "\<exists>ws wss. baton_ok b' ws wss"
  using assms
proof (induction rule: baton_step.induct)
  case (ready b w)
  then show ?case using baton_ok_outside(2) [of b ws wss w WReady] by auto
next
  case (load b w)
  then show ?case using baton_ok_outside(2) [of b ws wss w "WLoaded (b_word b)"] by auto
next
  case (saw_set b w)
  then show ?case using baton_ok_outside(2) [of b ws wss w WReady] by auto
next
  case (cas_ok b w h)
  then show ?case using baton_ok_push by blast
next
  case (cas_failed b w h)
  then show ?case using baton_ok_outside(1) [of b ws wss w "WLoaded (b_word b)" h] by auto
next
  case (post b)
  then show ?case using baton_ok_post by blast
next
  case (wake i b w)
  then show ?case using baton_ok_wake by blast
next
  case (reset b)
  then have "baton_ok (reset b) ws wss" by (auto simp: baton_ok_def reset_def stack_of_def)
  then show ?case by blast
qed

lemma baton_reachable_ok: "baton_step\<^sup>*\<^sup>* mk_AsyncBaton b \<Longrightarrow> \<exists>ws wss. baton_ok b ws wss"
proof (induction rule: rtranclp_induct)
  case base
  have "baton_ok mk_AsyncBaton [] []" by (simp add: baton_ok_def mk_AsyncBaton_def stack_of_def)
  then show ?case by blast
qed (blast intro: baton_ok_step)

text \<open>
  C18: a post wakes every waiter, and every waiter at most once. In every interleaving of the
  atomic accesses of any number of waiters, posts and resets, no waiter is woken twice, and a
  waiter that sleeps is on the stack or on the list a post is working through; it is not lost in
  a race between its compare-and-swap and an exchange. Hence, when the baton is signalled
  and all posts have run to their end, nobody is left sleeping.
\<close>

theorem baton_wakes_all_once:
  assumes "baton_step\<^sup>*\<^sup>* mk_AsyncBaton b"
  shows "distinct (b_woken b) \<and>
    (\<exists>ws wss. chain (b_next b) (stack_of b) ws \<and> list_all2 (chain (b_next b)) (b_posts b) wss \<and>
       {w. b_pc b w = WWaiting} = set (ws @ concat wss)) \<and>
    (is_set b \<and> (\<forall>p \<in> set (b_posts b). p = None) \<longrightarrow> (\<forall>w. b_pc b w \<noteq> WWaiting))"
proof -
  obtain ws wss where ok: "baton_ok b ws wss" using baton_reachable_ok [OF assms] by blast
  have "b_pc b w \<noteq> WWaiting" if "is_set b" "\<forall>p \<in> set (b_posts b). p = None" for w
  proof -
    have "ws = []" using ok that(1) by (cases ws) (auto simp: baton_ok_def stack_of_def is_set_def)
    moreover have "\<forall>us \<in> set wss. us = []"
    proof
      fix us
      assume "us \<in> set wss"
      then obtain i where i: "i < length wss" "us = wss ! i" by (metis in_set_conv_nth)
      then have "b_posts b ! i = None" "chain (b_next b) (b_posts b ! i) us"
        using ok that(2) by (auto simp: baton_ok_def list_all2_conv_all_nth)
      then show "us = []" by (cases us) auto
    qed
    ultimately have "set (ws @ concat wss) = {}" by auto
    moreover have "b_pc b w = WWaiting \<longleftrightarrow> w \<in> set (ws @ concat wss)" using ok by (simp add: baton_ok_def)
    ultimately show ?thesis by (metis empty_iff)
  qed
  moreover have "{w. b_pc b w = WWaiting} = set (ws @ concat wss)" using ok by (auto simp: baton_ok_def)
  ultimately show ?thesis using ok unfolding baton_ok_def by blast
qed

theorem baton_wakes_all_once_witness:
  "\<exists>b. baton_step\<^sup>*\<^sup>* mk_AsyncBaton b \<and> is_set b \<and> b_woken b = [1] \<and> (\<forall>w. b_pc b w \<noteq> WWaiting)"
proof -
  let ?b1 = "mk_AsyncBaton\<lparr>b_pc := (b_pc mk_AsyncBaton)(1 := WLoaded (b_word mk_AsyncBaton))\<rparr>"
  let ?b2 = "push_cas 1 None ?b1"
  let ?b3 = "post_exchange ?b2"
  let ?b4 = "post_wake 0 1 ?b3"
  have "baton_step mk_AsyncBaton ?b1" by (rule baton_step.load) (simp add: mk_AsyncBaton_def)
  moreover have "baton_step ?b1 ?b2" by (rule baton_step.cas_ok) (simp_all add: mk_AsyncBaton_def)
  moreover have "baton_step ?b2 ?b3" by (rule baton_step.post)
  moreover have "baton_step ?b3 ?b4" by (rule baton_step.wake) (simp_all add: post_exchange_def push_cas_def mk_AsyncBaton_def)
  ultimately have r: "baton_step\<^sup>*\<^sup>* mk_AsyncBaton ?b4" by (meson converse_rtranclp_into_rtranclp rtranclp.rtrancl_refl)
  have f: "is_set ?b4" "b_posts ?b4 = [None]" "b_woken ?b4 = [1]"
    by (simp_all add: is_set_def post_wake_def post_exchange_def push_cas_def mk_AsyncBaton_def)
  have "\<forall>w. b_pc ?b4 w \<noteq> WWaiting" using baton_wakes_all_once [OF r] f(1,2) by (elim conjE) simp
  with r f(1,3) show ?thesis by blast
qed

section \<open>The timed wait\<close>

text \<open>
  The state that a post and a timer race for: 0 waiting, 1 signalled, 2 timed out, and the handle
  of the coroutine, null until \<^verbatim>\<open>await_suspend\<close> has stored it. \<open>r_runs\<close> counts how often the coroutine is
  made to go on.
\<close>

datatype suspender = SBefore | SStored | SSuspended | SContinued

datatype racer = RBefore | RWon | REnded

record RaceState =
  r_status :: nat
  r_waiter :: bool
  r_suspender :: suspender
  r_post :: racer
  r_timer :: racer
  r_runs :: nat

definition mk_RaceState :: RaceState where
  "mk_RaceState = \<lparr>r_status = 0, r_waiter = False, r_suspender = SBefore, r_post = RBefore, r_timer = RBefore, r_runs = 0\<rparr>"

definition resume_waiter :: "RaceState \<Rightarrow> RaceState" where
  "resume_waiter s = (if r_waiter s then s\<lparr>r_runs := r_runs s + 1\<rparr> else s)"

inductive race_step :: "RaceState \<Rightarrow> RaceState \<Rightarrow> bool" where
  store: "r_suspender s = SBefore \<Longrightarrow> race_step s (s\<lparr>r_waiter := True, r_suspender := SStored\<rparr>)"
| suspend: "r_suspender s = SStored \<Longrightarrow> r_status s = 0 \<Longrightarrow> race_step s (s\<lparr>r_suspender := SSuspended\<rparr>)"
| go_on: "r_suspender s = SStored \<Longrightarrow> r_status s \<noteq> 0 \<Longrightarrow> race_step s (s\<lparr>r_suspender := SContinued, r_runs := r_runs s + 1\<rparr>)"
| post_wins: "r_post s = RBefore \<Longrightarrow> r_status s = 0 \<Longrightarrow> race_step s (s\<lparr>r_status := 1, r_post := RWon\<rparr>)"
| post_loses: "r_post s = RBefore \<Longrightarrow> r_status s \<noteq> 0 \<Longrightarrow> race_step s (s\<lparr>r_post := REnded\<rparr>)"
| post_resumes: "r_post s = RWon \<Longrightarrow> race_step s (resume_waiter (s\<lparr>r_post := REnded\<rparr>))"
| timer_wins: "r_timer s = RBefore \<Longrightarrow> r_status s = 0 \<Longrightarrow> race_step s (s\<lparr>r_status := 2, r_timer := RWon\<rparr>)"
| timer_loses: "r_timer s = RBefore \<Longrightarrow> r_status s \<noteq> 0 \<Longrightarrow> race_step s (s\<lparr>r_timer := REnded\<rparr>)"
| timer_resumes: "r_timer s = RWon \<Longrightarrow> race_step s (resume_waiter (s\<lparr>r_timer := REnded\<rparr>))"

text \<open>The coroutine is not forgotten: when all three have ended it has gone on.\<close>

definition race_ok :: "RaceState \<Rightarrow> bool" where
  "race_ok s \<longleftrightarrow>
     (r_waiter s \<longleftrightarrow> r_suspender s \<noteq> SBefore) \<and>
     (r_status s = 0 \<longrightarrow> r_post s = RBefore \<and> r_timer s = RBefore) \<and>
     (r_suspender s = SSuspended \<and> r_status s \<noteq> 0 \<longrightarrow> r_post s = RWon \<or> r_timer s = RWon \<or> 0 < r_runs s) \<and>
     (r_suspender s = SContinued \<longrightarrow> 0 < r_runs s)"

lemma race_ok_step: "race_step s s' \<Longrightarrow> race_ok s \<Longrightarrow> race_ok s'"
  by (induction rule: race_step.induct) (auto simp: race_ok_def resume_waiter_def)

lemma race_reachable_ok: "race_step\<^sup>*\<^sup>* mk_RaceState s \<Longrightarrow> race_ok s"
proof (induction rule: rtranclp_induct)
  case base
  show ?case by (simp add: race_ok_def mk_RaceState_def)
qed (blast intro: race_ok_step)

lemma timed_wait_goes_on:
  assumes "race_step\<^sup>*\<^sup>* mk_RaceState s" and "r_suspender s = SSuspended \<or> r_suspender s = SContinued"
    and "r_post s = REnded \<or> r_timer s = REnded" and "r_post s \<noteq> RWon" and "r_timer s \<noteq> RWon"
  shows "0 < r_runs s"
  using race_reachable_ok [OF assms(1)] assms(2-) by (auto simp: race_ok_def)

text \<open>
  C38: a timed wait can go on twice. The coroutine stores its handle and only then looks at the status.
  When a post wins the race in between, it finds the handle and schedules the coroutine, and
  the coroutine itself sees the status and does not suspend: it goes on at once and is
  resumed a second time.
\<close>

theorem timed_wait_runs_twice:
  "\<exists>s. race_step\<^sup>*\<^sup>* mk_RaceState s \<and> r_suspender s = SContinued \<and> r_post s = REnded \<and> r_runs s = 2"
proof -
  let ?s1 = "mk_RaceState\<lparr>r_waiter := True, r_suspender := SStored\<rparr>"
  let ?s2 = "?s1\<lparr>r_status := 1, r_post := RWon\<rparr>"
  let ?s3 = "resume_waiter (?s2\<lparr>r_post := REnded\<rparr>)"
  let ?s4 = "?s3\<lparr>r_suspender := SContinued, r_runs := r_runs ?s3 + 1\<rparr>"
  have "race_step mk_RaceState ?s1" by (rule race_step.store) (simp add: mk_RaceState_def)
  moreover have "race_step ?s1 ?s2" by (rule race_step.post_wins) (simp_all add: mk_RaceState_def)
  moreover have "race_step ?s2 ?s3" by (rule race_step.post_resumes) simp
  moreover have "race_step ?s3 ?s4" by (rule race_step.go_on) (simp_all add: resume_waiter_def)
  ultimately have "race_step\<^sup>*\<^sup>* mk_RaceState ?s4" by (meson converse_rtranclp_into_rtranclp rtranclp.rtrancl_refl)
  moreover have "r_suspender ?s4 = SContinued" "r_post ?s4 = REnded" "r_runs ?s4 = 2"
    by (simp_all add: resume_waiter_def mk_RaceState_def)
  ultimately show ?thesis by blast
qed

end
