(* ===== verification/Net.thy ===== *)
theory Net
  imports Byte_Codec
begin

text \<open>
  Socket addresses, sockets and listeners (\<^verbatim>\<open>include/kio/net.hpp\<close>, \<^verbatim>\<open>src/kio/net.cpp\<close>, \<^verbatim>\<open>src/kio/io.cpp\<close>, and
  \<^verbatim>\<open>FDGuard\<close> of \<^verbatim>\<open>io.hpp\<close>). System calls are the fields of the record \<open>netsys\<close> over a type of worlds; the
  conversions between addresses and text, \<^verbatim>\<open>inet_pton\<close> and \<^verbatim>\<open>inet_ntop\<close>, are parameters. A call that fails
  gives the error number.
\<close>

type_synonym ('w, 'a) call = "'w \<Rightarrow> (int + 'a) \<times> 'w"

datatype sockopt = SO_REUSEADDR | SO_REUSEPORT | TCP_NODELAY | SO_SNDBUF | SO_RCVBUF

section \<open>Addresses\<close>

datatype family = AF_UNSPEC | AF_INET | AF_INET6

text \<open>The port is kept in network order.\<close>

record SocketAddress =
  ss_family :: family
  sin_port :: u16
  sin_addr :: bytes
  addrlen :: nat

definition mk_SocketAddress :: SocketAddress where
  "mk_SocketAddress = \<lparr>ss_family = AF_UNSPEC, sin_port = 0, sin_addr = [], addrlen = 128\<rparr>"

definition htons :: "endian \<Rightarrow> u16 \<Rightarrow> u16" where
  "htons e x = (case e of Little \<Rightarrow> ByteSwap x | Big \<Rightarrow> x)"

record inet =
  inet_pton :: "family \<Rightarrow> string \<Rightarrow> bytes option"
  inet_ntop :: "family \<Rightarrow> bytes \<Rightarrow> string option"

text \<open>
  The result of \<^verbatim>\<open>inet_pton\<close> is not looked at: text that is no address leaves the zero bytes the
  structure was initialised with.
\<close>

definition sin_addr_of :: "inet \<Rightarrow> family \<Rightarrow> nat \<Rightarrow> string option \<Rightarrow> bytes" where
  "sin_addr_of I f n ip =
     (case ip of
        None \<Rightarrow> replicate n 0
      | Some s \<Rightarrow> if s = [] then replicate n 0 else case inet_pton I f s of None \<Rightarrow> replicate n 0 | Some bs \<Rightarrow> bs)"

definition SocketAddress_V4 :: "inet \<Rightarrow> endian \<Rightarrow> u16 \<Rightarrow> string option \<Rightarrow> SocketAddress" where
  "SocketAddress_V4 I e port ip =
     \<lparr>ss_family = AF_INET, sin_port = htons e port, sin_addr = sin_addr_of I AF_INET 4 ip, addrlen = 16\<rparr>"

definition SocketAddress_V6 :: "inet \<Rightarrow> endian \<Rightarrow> u16 \<Rightarrow> string option \<Rightarrow> SocketAddress" where
  "SocketAddress_V6 I e port ip =
     \<lparr>ss_family = AF_INET6, sin_port = htons e port, sin_addr = sin_addr_of I AF_INET6 16 ip, addrlen = 28\<rparr>"

definition GetIp :: "inet \<Rightarrow> SocketAddress \<Rightarrow> string option" where
  "GetIp I a =
     (if ss_family a = AF_INET then inet_ntop I AF_INET (sin_addr a)
      else if ss_family a = AF_INET6 then inet_ntop I AF_INET6 (sin_addr a)
      else None)"

definition GetPort :: "endian \<Rightarrow> SocketAddress \<Rightarrow> u16 option" where
  "GetPort e a =
     (if ss_family a = AF_INET then Some (htons e (sin_port a))
      else if ss_family a = AF_INET6 then Some (htons e (sin_port a))
      else None)"

lemma htons_htons [simp]: "htons e (htons e x) = x"
  by (simp add: htons_def ByteSwap_ByteSwap split: endian.split)

text \<open>
  Ports and addresses survive the conversion to network order and back, for both families and
  both byte orders of the host: the port of an address is the one it was made with, and its
  text is what the bytes of the given text print as. Text that does not denote an address is not
  an error: the result is the address of all interfaces with that port.
\<close>

theorem socket_address_roundtrip:
  "GetPort e (SocketAddress_V4 I e port ip) = Some port \<and> GetPort e (SocketAddress_V6 I e port ip) = Some port \<and>
   GetIp I (SocketAddress_V4 I e port (Some (c # s))) =
     inet_ntop I AF_INET (case inet_pton I AF_INET (c # s) of None \<Rightarrow> [0, 0, 0, 0] | Some bs \<Rightarrow> bs) \<and>
   GetIp I (SocketAddress_V6 I e port (Some (c # s))) =
     inet_ntop I AF_INET6 (case inet_pton I AF_INET6 (c # s) of None \<Rightarrow> replicate 16 0 | Some bs \<Rightarrow> bs) \<and>
   (inet_pton I AF_INET (c # s) = None \<longrightarrow> SocketAddress_V4 I e port (Some (c # s)) = SocketAddress_V4 I e port None)"
  by (simp add: GetPort_def GetIp_def SocketAddress_V4_def SocketAddress_V6_def sin_addr_of_def numeral_nat split: option.split)

text \<open>Dotted text of one digit each, enough for an address such as \<^verbatim>\<open>1.2.3.4\<close>.\<close>

definition digit_inet :: inet where
  "digit_inet =
     \<lparr>inet_pton = (\<lambda>f s. if s = ''1.2.3.4'' then Some [1, 2, 3, 4] else None),
      inet_ntop = (\<lambda>f bs. if bs = [1, 2, 3, 4] then Some ''1.2.3.4'' else if bs = [0, 0, 0, 0] then Some ''0.0.0.0'' else None)\<rparr>"

theorem socket_address_roundtrip_witness:
  "GetIp digit_inet (SocketAddress_V4 digit_inet Little 8080 (Some ''1.2.3.4'')) = Some ''1.2.3.4'' \<and>
   SocketAddress_V4 digit_inet Little 8080 (Some ''localhost'') = SocketAddress_V4 digit_inet Little 8080 None"
  using socket_address_roundtrip [of Little digit_inet 8080 None "CHR ''1''" "''.2.3.4''"]
    socket_address_roundtrip [of Little digit_inet 8080 None "CHR ''l''" "''ocalhost''"]
  by (simp add: digit_inet_def)

section \<open>System calls\<close>

record 'w netsys =
  sys_socket :: "family \<Rightarrow> ('w, int) call"
  sys_close :: "int \<Rightarrow> 'w \<Rightarrow> 'w"
  sys_getfl :: "int \<Rightarrow> ('w, int) call"
  sys_setfl :: "int \<Rightarrow> int \<Rightarrow> ('w, unit) call"
  sys_setsockopt :: "int \<Rightarrow> sockopt \<Rightarrow> int \<Rightarrow> ('w, unit) call"
  sys_bind :: "int \<Rightarrow> SocketAddress \<Rightarrow> ('w, unit) call"
  sys_listen :: "int \<Rightarrow> int \<Rightarrow> ('w, unit) call"
  sys_getaddrinfo :: "string \<Rightarrow> string \<Rightarrow> 'w \<Rightarrow> (int + SocketAddress option) \<times> 'w"

section \<open>Sockets\<close>

text \<open>An owner of a descriptor is the descriptor, negative if it owns none.\<close>

definition Socket_end :: "'w netsys \<Rightarrow> int \<Rightarrow> 'w \<Rightarrow> 'w" where
  "Socket_end N fd w = (if 0 \<le> fd then sys_close N fd w else w)"

definition Socket_Close :: "'w netsys \<Rightarrow> int \<Rightarrow> 'w \<Rightarrow> int \<times> 'w" where
  "Socket_Close N fd w = (if 0 \<le> fd then (- 1, sys_close N fd w) else (fd, w))"

definition Socket_Release :: "int \<Rightarrow> int \<times> int" where
  "Socket_Release fd = (fd, - 1)"

definition Socket_IsValid :: "int \<Rightarrow> bool" where
  "Socket_IsValid fd \<longleftrightarrow> 0 \<le> fd"

text \<open>Move construction and move assignment: what target and source own afterwards.\<close>

definition Socket_move :: "int \<Rightarrow> int \<times> int" where
  "Socket_move source = (source, - 1)"

definition Socket_move_assign :: "'w netsys \<Rightarrow> int \<Rightarrow> int \<Rightarrow> 'w \<Rightarrow> (int \<times> int) \<times> 'w" where
  "Socket_move_assign N target source w = ((source, - 1), if 0 \<le> target then sys_close N target w else w)"

definition FDGuard_end :: "'w netsys \<Rightarrow> int \<Rightarrow> 'w \<Rightarrow> int \<times> 'w" where
  "FDGuard_end N fd w = (if 0 \<le> fd then (- 1, sys_close N fd w) else (fd, w))"

definition FDGuard_move :: "int \<Rightarrow> int \<times> int" where
  "FDGuard_move fd = (fd, - 1)"

definition O_NONBLOCK :: int where "O_NONBLOCK = 2048"

definition SetNonBlocking :: "'w netsys \<Rightarrow> int \<Rightarrow> ('w, unit) call" where
  "SetNonBlocking N fd w =
     (case sys_getfl N fd w of
        (Inl e, w') \<Rightarrow> (Inl e, w')
      | (Inr flags, w') \<Rightarrow> sys_setfl N fd (flags OR O_NONBLOCK) w')"

definition SetReuseAddr :: "'w netsys \<Rightarrow> bool \<Rightarrow> int \<Rightarrow> ('w, unit) call" where
  "SetReuseAddr N enable fd = sys_setsockopt N fd SO_REUSEADDR (if enable then 1 else 0)"

definition SetReusePort :: "'w netsys \<Rightarrow> bool \<Rightarrow> int \<Rightarrow> ('w, unit) call" where
  "SetReusePort N enable fd = sys_setsockopt N fd SO_REUSEPORT (if enable then 1 else 0)"

definition SetNodelay :: "'w netsys \<Rightarrow> bool \<Rightarrow> int \<Rightarrow> ('w, unit) call" where
  "SetNodelay N enable fd = sys_setsockopt N fd TCP_NODELAY (if enable then 1 else 0)"

definition SetSendBuffer :: "'w netsys \<Rightarrow> int \<Rightarrow> int \<Rightarrow> ('w, unit) call" where
  "SetSendBuffer N sz fd = sys_setsockopt N fd SO_SNDBUF sz"

definition SetRecvBuffer :: "'w netsys \<Rightarrow> int \<Rightarrow> int \<Rightarrow> ('w, unit) call" where
  "SetRecvBuffer N sz fd = sys_setsockopt N fd SO_RCVBUF sz"

section \<open>Resolving and binding\<close>

definition EADDRNOTAVAIL :: int where "EADDRNOTAVAIL = 99"

text \<open>\<open>to_string\<close> is the decimal text of the port. Without an address in the answer the default is returned.\<close>

definition Resolve :: "'w netsys \<Rightarrow> (u16 \<Rightarrow> string) \<Rightarrow> string \<Rightarrow> u16 \<Rightarrow> ('w, SocketAddress) call" where
  "Resolve N to_string host port w =
     (case sys_getaddrinfo N host (to_string port) w of
        (Inl rc, w') \<Rightarrow> (Inl EADDRNOTAVAIL, w')
      | (Inr res, w') \<Rightarrow> (Inr (case res of None \<Rightarrow> mk_SocketAddress | Some a \<Rightarrow> a), w'))"

text \<open>A step that may fail; then the socket goes out of scope and is closed.\<close>

definition or_close :: "'w netsys \<Rightarrow> int \<Rightarrow> ('w, unit) call \<Rightarrow> ('w, 'a) call \<Rightarrow> ('w, 'a) call" where
  "or_close N fd m k w = (case m w of (Inl e, w') \<Rightarrow> (Inl e, Socket_end N fd w') | (Inr _, w') \<Rightarrow> k w')"

definition Bind :: "'w netsys \<Rightarrow> SocketAddress \<Rightarrow> int \<Rightarrow> ('w, int) call" where
  "Bind N a backlog w =
     (case sys_socket N (ss_family a) w of
        (Inl e, w') \<Rightarrow> (Inl e, w')
      | (Inr fd, w') \<Rightarrow>
          or_close N fd (SetReuseAddr N True fd)
            (or_close N fd (SetReusePort N True fd)
               (or_close N fd (sys_bind N fd a)
                  (or_close N fd (sys_listen N fd backlog) (\<lambda>w. (Inr fd, w))))) w')"

definition BindV4 :: "'w netsys \<Rightarrow> inet \<Rightarrow> endian \<Rightarrow> u16 \<Rightarrow> string \<Rightarrow> ('w, int) call" where
  "BindV4 N I e port ipv4 = Bind N (SocketAddress_V4 I e port (Some ipv4)) 4096"

section \<open>Descriptors\<close>

text \<open>What the system promises: which descriptors are open, what they are bound to, which listen.\<close>

locale socket_system =
  fixes N :: "'w netsys" and opened :: "'w \<Rightarrow> int set" and bound :: "'w \<Rightarrow> int \<Rightarrow> SocketAddress option"
    and listening :: "'w \<Rightarrow> int set"
  assumes socket_fails: "sys_socket N f w = (Inl e, w') \<Longrightarrow> opened w' = opened w"
    and socket_opens: "sys_socket N f w = (Inr fd, w') \<Longrightarrow> 0 \<le> fd \<and> fd \<notin> opened w \<and> opened w' = insert fd (opened w)"
    and close_closes: "opened (sys_close N fd w) = opened w - {fd}"
    and setsockopt_keeps: "sys_setsockopt N fd opt v w = (r, w') \<Longrightarrow> opened w' = opened w"
    and bind_binds: "sys_bind N fd a w = (r, w') \<Longrightarrow> opened w' = opened w \<and> (r = Inr () \<longrightarrow> bound w' fd = Some a)"
    and listen_listens: "sys_listen N fd n w = (r, w') \<Longrightarrow> opened w' = opened w \<and> bound w' = bound w \<and> (r = Inr () \<longrightarrow> fd \<in> listening w')"
begin

text \<open>A step that keeps the open descriptors, and closes the socket if it fails.\<close>

lemma or_close_elim:
  assumes "or_close N fd m k w = (r, w')" and "0 \<le> fd" and "\<And>q v. m w = (q, v) \<Longrightarrow> opened v = opened w"
    and "\<And>e. r = Inl e \<Longrightarrow> opened w' = opened w - {fd} \<Longrightarrow> P"
    and "\<And>v. m w = (Inr (), v) \<Longrightarrow> k v = (r, w') \<Longrightarrow> opened v = opened w \<Longrightarrow> P"
  shows P
proof -
  obtain q v where m: "m w = (q, v)" by (metis surj_pair)
  then show ?thesis using assms close_closes by (cases q) (auto simp: or_close_def Socket_end_def)
qed

lemma Bind_no_leak:
  assumes "Bind N a backlog w = (r, w')"
  shows "case r of
      Inr fd \<Rightarrow> 0 \<le> fd \<and> fd \<notin> opened w \<and> opened w' = insert fd (opened w) \<and> bound w' fd = Some a \<and> fd \<in> listening w'
    | Inl _ \<Rightarrow> opened w' = opened w" (is ?goal)
proof -
  obtain q w1 where s: "sys_socket N (ss_family a) w = (q, w1)" by (metis surj_pair)
  show ?thesis
  proof (cases q)
    case (Inl e)
    then show ?thesis using assms s socket_fails by (auto simp: Bind_def)
  next
    case (Inr fd)
    let ?open = "insert fd (opened w)"
    let ?listen = "or_close N fd (sys_listen N fd backlog) (\<lambda>w. (Inr fd, w))"
    let ?bind = "or_close N fd (sys_bind N fd a) ?listen"
    let ?port = "or_close N fd (SetReusePort N True fd) ?bind"
    have fd: "0 \<le> fd" "fd \<notin> opened w" "opened w1 = ?open" using Inr socket_opens s by auto
    then have failed: ?goal if "r = Inl e" "opened w' = ?open - {fd}" for e using that by simp
    have listen: ?goal if v: "?listen v = (r, w')" "opened v = ?open" "bound v fd = Some a" for v
    proof (rule or_close_elim [OF v(1) fd(1)])
      show "opened u = opened v" if "sys_listen N fd backlog v = (q, u)" for q u using listen_listens [OF that] by simp
      show ?goal if "r = Inl e" "opened w' = opened v - {fd}" for e using failed that v(2) by simp
      show ?goal if "sys_listen N fd backlog v = (Inr (), u)" "(Inr fd, u) = (r, w')" "opened u = opened v" for u
        using listen_listens [OF that(1)] that(2) v(2,3) fd(1,2) by auto
    qed
    have bind: ?goal if v: "?bind v = (r, w')" "opened v = ?open" for v
    proof (rule or_close_elim [OF v(1) fd(1)])
      show "opened u = opened v" if "sys_bind N fd a v = (q, u)" for q u using bind_binds [OF that] by simp
      show ?goal if "r = Inl e" "opened w' = opened v - {fd}" for e using failed that v(2) by simp
      show ?goal if "sys_bind N fd a v = (Inr (), u)" "?listen u = (r, w')" "opened u = opened v" for u
        using listen [OF that(2)] bind_binds [OF that(1)] that(3) v(2) by simp
    qed
    have port: ?goal if v: "?port v = (r, w')" "opened v = ?open" for v
    proof (rule or_close_elim [OF v(1) fd(1)])
      show "opened u = opened v" if "SetReusePort N True fd v = (q, u)" for q u
        using setsockopt_keeps that by (auto simp: SetReusePort_def)
      show ?goal if "r = Inl e" "opened w' = opened v - {fd}" for e using failed that v(2) by simp
      show ?goal if "?bind u = (r, w')" "opened u = opened v" for u using bind [OF that(1)] that(2) v(2) by simp
    qed
    have addr: "or_close N fd (SetReuseAddr N True fd) ?port w1 = (r, w')" using assms s Inr by (simp add: Bind_def)
    show ?thesis
    proof (rule or_close_elim [OF addr fd(1)])
      show "opened u = opened w1" if "SetReuseAddr N True fd w1 = (q, u)" for q u
        using setsockopt_keeps that by (auto simp: SetReuseAddr_def)
      show ?goal if "r = Inl e" "opened w' = opened w1 - {fd}" for e using failed that fd(3) by simp
      show ?goal if "?port u = (r, w')" "opened u = opened w1" for u using port [OF that(1)] that(2) fd(3) by simp
    qed
  qed
qed

end

text \<open>A system with a table of descriptors that refuses to bind port 80.\<close>

record demo_net =
  dn_open :: "int list"
  dn_bound :: "int \<Rightarrow> SocketAddress option"
  dn_listening :: "int set"

definition demo_sys :: "demo_net netsys" where
  "demo_sys =
     \<lparr>sys_socket = (\<lambda>f w. let fd = fold max (dn_open w) 2 + 1 in (Inr fd, w\<lparr>dn_open := fd # dn_open w\<rparr>)),
      sys_close = (\<lambda>fd w. w\<lparr>dn_open := filter (\<lambda>x. x \<noteq> fd) (dn_open w)\<rparr>),
      sys_getfl = (\<lambda>fd w. (Inr 0, w)),
      sys_setfl = (\<lambda>fd fl w. (Inr (), w)),
      sys_setsockopt = (\<lambda>fd opt v w. (Inr (), w)),
      sys_bind = (\<lambda>fd a w. if GetPort Little a = Some 80 then (Inl 13, w) else (Inr (), w\<lparr>dn_bound := (dn_bound w)(fd \<mapsto> a)\<rparr>)),
      sys_listen = (\<lambda>fd n w. (Inr (), w\<lparr>dn_listening := insert fd (dn_listening w)\<rparr>)),
      sys_getaddrinfo = (\<lambda>host service w. (Inl (-2), w))\<rparr>"

lemma fold_max_bounds: "(m :: int) \<le> fold max xs m \<and> (\<forall>x \<in> set xs. x \<le> fold max xs m)"
  by (induction xs arbitrary: m) (auto, meson dual_order.trans max.cobounded1 max.cobounded2, fastforce+)

interpretation demo_socket: socket_system demo_sys "\<lambda>w. set (dn_open w)" dn_bound dn_listening
proof unfold_locales
  fix f w fd w'
  assume "sys_socket demo_sys f w = (Inr fd, w')"
  then have "fd = fold max (dn_open w) 2 + 1" "w' = w\<lparr>dn_open := fd # dn_open w\<rparr>" by (auto simp: demo_sys_def Let_def)
  then show "0 \<le> fd \<and> fd \<notin> set (dn_open w) \<and> set (dn_open w') = insert fd (set (dn_open w))"
    using fold_max_bounds [of 2 "dn_open w"] by force
qed (auto simp: demo_sys_def Let_def split: if_splits)

text \<open>
  \<^verbatim>\<open>TcpListener::Bind\<close> leaks no descriptor. Whichever of its calls fails, the descriptors open afterwards
  are those open before; when it succeeds there is exactly one more, it was not in use before, it
  is bound to the address asked for and listening, and the caller owns it.
\<close>

theorem bind_no_leak:
  assumes "socket_system N opened bound listening" and "Bind N a backlog w = (r, w')"
  shows "case r of
      Inr fd \<Rightarrow> 0 \<le> fd \<and> fd \<notin> opened w \<and> opened w' = insert fd (opened w) \<and> bound w' fd = Some a \<and> fd \<in> listening w'
    | Inl _ \<Rightarrow> opened w' = opened w"
  by (rule socket_system.Bind_no_leak [OF assms])

theorem bind_no_leak_witness:
  "\<exists>w'. BindV4 demo_sys digit_inet Little 80 ''1.2.3.4'' \<lparr>dn_open = [3, 4], dn_bound = (\<lambda>_. None), dn_listening = {}\<rparr> = (Inl 13, w') \<and>
     set (dn_open w') = {3, 4}"
proof -
  let ?w = "\<lparr>dn_open = [3, 4], dn_bound = (\<lambda>_. None), dn_listening = {}\<rparr>" and ?a = "SocketAddress_V4 digit_inet Little 80 (Some ''1.2.3.4'')"
  obtain r w' where b: "Bind demo_sys ?a 4096 ?w = (r, w')" by (metis surj_pair)
  have p: "GetPort Little ?a = Some 80" by (simp add: GetPort_def SocketAddress_V4_def)
  have "fst (Bind demo_sys ?a 4096 ?w) = Inl 13"
    by (simp add: Bind_def or_close_def demo_sys_def SetReuseAddr_def SetReusePort_def p Let_def)
  then have r: "r = Inl 13" using b by simp
  have "set (dn_open w') = set (dn_open ?w)" using bind_no_leak [OF demo_socket.socket_system_axioms b] r by simp
  then show ?thesis using b r by (auto simp: BindV4_def)
qed

end
