(* ===== verification/Tls.thy ===== *)
theory Tls
  imports Net Uring_Ops
begin

text \<open>
  TLS on top of the sockets (\<^verbatim>\<open>src/kio/tls_context.cpp\<close>, \<^verbatim>\<open>include/kio/tls/\<close>, \<^verbatim>\<open>ErrorFromOpenSSL\<close> of \<^verbatim>\<open>core.cpp\<close>):
  the creation of contexts, the handshake and the shutdown. OpenSSL, the clock and the poll
  operation of the ring are the fields of the record \<open>ossl\<close> over a type of worlds. An
  \<^verbatim>\<open>SSL_CTX\<close> and an \<^verbatim>\<open>SSL\<close> are numbers. A socket passed by value is closed when the coroutine
  that owns it returns without handing it on.
\<close>

section \<open>Configuration\<close>

record TlsConfig =
  cert_path :: string
  key_path :: string
  ca_cert_path :: string
  ca_dir_path :: string
  verify_hostname :: bool
  verify_mode :: int
  alpn_protocols :: "bytes list"
  cipher_suites :: string
  ciphersuites_tls13 :: string

definition kDefaultTls1_2Ciphers :: string where
  "kDefaultTls1_2Ciphers =
     ''ECDHE-ECDSA-AES128-GCM-SHA256:ECDHE-RSA-AES128-GCM-SHA256:'' @
     ''ECDHE-ECDSA-AES256-GCM-SHA384:ECDHE-RSA-AES256-GCM-SHA384:'' @
     ''ECDHE-ECDSA-CHACHA20-POLY1305:ECDHE-RSA-CHACHA20-POLY1305''"

definition kDefaultTls1_3Ciphers :: string where
  "kDefaultTls1_3Ciphers = ''TLS_AES_128_GCM_SHA256:TLS_AES_256_GCM_SHA384:TLS_CHACHA20_POLY1305_SHA256''"

text \<open>The configuration as declared: the peer is verified (\<^verbatim>\<open>SSL_VERIFY_PEER\<close> is 1).\<close>

definition mk_TlsConfig :: TlsConfig where
  "mk_TlsConfig =
     \<lparr>cert_path = [], key_path = [], ca_cert_path = [], ca_dir_path = [], verify_hostname = True, verify_mode = 1,
      alpn_protocols = [], cipher_suites = kDefaultTls1_2Ciphers, ciphersuites_tls13 = kDefaultTls1_3Ciphers\<rparr>"

text \<open>
  The contents of \<^verbatim>\<open>/proc/modules\<close> as lines and the first word of \<^verbatim>\<open>/sys/module/tls/initstate\<close>, if
  these files can be opened.
\<close>

definition HaveKtls :: "string list option \<Rightarrow> string option \<Rightarrow> bool" where
  "HaveKtls modules initstate =
     ((case modules of None \<Rightarrow> False | Some ls \<Rightarrow> \<exists>l \<in> set ls. take 4 l = ''tls '') \<or>
      (case initstate of None \<Rightarrow> False | Some state \<Rightarrow> state = ''live''))"

section \<open>Protocol lists\<close>

fun SerializeAlpn :: "bytes list \<Rightarrow> bytes" where
  "SerializeAlpn [] = []"
| "SerializeAlpn (p # ps) = (if 255 < length p then SerializeAlpn ps else of_nat (length p) # p @ SerializeAlpn ps)"

text \<open>The wire format as its reader sees it: a length byte, then that many bytes.\<close>

fun parse_alpn :: "nat \<Rightarrow> bytes \<Rightarrow> bytes list option" where
  "parse_alpn 0 w = None"
| "parse_alpn (Suc n) [] = Some []"
| "parse_alpn (Suc n) (b # w) =
     (if length w < unat b then None else map_option ((#) (take (unat b) w)) (parse_alpn n (drop (unat b) w)))"

text \<open>
  The list of protocols offered to the peer is read back as exactly the configured names, in order of
  preference, without those longer than 255 bytes, which the format cannot express. As many
  rounds of the reader as there are bytes are enough.
\<close>

theorem alpn_roundtrip:
  "parse_alpn (Suc (length (SerializeAlpn ps) + k)) (SerializeAlpn ps) = Some (filter (\<lambda>p. length p \<le> 255) ps)"
proof (induction ps arbitrary: k)
  case (Cons p ps)
  show ?case
  proof (cases "255 < length p")
    case True
    then show ?thesis using Cons by simp
  next
    case False
    then have u: "unat (of_nat (length p) :: byte) = length p" by (simp add: unat_of_nat)
    show ?thesis using False u Cons [of "length p + k"] by (simp add: ac_simps)
  qed
qed simp

section \<open>OpenSSL\<close>

datatype ctx_op =
    SetMinProto string
  | SetCipherList string
  | SetCiphersuites string
  | SetOptions "string list"
  | SetNumTickets nat
  | UseCertificateChain string
  | UsePrivateKey string
  | CheckPrivateKey
  | LoadVerifyLocations "string option" "string option"
  | LoadClientCA string
  | SetVerify int
  | SetAlpnSelect bytes
  | SetAlpnProtos bytes

datatype hs = HsDone | HsWantRead | HsWantWrite | HsError

datatype sd = SdDone | SdSent | SdWantRead | SdWantWrite | SdError

record 'w ossl =
  ctx_new :: "bool \<Rightarrow> 'w \<Rightarrow> nat option \<times> 'w"
  ctx_free :: "nat \<Rightarrow> 'w \<Rightarrow> 'w"
  ctx_call :: "ctx_op \<Rightarrow> nat \<Rightarrow> 'w \<Rightarrow> bool \<times> 'w"
  get_errors :: "'w \<Rightarrow> u64 list \<times> 'w"
  ssl_new :: "nat \<Rightarrow> 'w \<Rightarrow> nat option \<times> 'w"
  ssl_free :: "nat \<Rightarrow> 'w \<Rightarrow> 'w"
  ssl_set_fd :: "nat \<Rightarrow> int \<Rightarrow> 'w \<Rightarrow> bool \<times> 'w"
  ssl_set_state :: "nat \<Rightarrow> bool \<Rightarrow> 'w \<Rightarrow> 'w"
  ssl_set_mode :: "nat \<Rightarrow> 'w \<Rightarrow> 'w"
  ssl_set_sni :: "nat \<Rightarrow> string \<Rightarrow> 'w \<Rightarrow> bool \<times> 'w"
  ssl_set1_host :: "nat \<Rightarrow> string \<Rightarrow> 'w \<Rightarrow> bool \<times> 'w"
  ssl_do_handshake :: "nat \<Rightarrow> 'w \<Rightarrow> hs \<times> 'w"
  ssl_shutdown :: "nat \<Rightarrow> 'w \<Rightarrow> sd \<times> 'w"
  ssl_verify_none :: "nat \<Rightarrow> 'w \<Rightarrow> bool"
  ssl_verify_ok :: "nat \<Rightarrow> 'w \<Rightarrow> bool"
  ktls_send :: "nat \<Rightarrow> 'w \<Rightarrow> bool"
  ktls_recv :: "nat \<Rightarrow> 'w \<Rightarrow> bool"
  alpn_selected :: "nat \<Rightarrow> 'w \<Rightarrow> bytes"
  clock :: "'w \<Rightarrow> int"
  poll :: "int \<Rightarrow> bool \<Rightarrow> int \<Rightarrow> ('w, unit) call"

definition EACCES :: int where "EACCES = 13"
definition EINVAL :: int where "EINVAL = 22"
definition ENOMEM :: int where "ENOMEM = 12"
definition EPROTO :: int where "EPROTO = 71"
definition EOPNOTSUPP :: int where "EOPNOTSUPP = 95"

text \<open>The queue is drained; the last entry, cut to 32 bits, is the error.\<close>

definition ErrorFromOpenSSL :: "'w ossl \<Rightarrow> 'w \<Rightarrow> int \<times> 'w" where
  "ErrorFromOpenSSL L w =
     (case get_errors L w of (q, w') \<Rightarrow> (if q = [] then EPROTO else sint (ucast (last q) :: 32 word), w'))"

section \<open>Contexts\<close>

text \<open>The result of these calls is not looked at.\<close>

fun result_ignored :: "ctx_op \<Rightarrow> bool" where
  "result_ignored (SetOptions _) = True"
| "result_ignored (SetNumTickets _) = True"
| "result_ignored (SetVerify _) = True"
| "result_ignored (SetAlpnSelect _) = True"
| "result_ignored _ = False"

text \<open>The calls of a sequence whose failure is noticed.\<close>

definition checked :: "ctx_op list \<Rightarrow> ctx_op set" where
  "checked ops = set (filter (\<lambda>op. \<not> result_ignored op) ops)"

lemma checked_simps [simp]:
  "checked [] = {}" "checked (op # ops) = (if result_ignored op then checked ops else insert op (checked ops))"
  "checked (ops @ ops') = checked ops \<union> checked ops'"
  by (auto simp: checked_def)

text \<open>A call on the context; on failure the error of OpenSSL is returned.\<close>

definition on_ctx :: "'w ossl \<Rightarrow> nat \<Rightarrow> ctx_op \<Rightarrow> ('w, unit) call" where
  "on_ctx L c op w =
     (case ctx_call L op c w of (ok, w') \<Rightarrow>
        if ok \<or> result_ignored op then (Inr (), w')
        else (case ErrorFromOpenSSL L w' of (e, w'') \<Rightarrow> (Inl e, w'')))"

fun on_ctx_all :: "'w ossl \<Rightarrow> nat \<Rightarrow> ctx_op list \<Rightarrow> ('w, unit) call" where
  "on_ctx_all L c [] w = (Inr (), w)"
| "on_ctx_all L c (op # ops) w = (case on_ctx L c op w of (Inl e, w') \<Rightarrow> (Inl e, w') | (Inr _, w') \<Rightarrow> on_ctx_all L c ops w')"

definition SetCiphers :: "TlsConfig \<Rightarrow> ctx_op list" where
  "SetCiphers config =
     (if cipher_suites config \<noteq> [] then [SetCipherList (cipher_suites config)] else []) @
     [SetCiphersuites (if ciphersuites_tls13 config = [] then kDefaultTls1_3Ciphers else ciphersuites_tls13 config)]"

text \<open>A server without certificate and key is an error; \<open>None\<close>.\<close>

definition LoadCerts :: "TlsConfig \<Rightarrow> bool \<Rightarrow> ctx_op list option" where
  "LoadCerts config server_mode =
     (if cert_path config \<noteq> [] \<and> key_path config \<noteq> []
      then Some [UseCertificateChain (cert_path config), UsePrivateKey (key_path config), CheckPrivateKey]
      else if server_mode then None else Some [])"

definition TrustStore :: "TlsConfig \<Rightarrow> bool \<Rightarrow> ctx_op list" where
  "TrustStore config server_mode =
     (if ca_cert_path config \<noteq> [] \<or> ca_dir_path config \<noteq> [] then
        [LoadVerifyLocations (if ca_cert_path config = [] then None else Some (ca_cert_path config))
           (if ca_dir_path config = [] then None else Some (ca_dir_path config))] @
        (if server_mode \<and> ca_cert_path config \<noteq> [] then [LoadClientCA (ca_cert_path config)] else [])
      else [])"

definition SetupAlpn :: "TlsConfig \<Rightarrow> bool \<Rightarrow> ctx_op list" where
  "SetupAlpn config server_mode =
     (let wire_data = SerializeAlpn (alpn_protocols config)
      in if alpn_protocols config = [] \<or> wire_data = [] then []
         else if server_mode then [SetAlpnSelect wire_data] else [SetAlpnProtos wire_data])"

definition ctx_options :: "string list" where
  "ctx_options = [''NO_SSLv2'', ''NO_SSLv3'', ''NO_COMPRESSION'', ''ENABLE_KTLS'', ''NO_RENEGOTIATION'']"

record TlsContext =
  tc_ctx :: nat
  tc_alpn :: "bytes option"
  tc_verify_hostname :: bool

text \<open>When a step fails the context is freed.\<close>

definition or_free :: "'w ossl \<Rightarrow> nat \<Rightarrow> (int + unit) \<times> 'w \<Rightarrow> ('w \<Rightarrow> (int + 'a) \<times> 'w) \<Rightarrow> (int + 'a) \<times> 'w" where
  "or_free L c m k = (case m of (Inl e, w') \<Rightarrow> (Inl e, ctx_free L c w') | (Inr _, w') \<Rightarrow> k w')"

definition TlsContext_Create :: "'w ossl \<Rightarrow> bool \<Rightarrow> TlsConfig \<Rightarrow> bool \<Rightarrow> ('w, TlsContext) call" where
  "TlsContext_Create L have_ktls config server_mode w =
     (if \<not> have_ktls then (Inl EINVAL, w)
      else case ctx_new L server_mode w of
        (None, w1) \<Rightarrow> (case ErrorFromOpenSSL L w1 of (e, w2) \<Rightarrow> (Inl e, w2))
      | (Some c, w1) \<Rightarrow>
          or_free L c
            (on_ctx_all L c
               ([SetMinProto ''TLS1_2''] @ SetCiphers config @ [SetOptions ctx_options] @
                (if server_mode then [SetNumTickets 0, SetOptions [''NO_TICKET'']] else [])) w1)
            (\<lambda>w2. case LoadCerts config server_mode of
               None \<Rightarrow> (Inl EINVAL, ctx_free L c w2)
             | Some certs \<Rightarrow>
                 or_free L c
                   (on_ctx_all L c (certs @ TrustStore config server_mode @ [SetVerify (verify_mode config)] @ SetupAlpn config server_mode) w2)
                   (\<lambda>w3. (Inr \<lparr>tc_ctx = c,
                        tc_alpn = (if server_mode \<and> SetupAlpn config server_mode \<noteq> [] then Some (SerializeAlpn (alpn_protocols config)) else None),
                        tc_verify_hostname = verify_hostname config\<rparr>, w3))))"

section \<open>The handshake\<close>

partial_function (option) handshake_loop :: "'w ossl \<Rightarrow> int \<Rightarrow> nat \<Rightarrow> int \<Rightarrow> 'w \<Rightarrow> ((int + unit) \<times> 'w) option" where
  "handshake_loop L fd ssl deadline w =
     (case ssl_do_handshake L ssl w of (h, w1) \<Rightarrow>
        if h = HsDone then Some (Inr (), w1)
        else if h = HsError then (case ErrorFromOpenSSL L w1 of (e, w2) \<Rightarrow> Some (Inl e, w2))
        else if deadline - clock L w1 \<le> 0 then Some (Inl ETIMEDOUT, w1)
        else (case poll L fd (h = HsWantRead) (deadline - clock L w1) w1 of (q, w2) \<Rightarrow>
                (case q of Inl e \<Rightarrow> Some (Inl e, w2) | Inr _ \<Rightarrow> handshake_loop L fd ssl deadline w2)))"

record TlsSocket =
  ts_sock :: int
  ts_ssl :: "nat option"
  ts_protocol :: bytes

definition mk_TlsSocket :: "'w ossl \<Rightarrow> int \<Rightarrow> nat option \<Rightarrow> 'w \<Rightarrow> TlsSocket" where
  "mk_TlsSocket L fd ssl w =
     \<lparr>ts_sock = fd, ts_ssl = ssl, ts_protocol = (case ssl of None \<Rightarrow> [] | Some s \<Rightarrow> alpn_selected L s w)\<rparr>"

text \<open>The connection is given up: \<open>ssl\<close> is freed, and the socket closed as the coroutine returns.\<close>

definition give_up :: "'w netsys \<Rightarrow> 'w ossl \<Rightarrow> int \<Rightarrow> nat \<Rightarrow> int \<Rightarrow> 'w \<Rightarrow> (int + 'a) \<times> 'w" where
  "give_up N L fd ssl e w = (Inl e, Socket_end N fd (ssl_free L ssl w))"

text \<open>The first of the two calls below frees the object before it fetches the error, the loop after it.\<close>

definition give_up_ssl :: "'w netsys \<Rightarrow> 'w ossl \<Rightarrow> int \<Rightarrow> nat \<Rightarrow> 'w \<Rightarrow> (int + 'a) \<times> 'w" where
  "give_up_ssl N L fd ssl w = (case ErrorFromOpenSSL L (ssl_free L ssl w) of (e, w') \<Rightarrow> (Inl e, Socket_end N fd w'))"

definition set_names :: "'w ossl \<Rightarrow> TlsContext \<Rightarrow> bool \<Rightarrow> string \<Rightarrow> nat \<Rightarrow> 'w \<Rightarrow> bool \<times> 'w" where
  "set_names L tls is_server hostname ssl w =
     (if \<not> is_server \<and> hostname \<noteq> [] then
        (case ssl_set_sni L ssl hostname w of
           (False, w1) \<Rightarrow> (False, w1)
         | (True, w1) \<Rightarrow> if tc_verify_hostname tls then ssl_set1_host L ssl hostname w1 else (True, w1))
      else (True, w))"

definition AsyncTlsHandshake ::
  "'w netsys \<Rightarrow> 'w ossl \<Rightarrow> int \<Rightarrow> TlsContext \<Rightarrow> bool \<Rightarrow> string \<Rightarrow> int \<Rightarrow> 'w \<Rightarrow> ((int + TlsSocket) \<times> 'w) option" where
  "AsyncTlsHandshake N L sock tls is_server hostname timeout w =
     (case SetNonBlocking N sock w of
        (Inl e, w1) \<Rightarrow> Some (Inl e, Socket_end N sock w1)
      | (Inr _, w1) \<Rightarrow>
     (case ssl_new L (tc_ctx tls) w1 of
        (None, w2) \<Rightarrow> Some (Inl ENOMEM, Socket_end N sock w2)
      | (Some ssl, w2) \<Rightarrow>
     (case ssl_set_fd L ssl sock w2 of
        (False, w3) \<Rightarrow> Some (give_up_ssl N L sock ssl w3)
      | (True, w3) \<Rightarrow>
     (case set_names L tls is_server hostname ssl (ssl_set_mode L ssl (ssl_set_state L ssl is_server w3)) of
        (False, w4) \<Rightarrow> Some (give_up_ssl N L sock ssl w4)
      | (True, w4) \<Rightarrow>
     (case handshake_loop L sock ssl (clock L w4 + timeout) w4 of
        None \<Rightarrow> None
      | Some (Inl e, w5) \<Rightarrow> Some (give_up N L sock ssl e w5)
      | Some (Inr _, w5) \<Rightarrow>
          if \<not> is_server \<and> tc_verify_hostname tls \<and> hostname \<noteq> [] \<and> \<not> ssl_verify_none L ssl w5 \<and> \<not> ssl_verify_ok L ssl w5
          then Some (give_up N L sock ssl EACCES w5)
          else if \<not> ktls_send L ssl w5 \<or> \<not> ktls_recv L ssl w5 then Some (give_up N L sock ssl EOPNOTSUPP w5)
          else Some (Inr (mk_TlsSocket L sock (Some ssl) w5), w5))))))"

section \<open>TLS sockets\<close>

definition TlsSocket_end :: "'w netsys \<Rightarrow> 'w ossl \<Rightarrow> TlsSocket \<Rightarrow> 'w \<Rightarrow> 'w" where
  "TlsSocket_end N L t w = Socket_end N (ts_sock t) (case ts_ssl t of None \<Rightarrow> w | Some s \<Rightarrow> ssl_free L s w)"

text \<open>Moves: what target and source own afterwards. Assigning an object to itself changes nothing and is left out.\<close>

definition TlsSocket_move :: "TlsSocket \<Rightarrow> TlsSocket \<times> TlsSocket" where
  "TlsSocket_move source = (source, \<lparr>ts_sock = - 1, ts_ssl = None, ts_protocol = []\<rparr>)"

definition TlsSocket_move_assign ::
  "'w netsys \<Rightarrow> 'w ossl \<Rightarrow> TlsSocket \<Rightarrow> TlsSocket \<Rightarrow> 'w \<Rightarrow> (TlsSocket \<times> TlsSocket) \<times> 'w" where
  "TlsSocket_move_assign N L target source w =
     (case Socket_move_assign N (ts_sock target) (ts_sock source)
             (case ts_ssl target of None \<Rightarrow> w | Some s \<Rightarrow> ssl_free L s w) of
        ((fd, fd'), w') \<Rightarrow>
          ((\<lparr>ts_sock = fd, ts_ssl = ts_ssl source, ts_protocol = ts_protocol source\<rparr>,
            \<lparr>ts_sock = fd', ts_ssl = None, ts_protocol = []\<rparr>), w'))"

definition IsHttp2 :: "TlsSocket \<Rightarrow> bool" where
  "IsHttp2 t \<longleftrightarrow> ts_protocol t = [104, 50]"

text \<open>Shutdown always reports success; what matters is whether it returns.\<close>

partial_function (option) shutdown_loop :: "'w ossl \<Rightarrow> int \<Rightarrow> nat \<Rightarrow> int \<Rightarrow> 'w \<Rightarrow> 'w option" where
  "shutdown_loop L fd ssl deadline w =
     (case ssl_shutdown L ssl w of (h, w1) \<Rightarrow>
        if h = SdDone then Some w1
        else if h = SdSent then shutdown_loop L fd ssl deadline w1
        else if h = SdError then Some w1
        else if deadline - clock L w1 \<le> 0 then Some w1
        else (case poll L fd (h = SdWantRead) (deadline - clock L w1) w1 of (q, w2) \<Rightarrow>
                (case q of Inl e \<Rightarrow> Some w2 | Inr _ \<Rightarrow> shutdown_loop L fd ssl deadline w2)))"

definition AsyncShutdown :: "'w ossl \<Rightarrow> TlsSocket \<Rightarrow> int \<Rightarrow> 'w \<Rightarrow> 'w option" where
  "AsyncShutdown L t timeout w =
     (case ts_ssl t of None \<Rightarrow> Some w | Some s \<Rightarrow> shutdown_loop L (ts_sock t) s (clock L w + timeout) w)"

section \<open>Contexts are checked\<close>

text \<open>
  What OpenSSL promises of contexts: \<open>contexts\<close> are those that exist, \<open>configured\<close> the calls that
  succeeded on one.
\<close>

locale tls_contexts =
  fixes L :: "'w ossl" and contexts :: "'w \<Rightarrow> nat set" and configured :: "'w \<Rightarrow> nat \<Rightarrow> ctx_op set"
  assumes ctx_new_fails: "ctx_new L m w = (None, w') \<Longrightarrow> contexts w' = contexts w"
    and ctx_new_creates: "ctx_new L m w = (Some c, w') \<Longrightarrow> c \<notin> contexts w \<and> contexts w' = insert c (contexts w)"
    and ctx_free_frees: "contexts (ctx_free L c w) = contexts w - {c}"
    and ctx_call_contexts: "ctx_call L op c w = (ok, w') \<Longrightarrow> contexts w' = contexts w"
    and ctx_call_configures: "ctx_call L op c w = (True, w') \<Longrightarrow> configured w' c = insert op (configured w c)"
    and ctx_call_refused: "ctx_call L op c w = (False, w') \<Longrightarrow> configured w' c = configured w c"
    and ctx_errors: "get_errors L w = (q, w') \<Longrightarrow> contexts w' = contexts w"
begin

lemma error_contexts: "ErrorFromOpenSSL L w = (e, w') \<Longrightarrow> contexts w' = contexts w"
  by (auto simp: ErrorFromOpenSSL_def split: prod.splits dest: ctx_errors)

lemma on_ctx_facts:
  assumes "on_ctx L c op w = (r, w')"
  shows "contexts w' = contexts w" and "r = Inr () \<Longrightarrow> configured w c \<subseteq> configured w' c"
    and "r = Inr () \<Longrightarrow> \<not> result_ignored op \<Longrightarrow> op \<in> configured w' c"
proof -
  obtain ok v where c: "ctx_call L op c w = (ok, v)" by (metis surj_pair)
  show "contexts w' = contexts w"
    using assms c ctx_call_contexts [OF c] error_contexts by (auto simp: on_ctx_def split: if_splits prod.splits)
  show "configured w c \<subseteq> configured w' c" if "r = Inr ()"
    using assms c that ctx_call_configures ctx_call_refused
    by (cases ok) (auto simp: on_ctx_def split: if_splits prod.splits)
  show "op \<in> configured w' c" if "r = Inr ()" "\<not> result_ignored op"
    using assms c that ctx_call_configures by (auto simp: on_ctx_def split: if_splits prod.splits)
qed

lemma on_ctx_all_facts:
  assumes "on_ctx_all L c ops w = (r, w')"
  shows "contexts w' = contexts w \<and>
    (r = Inr () \<longrightarrow> configured w c \<subseteq> configured w' c \<and> checked ops \<subseteq> configured w' c)"
  using assms
proof (induction ops arbitrary: w)
  case (Cons op ops)
  obtain q v where q: "on_ctx L c op w = (q, v)" by (metis surj_pair)
  note facts = on_ctx_facts [OF q]
  show ?case
  proof (cases q)
    case (Inl e)
    then show ?thesis using Cons.prems q facts(1) by auto
  next
    case (Inr u)
    then show ?thesis using Cons.prems q facts Cons.IH [of v] by auto
  qed
qed simp

lemma or_free_elim:
  assumes "or_free L c (on_ctx_all L c ops w) k = (r, w')"
    and "\<And>e. r = Inl e \<Longrightarrow> contexts w' = contexts w - {c} \<Longrightarrow> P"
    and "\<And>v. k v = (r, w') \<Longrightarrow> contexts v = contexts w \<Longrightarrow> configured w c \<subseteq> configured v c \<Longrightarrow>
           checked ops \<subseteq> configured v c \<Longrightarrow> P"
  shows P
proof -
  obtain q v where q: "on_ctx_all L c ops w = (q, v)" by (metis surj_pair)
  show ?thesis using assms on_ctx_all_facts [OF q] q ctx_free_frees by (cases q) (auto simp: or_free_def)
qed

end

text \<open>The calls that configure a context, in the order they are made.\<close>

definition Create_ops :: "TlsConfig \<Rightarrow> bool \<Rightarrow> ctx_op list \<Rightarrow> ctx_op list" where
  "Create_ops config server_mode certs =
     [SetMinProto ''TLS1_2''] @ SetCiphers config @ certs @ TrustStore config server_mode @ SetupAlpn config server_mode"

context tls_contexts
begin

lemma Create_checked:
  assumes "TlsContext_Create L have_ktls config server_mode w = (r, w')"
  shows "case r of
      Inl e \<Rightarrow> contexts w' = contexts w
    | Inr t \<Rightarrow> have_ktls \<and> tc_ctx t \<notin> contexts w \<and> contexts w' = insert (tc_ctx t) (contexts w) \<and>
        (\<exists>certs. LoadCerts config server_mode = Some certs \<and>
           checked (Create_ops config server_mode certs) \<subseteq> configured w' (tc_ctx t))"
    (is ?goal)
proof (cases "have_ktls")
  case True
  obtain q w1 where n: "ctx_new L server_mode w = (q, w1)" by (metis surj_pair)
  show ?thesis
  proof (cases q)
    case None
    then show ?thesis
      using assms True n ctx_new_fails error_contexts by (auto simp: TlsContext_Create_def split: prod.splits)
  next
    case (Some c)
    let ?k3 = "\<lambda>w3. (Inr \<lparr>tc_ctx = c,
                tc_alpn = (if server_mode \<and> SetupAlpn config server_mode \<noteq> [] then Some (SerializeAlpn (alpn_protocols config)) else None),
                tc_verify_hostname = verify_hostname config\<rparr>, w3)"
    have c: "c \<notin> contexts w" "contexts w1 = insert c (contexts w)" using n Some ctx_new_creates by auto
    have create: "TlsContext_Create L have_ktls config server_mode w =
      or_free L c (on_ctx_all L c ([SetMinProto ''TLS1_2''] @ SetCiphers config @ [SetOptions ctx_options] @
          (if server_mode then [SetNumTickets 0, SetOptions [''NO_TICKET'']] else [])) w1)
        (\<lambda>w2. case LoadCerts config server_mode of
           None \<Rightarrow> (Inl EINVAL, ctx_free L c w2)
         | Some certs \<Rightarrow>
             or_free L c (on_ctx_all L c (certs @ TrustStore config server_mode @ [SetVerify (verify_mode config)] @
                 SetupAlpn config server_mode) w2) ?k3)"
      using True n Some by (simp add: TlsContext_Create_def)
    show ?thesis
    proof (rule or_free_elim [OF assms [unfolded create]])
      show ?goal if "r = Inl e" "contexts w' = contexts w1 - {c}" for e using that c by simp
      show ?goal
        if w2: "(case LoadCerts config server_mode of
            None \<Rightarrow> (Inl EINVAL, ctx_free L c w2)
          | Some certs \<Rightarrow> or_free L c (on_ctx_all L c (certs @ TrustStore config server_mode @ [SetVerify (verify_mode config)] @
                 SetupAlpn config server_mode) w2) ?k3) = (r, w')"
          and k2: "contexts w2 = contexts w1"
            "checked ([SetMinProto ''TLS1_2''] @ SetCiphers config @ [SetOptions ctx_options] @
              (if server_mode then [SetNumTickets 0, SetOptions [''NO_TICKET'']] else [])) \<subseteq> configured w2 c"
        for w2
      proof (cases "LoadCerts config server_mode")
        case None
        then show ?thesis using w2 k2(1) c ctx_free_frees by auto
      next
        case (Some certs)
        show ?thesis
        proof (rule or_free_elim [OF w2 [unfolded Some option.case]])
          show ?goal if "r = Inl e" "contexts w' = contexts w2 - {c}" for e using that k2(1) c by simp
          show ?goal
            if "?k3 v = (r, w')" "contexts v = contexts w2" "configured w2 c \<subseteq> configured v c"
              "checked (certs @ TrustStore config server_mode @ [SetVerify (verify_mode config)] @ SetupAlpn config server_mode) \<subseteq> configured v c" for v
          proof -
            have "checked (Create_ops config server_mode certs) \<subseteq> configured v c"
              using that(3,4) k2(2) by (simp add: Create_ops_def) blast
            then show ?thesis using that(1,2) k2(1) c True Some by auto
          qed
        qed
      qed
    qed
  qed
qed (use assms in \<open>auto simp: TlsContext_Create_def\<close>)

end

section \<open>Handshakes release what they take\<close>

text \<open>
  The descriptors and session objects of one connection: what the calls of the handshake do to them.
  \<open>same\<close> says that both sets are kept.
\<close>

definition same :: "('w \<Rightarrow> int set) \<Rightarrow> ('w \<Rightarrow> nat set) \<Rightarrow> 'w \<Rightarrow> 'w \<Rightarrow> bool" where
  "same opened sessions w w' \<longleftrightarrow> opened w' = opened w \<and> sessions w' = sessions w"

lemma same_trans: "same opened sessions u v \<Longrightarrow> same opened sessions v w \<Longrightarrow> same opened sessions u w"
  by (simp add: same_def)

locale tls_sessions =
  fixes N :: "'w netsys" and L :: "'w ossl" and opened :: "'w \<Rightarrow> int set" and sessions :: "'w \<Rightarrow> nat set"
  assumes close_closes: "opened (sys_close N fd w) = opened w - {fd}" "sessions (sys_close N fd w) = sessions w"
    and getfl_same: "sys_getfl N fd w = (r, w') \<Longrightarrow> same opened sessions w w'"
    and setfl_same: "sys_setfl N fd fl w = (q, w') \<Longrightarrow> same opened sessions w w'"
    and ssl_new_fails: "ssl_new L c w = (None, w') \<Longrightarrow> same opened sessions w w'"
    and ssl_new_creates: "ssl_new L c w = (Some s, w') \<Longrightarrow> s \<notin> sessions w \<and> sessions w' = insert s (sessions w) \<and> opened w' = opened w"
    and ssl_free_frees: "sessions (ssl_free L s w) = sessions w - {s}" "opened (ssl_free L s w) = opened w"
    and set_fd_same: "ssl_set_fd L s fd w = (ok, w') \<Longrightarrow> same opened sessions w w'"
    and set_state_same: "same opened sessions w (ssl_set_state L s is_server w)"
    and set_mode_same: "same opened sessions w (ssl_set_mode L s w)"
    and set_sni_same: "ssl_set_sni L s host w = (ok, w') \<Longrightarrow> same opened sessions w w'"
    and set1_host_same: "ssl_set1_host L s host w = (ok, w') \<Longrightarrow> same opened sessions w w'"
    and do_handshake_same: "ssl_do_handshake L s w = (h, w') \<Longrightarrow> same opened sessions w w'"
    and shutdown_same: "ssl_shutdown L s w = (d, w') \<Longrightarrow> same opened sessions w w'"
    and errors_same: "get_errors L w = (es, w') \<Longrightarrow> same opened sessions w w'"
    and poll_same: "poll L fd reading timeout w = (p, w') \<Longrightarrow> same opened sessions w w'"
begin

lemma error_same: "ErrorFromOpenSSL L w = (e, w') \<Longrightarrow> same opened sessions w w'"
  by (auto simp: ErrorFromOpenSSL_def split: prod.splits dest: errors_same)

lemma SetNonBlocking_same: "SetNonBlocking N fd w = (r, w') \<Longrightarrow> same opened sessions w w'"
  by (auto simp: SetNonBlocking_def split: prod.splits sum.splits dest!: getfl_same setfl_same intro: same_trans)

lemma set_names_same: "set_names L tls is_server hostname s w = (ok, w') \<Longrightarrow> same opened sessions w w'"
  by (auto simp: set_names_def same_def split: if_splits prod.splits bool.splits dest!: set_sni_same set1_host_same)

lemma give_up_releases:
  assumes "give_up N L fd s e w = (r, w')" and "0 \<le> fd"
  shows "r = Inl e" and "sessions w' = sessions w - {s}" and "opened w' = opened w - {fd}"
  using assms by (auto simp: give_up_def Socket_end_def close_closes ssl_free_frees)

lemma give_up_ssl_releases:
  assumes "give_up_ssl N L fd s w = (r, w')" and "0 \<le> fd"
  shows "\<exists>e. r = Inl e" and "sessions w' = sessions w - {s}" and "opened w' = opened w - {fd}"
  using assms error_same [of "ssl_free L s w"]
  by (auto simp: give_up_ssl_def Socket_end_def close_closes ssl_free_frees same_def split: prod.splits)

text \<open>The loop keeps everything, whenever it returns.\<close>

lemma handshake_loop_same:
  assumes "handshake_loop L fd s deadline w = Some (r, w')"
  shows "same opened sessions w w'"
proof -
  have "case y of (r, w') \<Rightarrow> same opened sessions w w'" if "handshake_loop L fd s deadline w = Some y" for y
  proof (rule handshake_loop.raw_induct
      [where P = "\<lambda>L' fd s deadline w y. L' = L \<longrightarrow> (case y of (r, w') \<Rightarrow> same opened sessions w w')", rule_format])
    show "handshake_loop L fd s deadline w = Some y" "L = L" by (fact that, rule refl)
    fix loop L' fd s deadline w y
    assume IH: "\<And>L' fd s deadline w y. loop L' fd s deadline w = Some y \<Longrightarrow> L' = L \<Longrightarrow> case y of (r, w') \<Rightarrow> same opened sessions w w'"
      and body: "(case ssl_do_handshake L' s w of (h, w1) \<Rightarrow>
        if h = HsDone then Some (Inr (), w1)
        else if h = HsError then (case ErrorFromOpenSSL L' w1 of (e, w2) \<Rightarrow> Some (Inl e, w2))
        else if deadline - clock L' w1 \<le> 0 then Some (Inl ETIMEDOUT, w1)
        else (case poll L' fd (h = HsWantRead) (deadline - clock L' w1) w1 of (q, w2) \<Rightarrow>
                (case q of Inl e \<Rightarrow> Some (Inl e, w2) | Inr _ \<Rightarrow> loop L' fd s deadline w2))) = Some y"
      and L': "L' = L"
    obtain h w1 where h: "ssl_do_handshake L s w = (h, w1)" by (metis surj_pair)
    note 1 = do_handshake_same [OF h]
    obtain e w2 where e: "ErrorFromOpenSSL L w1 = (e, w2)" by (metis surj_pair)
    obtain q w3 where q: "poll L fd (h = HsWantRead) (deadline - clock L w1) w1 = (q, w3)" by (metis surj_pair)
    show "case y of (r, w') \<Rightarrow> same opened sessions w w'"
      using body L' h e q 1 same_trans [OF 1 error_same [OF e]] same_trans [OF 1 poll_same [OF q]] IH
      by (auto split: if_splits sum.splits prod.splits intro: same_trans)
  qed
  then show ?thesis using assms by fastforce
qed

lemma AsyncTlsHandshake_releases:
  assumes "AsyncTlsHandshake N L sock tls is_server hostname timeout w = Some (r, w')" and sock: "0 \<le> sock"
  shows "case r of
      Inl e \<Rightarrow> sessions w' = sessions w \<and> opened w' = opened w - {sock}
    | Inr t \<Rightarrow> \<exists>s. t = mk_TlsSocket L sock (Some s) w' \<and> s \<notin> sessions w \<and> sessions w' = insert s (sessions w) \<and>
        opened w' = opened w \<and> ktls_send L s w' \<and> ktls_recv L s w' \<and>
        (\<not> is_server \<and> tc_verify_hostname tls \<and> hostname \<noteq> [] \<and> \<not> ssl_verify_none L s w' \<longrightarrow> ssl_verify_ok L s w')"
    (is ?goal)
proof -
  obtain n w1 where n: "SetNonBlocking N sock w = (n, w1)" by (metis surj_pair)
  obtain c w2 where c: "ssl_new L (tc_ctx tls) w1 = (c, w2)" by (metis surj_pair)
  note 1 = SetNonBlocking_same [OF n]
  consider (nonblock) e where "n = Inl e" | (none) "n = Inr ()" "c = None" | (ssl) s where "n = Inr ()" "c = Some s"
    by (cases n; cases c) auto
  then show ?thesis
  proof cases
    case nonblock
    then show ?thesis using assms n 1 by (auto simp: AsyncTlsHandshake_def Socket_end_def close_closes same_def)
  next
    case none
    then show ?thesis using assms n c 1 ssl_new_fails [of "tc_ctx tls" w1 w2]
      by (auto simp: AsyncTlsHandshake_def Socket_end_def close_closes same_def)
  next
    case ssl
    then have c: "ssl_new L (tc_ctx tls) w1 = (Some s, w2)" using c by simp
    have new: "s \<notin> sessions w" "sessions w2 = insert s (sessions w)" "opened w2 = opened w"
      using ssl_new_creates [OF c] 1 by (auto simp: same_def)
    obtain f w3 where f: "ssl_set_fd L s sock w2 = (f, w3)" by (metis surj_pair)
    let ?w3 = "ssl_set_mode L s (ssl_set_state L s is_server w3)"
    obtain g w4 where g: "set_names L tls is_server hostname s ?w3 = (g, w4)" by (metis surj_pair)
    have 3: "same opened sessions w2 w3" using set_fd_same [OF f] .
    have 4: "same opened sessions w2 w4"
      using 3 set_names_same [OF g] set_mode_same set_state_same by (blast intro: same_trans)
    have failed: ?goal if "give_up_ssl N L sock s v = (r, w')" "same opened sessions w2 v" for v
      using give_up_ssl_releases [OF that(1) sock] that(2) new by (auto simp: same_def)
    let ?loop = "handshake_loop L sock s (clock L w4 + timeout) w4"
    show ?thesis
    proof (cases "f \<and> g")
      case False
      then show ?thesis using assms(1) n ssl c f g failed [OF _ 3] failed [OF _ 4]
        by (cases f; cases g) (auto simp: AsyncTlsHandshake_def)
    next
      case True
      then obtain l w5 where l: "?loop = Some (l, w5)" using assms(1) n ssl c f g
        by (cases ?loop) (auto simp: AsyncTlsHandshake_def)
      have 5: "same opened sessions w2 w5" using 4 handshake_loop_same [OF l] by (rule same_trans)
      have gone: ?goal if "give_up N L sock s e w5 = (r, w')" for e
        using give_up_releases [OF that sock] 5 new by (simp add: same_def)
      show ?thesis
        using assms(1) n ssl c f g l True gone 5 new
        by (cases l) (auto simp: AsyncTlsHandshake_def same_def split: if_splits)
    qed
  qed
qed

end

text \<open>
  The clock does not go backwards, a poll that reports readiness took time, and a second
  \<^verbatim>\<open>SSL_shutdown\<close> after the notification was sent waits for the peer instead of sending again.
\<close>

locale tls_timed = tls_sessions +
  assumes handshake_clock: "ssl_do_handshake L s w = (h, w') \<Longrightarrow> clock L w \<le> clock L w'"
    and shutdown_clock: "ssl_shutdown L s w = (d, w') \<Longrightarrow> clock L w \<le> clock L w'"
    and poll_clock: "poll L fd reading timeout w = (Inr (), w') \<Longrightarrow> clock L w < clock L w'"
    and shutdown_sent: "ssl_shutdown L s w = (SdSent, w') \<Longrightarrow> fst (ssl_shutdown L s w') \<noteq> SdSent"
begin

lemma handshake_loop_returns: "\<exists>r w'. handshake_loop L fd s deadline w = Some (r, w')"
proof (induction "nat (deadline - clock L w)" arbitrary: w rule: less_induct)
  case less
  obtain h w1 where h: "ssl_do_handshake L s w = (h, w1)" by (metis surj_pair)
  obtain q w2 where q: "poll L fd (h = HsWantRead) (deadline - clock L w1) w1 = (q, w2)" by (metis surj_pair)
  have "\<exists>r w'. handshake_loop L fd s deadline w2 = Some (r, w')" if "q = Inr ()" "clock L w1 < deadline"
    using less [of w2] poll_clock [of fd _ _ w1 w2] q that handshake_clock [OF h] by fastforce
  then show ?case using h q
    by (subst handshake_loop.simps) (auto split: sum.split prod.split)
qed

lemma shutdown_loop_returns: "\<exists>w'. shutdown_loop L fd s deadline w = Some w'"
proof (induction "nat (deadline - clock L w)" arbitrary: w rule: less_induct)
  case less
  have other: "\<exists>w'. shutdown_loop L fd s deadline v = Some w'"
    if v: "clock L w \<le> clock L v" "fst (ssl_shutdown L s v) \<noteq> SdSent" for v
  proof -
    obtain d w1 where d: "ssl_shutdown L s v = (d, w1)" by (metis surj_pair)
    obtain q w2 where q: "poll L fd (d = SdWantRead) (deadline - clock L w1) w1 = (q, w2)" by (metis surj_pair)
    have "\<exists>w'. shutdown_loop L fd s deadline w2 = Some w'" if "q = Inr ()" "clock L w1 < deadline"
      using less [of w2] poll_clock [of fd _ _ w1 w2] q that shutdown_clock [OF d] v(1) by fastforce
    then show ?thesis using d q v(2) by (subst shutdown_loop.simps) (auto split: sum.split)
  qed
  show ?case
  proof (cases "fst (ssl_shutdown L s w) = SdSent")
    case True
    then obtain w1 where w1: "ssl_shutdown L s w = (SdSent, w1)" by (metis prod.collapse)
    have "\<exists>w'. shutdown_loop L fd s deadline w1 = Some w'"
      using other [of w1] shutdown_clock [OF w1] shutdown_sent [OF w1] by simp
    then show ?thesis using w1 by (subst shutdown_loop.simps) simp
  qed (rule other; simp)
qed

lemma AsyncTlsHandshake_returns: "\<exists>r w'. AsyncTlsHandshake N L sock tls is_server hostname timeout w = Some (r, w')"
proof -
  have "\<exists>y. handshake_loop L sock s (clock L v + timeout) v = Some y" for s v using handshake_loop_returns by blast
  then have "AsyncTlsHandshake N L sock tls is_server hostname timeout w \<noteq> None"
    by (auto simp: AsyncTlsHandshake_def split: prod.split sum.split option.split bool.split) (metis option.distinct(1))
  then show ?thesis by auto
qed

lemma AsyncShutdown_returns: "\<exists>w'. AsyncShutdown L t timeout w = Some w'"
  using shutdown_loop_returns by (auto simp: AsyncShutdown_def split: option.split)

end

section \<open>A library for the laws\<close>

text \<open>
  Descriptors, sessions and contexts are lists; a handshake needs as many polls as \<open>dt_rounds\<close>
  says, each of which takes 10 units of time, and kernel TLS is available unless \<open>dt_ktls\<close> says otherwise.
\<close>

record demo_tls =
  dt_open :: "int list"
  dt_ssl :: "nat list"
  dt_ctx :: "nat list"
  dt_conf :: "nat \<Rightarrow> ctx_op set"
  dt_clock :: int
  dt_rounds :: nat
  dt_sent :: bool
  dt_ktls :: bool

definition fresh_id :: "nat list \<Rightarrow> nat" where "fresh_id xs = Suc (fold max xs 0)"

lemma fresh_id_notin: "fresh_id xs \<notin> set xs"
proof -
  have "(m :: nat) \<le> fold max xs m \<and> (\<forall>x \<in> set xs. x \<le> fold max xs m)" for m
    by (induction xs arbitrary: m) (auto, meson dual_order.trans max.cobounded1 max.cobounded2, fastforce+)
  then show ?thesis unfolding fresh_id_def by (metis Suc_n_not_le_n)
qed

definition demo_tls_net :: "demo_tls netsys" where
  "demo_tls_net =
     \<lparr>sys_socket = (\<lambda>f w. (Inl 24, w)),
      sys_close = (\<lambda>fd w. w\<lparr>dt_open := filter (\<lambda>x. x \<noteq> fd) (dt_open w)\<rparr>),
      sys_getfl = (\<lambda>fd w. (Inr 0, w)),
      sys_setfl = (\<lambda>fd fl w. (Inr (), w)),
      sys_setsockopt = (\<lambda>fd opt v w. (Inr (), w)),
      sys_bind = (\<lambda>fd a w. (Inl 13, w)),
      sys_listen = (\<lambda>fd n w. (Inl 13, w)),
      sys_getaddrinfo = (\<lambda>host service w. (Inl (-2), w))\<rparr>"

definition demo_ossl :: "demo_tls ossl" where
  "demo_ossl =
     \<lparr>ctx_new = (\<lambda>m w. let c = fresh_id (dt_ctx w) in (Some c, w\<lparr>dt_ctx := c # dt_ctx w\<rparr>)),
      ctx_free = (\<lambda>c w. w\<lparr>dt_ctx := filter (\<lambda>x. x \<noteq> c) (dt_ctx w)\<rparr>),
      ctx_call = (\<lambda>op c w. if op = UsePrivateKey ''bad'' then (False, w)
                    else (True, w\<lparr>dt_conf := (dt_conf w)(c := insert op (dt_conf w c))\<rparr>)),
      get_errors = (\<lambda>w. ([], w)),
      ssl_new = (\<lambda>c w. let s = fresh_id (dt_ssl w) in (Some s, w\<lparr>dt_ssl := s # dt_ssl w\<rparr>)),
      ssl_free = (\<lambda>s w. w\<lparr>dt_ssl := filter (\<lambda>x. x \<noteq> s) (dt_ssl w)\<rparr>),
      ssl_set_fd = (\<lambda>s fd w. (True, w)),
      ssl_set_state = (\<lambda>s is_server w. w),
      ssl_set_mode = (\<lambda>s w. w),
      ssl_set_sni = (\<lambda>s host w. (True, w)),
      ssl_set1_host = (\<lambda>s host w. (True, w)),
      ssl_do_handshake = (\<lambda>s w. (if dt_rounds w = 0 then HsDone else HsWantRead, w)),
      ssl_shutdown = (\<lambda>s w. (if dt_sent w then SdWantRead else SdSent, w\<lparr>dt_sent := True\<rparr>)),
      ssl_verify_none = (\<lambda>s w. False),
      ssl_verify_ok = (\<lambda>s w. True),
      ktls_send = (\<lambda>s w. dt_ktls w),
      ktls_recv = (\<lambda>s w. dt_ktls w),
      alpn_selected = (\<lambda>s w. [104, 50]),
      clock = dt_clock,
      poll = (\<lambda>fd reading timeout w. (Inr (), w\<lparr>dt_clock := dt_clock w + 10, dt_rounds := dt_rounds w - 1\<rparr>))\<rparr>"

interpretation demo_ctx: tls_contexts demo_ossl "\<lambda>w. set (dt_ctx w)" dt_conf
  by unfold_locales (auto simp: demo_ossl_def Let_def fresh_id_notin split: if_splits)

interpretation demo_timed: tls_timed demo_tls_net demo_ossl "\<lambda>w. set (dt_open w)" "\<lambda>w. set (dt_ssl w)"
  by unfold_locales (auto simp: demo_ossl_def demo_tls_net_def same_def Let_def fresh_id_notin split: if_splits)

lemma demo_ossl_sel [simp]:
  "ssl_new demo_ossl c w = (Some (fresh_id (dt_ssl w)), w\<lparr>dt_ssl := fresh_id (dt_ssl w) # dt_ssl w\<rparr>)"
  "ssl_set_fd demo_ossl s fd w = (True, w)" "ssl_set_state demo_ossl s is_server w = w" "ssl_set_mode demo_ossl s w = w"
  "clock demo_ossl w = dt_clock w"
  by (simp_all add: demo_ossl_def Let_def)

lemma demo_handshake_loop:
  "handshake_loop demo_ossl fd s deadline w =
     (if dt_rounds w = 0 then Some (Inr (), w) else if deadline \<le> dt_clock w then Some (Inl ETIMEDOUT, w)
      else handshake_loop demo_ossl fd s deadline (w\<lparr>dt_clock := dt_clock w + 10, dt_rounds := dt_rounds w - 1\<rparr>))"
  by (subst handshake_loop.simps) (simp add: demo_ossl_def)

text \<open>The initial world: one accepted connection, and a handshake of \<open>n\<close> rounds.\<close>

definition demo_start :: "nat \<Rightarrow> bool \<Rightarrow> demo_tls" where
  "demo_start n ktls =
     \<lparr>dt_open = [3, 7], dt_ssl = [], dt_ctx = [], dt_conf = (\<lambda>_. {}), dt_clock = 0, dt_rounds = n, dt_sent = False, dt_ktls = ktls\<rparr>"

section \<open>Properties\<close>

text \<open>
  \<^verbatim>\<open>TlsContext::Create\<close> gives a context only when every call that configures it and whose result is looked
  at succeeded: the minimal protocol version, the cipher suites, certificate, key and the check
  that they match, the trust store and the protocol list. A server always has a certificate and a
  matching key. On any failure no context is left behind.
\<close>

theorem tls_context_checked:
  assumes "tls_contexts L contexts configured" and "TlsContext_Create L have_ktls config server_mode w = (r, w')"
  shows "case r of
      Inl e \<Rightarrow> contexts w' = contexts w
    | Inr t \<Rightarrow> have_ktls \<and> tc_ctx t \<notin> contexts w \<and> contexts w' = insert (tc_ctx t) (contexts w) \<and>
        checked ([SetMinProto ''TLS1_2''] @ SetCiphers config @ TrustStore config server_mode @ SetupAlpn config server_mode)
          \<subseteq> configured w' (tc_ctx t) \<and>
        (server_mode \<longrightarrow> cert_path config \<noteq> [] \<and> key_path config \<noteq> []) \<and>
        (cert_path config \<noteq> [] \<and> key_path config \<noteq> [] \<longrightarrow>
           {UseCertificateChain (cert_path config), UsePrivateKey (key_path config), CheckPrivateKey} \<subseteq> configured w' (tc_ctx t))"
proof (cases r)
  case (Inl e)
  then show ?thesis using tls_contexts.Create_checked [OF assms] by simp
next
  case (Inr t)
  then obtain certs where t: "have_ktls" "tc_ctx t \<notin> contexts w" "contexts w' = insert (tc_ctx t) (contexts w)"
      "LoadCerts config server_mode = Some certs" "checked (Create_ops config server_mode certs) \<subseteq> configured w' (tc_ctx t)"
    using tls_contexts.Create_checked [OF assms] by auto
  have "(server_mode \<longrightarrow> cert_path config \<noteq> [] \<and> key_path config \<noteq> []) \<and>
      (cert_path config \<noteq> [] \<and> key_path config \<noteq> [] \<longrightarrow>
        {UseCertificateChain (cert_path config), UsePrivateKey (key_path config), CheckPrivateKey} \<subseteq> checked certs)"
    using t(4) by (auto simp: LoadCerts_def split: if_splits)
  then show ?thesis using t Inr by (simp add: Create_ops_def) blast
qed

theorem tls_context_checked_witness:
  "\<exists>t w'. TlsContext_Create demo_ossl True (mk_TlsConfig\<lparr>cert_path := ''c'', key_path := ''k''\<rparr>) True (demo_start 0 True) = (Inr t, w') \<and>
     CheckPrivateKey \<in> dt_conf w' (tc_ctx t)"
proof -
  let ?c = "mk_TlsConfig\<lparr>cert_path := ''c'', key_path := ''k''\<rparr>"
  obtain r w' where b: "TlsContext_Create demo_ossl True ?c True (demo_start 0 True) = (r, w')" by (metis surj_pair)
  have "isl (fst (TlsContext_Create demo_ossl True ?c True (demo_start 0 True))) = False"
    by (simp add: TlsContext_Create_def or_free_def on_ctx_def demo_ossl_def Let_def SetCiphers_def LoadCerts_def TrustStore_def
        SetupAlpn_def mk_TlsConfig_def)
  then obtain t where r: "r = Inr t" using b by (cases r) auto
  show ?thesis using tls_context_checked [OF demo_ctx.tls_contexts_axioms b] b r by (auto simp: mk_TlsConfig_def)
qed



end
