(* ===== verification/Task.thy ===== *)
theory Task
  imports Pending_List
begin

text \<open>
  Tasks (\<^verbatim>\<open>Task<T>\<close> and \<^verbatim>\<open>Task<void>\<close> of \<^verbatim>\<open>include/kio/core/core.hpp\<close>): the promise, the awaitable interface and
  the owner of a coroutine frame, over a machine for the coroutines of the language. A body
  is what a coroutine does: it returns, throws, awaits an operation of the ring, or awaits
  another task. Frames live at handles; where a new frame is put is the choice of the allocator, a parameter.
  \<^verbatim>\<open>Task<void>\<close> is the instance whose values carry nothing, up to a promise without the value.
\<close>

section \<open>Bodies\<close>

datatype ('v, 'e) body =
    CoReturn 'v
  | CoThrow 'e
  | CoIo "'v \<Rightarrow> ('v, 'e) body"
  | CoAwait "('v, 'e) body" "'e + 'v \<Rightarrow> ('v, 'e) body"

text \<open>
  What the body means without coroutines: the results of the operations of the ring are consumed in
  order, a call of another function runs it to its end. \<open>None\<close>: the results given are used up.
\<close>

primrec direct :: "('v, 'e) body \<Rightarrow> 'v list \<Rightarrow> (('e + 'v) \<times> 'v list) option" where
  "direct (CoReturn v) = (\<lambda>ins. Some (Inr v, ins))"
| "direct (CoThrow e) = (\<lambda>ins. Some (Inl e, ins))"
| "direct (CoIo k) = (\<lambda>ins. case ins of [] \<Rightarrow> None | v # ins' \<Rightarrow> direct (k v) ins')"
| "direct (CoAwait b k) = (\<lambda>ins. case direct b ins of None \<Rightarrow> None | Some (r, ins') \<Rightarrow> direct (k r) ins')"

section \<open>Frames\<close>

record ('v, 'e) promise_type =
  p_value :: "'v option"
  exception :: "'e option"
  continuation :: "handle option"

text \<open>Where a frame is suspended: before its body, in an operation, in another task, or at its end.\<close>

datatype ('v, 'e) point = AtStart "('v, 'e) body" | AtIo "'v \<Rightarrow> ('v, 'e) body" | AtAwait handle "'e + 'v \<Rightarrow> ('v, 'e) body" | AtFinal

record ('v, 'e) frame =
  promise :: "('v, 'e) promise_type"
  point :: "('v, 'e) point"

type_synonym ('v, 'e) frames = "handle \<rightharpoonup> ('v, 'e) frame"

definition get_return_object :: "('v, 'e) body \<Rightarrow> ('v, 'e) frame" where
  "get_return_object b = \<lparr>promise = \<lparr>p_value = None, exception = None, continuation = None\<rparr>, point = AtStart b\<rparr>"

definition return_value :: "'v \<Rightarrow> ('v, 'e) promise_type \<Rightarrow> ('v, 'e) promise_type" where
  "return_value v p = p\<lparr>p_value := Some v\<rparr>"

definition unhandled_exception :: "'e \<Rightarrow> ('v, 'e) promise_type \<Rightarrow> ('v, 'e) promise_type" where
  "unhandled_exception e p = p\<lparr>exception := Some e\<rparr>"

text \<open>Who runs: a body in a frame, a frame to be resumed, or the event loop with a frame in an operation.\<close>

datatype ('v, 'e) control = Running handle "('v, 'e) body" | Resume handle | Blocked handle | Idle | Undefined

definition final_suspend :: "('v, 'e) promise_type \<Rightarrow> ('v, 'e) control" where
  "final_suspend p = (case continuation p of Some c \<Rightarrow> Resume c | None \<Rightarrow> Idle)"

text \<open>The result of a task; an empty optional is not to be read.\<close>

definition Task_await_resume :: "('v, 'e) promise_type \<Rightarrow> ('e + 'v) option" where
  "Task_await_resume p = (case exception p of Some e \<Rightarrow> Some (Inl e) | None \<Rightarrow> map_option Inr (p_value p))"

definition Task_await_suspend :: "handle \<Rightarrow> handle \<Rightarrow> ('v, 'e) frames \<Rightarrow> ('v, 'e) frames \<times> ('v, 'e) control" where
  "Task_await_suspend task cont F =
     (case F task of
        None \<Rightarrow> (F, Undefined)
      | Some f \<Rightarrow> (F(task \<mapsto> f\<lparr>promise := (promise f)\<lparr>continuation := Some cont\<rparr>\<rparr>), Resume task))"

text \<open>
  Destruction of a frame takes the task it awaits with it, which is one of its temporaries. A frame that
  does not exist is not to be destroyed.
\<close>

partial_function (option) destroy :: "handle \<Rightarrow> ('v, 'e) frames \<Rightarrow> ('v, 'e) frames option" where
  "destroy h F =
     (case F h of
        None \<Rightarrow> None
      | Some f \<Rightarrow> (case point f of AtAwait c k \<Rightarrow> destroy c (F(h := None)) | AtStart b \<Rightarrow> Some (F(h := None)) | AtIo k \<Rightarrow> Some (F(h := None)) | AtFinal \<Rightarrow> Some (F(h := None))))"

section \<open>Tasks without a value\<close>

text \<open>The promise of \<^verbatim>\<open>Task<void>\<close> has no value: that the body has returned shows only in its frame.\<close>

record 'e void_promise =
  v_exception :: "'e option"
  v_continuation :: "handle option"

definition return_void :: "'e void_promise \<Rightarrow> 'e void_promise" where
  "return_void p = p"

definition void_unhandled_exception :: "'e \<Rightarrow> 'e void_promise \<Rightarrow> 'e void_promise" where
  "void_unhandled_exception e p = p\<lparr>v_exception := Some e\<rparr>"

definition void_final_suspend :: "'e void_promise \<Rightarrow> (unit, 'e) control" where
  "void_final_suspend p = (case v_continuation p of Some c \<Rightarrow> Resume c | None \<Rightarrow> Idle)"

definition void_await_resume :: "'e void_promise \<Rightarrow> 'e + unit" where
  "void_await_resume p = (case v_exception p of Some e \<Rightarrow> Inl e | None \<Rightarrow> Inr ())"

text \<open>
  It is the promise of a task of units in which the value is present once the body has returned: the
  operations agree, and so does the result whenever there is one.
\<close>

definition as_unit :: "bool \<Rightarrow> 'e void_promise \<Rightarrow> (unit, 'e) promise_type" where
  "as_unit returned p =
     \<lparr>p_value = (if returned then Some () else None), exception = v_exception p, continuation = v_continuation p\<rparr>"

lemma void_promise_refines:
  "return_value () (as_unit returned p) = as_unit True (return_void p)"
  "unhandled_exception e (as_unit returned p) = as_unit returned (void_unhandled_exception e p)"
  "final_suspend (as_unit returned p) = void_final_suspend p"
  "Task_await_resume (as_unit returned p) = Some r \<Longrightarrow> void_await_resume p = r"
  by (auto simp: as_unit_def return_value_def return_void_def unhandled_exception_def void_unhandled_exception_def final_suspend_def
      void_final_suspend_def Task_await_resume_def void_await_resume_def split: option.splits if_splits)

section \<open>Owners\<close>

definition Task_end :: "handle option \<Rightarrow> ('v, 'e) frames \<Rightarrow> ('v, 'e) frames option" where
  "Task_end t F = (case t of None \<Rightarrow> Some F | Some h \<Rightarrow> destroy h F)"

text \<open>Moves: what target and source own afterwards. Assigning a task to itself is left out.\<close>

definition Task_move :: "handle option \<Rightarrow> handle option \<times> handle option" where
  "Task_move other = (other, None)"

definition Task_move_assign :: "handle option \<Rightarrow> handle option \<Rightarrow> ('v, 'e) frames \<Rightarrow> ((handle option \<times> handle option) \<times> ('v, 'e) frames) option" where
  "Task_move_assign this other F = map_option (Pair (other, None)) (Task_end this F)"

definition Task_Done :: "handle option \<Rightarrow> ('v, 'e) frames \<Rightarrow> bool" where
  "Task_Done t F = (case t of None \<Rightarrow> False | Some h \<Rightarrow> (case F h of None \<Rightarrow> False | Some f \<Rightarrow> (case point f of AtFinal \<Rightarrow> True | _ \<Rightarrow> False)))"

definition Task_Result :: "handle \<Rightarrow> ('v, 'e) frames \<Rightarrow> ('e + 'v) option" where
  "Task_Result h F = (case F h of None \<Rightarrow> None | Some f \<Rightarrow> Task_await_resume (promise f))"

section \<open>Running\<close>

type_synonym ('v, 'e) co_state = "('v, 'e) frames \<times> ('v, 'e) control \<times> 'v list"

text \<open>The body ends: its frame is suspended for the last time, and control goes to whoever awaits it.\<close>

definition finish :: "handle \<Rightarrow> (('v, 'e) promise_type \<Rightarrow> ('v, 'e) promise_type) \<Rightarrow> ('v, 'e) frame \<Rightarrow> ('v, 'e) frames \<Rightarrow> 'v list \<Rightarrow> ('v, 'e) co_state" where
  "finish h store f F ins = (F(h \<mapsto> f\<lparr>promise := store (promise f), point := AtFinal\<rparr>), final_suspend (promise f), ins)"

text \<open>A call of a coroutine and the wait for it: allocation, suspension of the caller, and the transfer.\<close>

definition call_task :: "(('v, 'e) frames \<Rightarrow> handle) \<Rightarrow> handle \<Rightarrow> ('v, 'e) frame \<Rightarrow> ('v, 'e) body \<Rightarrow> ('e + 'v \<Rightarrow> ('v, 'e) body) \<Rightarrow> ('v, 'e) frames \<Rightarrow> 'v list \<Rightarrow> ('v, 'e) co_state" where
  "call_task alloc h f b k F ins =
     (let c = alloc F; (F', ctl) = Task_await_suspend c h (F(h \<mapsto> f\<lparr>point := AtAwait c k\<rparr>, c \<mapsto> get_return_object b))
      in (F', ctl, ins))"

text \<open>The wait is over: the result is taken from the promise and the awaited task destroyed.\<close>

definition awaited :: "handle \<Rightarrow> handle \<Rightarrow> ('e + 'v \<Rightarrow> ('v, 'e) body) \<Rightarrow> ('v, 'e) frames \<Rightarrow> 'v list \<Rightarrow> ('v, 'e) co_state" where
  "awaited h c k F ins =
     (case (Task_Result c F, destroy c F) of
        (Some r, Some F') \<Rightarrow> (F', Running h (k r), ins)
      | _ \<Rightarrow> (F, Undefined, ins))"

text \<open>The event loop resumes a frame with the result of its operation.\<close>

definition co_start :: "('v, 'e) frames \<Rightarrow> handle \<Rightarrow> 'v \<Rightarrow> ('v, 'e) control" where
  "co_start F h v =
     (case F h of
        None \<Rightarrow> Undefined
      | Some f \<Rightarrow> (case point f of AtIo k \<Rightarrow> Running h (k v) | AtStart b \<Rightarrow> Resume h | AtAwait c k \<Rightarrow> Undefined | AtFinal \<Rightarrow> Undefined))"

fun co_step :: "(('v, 'e) frames \<Rightarrow> handle) \<Rightarrow> ('v, 'e) co_state \<Rightarrow> ('v, 'e) co_state" where
  "co_step alloc (F, Running h b, ins) =
     (case F h of
        None \<Rightarrow> (F, Undefined, ins)
      | Some f \<Rightarrow>
          (case b of
             CoReturn v \<Rightarrow> finish h (return_value v) f F ins
           | CoThrow e \<Rightarrow> finish h (unhandled_exception e) f F ins
           | CoIo k \<Rightarrow> (F(h \<mapsto> f\<lparr>point := AtIo k\<rparr>), Blocked h, ins)
           | CoAwait b k \<Rightarrow> call_task alloc h f b k F ins))"
| "co_step alloc (F, Resume h, ins) =
     (case F h of
        None \<Rightarrow> (F, Undefined, ins)
      | Some f \<Rightarrow>
          (case point f of
             AtStart b \<Rightarrow> (F, Running h b, ins)
           | AtIo k \<Rightarrow> (F, Undefined, ins)
           | AtAwait c k \<Rightarrow> awaited h c k F ins
           | AtFinal \<Rightarrow> (F, Undefined, ins)))"
| "co_step alloc (F, Blocked h, ins) = (case ins of [] \<Rightarrow> (F, Blocked h, []) | v # ins' \<Rightarrow> (F, co_start F h v, ins'))"
| "co_step alloc (F, Idle, ins) = (F, Idle, ins)"
| "co_step alloc (F, Undefined, ins) = (F, Undefined, ins)"

definition Task_resume :: "handle option \<Rightarrow> ('v, 'e) frames \<Rightarrow> 'v list \<Rightarrow> ('v, 'e) co_state" where
  "Task_resume t F ins =
     (case t of None \<Rightarrow> (F, Idle, ins) | Some h \<Rightarrow> if Task_Done t F then (F, Idle, ins) else (F, Resume h, ins))"

definition reaches :: "(('v, 'e) frames \<Rightarrow> handle) \<Rightarrow> ('v, 'e) co_state \<Rightarrow> ('v, 'e) co_state \<Rightarrow> bool" where
  "reaches alloc s t \<longleftrightarrow> (\<exists>n. (co_step alloc ^^ n) s = t)"

lemma reaches_refl [simp, intro]: "reaches alloc s s"
  unfolding reaches_def by (rule exI [of _ 0]) simp

lemma reaches_next: "co_step alloc s = s' \<Longrightarrow> reaches alloc s' t \<Longrightarrow> reaches alloc s t"
  unfolding reaches_def by (metis funpow_Suc_right comp_apply)

lemma reaches_trans: "reaches alloc s t \<Longrightarrow> reaches alloc t u \<Longrightarrow> reaches alloc s u"
  unfolding reaches_def by (metis funpow_add comp_apply)

section \<open>Chains of waiting tasks\<close>

fun waiting_path :: "('v, 'e) frames \<Rightarrow> handle list \<Rightarrow> bool" where
  "waiting_path F [] \<longleftrightarrow> False"
| "waiting_path F [x] \<longleftrightarrow> (\<exists>f k. F x = Some f \<and> point f = AtIo k)"
| "waiting_path F (x # y # ys) \<longleftrightarrow> (\<exists>f k. F x = Some f \<and> point f = AtAwait y k) \<and> waiting_path F (y # ys)"

lemma waiting_path_cong: "(\<And>x. x \<in> set xs \<Longrightarrow> F x = G x) \<Longrightarrow> waiting_path F xs = waiting_path G xs"
  by (induction F xs rule: waiting_path.induct) auto

text \<open>Destroying the first task of a chain destroys the whole chain and nothing else.\<close>

lemma destroy_path:
  assumes "waiting_path F (x # xs)" and "distinct (x # xs)"
  shows "destroy x F = Some (F |` (- set (x # xs)))"
  using assms
proof (induction xs arbitrary: x F)
  case Nil
  then obtain f k where "F x = Some f" "point f = AtIo k" by auto
  then show ?case by (subst destroy.simps) (auto simp: restrict_map_def)
next
  case (Cons y ys)
  then obtain f k where f: "F x = Some f" "point f = AtAwait y k" by auto
  have path: "waiting_path (F(x := None)) (y # ys)"
    using Cons.prems by (subst waiting_path_cong [of _ _ F]) auto
  have "destroy y (F(x := None)) = Some ((F(x := None)) |` (- set (y # ys)))"
    by (rule Cons.IH [OF path]) (use Cons.prems(2) in simp)
  moreover have "(F(x := None)) |` (- set (y # ys)) = F |` (- set (x # y # ys))" by (auto simp: restrict_map_def)
  ultimately show ?case using f by (subst destroy.simps) simp
qed

lemma destroy_final: "F c = Some f \<Longrightarrow> point f = AtFinal \<Longrightarrow> destroy c F = Some (F(c := None))"
  by (subst destroy.simps) simp

section \<open>Tasks run their bodies\<close>

text \<open>What the allocator promises: the frame it chooses is not in use.\<close>

locale frame_allocator =
  fixes alloc :: "('v, 'e) frames \<Rightarrow> handle"
  assumes alloc_fresh: "finite (dom F) \<Longrightarrow> F (alloc F) = None"

definition stored :: "'e + 'v \<Rightarrow> ('v, 'e) promise_type \<Rightarrow> ('v, 'e) promise_type" where
  "stored r = (case r of Inl e \<Rightarrow> unhandled_exception e | Inr v \<Rightarrow> return_value v)"

definition fresh_promise :: "('v, 'e) promise_type \<Rightarrow> bool" where
  "fresh_promise p \<longleftrightarrow> p_value p = None \<and> exception p = None"

lemma await_resume_stored: "fresh_promise p \<Longrightarrow> Task_await_resume (stored r p) = Some r"
  by (cases r) (auto simp: fresh_promise_def stored_def Task_await_resume_def return_value_def unhandled_exception_def)

definition child :: "handle \<Rightarrow> ('v, 'e) body \<Rightarrow> ('v, 'e) frame" where
  "child h b = (get_return_object b)\<lparr>promise := \<lparr>p_value = None, exception = None, continuation = Some h\<rparr>\<rparr>"

lemma child_simps [simp]: "fresh_promise (promise (child h b))" "point (child h b) = AtStart b" "continuation (promise (child h b)) = Some h"
  by (simp_all add: child_def get_return_object_def fresh_promise_def)

context frame_allocator
begin

lemma step_start: "F h = Some f \<Longrightarrow> point f = AtStart b \<Longrightarrow> co_step alloc (F, Resume h, ins) = (F, Running h b, ins)"
  by simp

lemma step_await:
  assumes "F h = Some f" and "finite (dom F)"
  shows "co_step alloc (F, Running h (CoAwait b k), ins) =
      (F(h \<mapsto> f\<lparr>point := AtAwait (alloc F) k\<rparr>, alloc F \<mapsto> child h b), Resume (alloc F), ins)"
  using assms alloc_fresh [OF assms(2)]
  by (auto simp: call_task_def Task_await_suspend_def child_def get_return_object_def Let_def)

lemma step_awaited:
  assumes "F h = Some f" and "c \<noteq> h" and "F c = None" and "fresh_promise p"
  shows "co_step alloc (F(h \<mapsto> f\<lparr>point := AtAwait c k\<rparr>, c \<mapsto> g\<lparr>promise := stored r p, point := AtFinal\<rparr>), Resume h, ins) =
      (F(h \<mapsto> f\<lparr>point := AtAwait c k\<rparr>), Running h (k r), ins)"
proof -
  define H where "H = F(h \<mapsto> f\<lparr>point := AtAwait c k\<rparr>)"
  let ?G = "H(c \<mapsto> g\<lparr>promise := stored r p, point := AtFinal\<rparr>)"
  have h: "?G h = Some (f\<lparr>point := AtAwait c k\<rparr>)" and c: "H c = None" using assms by (auto simp: H_def)
  have "destroy c ?G = Some (?G(c := None))"
    by (rule destroy_final [of _ _ "g\<lparr>promise := stored r p, point := AtFinal\<rparr>"]) simp_all
  moreover have "?G(c := None) = H" using c by (auto simp: fun_eq_iff)
  moreover have "Task_Result c ?G = Some r" using assms(4) by (simp add: Task_Result_def await_resume_stored)
  ultimately have "awaited h c k ?G ins = (H, Running h (k r), ins)" by (simp add: awaited_def)
  then have "co_step alloc (?G, Resume h, ins) = (H, Running h (k r), ins)" using h by (simp del: fun_upd_apply)
  then show ?thesis by (simp only: H_def)
qed

lemma reaches_child:
  assumes "F h = Some f" and "finite (dom F)"
    and "reaches alloc (F(h \<mapsto> f\<lparr>point := AtAwait (alloc F) k\<rparr>, alloc F \<mapsto> child h b), Running (alloc F) b, ins) s"
  shows "reaches alloc (F, Running h (CoAwait b k), ins) s"
proof (rule reaches_next [OF step_await [OF assms(1,2)]])
  let ?G = "F(h \<mapsto> f\<lparr>point := AtAwait (alloc F) k\<rparr>, alloc F \<mapsto> child h b)"
  have "co_step alloc (?G, Resume (alloc F), ins) = (?G, Running (alloc F) b, ins)" by (rule step_start [of ?G _ "child h b"]) simp_all
  then show "reaches alloc (?G, Resume (alloc F), ins) s" using assms(3) by (rule reaches_next)
qed

text \<open>A body that has all the results it asks for runs to its end, and the frames of the tasks it awaited are gone.\<close>

lemma body_completes:
  assumes "direct b ins = Some (r, ins')" and "F h = Some f" and "finite (dom F)"
  shows "reaches alloc (F, Running h b, ins) (F(h \<mapsto> f\<lparr>promise := stored r (promise f), point := AtFinal\<rparr>), final_suspend (promise f), ins')"
  using assms
proof (induction b arbitrary: ins r ins' F h f)
  case (CoReturn v)
  then show ?case by (intro reaches_next [OF _ reaches_refl]) (auto simp: finish_def stored_def)
next
  case (CoThrow e)
  then show ?case by (intro reaches_next [OF _ reaches_refl]) (auto simp: finish_def stored_def)
next
  case (CoIo k)
  obtain v ins1 where ins: "ins = v # ins1" "direct (k v) ins1 = Some (r, ins')"
    using CoIo.prems(1) by (auto split: list.splits)
  let ?F = "F(h \<mapsto> f\<lparr>point := AtIo k\<rparr>)"
  have F: "?F h = Some (f\<lparr>point := AtIo k\<rparr>)" "finite (dom ?F)" using CoIo.prems(3) by simp_all
  have "reaches alloc (?F, Running h (k v), ins1) (F(h \<mapsto> f\<lparr>promise := stored r (promise f), point := AtFinal\<rparr>), final_suspend (promise f), ins')"
    using CoIo.IH [OF rangeI ins(2) F] by (simp del: fun_upd_apply)
  moreover have "co_step alloc (F, Running h (CoIo k), ins) = (?F, Blocked h, ins)" using CoIo.prems(2) by simp
  moreover have "co_step alloc (?F, Blocked h, ins) = (?F, Running h (k v), ins1)" using ins(1) by (simp add: co_start_def)
  ultimately show ?case by (metis (no_types, lifting) reaches_next)
next
  case (CoAwait b k)
  obtain q ins1 where q: "direct b ins = Some (q, ins1)" "direct (k q) ins1 = Some (r, ins')"
    using CoAwait.prems(1) by (auto split: option.splits)
  let ?c = "alloc F" and ?f = "f\<lparr>point := AtAwait (alloc F) k\<rparr>"
  let ?F = "F(h \<mapsto> ?f)"
  let ?G = "?F(?c \<mapsto> child h b)"
  have c: "F ?c = None" "?c \<noteq> h" using alloc_fresh [OF CoAwait.prems(3)] CoAwait.prems(2) by auto
  have G: "?G ?c = Some (child h b)" "finite (dom ?G)" "?F h = Some ?f" "finite (dom ?F)" using CoAwait.prems(3) c by simp_all
  have "reaches alloc (?G, Running ?c b, ins)
      (?F(?c \<mapsto> (child h b)\<lparr>promise := stored q (promise (child h b)), point := AtFinal\<rparr>), Resume h, ins1)"
    using CoAwait.IH(1) [OF q(1) G(1,2)] by (simp add: final_suspend_def del: fun_upd_apply)
  then have first: "reaches alloc (F, Running h (CoAwait b k), ins)
      (?F(?c \<mapsto> (child h b)\<lparr>promise := stored q (promise (child h b)), point := AtFinal\<rparr>), Resume h, ins1)"
    by (rule reaches_child [OF CoAwait.prems(2,3)])
  have second: "co_step alloc (?F(?c \<mapsto> (child h b)\<lparr>promise := stored q (promise (child h b)), point := AtFinal\<rparr>), Resume h, ins1) =
      (?F, Running h (k q), ins1)"
    using c CoAwait.prems(2) by (intro step_awaited) simp_all
  have "reaches alloc (?F, Running h (k q), ins1) (F(h \<mapsto> f\<lparr>promise := stored r (promise f), point := AtFinal\<rparr>), final_suspend (promise f), ins')"
    using CoAwait.IH(2) [OF rangeI q(2) G(3,4)] by (simp del: fun_upd_apply)
  then show ?case using reaches_trans [OF first reaches_next [OF second]] by blast
qed

text \<open>
  A body that runs out of results stops in the event loop. Its frame is the first of a chain of
  frames each of which awaits the next, the last one waiting for the ring; the others are new.
\<close>

lemma body_blocks:
  assumes "direct b ins = None" and "F h = Some f" and "finite (dom F)"
  shows "\<exists>G xs. reaches alloc (F, Running h b, ins) (G, Blocked (last (h # xs)), []) \<and> waiting_path G (h # xs) \<and>
    distinct (h # xs) \<and> (\<forall>x \<in> set xs. F x = None) \<and> (\<forall>x. x \<notin> set (h # xs) \<longrightarrow> G x = F x)"
  using assms
proof (induction b arbitrary: ins F h f)
  case (CoIo k)
  let ?F = "F(h \<mapsto> f\<lparr>point := AtIo k\<rparr>)"
  have F: "?F h = Some (f\<lparr>point := AtIo k\<rparr>)" "finite (dom ?F)" using CoIo.prems(3) by simp_all
  have run: "co_step alloc (F, Running h (CoIo k), ins) = (?F, Blocked h, ins)" using CoIo.prems(2) by simp
  show ?case
  proof (cases ins)
    case Nil
    then have "reaches alloc (F, Running h (CoIo k), ins) (?F, Blocked h, [])" using reaches_next [OF run] by blast
    then show ?thesis by (intro exI [of _ ?F] exI [of _ "[]"]) (simp del: fun_upd_apply, simp)
  next
    case (Cons v ins1)
    then have "direct (k v) ins1 = None" using CoIo.prems(1) by simp
    then obtain G xs where G: "reaches alloc (?F, Running h (k v), ins1) (G, Blocked (last (h # xs)), [])"
        "waiting_path G (h # xs)" "distinct (h # xs)" "\<forall>x \<in> set xs. ?F x = None" "\<forall>x. x \<notin> set (h # xs) \<longrightarrow> G x = ?F x"
      using CoIo.IH [OF rangeI _ F] by blast
    have "co_step alloc (?F, Blocked h, ins) = (?F, Running h (k v), ins1)" using Cons by (simp add: co_start_def)
    then have "reaches alloc (F, Running h (CoIo k), ins) (G, Blocked (last (h # xs)), [])"
      using run G(1) by (metis (no_types, lifting) reaches_next)
    then show ?thesis using G by (intro exI [of _ G] exI [of _ xs]) (auto split: if_splits)
  qed
next
  case (CoAwait b k)
  let ?c = "alloc F" and ?f = "f\<lparr>point := AtAwait (alloc F) k\<rparr>"
  let ?F = "F(h \<mapsto> ?f)"
  let ?G = "?F(?c \<mapsto> child h b)"
  have c: "F ?c = None" "?c \<noteq> h" using alloc_fresh [OF CoAwait.prems(3)] CoAwait.prems(2) by auto
  have G: "?G ?c = Some (child h b)" "finite (dom ?G)" "?F h = Some ?f" "finite (dom ?F)" using CoAwait.prems(3) c by simp_all
  note start = reaches_child [OF CoAwait.prems(2,3), of k b ins]
  show ?case
  proof (cases "direct b ins")
    case None
    then obtain H xs where H: "reaches alloc (?G, Running ?c b, ins) (H, Blocked (last (?c # xs)), [])"
        "waiting_path H (?c # xs)" "distinct (?c # xs)" "\<forall>x \<in> set xs. ?G x = None" "\<forall>x. x \<notin> set (?c # xs) \<longrightarrow> H x = ?G x"
      using CoAwait.IH(1) [OF _ G(1,2)] by blast
    have h: "h \<notin> set (?c # xs)" using H(4) c(2) G(3) by auto
    then have "H h = Some ?f" using H(5) c(2) by simp
    then have "waiting_path H (h # ?c # xs)" using H(2) by simp
    moreover have "distinct (h # ?c # xs)" using H(3) h by simp
    moreover have "\<forall>x \<in> set (?c # xs). F x = None" using H(4) h c(1) by (auto split: if_splits)
    moreover have "\<forall>x. x \<notin> set (h # ?c # xs) \<longrightarrow> H x = F x" using H(5) by simp
    ultimately show ?thesis using start [OF H(1)] by (intro exI [of _ H] exI [of _ "?c # xs"]) simp
  next
    case (Some p)
    then obtain q ins1 where q: "direct b ins = Some (q, ins1)" "direct (k q) ins1 = None" using CoAwait.prems(1) by (cases p) auto
    have first: "reaches alloc (F, Running h (CoAwait b k), ins) (?F, Running h (k q), ins1)"
    proof (rule reaches_trans [OF start])
      show "reaches alloc (?G, Running ?c b, ins)
          (?F(?c \<mapsto> (child h b)\<lparr>promise := stored q (promise (child h b)), point := AtFinal\<rparr>), Resume h, ins1)"
        using body_completes [OF q(1) G(1,2)] by (simp add: final_suspend_def del: fun_upd_apply)
      show "reaches alloc (?F(?c \<mapsto> (child h b)\<lparr>promise := stored q (promise (child h b)), point := AtFinal\<rparr>), Resume h, ins1)
          (?F, Running h (k q), ins1)"
        by (rule reaches_next [OF step_awaited reaches_refl]) (use c CoAwait.prems(2) in simp_all)
    qed
    obtain H xs where H: "reaches alloc (?F, Running h (k q), ins1) (H, Blocked (last (h # xs)), [])"
        "waiting_path H (h # xs)" "distinct (h # xs)" "\<forall>x \<in> set xs. ?F x = None" "\<forall>x. x \<notin> set (h # xs) \<longrightarrow> H x = ?F x"
      using CoAwait.IH(2) [OF rangeI q(2) G(3,4)] by blast
    then show ?thesis using reaches_trans [OF first H(1)] by (intro exI [of _ H] exI [of _ xs]) (auto split: if_splits)
  qed
qed auto

end

text \<open>The smallest unused handle.\<close>

definition first_free :: "('v, 'e) frames \<Rightarrow> handle" where
  "first_free F = (LEAST h. F h = None)"

interpretation first_free: frame_allocator first_free
proof
  fix F :: "('v, 'e) frames"
  assume "finite (dom F)"
  then obtain h where "h \<notin> dom F" by (rule ex_new_if_finite [OF infinite_UNIV_nat, THEN exE])
  then have "F h = None" by (simp add: domIff)
  then show "F (first_free F) = None" unfolding first_free_def by (rule LeastI)
qed

text \<open>The two cases together, from the resumption of a new task.\<close>

lemma task_resumed:
  assumes "frame_allocator alloc" and "F h = Some f" and "point f = AtStart b" and "fresh_promise (promise f)" and "finite (dom F)"
  shows "case direct b ins of
      Some (r, ins') \<Rightarrow> \<exists>G. reaches alloc (Task_resume (Some h) F ins) (G, final_suspend (promise f), ins') \<and>
        Task_Done (Some h) G \<and> Task_Result h G = Some r \<and> (\<forall>x. x \<noteq> h \<longrightarrow> G x = F x) \<and> Task_end (Some h) G = Some (F(h := None))
    | None \<Rightarrow> \<exists>G x. reaches alloc (Task_resume (Some h) F ins) (G, Blocked x, []) \<and>
        \<not> Task_Done (Some h) G \<and> Task_end (Some h) G = Some (F(h := None))"
proof -
  have res: "Task_resume (Some h) F ins = (F, Resume h, ins)" using assms(2,3) by (simp add: Task_resume_def Task_Done_def)
  have start: "reaches alloc (Task_resume (Some h) F ins) t" if "reaches alloc (F, Running h b, ins) t" for t
    unfolding res by (rule reaches_next [OF _ that]) (use assms(2,3) in simp)
  show ?thesis
  proof (cases "direct b ins")
    case None
    obtain G xs where G: "reaches alloc (F, Running h b, ins) (G, Blocked (last (h # xs)), [])" "waiting_path G (h # xs)"
        "distinct (h # xs)" "\<forall>x \<in> set xs. F x = None" "\<forall>x. x \<notin> set (h # xs) \<longrightarrow> G x = F x"
      using frame_allocator.body_blocks [OF assms(1) None assms(2,5)] by blast
    have "\<not> Task_Done (Some h) G" using G(2) by (cases xs) (auto simp: Task_Done_def)
    moreover have "G |` (- set (h # xs)) = F(h := None)" using G(4,5) by (auto simp: restrict_map_def fun_eq_iff)
    ultimately show ?thesis using None start [OF G(1)] destroy_path [OF G(2,3)] by (auto simp: Task_end_def)
  next
    case (Some p)
    then obtain r ins' where p: "direct b ins = Some (r, ins')" by (cases p) simp
    let ?f = "f\<lparr>promise := stored r (promise f), point := AtFinal\<rparr>"
    let ?G = "F(h \<mapsto> ?f)"
    have "destroy h ?G = Some (?G(h := None))" by (rule destroy_final [of _ _ ?f]) simp_all
    then have "Task_end (Some h) ?G = Some (F(h := None))" by (simp add: Task_end_def)
    moreover have "Task_Done (Some h) ?G" "Task_Result h ?G = Some r"
      using await_resume_stored [OF assms(4)] by (simp_all add: Task_Done_def Task_Result_def)
    ultimately show ?thesis
      using p start [OF frame_allocator.body_completes [OF assms(1) p assms(2,5)]] by (auto intro!: exI [of _ ?G])
  qed
qed


text \<open>A task that awaits a reader, which throws on a negative result; the caller recovers with 0.\<close>

definition demo_body :: "(int, string) body" where
  "demo_body =
     CoAwait (CoIo (\<lambda>n. if n < 0 then CoThrow ''read failed'' else CoReturn n))
       (\<lambda>r. case r of Inl e \<Rightarrow> CoReturn 0 | Inr n \<Rightarrow> CoIo (\<lambda>m. CoReturn (n + m)))"


end
