(* ===== verification/Task_Loop.thy ===== *)
theory Task_Loop
  imports Task Io_Context "HOL-Library.While_Combinator"
begin

text \<open>
  Tasks on the event loop: \<^verbatim>\<open>RunUntilDone\<close> of \<^verbatim>\<open>include/kio/core/core.hpp\<close> with the coroutines of \<open>Task\<close> in place of the abstract
  ones of \<open>Io_Context\<close>. The frames live next to the ring. A frame that awaits an operation embeds it, so the address of the
  operation is a function of the handle. Resuming a frame runs the machine until control is back in the loop; if a
  frame is then waiting for the ring, its operation has been started.
\<close>

section \<open>Pauses\<close>

fun paused :: "('v, 'e) control \<Rightarrow> bool" where
  "paused (Running h b) = False"
| "paused (Resume h) = False"
| "paused (Blocked h) = True"
| "paused Idle = True"
| "paused Undefined = True"

text \<open>As long as the machine is not paused it does not look at the results of operations.\<close>

definition co_move :: "(('v, 'e) frames \<Rightarrow> handle) \<Rightarrow> ('v, 'e) frames \<times> ('v, 'e) control \<Rightarrow> ('v, 'e) frames \<times> ('v, 'e) control" where
  "co_move alloc s = (case s of (F, ctl) \<Rightarrow> (case co_step alloc (F, ctl, []) of (F', ctl', _) \<Rightarrow> (F', ctl')))"

definition co_run :: "(('v, 'e) frames \<Rightarrow> handle) \<Rightarrow> ('v, 'e) frames \<Rightarrow> ('v, 'e) control \<Rightarrow> (('v, 'e) frames \<times> ('v, 'e) control) option" where
  "co_run alloc F ctl = while_option (\<lambda>s. \<not> paused (snd s)) (co_move alloc) (F, ctl)"

lemma co_step_inputs:
  assumes "\<not> paused ctl"
  shows "co_step alloc (F, ctl, ins) = (fst (co_move alloc (F, ctl)), snd (co_move alloc (F, ctl)), ins)"
proof (cases ctl)
  case (Running h b)
  then show ?thesis
    by (cases b) (auto simp: co_move_def finish_def call_task_def Let_def split: option.splits prod.splits)
next
  case (Resume h)
  then show ?thesis by (auto simp: co_move_def awaited_def split: option.splits prod.splits point.splits)
qed (use assms in auto)

lemma co_step_paused: "paused ctl \<Longrightarrow> (ins = [] \<or> (\<forall>h. ctl \<noteq> Blocked h)) \<Longrightarrow> co_step alloc (F, ctl, ins) = (F, ctl, ins)"
  by (cases ctl) auto

lemma stuck_stays: "co_step alloc s = s \<Longrightarrow> (co_step alloc ^^ n) s = s"
  by (induction n) auto

text \<open>The machine is deterministic: from one state it gets to at most one state in which it rests.\<close>

lemma reaches_rest:
  assumes "reaches alloc s t" and "reaches alloc s u" and "co_step alloc u = u"
  shows "reaches alloc t u"
proof -
  obtain n m where n: "(co_step alloc ^^ n) s = t" and m: "(co_step alloc ^^ m) s = u" using assms(1,2) by (auto simp: reaches_def)
  show ?thesis
  proof (cases "n \<le> m")
    case True
    have "(co_step alloc ^^ ((m - n) + n)) s = (co_step alloc ^^ (m - n)) ((co_step alloc ^^ n) s)" by (simp add: funpow_add)
    then have "(co_step alloc ^^ (m - n)) t = u" using n m True by simp
    then show ?thesis by (auto simp: reaches_def)
  next
    case False
    have "(co_step alloc ^^ ((n - m) + m)) s = (co_step alloc ^^ (n - m)) ((co_step alloc ^^ m) s)" by (simp add: funpow_add)
    then have "(co_step alloc ^^ (n - m)) u = t" using n m False by simp
    then have "t = u" using stuck_stays [OF assms(3), of "n - m"] by simp
    then show ?thesis by simp
  qed
qed

lemma reaches_rest_unique:
  "reaches alloc s t \<Longrightarrow> co_step alloc t = t \<Longrightarrow> reaches alloc s u \<Longrightarrow> co_step alloc u = u \<Longrightarrow> t = u"
  using reaches_rest stuck_stays by (metis reaches_def)

text \<open>More results change nothing before the machine asks for them.\<close>

lemma reaches_more:
  assumes "reaches alloc (F, ctl, ins) (G, ctl', ins')"
  shows "reaches alloc (F, ctl, ins @ vs) (G, ctl', ins' @ vs)"
proof -
  obtain n where "(co_step alloc ^^ n) (F, ctl, ins) = (G, ctl', ins')" using assms by (auto simp: reaches_def)
  then show ?thesis
  proof (induction n arbitrary: F ctl ins)
    case (Suc n)
    obtain F1 ctl1 ins1 where s: "co_step alloc (F, ctl, ins) = (F1, ctl1, ins1)" by (metis prod_cases3)
    then have IH: "reaches alloc (F1, ctl1, ins1 @ vs) (G, ctl', ins' @ vs)"
      using Suc.IH Suc.prems by (simp add: funpow_swap1)
    show ?case
    proof (cases "\<exists>h. ctl = Blocked h \<and> ins = []")
      case True
      then show ?thesis using s IH by auto
    next
      case False
      have "co_step alloc (F, ctl, ins @ vs) = (F1, ctl1, ins1 @ vs)"
      proof (cases "paused ctl")
        case True
        then show ?thesis using False s by (cases ctl) (auto split: list.splits)
      next
        case False
        then show ?thesis using s co_step_inputs [OF False, of alloc F ins] co_step_inputs [OF False, of alloc F "ins @ vs"] by simp
      qed
      then show ?thesis using IH by (rule reaches_next)
    qed
  qed simp
qed

text \<open>If the machine comes to rest without further results then it gets there before it asks for any.\<close>

lemma co_run_rest:
  assumes "reaches alloc (F, ctl, []) (G, ctl', [])" and "paused ctl'"
  shows "co_run alloc F ctl = Some (G, ctl')"
proof -
  obtain n where "(co_step alloc ^^ n) (F, ctl, []) = (G, ctl', [])" using assms(1) by (auto simp: reaches_def)
  then show ?thesis
  proof (induction n arbitrary: F ctl)
    case 0
    then show ?case using assms(2) by (simp add: co_run_def while_option_unfold)
  next
    case (Suc n)
    show ?case
    proof (cases "paused ctl")
      case True
      then have "co_step alloc (F, ctl, []) = (F, ctl, [])" using co_step_paused by blast
      then have "(G, ctl') = (F, ctl)" using stuck_stays [of alloc _ "Suc n"] Suc.prems by (metis prod.inject)
      then show ?thesis using True by (simp add: co_run_def while_option_unfold)
    next
      case False
      have "(co_step alloc ^^ n) (fst (co_move alloc (F, ctl)), snd (co_move alloc (F, ctl)), []) = (G, ctl', [])"
        using Suc.prems co_step_inputs [OF False] by (simp add: funpow_swap1)
      from Suc.IH [OF this] show ?thesis using False by (simp add: co_run_def while_option_unfold [of _ _ "(F, ctl)"])
    qed
  qed
qed

lemma reaches_first: "reaches alloc s t \<Longrightarrow> s \<noteq> t \<Longrightarrow> reaches alloc (co_step alloc s) t"
proof -
  assume "reaches alloc s t" "s \<noteq> t"
  then obtain n where n: "(co_step alloc ^^ n) s = t" by (auto simp: reaches_def)
  then obtain m where "n = Suc m" using \<open>s \<noteq> t\<close> by (cases n) auto
  then have "(co_step alloc ^^ m) (co_step alloc s) = t" using n by (simp add: funpow_swap1)
  then show ?thesis by (auto simp: reaches_def)
qed

lemma reaches_nil:
  assumes "reaches alloc (F, ctl, []) (G, ctl', ins)"
  shows "ins = []"
proof -
  obtain n where "(co_step alloc ^^ n) (F, ctl, []) = (G, ctl', ins)" using assms by (auto simp: reaches_def)
  then show ?thesis
  proof (induction n arbitrary: F ctl)
    case (Suc n)
    obtain F1 ctl1 where "co_step alloc (F, ctl, []) = (F1, ctl1, [])"
      using co_step_inputs [of ctl alloc F "[]"] co_step_paused [of ctl "[]" alloc F] by (cases "paused ctl") auto
    then show ?case using Suc by (simp add: funpow_swap1)
  qed simp
qed

lemma direct_more: "direct b ins = Some (r, rest) \<Longrightarrow> direct b (ins @ vs) = Some (r, rest @ vs)"
proof (induction b arbitrary: ins r rest)
  case (CoIo k)
  then show ?case by (cases ins) auto
next
  case (CoAwait b k)
  then show ?case by (fastforce split: option.splits)
qed auto

section \<open>Rounds of a root task\<close>

text \<open>A task that nobody awaits, not yet started.\<close>

definition new_root :: "(('v, 'e) frames \<Rightarrow> handle) \<Rightarrow> ('v, 'e) frames \<Rightarrow> handle \<Rightarrow> ('v, 'e) body \<Rightarrow> bool" where
  "new_root alloc F h b \<longleftrightarrow>
     frame_allocator alloc \<and> finite (dom F) \<and> F h = Some (get_return_object b)"

text \<open>Where the machine rests once it has been given the results \<open>ins\<close>.\<close>

definition rests_at :: "('v, 'e) frames \<Rightarrow> handle \<Rightarrow> ('v, 'e) body \<Rightarrow> 'v list \<Rightarrow> ('v, 'e) frames \<Rightarrow> ('v, 'e) control \<Rightarrow> bool" where
  "rests_at F0 h b ins F ctl \<longleftrightarrow>
     (case direct b ins of
        Some (r, rest) \<Rightarrow> ctl = Idle \<and> Task_Done (Some h) F \<and> Task_Result h F = Some r \<and> (\<forall>x. x \<noteq> h \<longrightarrow> F x = F0 x)
      | None \<Rightarrow> (\<exists>x. ctl = Blocked x) \<and> \<not> Task_Done (Some h) F)"

lemma root_rests:
  assumes "new_root alloc F0 h b"
  shows "\<exists>F ctl rest. reaches alloc (F0, Resume h, ins) (F, ctl, rest) \<and> co_step alloc (F, ctl, rest) = (F, ctl, rest) \<and>
    rests_at F0 h b ins F ctl \<and> paused ctl"
proof -
  let ?f = "get_return_object b :: ('a, 'b) frame"
  have f: "F0 h = Some ?f" "point ?f = AtStart b" "fresh_promise (promise ?f)" "finite (dom F0)" "final_suspend (promise ?f) = Idle"
    using assms by (simp_all add: new_root_def get_return_object_def fresh_promise_def final_suspend_def)
  have s: "Task_resume (Some h) F0 ins = (F0, Resume h, ins)" using f(1,2) by (simp add: Task_resume_def Task_Done_def)
  have alloc: "frame_allocator alloc" using assms by (simp add: new_root_def)
  note run = task_resumed [OF alloc f(1-4), of ins, unfolded s f(5)]
  show ?thesis
  proof (cases "direct b ins")
    case None
    then obtain G x where "reaches alloc (F0, Resume h, ins) (G, Blocked x, [])" "\<not> Task_Done (Some h) G" using run by auto
    then show ?thesis using None by (intro exI [of _ G] exI [of _ "Blocked x"] exI [of _ "[]"]) (simp add: rests_at_def)
  next
    case (Some p)
    then obtain r rest where p: "direct b ins = Some (r, rest)" by (cases p) simp
    then obtain G where "reaches alloc (F0, Resume h, ins) (G, Idle, rest)" "Task_Done (Some h) G" "Task_Result h G = Some r" "\<forall>x. x \<noteq> h \<longrightarrow> G x = F0 x"
      using run by auto
    then show ?thesis using p by (intro exI [of _ G] exI [of _ Idle] exI [of _ rest]) (simp add: rests_at_def)
  qed
qed

text \<open>The first resumption, and one more result.\<close>

lemma co_first:
  assumes "new_root alloc F0 h b"
  shows "\<exists>F ctl. co_run alloc F0 (co_start F0 h v) = Some (F, ctl) \<and> reaches alloc (F0, Resume h, []) (F, ctl, []) \<and> rests_at F0 h b [] F ctl"
proof -
  obtain F ctl rest where r: "reaches alloc (F0, Resume h, []) (F, ctl, rest)" "rests_at F0 h b [] F ctl" "paused ctl"
    using root_rests [OF assms, of "[]"] by blast
  have "rest = []" by (rule reaches_nil [OF r(1)])
  moreover have "co_start F0 h v = Resume h" using assms by (simp add: new_root_def co_start_def get_return_object_def)
  ultimately show ?thesis using r co_run_rest [of alloc F0 "Resume h" F ctl] by auto
qed

lemma co_round:
  assumes "new_root alloc F0 h b" and "reaches alloc (F0, Resume h, pre) (F, Blocked x, [])"
  shows "\<exists>F' ctl. co_run alloc F (co_start F x v) = Some (F', ctl) \<and> reaches alloc (F0, Resume h, pre @ [v]) (F', ctl, []) \<and>
    rests_at F0 h b (pre @ [v]) F' ctl \<and> \<not> Task_Done (Some x) F"
proof -
  obtain G ctl rest where G: "reaches alloc (F0, Resume h, pre @ [v]) (G, ctl, rest)" "co_step alloc (G, ctl, rest) = (G, ctl, rest)"
      "rests_at F0 h b (pre @ [v]) G ctl" "paused ctl"
    using root_rests [OF assms(1)] by blast
  have here: "reaches alloc (F0, Resume h, pre @ [v]) (F, Blocked x, [v])" using reaches_more [OF assms(2), of "[v]"] by simp
  have ctl: "ctl = Idle \<or> (\<exists>y. ctl = Blocked y)" using G(3) by (auto simp: rests_at_def split: option.splits)
  have "(F, Blocked x, [v]) \<noteq> (G, ctl, rest)"
  proof
    assume "(F, Blocked x, [v]) = (G, ctl, rest)"
    then have "co_start F x v = Blocked x" using G(2) by auto
    then show False by (auto simp: co_start_def split: option.splits point.splits)
  qed
  then have on: "reaches alloc (F, co_start F x v, []) (G, ctl, rest)"
    using reaches_first [OF reaches_rest [OF here G(1,2)]] by simp
  then have rest: "rest = []" by (rule reaches_nil)
  have "co_start F x v \<noteq> Undefined"
  proof
    assume u: "co_start F x v = Undefined"
    have "reaches alloc (F, Undefined, []) (G, ctl, rest)" using on u by simp
    then have "ctl = Undefined" using stuck_stays [of alloc "(F, Undefined, [])"] by (auto simp: reaches_def)
    then show False using ctl by simp
  qed
  then have "\<not> Task_Done (Some x) F" by (auto simp: co_start_def Task_Done_def split: option.splits point.splits)
  then show ?thesis using G co_run_rest [OF on [unfolded rest] G(4)] rest by blast
qed

section \<open>Coroutines of the loop\<close>

text \<open>
  \<open>op_of\<close> is the address of the operation in a frame, \<open>prep\<close> the entry it submits, \<open>conv\<close> what its \<^verbatim>\<open>await_resume\<close> makes of the result.
\<close>

definition start_waiting ::
  "('q \<times> ('v, 'e) frames) liburing \<Rightarrow> (handle \<Rightarrow> addr) \<Rightarrow> (handle \<Rightarrow> sqe) \<Rightarrow> ('v, 'e) control \<Rightarrow>
     ('q \<times> ('v, 'e) frames) IoContext \<Rightarrow> ('q \<times> ('v, 'e) frames) IoContext" where
  "start_waiting U op_of prep ctl c =
     (case ctl of Blocked x \<Rightarrow> snd (UringOp_await_suspend U (op_of x) (prep x) x c) | Running h b \<Rightarrow> c | Resume h \<Rightarrow> c | Idle \<Rightarrow> c | Undefined \<Rightarrow> c)"

definition resume_task ::
  "('q \<times> ('v, 'e) frames) liburing \<Rightarrow> (('v, 'e) frames \<Rightarrow> handle) \<Rightarrow> (handle \<Rightarrow> addr) \<Rightarrow> (handle \<Rightarrow> sqe) \<Rightarrow> (int \<Rightarrow> 'v) \<Rightarrow> handle \<Rightarrow>
     ('q \<times> ('v, 'e) frames) IoContext \<Rightarrow> ('q \<times> ('v, 'e) frames) IoContext" where
  "resume_task U alloc op_of prep conv h c =
     (let (q, F) = c_ring c
      in case co_run alloc F (co_start F h (conv (res_of c (op_of h)))) of
           None \<Rightarrow> c
         | Some (F', ctl) \<Rightarrow> start_waiting U op_of prep ctl (c\<lparr>c_ring := (q, F')\<rparr>))"

definition task_coroutines ::
  "('q \<times> ('v, 'e) frames) liburing \<Rightarrow> (('v, 'e) frames \<Rightarrow> handle) \<Rightarrow> (handle \<Rightarrow> addr) \<Rightarrow> (handle \<Rightarrow> sqe) \<Rightarrow> (int \<Rightarrow> 'v) \<Rightarrow>
     ('q \<times> ('v, 'e) frames) coroutines" where
  "task_coroutines U alloc op_of prep conv =
     \<lparr>co_done = (\<lambda>h c. Task_Done (Some h) (snd (c_ring c))), co_resume = resume_task U alloc op_of prep conv\<rparr>"

text \<open>
  A ring that works through one operation at a time: \<open>waiting\<close> is the operation it has been given, \<open>results\<close> what the
  operations to come will return. It does not touch the frames.
\<close>

locale one_op_ring =
  fixes U :: "('q \<times> ('v, 'e) frames) liburing" and waiting :: "'q \<Rightarrow> addr option" and results :: "'q \<Rightarrow> int list"
  assumes space: "waiting q = None \<Longrightarrow> 0 < sq_space_left U (q, F)"
    and put: "waiting q = None \<Longrightarrow>
      \<exists>q'. put_sqe U s (q, F) = Some (q', F) \<and> waiting q' = Some (sqe_data s) \<and> results q' = results q"
    and wait: "waiting q = Some a \<Longrightarrow> results q = r # rs \<Longrightarrow>
      \<exists>n q' q''. 0 \<le> n \<and> retry_eintr (submit_and_wait U) ((q, F), e) = Some (n, (q', F), e) \<and>
        cq_ready U (q', F) = [\<lparr>user_data = a, cqe_res = r\<rparr>] \<and> cq_advance U 1 (q', F) = (q'', F) \<and>
        waiting q'' = None \<and> results q'' = rs"
begin

text \<open>The loop is resting with the operation of \<open>x\<close> in flight, or with nothing to wait for.\<close>

definition at_rest :: "(handle \<Rightarrow> addr) \<Rightarrow> ('v, 'e) frames \<Rightarrow> ('v, 'e) control \<Rightarrow> int list \<Rightarrow> ('q \<times> ('v, 'e) frames) IoContext \<Rightarrow> bool" where
  "at_rest op_of F ctl rs c \<longleftrightarrow>
     snd (c_ring c) = F \<and> results (fst (c_ring c)) = rs \<and> \<not> c_shutdown_requested c \<and> \<not> ext_hint (c_ext c) \<and>
     (case ctl of
        Blocked x \<Rightarrow> waiting (fst (c_ring c)) = Some (op_of x) \<and> pending_ok (c_pending c) [op_of x] \<and> handle_of c (op_of x) = Some x
      | _ \<Rightarrow> waiting (fst (c_ring c)) = None \<and> pending_ok (c_pending c) [])"

lemma start_waiting_rests:
  assumes "at_rest op_of F Idle rs c" and "ctl = Idle \<or> (\<exists>x. ctl = Blocked x)"
  shows "at_rest op_of F ctl rs (start_waiting U op_of prep ctl c)"
proof (cases "ctl = Idle")
  case True
  then show ?thesis using assms(1) by (simp add: start_waiting_def)
next
  case False
  then obtain x where x: "ctl = Blocked x" using assms(2) by auto
  obtain q where q: "c_ring c = (q, F)" using assms(1) by (cases "c_ring c") (auto simp: at_rest_def)
  have c: "waiting q = None" "pending_ok (c_pending c) []" "results q = rs" "\<not> c_shutdown_requested c" "\<not> ext_hint (c_ext c)"
    using assms(1) q by (auto simp: at_rest_def)
  let ?s = "(prep x)\<lparr>sqe_data := op_of x\<rparr>" and ?c = "start_op (op_of x) x c"
  obtain q' where q': "put_sqe U ?s (q, F) = Some (q', F)" "waiting q' = Some (op_of x)" "results q' = rs"
    using put [OF c(1), of ?s F] c(3) by auto
  have fields: "c_ring ?c = (q, F)" "c_shutdown_requested ?c = c_shutdown_requested c" "c_ext ?c = c_ext c"
    using q by (simp_all add: start_op_def split: prod.splits)
  have "EnsureSqes U 1 ?c = (Inr (), ?c)" using space [OF c(1), of F] fields(1) by (simp add: EnsureSqes_def)
  then have "snd (UringOp_await_suspend U (op_of x) (prep x) x c) = ?c\<lparr>c_ring := (q', F)\<rparr>"
    using q'(1) fields(1) by (simp add: UringOp_await_suspend_def)
  moreover have "pending_ok (c_pending ?c) [op_of x]" using start_op_ok [OF c(2)] by simp
  moreover have "handle_of ?c (op_of x) = Some x"
    using c(2) by (auto simp: handle_of_def start_op_def Track_def Let_def split: prod.splits option.splits)
  ultimately show ?thesis using x q' c fields by (simp add: at_rest_def start_waiting_def handle_of_def)
qed

lemma resume_rests:
  assumes "at_rest op_of F Idle rs c" and "co_run alloc F (co_start F h (conv (res_of c (op_of h)))) = Some (F', ctl)"
    and "ctl = Idle \<or> (\<exists>x. ctl = Blocked x)"
  shows "at_rest op_of F' ctl rs (resume_task U alloc op_of prep conv h c)"
proof -
  obtain q where q: "c_ring c = (q, F)" using assms(1) by (cases "c_ring c") (auto simp: at_rest_def)
  have "at_rest op_of F' Idle rs (c\<lparr>c_ring := (q, F')\<rparr>)" using assms(1) q by (auto simp: at_rest_def)
  then show ?thesis using start_waiting_rests assms(2,3) q by (simp add: resume_task_def)
qed

text \<open>One round of the loop gives the result to the operation and resumes its frame.\<close>

lemma Step_rests:
  assumes "at_rest op_of F (Blocked x) (r # rs) c" and "WAKE_TAG < op_of x" and "\<not> Task_Done (Some x) F"
  shows "\<exists>c1. Step U (task_coroutines U alloc op_of prep conv) c = Some (resume_task U alloc op_of prep conv x c1) \<and>
    at_rest op_of F Idle rs c1 \<and> res_of c1 (op_of x) = r"
proof -
  obtain q where q: "c_ring c = (q, F)" using assms(1) by (cases "c_ring c") (auto simp: at_rest_def)
  have c: "waiting q = Some (op_of x)" "results q = r # rs" "pending_ok (c_pending c) [op_of x]" "handle_of c (op_of x) = Some x"
      "\<not> c_shutdown_requested c" "\<not> ext_hint (c_ext c)"
    using assms(1) q by (auto simp: at_rest_def)
  obtain n q1 q2 where w: "0 \<le> n" "retry_eintr (submit_and_wait U) ((q, F), c_ext c) = Some (n, (q1, F), c_ext c)"
      "cq_ready U (q1, F) = [\<lparr>user_data = op_of x, cqe_res = r\<rparr>]" "cq_advance U 1 (q1, F) = (q2, F)" "waiting q2 = None" "results q2 = rs"
    using wait [OF c(1,2)] by blast
  obtain m p where mp: "Untrack (op_of x) (c_pending c) = (m, p)" by (metis surj_pair)
  let ?m = "m(op_of x := (m (op_of x))\<lparr>op_res := r\<rparr>)"
  have ok: "pending_ok (?m, p) []"
    using pending_ok_cong [OF pending.untrack_ok [OF c(3), of "op_of x", unfolded mp], of ?m] by simp
  have h: "op_handle (m (op_of x)) = Some x"
    using c(4) mp by (auto simp: handle_of_def Untrack_def Let_def split: prod.splits option.splits if_splits)
  let ?c1 = "c\<lparr>c_pending := (?m, p), c_ready := [Some x], c_ring := (q2, F)\<rparr>"
  have "Step U (task_coroutines U alloc op_of prep conv) c = Some (resume_task U alloc op_of prep conv x ?c1)"
    using q w c(6) mp h assms(2,3)
    by (simp add: Step_def ProcessReadyCompletions_def Let_def WAKE_TAG_def task_coroutines_def)
  moreover have "at_rest op_of F Idle rs ?c1" using w(5,6) ok c(5,6) by (simp add: at_rest_def)
  ultimately show ?thesis by (auto simp: res_of_def)
qed

text \<open>The loop goes on until the task has all the results it asks for.\<close>

lemma loop_completes:
  assumes root: "new_root alloc F0 h b" and wake: "\<And>x. WAKE_TAG < op_of x"
    and "direct b (map conv (pre @ rs)) = Some (r, [])"
    and "reaches alloc (F0, Resume h, map conv pre) (F, ctl, [])" and "rests_at F0 h b (map conv pre) F ctl"
    and "at_rest op_of F ctl rs c"
  shows "\<exists>c'. run_loop (\<lambda>c. \<not> c_shutdown_requested c \<and> \<not> co_done (task_coroutines U alloc op_of prep conv) h c)
      (Step U (task_coroutines U alloc op_of prep conv)) c = Some c' \<and>
    Task_Result h (snd (c_ring c')) = Some r \<and> pending_ok (c_pending c') [] \<and> (\<forall>x. x \<noteq> h \<longrightarrow> snd (c_ring c') x = F0 x)"
  using assms(3-)
proof (induction rs arbitrary: pre F ctl c)
  case Nil
  then have d: "direct b (map conv pre) = Some (r, [])" by simp
  then have F: "ctl = Idle" "Task_Done (Some h) F" "Task_Result h F = Some r" "\<forall>x. x \<noteq> h \<longrightarrow> F x = F0 x"
    using Nil.prems(3) by (auto simp: rests_at_def)
  then show ?case using Nil.prems(4) by (subst run_loop.simps) (auto simp: task_coroutines_def at_rest_def)
next
  case (Cons q rs)
  have "direct b (map conv pre) = None"
  proof (rule ccontr)
    assume "direct b (map conv pre) \<noteq> None"
    then obtain r' rest where "direct b (map conv pre) = Some (r', rest)" by auto
    then show False using direct_more [of b "map conv pre" r' rest "map conv (q # rs)"] Cons.prems(1) by simp
  qed
  then obtain x where x: "ctl = Blocked x" "\<not> Task_Done (Some h) F" using Cons.prems(3) by (auto simp: rests_at_def)
  obtain F' ctl' where run: "co_run alloc F (co_start F x (conv q)) = Some (F', ctl')"
      "reaches alloc (F0, Resume h, map conv pre @ [conv q]) (F', ctl', [])" "rests_at F0 h b (map conv pre @ [conv q]) F' ctl'"
      "\<not> Task_Done (Some x) F"
    using co_round [OF root Cons.prems(2) [unfolded x(1)]] by blast
  obtain c1 where c1: "Step U (task_coroutines U alloc op_of prep conv) c = Some (resume_task U alloc op_of prep conv x c1)"
      "at_rest op_of F Idle rs c1" "res_of c1 (op_of x) = q"
    using Step_rests [OF Cons.prems(4) [unfolded x(1)] wake run(4)] by blast
  have "ctl' = Idle \<or> (\<exists>y. ctl' = Blocked y)" using run(3) by (auto simp: rests_at_def split: option.splits)
  then have "at_rest op_of F' ctl' rs (resume_task U alloc op_of prep conv x c1)" using resume_rests [OF c1(2)] run(1) c1(3) by blast
  moreover have "direct b (map conv ((pre @ [q]) @ rs)) = Some (r, [])" using Cons.prems(1) by simp
  ultimately obtain c' where c': "run_loop (\<lambda>c. \<not> c_shutdown_requested c \<and> \<not> co_done (task_coroutines U alloc op_of prep conv) h c)
        (Step U (task_coroutines U alloc op_of prep conv)) (resume_task U alloc op_of prep conv x c1) = Some c'"
      "Task_Result h (snd (c_ring c')) = Some r" "pending_ok (c_pending c') []" "\<forall>x. x \<noteq> h \<longrightarrow> snd (c_ring c') x = F0 x"
    using Cons.IH [of "pre @ [q]" F' ctl'] run(2,3) by auto
  have "\<not> c_shutdown_requested c \<and> \<not> co_done (task_coroutines U alloc op_of prep conv) h c"
    using Cons.prems(4) x(2) by (auto simp: at_rest_def task_coroutines_def)
  then show ?case using c' c1(1) by (subst run_loop.simps) simp
qed

lemma RunUntilDone_computes:
  assumes root: "new_root alloc (snd (c_ring c)) h b" and wake: "\<And>x. WAKE_TAG < op_of x"
    and ring: "waiting (fst (c_ring c)) = None" "pending_ok (c_pending c) []" "\<not> c_shutdown_requested c" "\<not> ext_hint (c_ext c)"
    and result: "direct b (map conv (results (fst (c_ring c)))) = Some (r, [])"
  shows "\<exists>c'. RunUntilDone U (task_coroutines U alloc op_of prep conv) h c = Some c' \<and>
    Task_Result h (snd (c_ring c')) = Some r \<and> pending_ok (c_pending c') [] \<and> (\<forall>x. x \<noteq> h \<longrightarrow> snd (c_ring c') x = snd (c_ring c) x)"
proof -
  let ?F = "snd (c_ring c)" and ?rs = "results (fst (c_ring c))" and ?c = "c\<lparr>c_running := True\<rparr>"
  obtain F' ctl where first: "co_run alloc ?F (co_start ?F h (conv (res_of ?c (op_of h)))) = Some (F', ctl)"
      "reaches alloc (?F, Resume h, []) (F', ctl, [])" "rests_at ?F h b [] F' ctl"
    using co_first [OF root] by blast
  have "ctl = Idle \<or> (\<exists>y. ctl = Blocked y)" using first(3) by (auto simp: rests_at_def split: option.splits)
  moreover have "at_rest op_of ?F Idle ?rs ?c" using ring by (simp add: at_rest_def)
  ultimately have rest: "at_rest op_of F' ctl ?rs (resume_task U alloc op_of prep conv h ?c)" using resume_rests first(1) by blast
  have "\<not> Task_Done (Some h) ?F" using root by (simp add: new_root_def Task_Done_def get_return_object_def)
  then have "task_resume (task_coroutines U alloc op_of prep conv) h ?c = resume_task U alloc op_of prep conv h ?c"
    by (simp add: task_resume_def task_coroutines_def)
  then show ?thesis
    using loop_completes [OF root wake, of conv "[]" ?rs r F' ctl] result first(2,3) rest by (simp add: RunUntilDone_def)
qed

end

section \<open>A scripted ring\<close>

record script =
  sc_waiting :: "addr option"
  sc_results :: "int list"
  sc_cq :: "cqe list"

definition script_wait :: "script \<Rightarrow> script" where
  "script_wait q =
     (case (sc_waiting q, sc_results q) of
        (Some a, r # rs) \<Rightarrow> \<lparr>sc_waiting = None, sc_results = rs, sc_cq = [\<lparr>user_data = a, cqe_res = r\<rparr>]\<rparr>
      | _ \<Rightarrow> q)"

definition script_uring :: "(script \<times> ('v, 'e) frames) liburing" where
  "script_uring =
     \<lparr>sq_space_left = (\<lambda>_. 1),
      put_sqe = (\<lambda>s (q, F). Some (q\<lparr>sc_waiting := Some (sqe_data s)\<rparr>, F)),
      submit = id,
      submit_and_wait = (\<lambda>((q, F), e). (1, (script_wait q, F), e)),
      wait_cqe = (\<lambda>((q, F), e). (0, (script_wait q, F), e)),
      cq_ready = (\<lambda>(q, F). sc_cq q),
      cq_advance = (\<lambda>n (q, F). (q\<lparr>sc_cq := drop n (sc_cq q)\<rparr>, F))\<rparr>"

interpretation script: one_op_ring script_uring sc_waiting sc_results
proof unfold_locales
  fix q :: script and a r rs and F :: "('v, 'e) frames" and e :: ext
  assume q: "sc_waiting q = Some a" "sc_results q = r # rs"
  let ?q = "\<lparr>sc_waiting = None, sc_results = rs, sc_cq = [\<lparr>user_data = a, cqe_res = r\<rparr>]\<rparr>"
  have "retry_eintr (submit_and_wait script_uring) ((q, F), e) = Some (1, (?q, F), e)"
    using q by (subst retry_eintr.simps) (simp add: script_uring_def script_wait_def EINTR_def)
  then show "\<exists>n q' q''. 0 \<le> n \<and> retry_eintr (submit_and_wait script_uring) ((q, F), e) = Some (n, (q', F), e) \<and>
      cq_ready script_uring (q', F) = [\<lparr>user_data = a, cqe_res = r\<rparr>] \<and> cq_advance script_uring 1 (q', F) = (q'', F) \<and>
      sc_waiting q'' = None \<and> sc_results q'' = rs"
    by (intro exI [of _ 1] exI [of _ ?q] exI [of _ "?q\<lparr>sc_cq := []\<rparr>"]) (simp add: script_uring_def)
qed (auto simp: script_uring_def)


definition script_context :: "int list \<Rightarrow> (int, string) body \<Rightarrow> (script \<times> (int, string) frames) IoContext" where
  "script_context rs b =
     \<lparr>c_ring = (\<lparr>sc_waiting = None, sc_results = rs, sc_cq = []\<rparr>, [4 \<mapsto> get_return_object b]), c_ready = [],
      c_pending = (\<lambda>_. mk_OperationState, None), c_running = False, c_shutdown_requested = False, c_wake_fd = 3,
      c_ext = \<lparr>ext_done = [], ext_wake_pending = False, ext_hint = False\<rparr>\<rparr>"


end
