(* ===== verification/Signals.thy ===== *)
theory Signals
  imports Net Uring_Ops
begin

text \<open>
  Event counters: \<^verbatim>\<open>SignalSet\<close>, \<^verbatim>\<open>Notifier\<close> and \<^verbatim>\<open>RingWaker\<close> of \<^verbatim>\<open>include/kio/core/core.hpp\<close>. The system calls are the
  fields of the record \<open>sigsys\<close> over a type of worlds. A \<^verbatim>\<open>SignalSet\<close> is known by its descriptor; \<^verbatim>\<open>instance_\<close>, the one
  the handler writes to, is that descriptor or nothing.
\<close>

datatype action = SIG_DFL | SIG_IGN | OtherHandler nat | SignalHandler_installed

record 'w sigsys =
  sys_eventfd :: "('w, int) call"
  sys_close_fd :: "int \<Rightarrow> 'w \<Rightarrow> 'w"
  sys_sigaction :: "int \<Rightarrow> action \<Rightarrow> ('w, action) call"
  sys_write8 :: "int \<Rightarrow> u64 \<Rightarrow> 'w \<Rightarrow> bool \<times> 'w"
  sys_read8 :: "int \<Rightarrow> 'w \<Rightarrow> u64 option \<times> 'w"

section \<open>Signal sets\<close>

record SignalSet =
  ss_fd :: int
  old_actions :: "(int \<times> action) list"

fun install :: "'w sigsys \<Rightarrow> int list \<Rightarrow> (int \<times> action) list \<Rightarrow> ('w, (int \<times> action) list) call" where
  "install K [] old w = (Inr old, w)"
| "install K (sig # sigs) old w =
     (case sys_sigaction K sig SignalHandler_installed w of
        (Inl e, w') \<Rightarrow> (Inl e, w')
      | (Inr old_action, w') \<Rightarrow> install K sigs (old @ [(sig, old_action)]) w')"

definition mk_SignalSet :: "'w sigsys \<Rightarrow> int list \<Rightarrow> int option \<times> 'w \<Rightarrow> (int + SignalSet) \<times> int option \<times> 'w" where
  "mk_SignalSet K sigs s =
     (case s of (instance_, w) \<Rightarrow>
       (case sys_eventfd K w of
          (Inl e, w1) \<Rightarrow> (Inl e, instance_, w1)
        | (Inr fd, w1) \<Rightarrow>
            (case install K sigs [] w1 of
               (Inl e, w2) \<Rightarrow> (Inl e, None, sys_close_fd K fd w2)
             | (Inr old, w2) \<Rightarrow> (Inr \<lparr>ss_fd = fd, old_actions = old\<rparr>, Some fd, w2))))"

fun restore :: "'w sigsys \<Rightarrow> (int \<times> action) list \<Rightarrow> 'w \<Rightarrow> 'w" where
  "restore K [] w = w"
| "restore K ((sig, old_action) # old) w = restore K old (snd (sys_sigaction K sig old_action w))"

definition SignalSet_end :: "'w sigsys \<Rightarrow> SignalSet \<Rightarrow> int option \<times> 'w \<Rightarrow> int option \<times> 'w" where
  "SignalSet_end K S s =
     (let w = restore K (old_actions S) (snd s) in (None, if 0 \<le> ss_fd S then sys_close_fd K (ss_fd S) w else w))"

definition SignalHandler :: "'w sigsys \<Rightarrow> int \<Rightarrow> int option \<times> 'w \<Rightarrow> int option \<times> 'w" where
  "SignalHandler K sig s =
     (case s of
        (Some fd, w) \<Rightarrow> (Some fd, snd (sys_write8 K fd (of_int sig) w))
      | (None, w) \<Rightarrow> (None, w))"

text \<open>A signal arrives; \<open>actions\<close> says what is installed for it.\<close>

definition deliver :: "('w \<Rightarrow> int \<Rightarrow> action) \<Rightarrow> 'w sigsys \<Rightarrow> int \<Rightarrow> int option \<times> 'w \<Rightarrow> int option \<times> 'w" where
  "deliver actions K sig s = (if actions (snd s) sig = SignalHandler_installed then SignalHandler K sig s else s)"

section \<open>Notifiers\<close>

definition mk_Notifier :: "'w sigsys \<Rightarrow> ('w, int) call" where
  "mk_Notifier K = sys_eventfd K"

definition Notifier_end :: "'w sigsys \<Rightarrow> int \<Rightarrow> 'w \<Rightarrow> 'w" where
  "Notifier_end K fd w = (if 0 \<le> fd then sys_close_fd K fd w else w)"

definition Notifier_move :: "int \<Rightarrow> int \<times> int" where
  "Notifier_move other = (other, - 1)"

definition Notifier_move_assign :: "'w sigsys \<Rightarrow> int \<Rightarrow> int \<Rightarrow> 'w \<Rightarrow> (int \<times> int) \<times> 'w" where
  "Notifier_move_assign K this other w = ((other, - 1), if 0 \<le> this then sys_close_fd K this w else w)"

definition Notifier_Signal :: "'w sigsys \<Rightarrow> int \<Rightarrow> u64 \<Rightarrow> 'w \<Rightarrow> 'w" where
  "Notifier_Signal K fd n w = snd (sys_write8 K fd n w)"

definition Wake :: "'w sigsys \<Rightarrow> int \<Rightarrow> 'w \<Rightarrow> bool \<times> 'w" where
  "Wake K wake_fd = sys_write8 K wake_fd 1"

section \<open>Event counters\<close>

text \<open>
  What the system promises: \<open>actions\<close> is the table of signal handlers, \<open>counter\<close> the value of every open
  event counter. A write adds to the counter as long as the sum can be represented, a read takes everything.
\<close>

locale signal_system =
  fixes K :: "'w sigsys" and actions :: "'w \<Rightarrow> int \<Rightarrow> action" and counter :: "'w \<Rightarrow> int \<Rightarrow> nat option"
  assumes eventfd_fails: "sys_eventfd K w = (Inl e, w') \<Longrightarrow> actions w' = actions w \<and> counter w' = counter w"
    and eventfd_opens: "sys_eventfd K w = (Inr fd, w') \<Longrightarrow>
      0 \<le> fd \<and> counter w fd = None \<and> actions w' = actions w \<and> counter w' = (counter w)(fd \<mapsto> 0)"
    and close_forgets: "actions (sys_close_fd K fd w) = actions w" "counter (sys_close_fd K fd w) = (counter w)(fd := None)"
    and sigaction_fails: "sys_sigaction K sig a w = (Inl e, w') \<Longrightarrow> actions w' = actions w \<and> counter w' = counter w"
    and sigaction_sets: "sys_sigaction K sig a w = (Inr old, w') \<Longrightarrow>
      old = actions w sig \<and> actions w' = (actions w)(sig := a) \<and> counter w' = counter w"
    and sigaction_again: "sys_sigaction K sig a w = (Inr old, w') \<Longrightarrow> \<exists>old' w''. sys_sigaction K sig b u = (Inr old', w'')"
    and write_actions: "actions (snd (sys_write8 K fd v w)) = actions w"
    and write_other: "fd' \<noteq> fd \<Longrightarrow> counter (snd (sys_write8 K fd v w)) fd' = counter w fd'"
    and write_open: "counter w fd \<noteq> None \<Longrightarrow> counter (snd (sys_write8 K fd v w)) fd \<noteq> None"
    and write_adds: "counter w fd = Some n \<Longrightarrow> n + unat v < 2 ^ 64 - 1 \<Longrightarrow>
      fst (sys_write8 K fd v w) \<and> counter (snd (sys_write8 K fd v w)) fd = Some (n + unat v)"
    and read_takes: "counter w fd = Some n \<Longrightarrow> 0 < n \<Longrightarrow> \<exists>w'. sys_read8 K fd w = (Some (of_nat n), w') \<and> counter w' fd = Some 0"
begin

lemma install_facts:
  assumes "install K sigs old w = (Inr new, w')" and "distinct sigs"
  shows "new = old @ map (\<lambda>s. (s, actions w s)) sigs \<and> counter w' = counter w \<and>
    actions w' = (\<lambda>s. if s \<in> set sigs then SignalHandler_installed else actions w s) \<and>
    (\<forall>s \<in> set sigs. \<forall>b v. \<exists>o' w''. sys_sigaction K s b v = (Inr o', w''))"
  using assms
proof (induction sigs arbitrary: old w)
  case (Cons s sigs)
  obtain q w1 where q: "sys_sigaction K s SignalHandler_installed w = (q, w1)" by (metis surj_pair)
  then obtain a where a: "q = Inr a" using Cons.prems(1) by (cases q) auto
  have w1: "a = actions w s" "actions w1 = (actions w)(s := SignalHandler_installed)" "counter w1 = counter w"
    using sigaction_sets q a by auto
  have "map (\<lambda>s. (s, actions w1 s)) sigs = map (\<lambda>s. (s, actions w s)) sigs" using Cons.prems(2) w1(2) by auto
  moreover have "\<forall>b v. \<exists>o' w''. sys_sigaction K s b v = (Inr o', w'')" using sigaction_again q a by blast
  ultimately show ?case using Cons.IH [of "old @ [(s, a)]" w1] Cons.prems q a w1 by (auto simp: fun_eq_iff)
qed auto

lemma restore_facts:
  assumes "\<forall>(s, a) \<in> set old. \<forall>b v. \<exists>o' w''. sys_sigaction K s b v = (Inr o', w'')" and "distinct (map fst old)"
  shows "counter (restore K old w) = counter w \<and>
    actions (restore K old w) = (\<lambda>s. case map_of old s of Some a \<Rightarrow> a | None \<Rightarrow> actions w s)"
  using assms
proof (induction old arbitrary: w)
  case (Cons p old)
  obtain s a where p: "p = (s, a)" by (cases p)
  then obtain b w1 where q: "sys_sigaction K s a w = (Inr b, w1)" using Cons.prems(1) by fastforce
  have w1: "actions w1 = (actions w)(s := a)" "counter w1 = counter w" using sigaction_sets [OF q] by auto
  have s: "map_of old s = None" using Cons.prems(2) p by (simp add: map_of_eq_None_iff)
  show ?case using Cons.IH [of w1] Cons.prems p q w1 s by (auto simp: fun_eq_iff split: option.split)
qed simp

lemma deliver_facts:
  assumes "deliver actions K sig (Some fd, w) = (i, w')"
  shows "i = Some fd" and "actions w' = actions w" and "fd' \<noteq> fd \<Longrightarrow> counter w' fd' = counter w fd'"
    and "counter w fd \<noteq> None \<Longrightarrow> counter w' fd \<noteq> None"
  using assms write_actions write_other write_open by (auto simp: deliver_def SignalHandler_def split: if_splits)

lemma delivers_facts:
  assumes "fold (deliver actions K) ds (Some fd, w) = (i, w')"
  shows "i = Some fd \<and> actions w' = actions w \<and> (\<forall>fd'. fd' \<noteq> fd \<longrightarrow> counter w' fd' = counter w fd')"
  using assms
proof (induction ds arbitrary: w)
  case (Cons d ds)
  obtain j w1 where j: "deliver actions K d (Some fd, w) = (j, w1)" by (metis surj_pair)
  show ?case using Cons.IH [of w1] Cons.prems j deliver_facts [OF j] by auto
qed simp

lemma delivers_count:
  assumes "counter w fd = Some n" and "\<forall>d \<in> set ds. actions w d = SignalHandler_installed \<and> 0 < d"
    and "int n + sum_list ds < 2 ^ 64 - 1" and "fold (deliver actions K) ds (Some fd, w) = (i, w')"
  shows "counter w' fd = Some (n + nat (sum_list ds))"
  using assms
proof (induction ds arbitrary: w n)
  case (Cons d ds)
  have pos: "0 \<le> sum_list ds" using Cons.prems(2) by (intro sum_list_nonneg) force
  have d: "0 < d" "int n + d < 2 ^ 64 - 1" using Cons.prems(2,3) pos by simp_all
  have u: "unat (of_int d :: u64) = nat d" using d by (simp add: unat_eq_nat_uint uint_word_of_int)
  let ?w = "snd (sys_write8 K fd (of_int d) w)"
  have step: "deliver actions K d (Some fd, w) = (Some fd, ?w)" using Cons.prems(2) by (simp add: deliver_def SignalHandler_def)
  have "n + unat (of_int d :: u64) < 2 ^ 64 - 1" using d u by simp
  then have "counter ?w fd = Some (n + nat d)" using write_adds Cons.prems(1) u by metis
  then show ?case
    using Cons.IH [of ?w "n + nat d"] Cons.prems step write_actions d(1) pos by (simp add: nat_add_distrib)
qed simp

lemma SignalSet_created:
  assumes "mk_SignalSet K sigs (inst, w) = (Inr S, s)" and "distinct sigs"
  shows "\<exists>w2. s = (Some (ss_fd S), w2) \<and> 0 \<le> ss_fd S \<and> counter w (ss_fd S) = None \<and>
    counter w2 = (counter w)(ss_fd S \<mapsto> 0) \<and> old_actions S = map (\<lambda>x. (x, actions w x)) sigs \<and>
    actions w2 = (\<lambda>x. if x \<in> set sigs then SignalHandler_installed else actions w x) \<and>
    (\<forall>x \<in> set sigs. \<forall>b v. \<exists>o' w''. sys_sigaction K x b v = (Inr o', w''))"
proof -
  obtain q w1 where q: "sys_eventfd K w = (q, w1)" by (metis surj_pair)
  then obtain fd where fd: "q = Inr fd" using assms(1) by (cases q) (auto simp: mk_SignalSet_def)
  obtain r w2 where r: "install K sigs [] w1 = (r, w2)" by (metis surj_pair)
  then obtain old where old: "r = Inr old" using assms(1) q fd by (cases r) (auto simp: mk_SignalSet_def)
  have w1: "0 \<le> fd" "counter w fd = None" "actions w1 = actions w" "counter w1 = (counter w)(fd \<mapsto> 0)"
    using eventfd_opens q fd by auto
  have S: "S = \<lparr>ss_fd = fd, old_actions = old\<rparr>" "s = (Some fd, w2)" using assms(1) q fd r old by (auto simp: mk_SignalSet_def)
  show ?thesis using install_facts [OF r [unfolded old] assms(2), unfolded w1(3,4)] w1(1,2) S by simp
qed

lemma SignalSet_restores:
  assumes "mk_SignalSet K sigs (inst, w) = (Inr S, s)" and "distinct sigs"
    and "SignalSet_end K S (fold (deliver actions K) ds s) = (i, w')"
  shows "i = None \<and> actions w' = actions w \<and> counter w' = counter w"
proof -
  obtain w2 where w2: "s = (Some (ss_fd S), w2)" "0 \<le> ss_fd S" "counter w (ss_fd S) = None" "counter w2 = (counter w)(ss_fd S \<mapsto> 0)"
      "old_actions S = map (\<lambda>x. (x, actions w x)) sigs"
      "actions w2 = (\<lambda>x. if x \<in> set sigs then SignalHandler_installed else actions w x)"
      "\<forall>x \<in> set sigs. \<forall>b v. \<exists>o' w''. sys_sigaction K x b v = (Inr o', w'')"
    using SignalSet_created [OF assms(1,2)] by blast
  obtain j w3 where j: "fold (deliver actions K) ds (Some (ss_fd S), w2) = (j, w3)" by (metis surj_pair)
  note w3 = delivers_facts [OF j]
  have "\<forall>(x, a) \<in> set (old_actions S). \<forall>b v. \<exists>o' w''. sys_sigaction K x b v = (Inr o', w'')" using w2(5,7) by auto
  moreover have "distinct (map fst (old_actions S))" using w2(5) assms(2) by (simp add: o_def)
  ultimately have w4: "counter (restore K (old_actions S) w3) = counter w3"
      "actions (restore K (old_actions S) w3) = (\<lambda>x. case map_of (old_actions S) x of Some a \<Rightarrow> a | None \<Rightarrow> actions w3 x)"
    using restore_facts by blast+
  have "actions (restore K (old_actions S) w3) = actions w"
    unfolding w4(2) using w2(5,6) w3 by (auto simp: fun_eq_iff map_of_map_restrict restrict_map_def split: option.split if_splits)
  moreover have "(counter w3)(ss_fd S := None) = counter w" using w3 w2(3,4) by (auto simp: fun_eq_iff)
  ultimately show ?thesis
    using assms(3) j w2(1,2) w4(1) close_forgets by (auto simp: SignalSet_end_def Let_def)
qed

lemma signals_accumulate:
  assumes "mk_SignalSet K sigs (inst, w) = (Inr S, s)" and "distinct sigs" and "set ds \<subseteq> set sigs" and "\<forall>d \<in> set ds. 0 < d"
    and "ds \<noteq> []" and "sum_list ds < 2 ^ 64 - 1"
  shows "fst (sys_read8 K (ss_fd S) (snd (fold (deliver actions K) ds s))) = Some (of_int (sum_list ds))"
proof -
  obtain w2 where w2: "s = (Some (ss_fd S), w2)" "counter w2 (ss_fd S) = Some 0"
      "\<forall>x \<in> set sigs. actions w2 x = SignalHandler_installed"
    using SignalSet_created [OF assms(1,2)] by auto
  obtain j w3 where j: "fold (deliver actions K) ds (Some (ss_fd S), w2) = (j, w3)" by (metis surj_pair)
  have installed: "\<forall>d \<in> set ds. actions w2 d = SignalHandler_installed \<and> 0 < d" using w2(3) assms(3,4) by auto
  have "counter w3 (ss_fd S) = Some (nat (sum_list ds))"
    using delivers_count [OF w2(2) installed _ j] assms(6) by simp
  moreover have "0 < sum_list ds"
  proof (cases ds)
    case (Cons d es)
    have "0 \<le> sum_list es" using assms(4) Cons by (intro sum_list_nonneg) force
    then show ?thesis using assms(4) Cons by simp
  qed (use assms(5) in simp)
  ultimately show ?thesis using read_takes [of w3 "ss_fd S" "nat (sum_list ds)"] w2(1) j by auto
qed

end

lemma sint_low_word:
  assumes "0 \<le> n" and "n < 2 ^ 31"
  shows "sint (ucast (of_int n :: u64) :: 32 word) = n"
proof -
  have "(ucast (of_int n :: u64) :: 32 word) = of_int n" by transfer simp
  moreover have "sint (of_int n :: 32 word) = n" using assms by transfer (simp add: signed_take_bit_int_eq_self)
  ultimately show ?thesis by simp
qed

text \<open>A system that refuses to change signal 9.\<close>

record demo_sig =
  dg_actions :: "int \<Rightarrow> action"
  dg_counter :: "int \<Rightarrow> nat option"
  dg_next :: int

definition demo_sigsys :: "demo_sig sigsys" where
  "demo_sigsys =
     \<lparr>sys_eventfd = (\<lambda>w. if 0 \<le> dg_next w \<and> dg_counter w (dg_next w) = None
                         then (Inr (dg_next w), w\<lparr>dg_counter := (dg_counter w)(dg_next w \<mapsto> 0), dg_next := dg_next w + 1\<rparr>) else (Inl 24, w)),
      sys_close_fd = (\<lambda>fd w. w\<lparr>dg_counter := (dg_counter w)(fd := None)\<rparr>),
      sys_sigaction = (\<lambda>sig a w. if sig = 9 then (Inl 22, w) else (Inr (dg_actions w sig), w\<lparr>dg_actions := (dg_actions w)(sig := a)\<rparr>)),
      sys_write8 = (\<lambda>fd v w. case dg_counter w fd of
          Some n \<Rightarrow> if n + unat v < 2 ^ 64 - 1 then (True, w\<lparr>dg_counter := (dg_counter w)(fd \<mapsto> n + unat v)\<rparr>) else (False, w)
        | None \<Rightarrow> (False, w)),
      sys_read8 = (\<lambda>fd w. case dg_counter w fd of
          Some n \<Rightarrow> if 0 < n then (Some (of_nat n), w\<lparr>dg_counter := (dg_counter w)(fd \<mapsto> 0)\<rparr>) else (None, w)
        | None \<Rightarrow> (None, w))\<rparr>"

interpretation demo_signals: signal_system demo_sigsys dg_actions dg_counter
  by unfold_locales (auto simp: demo_sigsys_def split: if_splits option.splits)

definition demo_signal_start :: demo_sig where
  "demo_signal_start = \<lparr>dg_actions = (\<lambda>_. SIG_DFL), dg_counter = (\<lambda>_. None), dg_next = 5\<rparr>"

text \<open>
  A \<^verbatim>\<open>SignalSet\<close> over different signals is undone by its destruction: whatever signals arrived in between, the
  table of handlers is what it was before, no event counter is left open, and no handler writes to
  the destroyed object.
\<close>

theorem signal_set_restores:
  assumes "signal_system K actions counter" and "mk_SignalSet K sigs (inst, w) = (Inr S, s)" and "distinct sigs"
    and "SignalSet_end K S (fold (deliver actions K) ds s) = (i, w')"
  shows "i = None \<and> actions w' = actions w \<and> counter w' = counter w"
  by (rule signal_system.SignalSet_restores [OF assms])

theorem signal_set_restores_witness:
  "\<exists>S s. mk_SignalSet demo_sigsys [2, 15] (None, demo_signal_start) = (Inr S, s) \<and>
     dg_actions (snd (SignalSet_end demo_sigsys S (fold (deliver dg_actions demo_sigsys) [15, 2, 15] s))) = (\<lambda>_. SIG_DFL)"
proof -
  obtain r s where m: "mk_SignalSet demo_sigsys [2, 15] (None, demo_signal_start) = (r, s)" by (metis surj_pair)
  then obtain S where S: "r = Inr S" by (cases r) (auto simp: mk_SignalSet_def demo_sigsys_def demo_signal_start_def)
  obtain i w' where e: "SignalSet_end demo_sigsys S (fold (deliver dg_actions demo_sigsys) [15, 2, 15] s) = (i, w')" by (metis surj_pair)
  have "dg_actions w' = dg_actions demo_signal_start"
    using signal_set_restores [OF demo_signals.signal_system_axioms m [unfolded S] _ e] by simp
  then show ?thesis using m S e by (auto simp: demo_signal_start_def)
qed

text \<open>
  What a wait for signals reports is the sum of the numbers of all signals that arrived since the last
  wait: the signal itself when only one did, and another number otherwise.
\<close>

theorem signals_add_up:
  assumes "signal_system K actions counter" and "mk_SignalSet K sigs (inst, w) = (Inr S, s)" and "distinct sigs"
    and "set ds \<subseteq> set sigs" and "\<forall>d \<in> set ds. 0 < d" and "ds \<noteq> []" and "sum_list ds < 2 ^ 31"
  shows "\<exists>signo. fst (sys_read8 K (ss_fd S) (snd (fold (deliver actions K) ds s))) = Some signo \<and>
    op_resume (WaitSignalOp (ss_fd S) signo) 8 = Inr (sum_list ds)"
proof -
  have "fst (sys_read8 K (ss_fd S) (snd (fold (deliver actions K) ds s))) = Some (of_int (sum_list ds))"
    using signal_system.signals_accumulate [OF assms(1-6)] assms(7) by simp
  moreover have "0 \<le> sum_list ds" using assms(5) by (intro sum_list_nonneg) force
  then have "sint (ucast (of_int (sum_list ds) :: u64) :: 32 word) = sum_list ds" using assms(7) by (rule sint_low_word)
  ultimately show ?thesis by (simp add: WaitSignalOp_def)
qed

theorem signals_add_up_witness:
  "\<exists>S s signo. mk_SignalSet demo_sigsys [2, 15] (None, demo_signal_start) = (Inr S, s) \<and>
     fst (sys_read8 demo_sigsys (ss_fd S) (snd (fold (deliver dg_actions demo_sigsys) [2, 15] s))) = Some signo \<and>
     op_resume (WaitSignalOp (ss_fd S) signo) 8 = Inr 17"
proof -
  obtain r s where m: "mk_SignalSet demo_sigsys [2, 15] (None, demo_signal_start) = (r, s)" by (metis surj_pair)
  then obtain S where S: "r = Inr S" by (cases r) (auto simp: mk_SignalSet_def demo_sigsys_def demo_signal_start_def)
  show ?thesis using signals_add_up [OF demo_signals.signal_system_axioms m [unfolded S], of "[2, 15]"] m S by auto
qed

end
