(* ===== verification/Worker.thy ===== *)
theory Worker
  imports Io_Context
begin

text \<open>
  Workers (\<^verbatim>\<open>Worker\<close> of \<^verbatim>\<open>include/kio/core/core.hpp\<close>): a thread with an event loop of its own that stops when
  its own stop source or a token given from outside asks it to. The thread, the threads that ask it to stop and the
  callbacks that these run are a step relation. A callback is \<^verbatim>\<open>RequestShutdown\<close>: it stores the flag,
  and in a later step it adds to the event counter the loop sleeps on. A callback that is registered after the
  request runs at once, in the thread that registers it; the end of a registration waits for callbacks that run.
\<close>

section \<open>The worker's thread\<close>

text \<open>
  Before the context exists; before the first and the second registration; about to test the flag;
  asleep in the loop; out of the loop; and gone.
\<close>

datatype wpc = WNew | WContext | WRegistered | WCheck | WStep | WLeaving | WDone

record worker_thread =
  wk_pc :: wpc
  wk_stop :: bool
  wk_ext_possible :: bool
  wk_ext_stop :: bool
  wk_shutdown :: bool
  wk_counter :: nat
  wk_storing :: nat
  wk_notifying :: nat

definition mk_Worker :: "bool \<Rightarrow> worker_thread" where
  "mk_Worker external =
     \<lparr>wk_pc = WNew, wk_stop = False, wk_ext_possible = external, wk_ext_stop = False, wk_shutdown = False, wk_counter = 0,
      wk_storing = 0, wk_notifying = 0\<rparr>"

text \<open>The callbacks that a request finds registered.\<close>

definition internal_registered :: "worker_thread \<Rightarrow> bool" where
  "internal_registered w \<longleftrightarrow> wk_pc w \<in> {WRegistered, WCheck, WStep, WLeaving}"

definition external_registered :: "worker_thread \<Rightarrow> bool" where
  "external_registered w \<longleftrightarrow> wk_ext_possible w \<and> wk_pc w \<in> {WCheck, WStep, WLeaving}"

definition stop_action :: "worker_thread \<Rightarrow> worker_thread" where
  "stop_action w = w\<lparr>wk_shutdown := True, wk_counter := wk_counter w + 1\<rparr>"

text \<open>\<^verbatim>\<open>RequestStop\<close>, and the same request through the external source. Only the first request counts.\<close>

definition RequestStop :: "worker_thread \<Rightarrow> worker_thread" where
  "RequestStop w =
     (if wk_stop w then w
      else w\<lparr>wk_stop := True, wk_storing := (if internal_registered w then wk_storing w + 1 else wk_storing w)\<rparr>)"

definition external_request :: "worker_thread \<Rightarrow> worker_thread" where
  "external_request w =
     (if wk_ext_stop w then w
      else w\<lparr>wk_ext_stop := True, wk_storing := (if external_registered w then wk_storing w + 1 else wk_storing w)\<rparr>)"

definition register_internal :: "worker_thread \<Rightarrow> worker_thread" where
  "register_internal w = (if wk_stop w then stop_action w else w)\<lparr>wk_pc := WRegistered\<rparr>"

definition register_external :: "worker_thread \<Rightarrow> worker_thread" where
  "register_external w = (if wk_ext_possible w \<and> wk_ext_stop w then stop_action w else w)\<lparr>wk_pc := WCheck\<rparr>"

inductive worker_step :: "worker_thread \<Rightarrow> worker_thread \<Rightarrow> bool" where
  create: "wk_pc w = WNew \<Longrightarrow> worker_step w (w\<lparr>wk_pc := WContext\<rparr>)"
| reg_internal: "wk_pc w = WContext \<Longrightarrow> worker_step w (register_internal w)"
| reg_external: "wk_pc w = WRegistered \<Longrightarrow> worker_step w (register_external w)"
| loop: "wk_pc w = WCheck \<Longrightarrow> \<not> wk_shutdown w \<Longrightarrow> worker_step w (w\<lparr>wk_pc := WStep\<rparr>)"
| leave: "wk_pc w = WCheck \<Longrightarrow> wk_shutdown w \<Longrightarrow> worker_step w (w\<lparr>wk_pc := WLeaving\<rparr>)"
| woken: "wk_pc w = WStep \<Longrightarrow> 0 < wk_counter w \<Longrightarrow> worker_step w (w\<lparr>wk_counter := 0, wk_pc := WCheck\<rparr>)"
| completion: "wk_pc w = WStep \<Longrightarrow> worker_step w (w\<lparr>wk_pc := WCheck\<rparr>)"
| gone: "wk_pc w = WLeaving \<Longrightarrow> wk_storing w = 0 \<Longrightarrow> wk_notifying w = 0 \<Longrightarrow> worker_step w (w\<lparr>wk_pc := WDone\<rparr>)"
| request: "worker_step w (RequestStop w)"
| ext_request: "worker_step w (external_request w)"
| store: "0 < wk_storing w \<Longrightarrow>
    worker_step w (w\<lparr>wk_shutdown := True, wk_storing := wk_storing w - 1, wk_notifying := wk_notifying w + 1\<rparr>)"
| notify: "0 < wk_notifying w \<Longrightarrow> worker_step w (w\<lparr>wk_notifying := wk_notifying w - 1, wk_counter := wk_counter w + 1\<rparr>)"

inductive_cases worker_stepE: "worker_step w w'"

section \<open>Invariant\<close>

definition stop_wanted :: "worker_thread \<Rightarrow> bool" where
  "stop_wanted w \<longleftrightarrow> wk_stop w \<or> wk_ext_possible w \<and> wk_ext_stop w"

text \<open>
  A request is never lost: once its callback is registered the flag is set or about to be. The loop
  does not sleep through the flag: the counter is positive or about to be.
\<close>

definition worker_ok :: "worker_thread \<Rightarrow> bool" where
  "worker_ok w \<longleftrightarrow>
     (wk_stop w \<and> wk_pc w \<notin> {WNew, WContext} \<longrightarrow> wk_shutdown w \<or> 0 < wk_storing w) \<and>
     (wk_ext_possible w \<and> wk_ext_stop w \<and> wk_pc w \<notin> {WNew, WContext, WRegistered} \<longrightarrow> wk_shutdown w \<or> 0 < wk_storing w) \<and>
     (wk_pc w = WStep \<and> wk_shutdown w \<longrightarrow> 0 < wk_counter w \<or> 0 < wk_notifying w) \<and>
     (wk_pc w \<in> {WLeaving, WDone} \<longrightarrow> wk_shutdown w) \<and>
     (wk_shutdown w \<or> 0 < wk_storing w \<longrightarrow> stop_wanted w)"

lemmas worker_defs = worker_ok_def stop_wanted_def register_internal_def register_external_def RequestStop_def external_request_def
  internal_registered_def external_registered_def stop_action_def

lemma worker_step_ok:
  assumes "worker_step w w'" and "worker_ok w"
  shows "worker_ok w'"
  using assms by (cases rule: worker_step.cases; cases "wk_pc w") (auto simp: worker_defs split: if_splits)

lemma worker_reachable_ok:
  assumes "worker_step\<^sup>*\<^sup>* (mk_Worker external) w"
  shows "worker_ok w"
  using assms
proof induction
  case base
  then show ?case by (simp add: worker_ok_def mk_Worker_def)
qed (rule worker_step_ok)

section \<open>Stopping\<close>

text \<open>The callbacks that run can finish without the worker moving.\<close>

lemma callbacks_finish:
  "\<exists>w'. worker_step\<^sup>*\<^sup>* w w' \<and> wk_storing w' = 0 \<and> wk_notifying w' = 0 \<and> wk_pc w' = wk_pc w \<and> (stop_wanted w \<longrightarrow> stop_wanted w')"
proof (induction "2 * wk_storing w + wk_notifying w" arbitrary: w rule: less_induct)
  case less
  consider (store) "0 < wk_storing w" | (notify) "0 < wk_notifying w" | (none) "wk_storing w = 0" "wk_notifying w = 0" by blast
  then show ?case
  proof cases
    case store
    let ?w = "w\<lparr>wk_shutdown := True, wk_storing := wk_storing w - 1, wk_notifying := wk_notifying w + 1\<rparr>"
    have smaller: "2 * wk_storing ?w + wk_notifying ?w < 2 * wk_storing w + wk_notifying w" using store by simp
    have same: "stop_wanted ?w = stop_wanted w" by (simp add: stop_wanted_def)
    have step: "worker_step w ?w" using store by (rule worker_step.store)
    obtain w' where "worker_step\<^sup>*\<^sup>* ?w w'" "wk_storing w' = 0" "wk_notifying w' = 0" "wk_pc w' = wk_pc w" "stop_wanted w \<longrightarrow> stop_wanted w'"
      using less [of ?w] smaller same by auto
    then show ?thesis using step by (meson converse_rtranclp_into_rtranclp)
  next
    case notify
    let ?w = "w\<lparr>wk_notifying := wk_notifying w - 1, wk_counter := wk_counter w + 1\<rparr>"
    have smaller: "2 * wk_storing ?w + wk_notifying ?w < 2 * wk_storing w + wk_notifying w" using notify by simp
    have same: "stop_wanted ?w = stop_wanted w" by (simp add: stop_wanted_def)
    have step: "worker_step w ?w" using notify by (rule worker_step.notify)
    obtain w' where "worker_step\<^sup>*\<^sup>* ?w w'" "wk_storing w' = 0" "wk_notifying w' = 0" "wk_pc w' = wk_pc w" "stop_wanted w \<longrightarrow> stop_wanted w'"
      using less [of ?w] smaller same by auto
    then show ?thesis using step by (meson converse_rtranclp_into_rtranclp)
  qed auto
qed

text \<open>One more step of a thread that is not yet out of the loop.\<close>

fun distance :: "wpc \<Rightarrow> nat" where
  "distance WNew = 6" | "distance WContext = 5" | "distance WRegistered = 4" | "distance WStep = 3" | "distance WCheck = 2"
| "distance WLeaving = 1" | "distance WDone = 0"

lemma thread_advances:
  assumes "worker_ok w" and "stop_wanted w" and "wk_storing w = 0" and "wk_notifying w = 0" and "wk_pc w \<noteq> WDone"
  shows "\<exists>w'. worker_step w w' \<and> distance (wk_pc w') < distance (wk_pc w) \<and> stop_wanted w'"
proof (cases "wk_pc w")
  case WNew
  then show ?thesis using worker_step.create [OF WNew] assms(2) by (force simp: stop_wanted_def)
next
  case WContext
  then show ?thesis using worker_step.reg_internal [OF WContext] assms(2) by (force simp: worker_defs split: if_splits)
next
  case WRegistered
  then show ?thesis using worker_step.reg_external [OF WRegistered] assms(2) by (force simp: worker_defs split: if_splits)
next
  case WCheck
  then have "wk_shutdown w" using assms by (auto simp: worker_ok_def stop_wanted_def)
  then show ?thesis using worker_step.leave [OF WCheck] WCheck assms(2) by (force simp: stop_wanted_def)
next
  case WStep
  then have "0 < wk_counter w" using assms by (auto simp: worker_ok_def stop_wanted_def)
  then show ?thesis using worker_step.woken [OF WStep] WStep assms(2) by (force simp: stop_wanted_def)
next
  case WLeaving
  then show ?thesis using worker_step.gone [OF WLeaving assms(3,4)] assms(2) by (force simp: stop_wanted_def)
qed (use assms(5) in simp)

lemma worker_can_stop:
  assumes "worker_ok w" and "stop_wanted w"
  shows "\<exists>w'. worker_step\<^sup>*\<^sup>* w w' \<and> wk_pc w' = WDone"
  using assms
proof (induction "distance (wk_pc w)" arbitrary: w rule: less_induct)
  case less
  obtain v where v: "worker_step\<^sup>*\<^sup>* w v" "wk_storing v = 0" "wk_notifying v = 0" "wk_pc v = wk_pc w" "stop_wanted v"
    using callbacks_finish less.prems(2) by blast
  have ok: "worker_ok v" using v(1) less.prems(1) by induction (auto intro: worker_step_ok)
  show ?case
  proof (cases "wk_pc v = WDone")
    case False
    obtain u where u: "worker_step v u" "distance (wk_pc u) < distance (wk_pc w)" "stop_wanted u"
      using thread_advances [OF ok v(5,2,3) False] v(4) by auto
    obtain w' where "worker_step\<^sup>*\<^sup>* u w'" "wk_pc w' = WDone" using less.hyps [OF u(2) worker_step_ok [OF u(1) ok] u(3)] by blast
    then show ?thesis using v(1) u(1) by (meson converse_rtranclp_into_rtranclp rtranclp_trans)
  qed (use v(1) in blast)
qed



section \<open>The other members\<close>

text \<open>
  The processor a thread is pinned to; \<open>hardware_concurrency\<close> may be 0, for which the remainder is
  undefined.
\<close>

definition PinToCpu :: "nat \<Rightarrow> nat \<Rightarrow> nat option" where
  "PinToCpu hardware_concurrency cpu_id = (if hardware_concurrency = 0 then None else Some (cpu_id mod hardware_concurrency))"

definition Worker_Notify :: "(int \<Rightarrow> 'k \<Rightarrow> bool \<times> 'k) \<Rightarrow> int \<Rightarrow> 'k \<Rightarrow> bool \<times> 'k" where
  "Worker_Notify write wake_fd k = (if wake_fd < 0 then (False, k) else write wake_fd k)"

text \<open>What the thread does after registration, per way of starting it.\<close>

definition RunLoop :: "'k liburing \<Rightarrow> 'k coroutines \<Rightarrow> 'k IoContext \<Rightarrow> 'k IoContext option" where
  "RunLoop U co c = (case Run U co c of None \<Rightarrow> None | Some c' \<Rightarrow> CancelAllPending U CancelNone c')"

definition RunLoop_tick :: "'k liburing \<Rightarrow> 'k coroutines \<Rightarrow> ('k IoContext \<Rightarrow> 'k IoContext) \<Rightarrow> 'k IoContext \<Rightarrow> 'k IoContext option" where
  "RunLoop_tick U co tick c = (case Run_tick U co tick c of None \<Rightarrow> None | Some c' \<Rightarrow> CancelAllPending U CancelNone c')"

definition RunTask :: "'k liburing \<Rightarrow> 'k coroutines \<Rightarrow> (('k IoContext \<Rightarrow> handle \<times> 'k IoContext)) \<Rightarrow> 'k IoContext \<Rightarrow> 'k IoContext option" where
  "RunTask U co factory c =
     (case factory c of (task, c1) \<Rightarrow>
        (case RunUntilDone U co task c1 of None \<Rightarrow> None | Some c2 \<Rightarrow> CancelAllPending U CancelNone c2))"

end
