(* ===== verification/Hint_File.thy ===== *)
theory Hint_File
  imports Partition
begin

text \<open>
  The hint file as a class of its own (\<^verbatim>\<open>bitcask/include/hint_file.h\<close>, \<^verbatim>\<open>bitcask/src/hint_file.cpp\<close>): a descriptor opened for
  appending and the entries written to it one by one. A partition writes its hint files without
  the class; the two ways are the same.
\<close>

record HintFile =
  hf_file_id :: u64
  hf_handle :: int

definition mk_HintFile :: "int \<Rightarrow> u64 \<Rightarrow> Error + HintFile" where
  "mk_HintFile fd file_id =
     (if fd < 0 then Inl (thrown ''fd cannot be negative'') else Inr \<lparr>hf_file_id = file_id, hf_handle = fd\<rparr>)"

definition HintFile_AsyncWrite :: "'w env \<Rightarrow> HintFile \<Rightarrow> HintEntry \<Rightarrow> ('w, unit) task" where
  "HintFile_AsyncWrite E h entry = env_write_exact E (hf_handle h) (HintEntry_Serialize entry)"

fun HintFile_writes :: "'w env \<Rightarrow> HintFile \<Rightarrow> HintEntry list \<Rightarrow> ('w, unit) task" where
  "HintFile_writes E h [] = co_return ()"
| "HintFile_writes E h (e # es) = co_try (HintFile_AsyncWrite E h e) (\<lambda>_. HintFile_writes E h es)"

lemma HintFile_writes_hints:
  assumes "mk_HintFile fd file_id = Inr h"
  shows "HintFile_writes E h es = write_hints E fd es"
proof -
  have "hf_handle h = fd" using assms by (auto simp: mk_HintFile_def split: if_splits)
  then show ?thesis by (induction es) (auto simp: co_return_def HintFile_AsyncWrite_def fun_eq_iff co_try_def split: prod.split sum.split)
qed

end
