(* ===== verification/Loop_Stats.thy ===== *)
theory Loop_Stats
  imports Pending_List
begin

text \<open>
  The counters of an event loop (\<^verbatim>\<open>include/kio/core/stats.hpp\<close>) and the places of \<^verbatim>\<open>src/kio/core.cpp\<close> that update them when the
  build asks for them. All updates are made by the thread of the loop; the counters are atomic only for the
  threads that take snapshots, so the compare-and-swap of \<^verbatim>\<open>StatsSetMax\<close> succeeds at once.
\<close>

record IoContextStats =
  ops_submitted :: u64
  ops_completed :: u64
  ops_errors :: u64
  ops_inflight :: u64
  ops_max_inflight :: u64
  timeouts :: u64
  external_completions :: u64
  loop_iterations :: u64
  loop_busy_iterations :: u64
  loop_idle_iterations :: u64
  loop_wakeups :: u64
  loop_completions :: u64
  loop_max_batch :: u64

definition mk_IoContextStats :: IoContextStats where
  "mk_IoContextStats =
     \<lparr>ops_submitted = 0, ops_completed = 0, ops_errors = 0, ops_inflight = 0, ops_max_inflight = 0, timeouts = 0,
      external_completions = 0, loop_iterations = 0, loop_busy_iterations = 0, loop_idle_iterations = 0, loop_wakeups = 0,
      loop_completions = 0, loop_max_batch = 0\<rparr>"

definition StatsSetMax :: "u64 \<Rightarrow> u64 \<Rightarrow> u64" where
  "StatsSetMax target val = (if target < val then val else target)"

section \<open>Updates\<close>

definition stats_Track :: "IoContextStats \<Rightarrow> IoContextStats" where
  "stats_Track st =
     (let st = st\<lparr>ops_submitted := ops_submitted st + 1\<rparr>;
          inflight = ops_inflight st + 1;
          st = st\<lparr>ops_inflight := ops_inflight st + 1\<rparr>
      in st\<lparr>ops_max_inflight := StatsSetMax (ops_max_inflight st) inflight\<rparr>)"

definition stats_Untrack :: "IoContextStats \<Rightarrow> IoContextStats" where
  "stats_Untrack st = st\<lparr>ops_inflight := ops_inflight st - 1\<rparr>"

definition stats_cqe :: "int \<Rightarrow> IoContextStats \<Rightarrow> IoContextStats" where
  "stats_cqe res st =
     (let st = st\<lparr>ops_completed := ops_completed st + 1\<rparr>
      in if res < 0 then st\<lparr>ops_errors := ops_errors st + 1\<rparr> else st)"

text \<open>The \<open>n\<close> operations that one call of \<^verbatim>\<open>DrainExternal\<close> takes over, and an operation that reports its timeout.\<close>

definition stats_external :: "nat \<Rightarrow> IoContextStats \<Rightarrow> IoContextStats" where
  "stats_external n st =
     (let st = st\<lparr>ops_completed := ops_completed st + of_nat n\<rparr>
      in if n \<noteq> 0 then st\<lparr>external_completions := external_completions st + of_nat n\<rparr> else st)"

definition stats_timeout :: "IoContextStats \<Rightarrow> IoContextStats" where
  "stats_timeout st = st\<lparr>timeouts := timeouts st + 1\<rparr>"

definition stats_Step :: "bool \<Rightarrow> nat \<Rightarrow> IoContextStats \<Rightarrow> IoContextStats" where
  "stats_Step saw_wake batch st =
     (let st = st\<lparr>loop_iterations := loop_iterations st + 1\<rparr>;
          st = (if saw_wake then st\<lparr>loop_wakeups := loop_wakeups st + 1\<rparr> else st)
      in if batch = 0 then st\<lparr>loop_idle_iterations := loop_idle_iterations st + 1\<rparr>
         else st\<lparr>loop_busy_iterations := loop_busy_iterations st + 1, loop_completions := loop_completions st + of_nat batch,
                loop_max_batch := StatsSetMax (loop_max_batch st) (of_nat batch)\<rparr>)"

section \<open>The counters count\<close>

text \<open>A sequence that tracks no operation twice and untracks only tracked ones, and its effect on the counters.\<close>

fun legal :: "pending_op list \<Rightarrow> addr list \<Rightarrow> bool" where
  "legal [] as = True"
| "legal (OpTrack a # ops) as = (a \<notin> set as \<and> legal ops (a # as))"
| "legal (OpUntrack a # ops) as = (a \<in> set as \<and> legal ops (remove1 a as))"

fun stats_op :: "pending_op \<Rightarrow> IoContextStats \<Rightarrow> IoContextStats" where
  "stats_op (OpTrack a) = stats_Track"
| "stats_op (OpUntrack a) = stats_Untrack"

text \<open>The lengths of the list of pending operations on the way.\<close>

fun lengths :: "pending_op list \<Rightarrow> addr list \<Rightarrow> nat list" where
  "lengths [] as = [length as]"
| "lengths (OpTrack a # ops) as = length as # lengths ops (a # as)"
| "lengths (OpUntrack a # ops) as = length as # lengths ops (remove1 a as)"

lemma lengths_Cons: "\<exists>ls. lengths ops as = length as # ls"
  by (cases "(ops, as)" rule: lengths.cases) auto

lemma unat_StatsSetMax: "unat (StatsSetMax a b) = max (unat a) (unat b)"
  by (simp add: StatsSetMax_def max_def word_less_nat_alt)

lemma unat_of_nat_u64: "n < 2 ^ 64 \<Longrightarrow> unat (of_nat n :: u64) = n"
  by (simp add: unat_of_nat)

lemma stats_run_counts:
  assumes "legal ops as" and "length as + length ops < 2 ^ 64" and "ops_inflight st = of_nat (length as)"
    and "length as \<le> unat (ops_max_inflight st)"
  shows "\<exists>bs. list_run ops as = Some bs \<and> ops_inflight (fold stats_op ops st) = of_nat (length bs) \<and>
    unat (ops_max_inflight (fold stats_op ops st)) = Max (set (unat (ops_max_inflight st) # lengths ops as))"
  using assms
proof (induction ops as arbitrary: st rule: legal.induct)
  case (1 as)
  then show ?case by simp
next
  case (2 a ops as)
  let ?st = "stats_Track st"
  have len: "ops_inflight ?st = of_nat (length (a # as))" using 2(4) by (simp add: stats_Track_def Let_def)
  have u: "unat (1 + of_nat (length as) :: u64) = Suc (length as)"
    using unat_of_nat_u64 [of "Suc (length as)"] 2(3) by simp
  have m: "unat (ops_max_inflight ?st) = max (unat (ops_max_inflight st)) (Suc (length as))"
    using 2(4) u by (simp add: stats_Track_def Let_def unat_StatsSetMax add.commute)
  obtain bs where bs: "list_run ops (a # as) = Some bs" "ops_inflight (fold stats_op ops ?st) = of_nat (length bs)"
      "unat (ops_max_inflight (fold stats_op ops ?st)) = Max (set (unat (ops_max_inflight ?st) # lengths ops (a # as)))"
    using 2(1) [OF _ _ len] 2(2,3) m by auto
  obtain ls where ls: "lengths ops (a # as) = Suc (length as) # ls" using lengths_Cons [of ops "a # as"] by auto
  have "Max (set (unat (ops_max_inflight ?st) # lengths ops (a # as))) =
      Max (set (unat (ops_max_inflight st) # length as # lengths ops (a # as)))"
    unfolding m ls using 2(5) by (cases "ls = []") (auto simp: max.assoc max.left_commute max_def)
  then show ?case using bs 2(2) by simp
next
  case (3 a ops as)
  let ?st = "stats_Untrack st"
  obtain n where n: "length as = Suc n" using 3(2) by (cases as) auto
  then have len: "ops_inflight ?st = of_nat (length (remove1 a as))"
    using 3(2,4) by (simp add: stats_Untrack_def length_remove1)
  have m: "ops_max_inflight ?st = ops_max_inflight st" by (simp add: stats_Untrack_def)
  obtain bs where bs: "list_run ops (remove1 a as) = Some bs" "ops_inflight (fold stats_op ops ?st) = of_nat (length bs)"
      "unat (ops_max_inflight (fold stats_op ops ?st)) = Max (set (unat (ops_max_inflight ?st) # lengths ops (remove1 a as)))"
    using 3(1) [OF _ _ len] 3(2,3,5) m n by (auto simp: length_remove1)
  have "Max (insert (unat (ops_max_inflight st)) (set (lengths ops (remove1 a as)))) =
      Max (insert (unat (ops_max_inflight st)) (insert (length as) (set (lengths ops (remove1 a as)))))"
    using 3(5) by (cases "lengths ops (remove1 a as) = []") (auto simp: max_def)
  then show ?case using bs m by simp
qed

text \<open>
  The counters are right: after any sequence of insertions and removals the number of operations in flight is the length of
  the list of pending operations, and the recorded maximum is the greatest length it ever had.
\<close>

theorem stats_inflight_exact:
  assumes "legal ops []" and "length ops < 2 ^ 64"
  shows "\<exists>bs. list_run ops [] = Some bs \<and> unat (ops_inflight (fold stats_op ops mk_IoContextStats)) = length bs \<and>
    unat (ops_max_inflight (fold stats_op ops mk_IoContextStats)) = Max (set (lengths ops []))"
proof -
  obtain bs where bs: "list_run ops [] = Some bs" "ops_inflight (fold stats_op ops mk_IoContextStats) = of_nat (length bs)"
      "unat (ops_max_inflight (fold stats_op ops mk_IoContextStats)) = Max (set (0 # lengths ops []))"
    using stats_run_counts [OF assms(1), of mk_IoContextStats] assms(2) by (auto simp: mk_IoContextStats_def)
  have "length bs \<le> length as + length ops" if "list_run ops as = Some bs" for as
    using that by (induction ops as rule: list_run.induct) (fastforce simp: length_remove1 split: if_splits)+
  then have "length bs < 2 ^ 64" using bs(1) assms(2) by fastforce
  moreover have "Max (set (0 # lengths ops [])) = Max (set (lengths ops []))"
    using lengths_Cons [of ops "[]"] by auto
  ultimately show ?thesis using bs unat_of_nat_u64 by simp
qed

end
