(* ===== verification/Servers.thy ===== *)
theory Servers
  imports Task_Group Uring_Ops Net
begin

text \<open>
  The example servers of \<^verbatim>\<open>examples/aio\<close>, clients of the library: the echo server, the HTTP service and the TLS
  echo server. A handler is a loop over awaited operations; it is run on the list of what the kernel
  answers in its rounds, and it is still suspended when the list is used up. A task group owns
  the frames of the handlers, and a socket that is a parameter of a coroutine lives as long
  as its frame. The last section puts the handlers, the task group and the table of descriptors of
  the process together.
\<close>

section \<open>Handlers\<close>

datatype conn_event =
    Send int string int "int + nat"
  | SendFile int int nat
  | TlsShutdown
  | Close int

text \<open>One round of a handler: the stop token at the head of the loop, what is received, and the result of the send.\<close>

record conn_round =
  r_stop :: bool
  r_recv :: "int + string"
  r_send :: "int + nat"

definition close_msg :: string where
  "close_msg = ''Timeout, the server will close the connexion''"

text \<open>
  The echo server. The size of the message is passed where \<^verbatim>\<open>AsyncSend\<close> takes its flags. The boolean says
  whether the loop has ended.
\<close>

fun echo_loop :: "int \<Rightarrow> conn_round list \<Rightarrow> conn_event list \<times> bool" where
  "echo_loop sock [] = ([], False)"
| "echo_loop sock (r # rs) =
     (if r_stop r then ([], True)
      else case r_recv r of
          Inl e \<Rightarrow>
            (if e = ETIMEDOUT then ([Send sock close_msg (int (length close_msg)) (r_send r)], True)
             else ([], True))
        | Inr buf \<Rightarrow>
            (if length buf = 0 then ([], True)
             else case r_send r of
                 Inl e \<Rightarrow> ([Send sock buf 0 (Inl e)], True)
               | Inr n \<Rightarrow> (case echo_loop sock rs of (es, ended) \<Rightarrow> (Send sock buf 0 (Inr n) # es, ended))))"

text \<open>\<^verbatim>\<open>AsyncClose\<close> of a socket takes the descriptor out of it first; the second result is what the socket still owns.\<close>

definition echo_HandleClient :: "int \<Rightarrow> conn_round list \<Rightarrow> conn_event list \<times> int \<times> bool" where
  "echo_HandleClient sock rs =
     (case echo_loop sock rs of
        (es, False) \<Rightarrow> (es, sock, False)
      | (es, True) \<Rightarrow> (case Socket_Release sock of (fd, sock') \<Rightarrow> (es @ [Close fd], sock', True)))"

text \<open>The TLS echo server; \<open>h\<close> is the result of the handshake, which has released the socket if it failed.\<close>

fun tls_echo_loop :: "int \<Rightarrow> conn_round list \<Rightarrow> conn_event list \<times> bool" where
  "tls_echo_loop sock [] = ([], False)"
| "tls_echo_loop sock (r # rs) =
     (case r_recv r of
        Inl e \<Rightarrow> ([], True)
      | Inr buf \<Rightarrow>
          (if length buf = 0 then ([], True)
           else case r_send r of
               Inl e \<Rightarrow> ([Send sock buf 0 (Inl e)], True)
             | Inr n \<Rightarrow> (case tls_echo_loop sock rs of (es, ended) \<Rightarrow> (Send sock buf 0 (Inr n) # es, ended))))"

text \<open>The socket is closed by the operation and once more by the destructor of the TLS socket, a local variable.\<close>

definition tls_HandleClient :: "int + unit \<Rightarrow> int \<Rightarrow> conn_round list \<Rightarrow> conn_event list \<times> int \<times> bool" where
  "tls_HandleClient h sock rs =
     (case h of
        Inl e \<Rightarrow> ([], - 1, True)
      | Inr _ \<Rightarrow>
          (case tls_echo_loop sock rs of
             (es, False) \<Rightarrow> (es, sock, False)
           | (es, True) \<Rightarrow> (es @ [TlsShutdown, Close sock] @ (if 0 \<le> sock then [Close sock] else []), - 1, True)))"

section \<open>The HTTP service\<close>

record http_round =
  h_stop :: bool
  h_recv :: "int + string"
  h_stats :: "nat \<times> nat \<times> nat"
  h_open :: "int + int"
  h_fstat :: "nat option"
  h_send :: "int + nat"

definition starts_with :: "string \<Rightarrow> string \<Rightarrow> bool" where
  "starts_with request p \<longleftrightarrow> take (length p) request = p"

definition hello_body :: string where
  "hello_body = ''Hello from AIO!''"

definition hello_resp :: string where
  "hello_resp = ''HTTP/1.1 200 OK'' @ crlf @ ''Content-Length: '' @ nat_digits (length hello_body) @ crlf @ crlf @ hello_body"

definition stats_body :: "nat \<times> nat \<times> nat \<Rightarrow> string" where
  "stats_body s =
     (case s of (submitted, completed, inflight) \<Rightarrow>
        ''{'' @ [CHR 0x0A] @
        ''  '' @ [CHR 0x22] @ ''ops_submitted'' @ [CHR 0x22] @ '': '' @ nat_digits submitted @ '','' @ [CHR 0x0A] @
        ''  '' @ [CHR 0x22] @ ''ops_completed'' @ [CHR 0x22] @ '': '' @ nat_digits completed @ '','' @ [CHR 0x0A] @
        ''  '' @ [CHR 0x22] @ ''active_connections'' @ [CHR 0x22] @ '': '' @ nat_digits inflight @ [CHR 0x0A] @
        ''}'')"

definition stats_resp :: "nat \<times> nat \<times> nat \<Rightarrow> string" where
  "stats_resp s =
     ''HTTP/1.1 200 OK'' @ crlf @ ''Content-Type: application/json'' @ crlf @ ''Content-Length: '' @
     nat_digits (length (stats_body s)) @ crlf @ crlf @ stats_body s"

definition file_header :: "nat \<Rightarrow> string" where
  "file_header st_size = ''HTTP/1.1 200 OK'' @ crlf @ ''Content-Length: '' @ nat_digits st_size @ crlf @ crlf"

definition not_found :: string where
  "not_found = ''HTTP/1.1 404 Not Found'' @ crlf @ crlf"

text \<open>The router. The result of \<^verbatim>\<open>fstat\<close> is not looked at: if it fails the size is the zero of the initialisation.\<close>

definition http_route :: "int \<Rightarrow> http_round \<Rightarrow> string \<Rightarrow> conn_event list" where
  "http_route sock r request =
     (if starts_with request ''GET / '' then [Send sock hello_resp 0 (h_send r)]
      else if starts_with request ''GET /stats '' then [Send sock (stats_resp (h_stats r)) 0 (h_send r)]
      else if starts_with request ''GET /file '' then
        (case h_open r of
           Inr file_fd \<Rightarrow>
             (let st_size = (case h_fstat r of None \<Rightarrow> 0 | Some n \<Rightarrow> n)
              in [Send sock (file_header st_size) 0 (h_send r), SendFile sock file_fd st_size])
         | Inl e \<Rightarrow> [Send sock not_found 0 (h_send r)])
      else [Send sock not_found 0 (h_send r)])"

text \<open>The results of the sends are ignored. The handler returns without closing its socket.\<close>

fun HandleHttp :: "int \<Rightarrow> http_round list \<Rightarrow> conn_event list \<times> int \<times> bool" where
  "HandleHttp sock [] = ([], sock, False)"
| "HandleHttp sock (r # rs) =
     (if h_stop r then ([], sock, True)
      else case h_recv r of
          Inl e \<Rightarrow> ([], sock, True)
        | Inr request \<Rightarrow>
            (if length request = 0 then ([], sock, True)
             else case HandleHttp sock rs of (es, sock', ended) \<Rightarrow> (http_route sock r request @ es, sock', ended)))"

section \<open>Accept loops\<close>

text \<open>
  A round of an accept loop: the stop token and what \<^verbatim>\<open>AsyncAccept\<close> gives. A server spawns a handler, sleeps, or
  tries again; with the stop token set it joins its handlers. Using the result of a failed bind throws; the echo
  server has then spawned the task that waits for a signal.
\<close>

record accept_round =
  a_stop :: bool
  a_accept :: "int + int"

datatype server_event = SpawnStop | SpawnHandler int | SleepMs nat | JoinHandlers | BadExpectedAccess

fun accept_loop :: "accept_round list \<Rightarrow> server_event list" where
  "accept_loop [] = []"
| "accept_loop (r # rs) =
     (if a_stop r then [JoinHandlers]
      else case a_accept r of
          Inl e \<Rightarrow> (if e = ETIMEDOUT then accept_loop rs else SleepMs 100 # accept_loop rs)
        | Inr fd \<Rightarrow> SpawnHandler fd # accept_loop rs)"

definition echo_Server :: "int + int \<Rightarrow> accept_round list \<Rightarrow> server_event list" where
  "echo_Server bind_res rs = SpawnStop # (case bind_res of Inl e \<Rightarrow> [BadExpectedAccess] | Inr listener \<Rightarrow> accept_loop rs)"

fun http_accept_loop :: "accept_round list \<Rightarrow> server_event list" where
  "http_accept_loop [] = []"
| "http_accept_loop (r # rs) =
     (if a_stop r then [JoinHandlers]
      else case a_accept r of
          Inl e \<Rightarrow> (if e \<noteq> ETIMEDOUT then [SleepMs 100] else []) @ http_accept_loop rs
        | Inr fd \<Rightarrow> SpawnHandler fd # http_accept_loop rs)"

definition http_Server :: "int + int \<Rightarrow> accept_round list \<Rightarrow> server_event list" where
  "http_Server bind_res rs = (case bind_res of Inl e \<Rightarrow> [BadExpectedAccess] | Inr listener \<Rightarrow> http_accept_loop rs)"

text \<open>The TLS echo server has no stop token and tries again at once.\<close>

fun tls_accept_loop :: "(int + int) list \<Rightarrow> server_event list" where
  "tls_accept_loop [] = []"
| "tls_accept_loop (r # rs) = (case r of Inl e \<Rightarrow> tls_accept_loop rs | Inr fd \<Rightarrow> SpawnHandler fd # tls_accept_loop rs)"

definition tls_Server :: "int + unit \<Rightarrow> int + int \<Rightarrow> (int + int) list \<Rightarrow> server_event list" where
  "tls_Server tls_ctx_res listener rs =
     (case tls_ctx_res of Inl e \<Rightarrow> [] | Inr _ \<Rightarrow> (case listener of Inl e \<Rightarrow> [] | Inr _ \<Rightarrow> tls_accept_loop rs))"


section \<open>What the client of the echo server gets back\<close>

fun delivered :: "conn_event list \<Rightarrow> string" where
  "delivered [] = []"
| "delivered (Send sock buf flags (Inr n) # es) = take n buf @ delivered es"
| "delivered (e # es) = delivered es"

text \<open>Rounds in which \<open>buf\<close> is received and the kernel takes \<open>n\<close> bytes of it, and the end of the stream.\<close>

definition chunk :: "string \<times> nat \<Rightarrow> conn_round" where
  "chunk c = \<lparr>r_stop = False, r_recv = Inr (fst c), r_send = Inr (snd c)\<rparr>"

definition end_of_stream :: conn_round where
  "end_of_stream = \<lparr>r_stop = False, r_recv = Inr [], r_send = Inr 0\<rparr>"

lemma echo_loop_chunks:
  assumes "\<forall>c \<in> set cs. fst c \<noteq> []"
  shows "echo_loop sock (map chunk cs @ [end_of_stream]) = (map (\<lambda>c. Send sock (fst c) 0 (Inr (snd c))) cs, True)"
  using assms by (induction cs) (simp_all add: chunk_def end_of_stream_def)

lemma delivered_append [simp]: "delivered (es @ es') = delivered es @ delivered es'"
  by (induction es rule: delivered.induct) simp_all

lemma delivered_chunks: "delivered (map (\<lambda>c. Send sock (fst c) 0 (Inr (snd c))) cs) = concat (map (\<lambda>c. take (snd c) (fst c)) cs)"
  by (induction cs) simp_all

lemma concat_takes_le: "length (concat (map (\<lambda>c. take (snd c) (fst c)) cs)) \<le> length (concat (map fst cs))"
  by (induction cs) auto

lemma concat_takes:
  "concat (map (\<lambda>c. take (snd c) (fst c)) cs) = concat (map fst cs) \<longleftrightarrow> (\<forall>c \<in> set cs. length (fst c) \<le> snd c)"
proof (induction cs)
  case (Cons c cs)
  let ?X = "concat (map (\<lambda>c. take (snd c) (fst c)) cs)"
  show ?case
  proof (cases "length (fst c) \<le> snd c")
    case True
    then show ?thesis using Cons by simp
  next
    case False
    then have "length (take (snd c) (fst c) @ ?X) < length (fst c @ concat (map fst cs))"
      unfolding length_append length_take using concat_takes_le [of cs] by linarith
    then have "take (snd c) (fst c) @ ?X \<noteq> fst c @ concat (map fst cs)" by (metis less_irrefl)
    with False show ?thesis by simp
  qed
qed simp

text \<open>
  A client of the echo server that sends a sequence of chunks and closes gets back, in order, of each chunk what the kernel
  took of it in one send, after which the socket is closed once and owns nothing. It gets back exactly what it
  sent if and only if no send was short: the rest of a short send is dropped.
\<close>

theorem echo_returns_chunks:
  assumes "\<forall>c \<in> set cs. fst c \<noteq> []"
  shows "\<exists>es. echo_HandleClient sock (map chunk cs @ [end_of_stream]) = (es @ [Close sock], - 1, True) \<and>
    Close sock \<notin> set es \<and> delivered es = concat (map (\<lambda>c. take (snd c) (fst c)) cs) \<and>
    (delivered es = concat (map fst cs) \<longleftrightarrow> (\<forall>c \<in> set cs. length (fst c) \<le> snd c))"
  using echo_loop_chunks [OF assms, of sock]
  by (auto simp: echo_HandleClient_def Socket_Release_def delivered_chunks concat_takes)

theorem echo_returns_chunks_witness:
  "\<exists>es. echo_HandleClient 7 (map chunk [(''hello'', 5), (''world'', 3)] @ [end_of_stream]) = (es @ [Close 7], - 1, True) \<and>
    delivered es = ''hellowor''"
  using echo_returns_chunks [of "[(''hello'', 5), (''world'', 3)]" 7] by auto

section \<open>Descriptors\<close>

text \<open>
  The handlers in a process: the task group, the table of open descriptors with the client at the other end, what
  the socket of each frame owns, and what each handler that has not returned is doing. A frame is destroyed
  by a sweep of the group, and then its socket closes what it owns. The kernel gives out any
  descriptor that is not in use, also one that has just been closed. The task of the echo server that waits for a
  signal owns no socket and is left out.
\<close>

datatype server_kind = EchoServer | HttpServer | TlsEchoServer

datatype activity = Serving nat | Closing

record server =
  sv_group :: TaskGroup
  sv_table :: "int \<rightharpoonup> nat"
  sv_owned :: "handle \<rightharpoonup> int"
  sv_active :: "handle \<rightharpoonup> activity"
  sv_clients :: nat

definition server_begin :: server where
  "server_begin = \<lparr>sv_group = mk_TaskGroup, sv_table = Map.empty, sv_owned = Map.empty, sv_active = Map.empty, sv_clients = 0\<rparr>"

definition close_fd :: "int \<Rightarrow> (int \<rightharpoonup> nat) \<Rightarrow> int \<rightharpoonup> nat" where
  "close_fd fd table = (if 0 \<le> fd then table(fd := None) else table)"

text \<open>The frames of the group that are gone after it changed to \<open>g\<close>.\<close>

definition set_group :: "TaskGroup \<Rightarrow> server \<Rightarrow> server" where
  "set_group g s =
     (let gone = {t. t \<in> set (g_tasks (sv_group s)) \<and> t \<notin> set (g_tasks g)}
      in s\<lparr>sv_group := g,
           sv_table := sv_table s |` {fd. \<not> (0 \<le> fd \<and> (\<exists>t \<in> gone. sv_owned s t = Some fd))},
           sv_owned := sv_owned s |` {t. t \<notin> gone}\<rparr>)"

text \<open>A new connection: the kernel opens \<open>fd\<close>, the server moves it into the frame \<open>t\<close>, which runs until its first receive.\<close>

definition accepted :: "handle \<Rightarrow> int \<Rightarrow> server \<Rightarrow> server" where
  "accepted t fd s =
     set_group (Spawn (\<lambda>g. g) t (sv_group s))
       (s\<lparr>sv_table := (sv_table s)(fd \<mapsto> sv_clients s), sv_owned := (sv_owned s)(t \<mapsto> fd),
          sv_active := (sv_active s)(t \<mapsto> Serving (sv_clients s)), sv_clients := sv_clients s + 1\<rparr>)"

text \<open>\<^verbatim>\<open>AsyncClose\<close> on the socket, which is released first, or on the number of the descriptor.\<close>

definition async_close :: "server_kind \<Rightarrow> handle \<Rightarrow> server \<Rightarrow> server" where
  "async_close k t s =
     (let fd = the (sv_owned s t);
          (closed, kept) = (if k = EchoServer then Socket_Release fd else (fd, fd))
      in s\<lparr>sv_table := close_fd closed (sv_table s), sv_owned := (sv_owned s)(t \<mapsto> kept),
           sv_active := (sv_active s)(t \<mapsto> Closing)\<rparr>)"

text \<open>The handler returns: its local variables are destroyed, which is the socket in the TLS server only.\<close>

definition returned :: "server_kind \<Rightarrow> handle \<Rightarrow> server \<Rightarrow> server" where
  "returned k t s =
     (let s = (if k = TlsEchoServer
               then s\<lparr>sv_table := close_fd (the (sv_owned s t)) (sv_table s), sv_owned := (sv_owned s)(t \<mapsto> - 1)\<rparr>
               else s)
      in s\<lparr>sv_group := task_ends t (sv_group s), sv_active := (sv_active s)(t := None)\<rparr>)"

inductive server_step :: "server_kind \<Rightarrow> server \<Rightarrow> server \<Rightarrow> bool" for k where
  accept: "sv_table s fd = None \<Longrightarrow> 0 \<le> fd \<Longrightarrow> sv_owned s t = None \<Longrightarrow> server_step k s (accepted t fd s)"
| close: "k \<noteq> HttpServer \<Longrightarrow> sv_active s t = Some (Serving c) \<Longrightarrow> server_step k s (async_close k t s)"
| return: "sv_active s t = Some (if k = HttpServer then Serving c else Closing) \<Longrightarrow> server_step k s (returned k t s)"
| join: "g_active_count (sv_group s) = 0 \<Longrightarrow> server_step k s (set_group (snd (Sweep (sv_group s))) s)"

section \<open>Ownership of descriptors\<close>

text \<open>
  \<open>T\<close> are the frames, \<open>D\<close> those of handlers that have returned. Every frame that owns a descriptor owns an open one
  and no other frame owns it, a handler that serves a client owns the descriptor of that client, and every open
  descriptor is owned. In the echo server only serving handlers own one.
\<close>

definition sockets_ok :: "server_kind \<Rightarrow> handle set \<Rightarrow> handle set \<Rightarrow> (int \<rightharpoonup> nat) \<Rightarrow> (handle \<rightharpoonup> int) \<Rightarrow> (handle \<rightharpoonup> activity) \<Rightarrow> bool" where
  "sockets_ok k T D table owned active \<longleftrightarrow>
     T = dom owned \<and> dom owned = D \<union> dom active \<and> D \<inter> dom active = {} \<and>
     (\<forall>t c. active t = Some (Serving c) \<longrightarrow> (\<exists>fd \<ge> 0. owned t = Some fd \<and> table fd = Some c)) \<and>
     (\<forall>t t' fd. owned t = Some fd \<longrightarrow> owned t' = Some fd \<longrightarrow> 0 \<le> fd \<longrightarrow> t = t') \<and>
     (\<forall>fd c. table fd = Some c \<longrightarrow> 0 \<le> fd \<and> (\<exists>t. owned t = Some fd)) \<and>
     (\<forall>t fd. owned t = Some fd \<longrightarrow> 0 \<le> fd \<longrightarrow> table fd \<noteq> None) \<and>
     (k = EchoServer \<longrightarrow> (\<forall>t fd. owned t = Some fd \<longrightarrow> 0 \<le> fd \<longrightarrow> (\<exists>c. active t = Some (Serving c))))"

abbreviation server_ok :: "server_kind \<Rightarrow> server \<Rightarrow> bool" where
  "server_ok k s \<equiv> sockets_ok k (set (g_tasks (sv_group s))) (g_done (sv_group s)) (sv_table s) (sv_owned s) (sv_active s)"

lemma sockets_okI:
  assumes "T = dom owned" and "dom owned = D \<union> dom active" and "D \<inter> dom active = {}"
    and "\<And>t c. active t = Some (Serving c) \<Longrightarrow> \<exists>fd \<ge> 0. owned t = Some fd \<and> table fd = Some c"
    and "\<And>t t' fd. owned t = Some fd \<Longrightarrow> owned t' = Some fd \<Longrightarrow> 0 \<le> fd \<Longrightarrow> t = t'"
    and "\<And>fd c. table fd = Some c \<Longrightarrow> 0 \<le> fd \<and> (\<exists>t. owned t = Some fd)"
    and "\<And>t fd. owned t = Some fd \<Longrightarrow> 0 \<le> fd \<Longrightarrow> table fd \<noteq> None"
    and "\<And>t fd. k = EchoServer \<Longrightarrow> owned t = Some fd \<Longrightarrow> 0 \<le> fd \<Longrightarrow> \<exists>c. active t = Some (Serving c)"
  shows "sockets_ok k T D table owned active"
  unfolding sockets_ok_def using assms by meson

lemma sockets_okD:
  assumes "sockets_ok k T D table owned active"
  shows "T = dom owned" and "dom owned = D \<union> dom active" and "D \<inter> dom active = {}"
    and "active t = Some (Serving c) \<Longrightarrow> \<exists>fd \<ge> 0. owned t = Some fd \<and> table fd = Some c"
    and "owned t = Some fd \<Longrightarrow> owned t' = Some fd \<Longrightarrow> 0 \<le> fd \<Longrightarrow> t = t'"
    and "table fd = Some c \<Longrightarrow> 0 \<le> fd \<and> (\<exists>t. owned t = Some fd)"
    and "owned t = Some fd \<Longrightarrow> 0 \<le> fd \<Longrightarrow> table fd \<noteq> None"
    and "k = EchoServer \<Longrightarrow> owned t = Some fd \<Longrightarrow> 0 \<le> fd \<Longrightarrow> \<exists>c. active t = Some (Serving c)"
proof -
  note a = assms [unfolded sockets_ok_def]
  show "T = dom owned" "dom owned = D \<union> dom active" "D \<inter> dom active = {}" using a by simp_all
  show "active t = Some (Serving c) \<Longrightarrow> \<exists>fd \<ge> 0. owned t = Some fd \<and> table fd = Some c" using a by simp
  show "owned t = Some fd \<Longrightarrow> owned t' = Some fd \<Longrightarrow> 0 \<le> fd \<Longrightarrow> t = t'" using a by blast
  show "table fd = Some c \<Longrightarrow> 0 \<le> fd \<and> (\<exists>t. owned t = Some fd)" using a by blast
  show "owned t = Some fd \<Longrightarrow> 0 \<le> fd \<Longrightarrow> table fd \<noteq> None" using a by blast
  show "k = EchoServer \<Longrightarrow> owned t = Some fd \<Longrightarrow> 0 \<le> fd \<Longrightarrow> \<exists>c. active t = Some (Serving c)" using a by blast
qed

lemma sockets_ok_sweep:
  assumes ok: "sockets_ok k T D table owned active" and G: "G \<subseteq> D"
  shows "sockets_ok k (T - G) (D - G) (table |` {fd. \<not> (0 \<le> fd \<and> (\<exists>t \<in> G. owned t = Some fd))}) (owned |` {t. t \<notin> G}) active"
proof -
  let ?F = "{fd. \<not> (0 \<le> fd \<and> (\<exists>t \<in> G. owned t = Some fd))}"
  note ok = sockets_okD [OF ok]
  have a: "t \<notin> G" if "active t = Some x" for t x using ok(3) G that by blast
  have o: "t \<notin> G \<and> owned t = Some fd" if "(owned |` {t. t \<notin> G}) t = Some fd" for t fd
    using that by (simp add: restrict_map_def split: if_splits)
  have b: "fd \<in> ?F \<and> table fd = Some c" if "(table |` ?F) fd = Some c" for fd c
    using that by (auto simp: restrict_map_def split: if_splits)
  have keep: "fd \<in> ?F" if "owned t = Some fd" "t \<notin> G" "0 \<le> fd" for t fd
    using ok(5) [OF that(1) _ that(3)] that(2) by blast
  show ?thesis
  proof (rule sockets_okI)
    show "T - G = dom (owned |` {t. t \<notin> G})" using ok(1) by auto
    have d: "dom (owned |` {t. t \<notin> G}) = dom owned - G" by auto
    show "dom (owned |` {t. t \<notin> G}) = (D - G) \<union> dom active" unfolding d using ok(2) a by auto
    show "(D - G) \<inter> dom active = {}" using ok(3) by blast
    show "\<exists>fd \<ge> 0. (owned |` {t. t \<notin> G}) t = Some fd \<and> (table |` ?F) fd = Some c" if s: "active t = Some (Serving c)" for t c
    proof -
      obtain fd where f: "0 \<le> fd" "owned t = Some fd" "table fd = Some c" using ok(4) [OF s] by blast
      then show ?thesis using keep [OF f(2) a [OF s] f(1)] a [OF s] by (intro exI [of _ fd]) simp
    qed
    show "t = t'" if "(owned |` {t. t \<notin> G}) t = Some fd" "(owned |` {t. t \<notin> G}) t' = Some fd" "0 \<le> fd" for t t' fd
      using ok(5) o [OF that(1)] o [OF that(2)] that(3) by blast
    show "0 \<le> fd \<and> (\<exists>t. (owned |` {t. t \<notin> G}) t = Some fd)" if c: "(table |` ?F) fd = Some c" for fd c
    proof -
      obtain t where t: "0 \<le> fd" "owned t = Some fd" using ok(6) b [OF c] by blast
      then have "t \<notin> G" using b [OF c] by blast
      with t show ?thesis by (intro conjI exI [of _ t]) simp_all
    qed
    show "(table |` ?F) fd \<noteq> None" if "(owned |` {t. t \<notin> G}) t = Some fd" "0 \<le> fd" for t fd
      using o [OF that(1)] keep [of t fd] ok(7) [of t fd] that(2) by simp
    show "\<exists>c. active t = Some (Serving c)" if "k = EchoServer" "(owned |` {t. t \<notin> G}) t = Some fd" "0 \<le> fd" for t fd
      using ok(8) that(1,3) o [OF that(2)] by blast
  qed
qed

lemma Spawn_sets:
  assumes "t \<notin> g_done g" "g_done g \<subseteq> set (g_tasks g)"
  obtains G where "G = {} \<or> G = g_done g" "set (g_tasks (Spawn (\<lambda>g. g) t g)) = insert t (set (g_tasks g)) - G"
    "g_done (Spawn (\<lambda>g. g) t g) = g_done g - G"
proof (cases "(g_spawn_count g + 1) AND (g_sweep_interval g - 1) = 0")
  case True
  then show ?thesis using assms by (intro that [of "g_done g"]) (auto simp: Spawn_cases Let_def)
next
  case False
  then show ?thesis using assms by (intro that [of "{}"]) (auto simp: Spawn_cases Let_def)
qed

lemma set_group_ok:
  assumes ok: "sockets_ok k (set (g_tasks (sv_group s)) \<union> N) D (sv_table s) (sv_owned s) (sv_active s)"
    and "D \<subseteq> set (g_tasks (sv_group s))" and "G = {} \<or> G = D" and "N \<inter> D = {}"
    and g: "set (g_tasks g) = (set (g_tasks (sv_group s)) \<union> N) - G" "g_done g = D - G"
  shows "server_ok k (set_group g s)"
proof -
  have gone: "{x. x \<in> set (g_tasks (sv_group s)) \<and> x \<notin> set (g_tasks g)} = G" using assms by auto
  have "G \<subseteq> D" using assms(3) by blast
  from sockets_ok_sweep [OF ok this] show ?thesis
    unfolding set_group_def Let_def gone by (simp add: g)
qed

lemma accepted_ok:
  assumes ok: "server_ok k s" and fd: "sv_table s fd = None" "0 \<le> fd" and t: "sv_owned s t = None"
  shows "server_ok k (accepted t fd s)"
proof -
  let ?s = "s\<lparr>sv_table := (sv_table s)(fd \<mapsto> sv_clients s), sv_owned := (sv_owned s)(t \<mapsto> fd),
          sv_active := (sv_active s)(t \<mapsto> Serving (sv_clients s)), sv_clients := sv_clients s + 1\<rparr>"
  let ?T = "set (g_tasks (sv_group s))" and ?D = "g_done (sv_group s)"
  note o = sockets_okD [OF ok]
  have D: "?D \<subseteq> ?T" "t \<notin> ?D" "t \<notin> ?T" "sv_active s t = None" using o(1,2) t by auto
  have free: "sv_owned s x \<noteq> Some fd" for x using o(7) [of x fd] fd by blast
  have "sockets_ok k (?T \<union> {t}) ?D (sv_table ?s) (sv_owned ?s) (sv_active ?s)"
  proof (rule sockets_okI)
    show "?T \<union> {t} = dom (sv_owned ?s)" using o(1) by simp
    show "dom (sv_owned ?s) = ?D \<union> dom (sv_active ?s)" using o(2) by simp
    show "?D \<inter> dom (sv_active ?s) = {}" using o(3) D(2) by simp
    show "\<exists>f \<ge> 0. sv_owned ?s x = Some f \<and> sv_table ?s f = Some c" if a: "sv_active ?s x = Some (Serving c)" for x c
    proof (cases "x = t")
      case True
      then show ?thesis using a fd by (intro exI [of _ fd]) simp
    next
      case False
      then obtain f where "0 \<le> f" "sv_owned s x = Some f" "sv_table s f = Some c" using a o(4) [of x c] by auto
      then show ?thesis using False fd by (intro exI [of _ f]) auto
    qed
    show "x = y" if "sv_owned ?s x = Some f" "sv_owned ?s y = Some f" "0 \<le> f" for x y f
      using that o(5) [of x f y] free by (auto split: if_splits)
    show "0 \<le> f \<and> (\<exists>x. sv_owned ?s x = Some f)" if a: "sv_table ?s f = Some c" for f c
    proof (cases "f = fd")
      case True
      then show ?thesis using fd by (intro conjI exI [of _ t]) simp_all
    next
      case False
      then obtain x where x: "0 \<le> f" "sv_owned s x = Some f" using a o(6) [of f c] by auto
      then show ?thesis using t by (intro conjI exI [of _ x]) auto
    qed
    show "sv_table ?s f \<noteq> None" if "sv_owned ?s x = Some f" "0 \<le> f" for x f
      using that o(7) [of x f] by (auto split: if_splits)
    show "\<exists>c. sv_active ?s x = Some (Serving c)" if "k = EchoServer" "sv_owned ?s x = Some f" "0 \<le> f" for x f
      using that o(8) [of x f] by (auto split: if_splits)
  qed
  moreover obtain G where "G = {} \<or> G = ?D" "set (g_tasks (Spawn (\<lambda>g. g) t (sv_group s))) = insert t ?T - G"
      "g_done (Spawn (\<lambda>g. g) t (sv_group s)) = ?D - G"
    by (rule Spawn_sets [OF D(2,1)])
  ultimately show ?thesis
    unfolding accepted_def using D(1,2) by (intro set_group_ok [where N = "{t}" and D = ?D and G = G]) simp_all
qed

lemma join_ok:
  assumes ok: "server_ok k s"
  shows "server_ok k (set_group (snd (Sweep (sv_group s))) s)"
proof -
  have "g_done (sv_group s) \<subseteq> set (g_tasks (sv_group s))" using sockets_okD(1,2) [OF ok] by blast
  then show ?thesis
    using ok by (intro set_group_ok [where N = "{}" and D = "g_done (sv_group s)" and G = "g_done (sv_group s)"]) auto
qed

lemma task_ends_sets [simp]: "g_tasks (task_ends t g) = g_tasks g" "g_done (task_ends t g) = insert t (g_done g)"
  by (simp_all add: task_ends_def OnTaskDone_def Signal_def Let_def)

lemma echo_close_ok:
  assumes ok: "server_ok EchoServer s" and t: "sv_active s t = Some (Serving c)"
  shows "server_ok EchoServer (async_close EchoServer t s)"
proof -
  note o = sockets_okD [OF ok]
  obtain fd where fd: "0 \<le> fd" "sv_owned s t = Some fd" "sv_table s fd = Some c" using o(4) [OF t] by blast
  have s': "async_close EchoServer t s = s\<lparr>sv_table := (sv_table s)(fd := None), sv_owned := (sv_owned s)(t \<mapsto> - 1), sv_active := (sv_active s)(t \<mapsto> Closing)\<rparr>"
    using fd by (simp add: async_close_def Socket_Release_def close_fd_def)
  have other: "f \<noteq> fd" if "sv_owned s x = Some f" "x \<noteq> t" "0 \<le> f" for x f using o(5) [of x f t] that fd by blast
  show ?thesis
    unfolding s'
  proof (rule sockets_okI, goal_cases)
    case 1 then show ?case using o(1) fd(2) by auto
  next
    case 2 then show ?case using o(2) fd(2) t by auto
  next
    case 3 then show ?case using o(3) t by auto
  next
    case (4 x c')
    then have "x \<noteq> t" "sv_active s x = Some (Serving c')" by (auto split: if_splits)
    then obtain f where "0 \<le> f" "sv_owned s x = Some f" "sv_table s f = Some c'" using o(4) by blast
    then show ?case using other \<open>x \<noteq> t\<close> by (intro exI [of _ f]) auto
  next
    case (5 x y f) then show ?case using o(5) [of x f y] by (auto split: if_splits)
  next
    case (6 f c')
    then have f: "f \<noteq> fd" "sv_table s f = Some c'" by (auto split: if_splits)
    then obtain x where "0 \<le> f" "sv_owned s x = Some f" using o(6) by blast
    then show ?case using f(1) fd(2) by (intro conjI exI [of _ x]) auto
  next
    case (7 x f) then show ?case using o(7) [of x f] other [of x f] by (auto split: if_splits)
  next
    case (8 x f) then show ?case using o(8) [of x f] by (auto split: if_splits)
  qed
qed

lemma return_ok:
  assumes ok: "server_ok k s" and k: "k \<noteq> TlsEchoServer" and t: "sv_active s t = Some (if k = HttpServer then Serving c else Closing)"
  shows "server_ok k (returned k t s)"
proof -
  note o = sockets_okD [OF ok]
  have s': "returned k t s = s\<lparr>sv_group := task_ends t (sv_group s), sv_active := (sv_active s)(t := None)\<rparr>"
    using k by (simp add: returned_def)
  show ?thesis
    unfolding s'
  proof (rule sockets_okI, goal_cases)
    case 1 then show ?case using o(1) by simp
  next
    case 2 then show ?case using o(2) t by auto
  next
    case 3 then show ?case using o(3) by auto
  next
    case (4 x c') then show ?case using o(4) [of x c'] by (simp split: if_splits)
  next
    case (5 x y f) then show ?case using o(5) [of x f y] by simp
  next
    case (6 f c') then show ?case using o(6) [of f c'] by simp
  next
    case (7 x f) then show ?case using o(7) [of x f] by simp
  next
    case (8 x f)
    then obtain c' where "sv_active s x = Some (Serving c')" using o(8) [of x f] by auto
    with 8 t show ?case by auto
  qed
qed

lemma server_step_ok:
  assumes "server_step k s s'" and "k \<noteq> TlsEchoServer" and "server_ok k s"
  shows "server_ok k s'"
  using assms
proof (cases rule: server_step.cases)
  case (accept fd t)
  then show ?thesis using accepted_ok assms(3) by simp
next
  case (close t c)
  with assms(2) have "k = EchoServer" by (cases k) simp_all
  with close assms(3) show ?thesis using echo_close_ok by simp
next
  case (return t c)
  then show ?thesis using return_ok assms(2,3) by blast
next
  case join
  then show ?thesis using join_ok assms(3) by simp
qed

lemma server_reachable_ok:
  assumes "(server_step k)\<^sup>*\<^sup>* server_begin s" and "k \<noteq> TlsEchoServer"
  shows "server_ok k s"
  using assms
proof (induction rule: rtranclp_induct)
  case base
  then show ?case by (intro sockets_okI) (simp_all add: server_begin_def mk_TaskGroup_def)
next
  case (step s s')
  then show ?case using server_step_ok by blast
qed

lemma set_group_keep: "set (g_tasks (sv_group s)) \<subseteq> set (g_tasks g) \<Longrightarrow> set_group g s = s\<lparr>sv_group := g\<rparr>"
proof -
  assume "set (g_tasks (sv_group s)) \<subseteq> set (g_tasks g)"
  then have "{t. t \<in> set (g_tasks (sv_group s)) \<and> t \<notin> set (g_tasks g)} = {}" by auto
  then show ?thesis by (simp only: set_group_def Let_def) (simp add: restrict_map_def)
qed

text \<open>A connection whose spawn does not sweep.\<close>

lemma accepted_keep:
  assumes "(g_spawn_count (sv_group s) + 1) AND (g_sweep_interval (sv_group s) - 1) \<noteq> 0"
  shows "accepted t fd s =
    s\<lparr>sv_group := (sv_group s)\<lparr>g_spawn_count := g_spawn_count (sv_group s) + 1, g_active_count := sz_add (g_active_count (sv_group s)) 1,
        g_tasks := g_tasks (sv_group s) @ [t]\<rparr>,
      sv_table := (sv_table s)(fd \<mapsto> sv_clients s), sv_owned := (sv_owned s)(t \<mapsto> fd),
      sv_active := (sv_active s)(t \<mapsto> Serving (sv_clients s)), sv_clients := sv_clients s + 1\<rparr>"
  using assms unfolding accepted_def by (subst set_group_keep) (auto simp: Spawn_def Let_def)

lemma serving_handler_owns:
  assumes "(server_step k)\<^sup>*\<^sup>* server_begin s" and "k \<noteq> TlsEchoServer" and "sv_active s t = Some (Serving c)"
  shows "\<exists>fd \<ge> 0. sv_owned s t = Some fd \<and> sv_table s fd = Some c"
  by (rule sockets_okD(4) [OF server_reachable_ok [OF assms(1,2)] assms(3)])


definition two_clients :: server where
  "two_clients = accepted 2 5 (async_close EchoServer 1 (accepted 1 5 server_begin))"

lemmas run_server = server_begin_def mk_TaskGroup_def accepted_keep async_close_def Socket_Release_def close_fd_def returned_def

lemma two_clients_reached: "(server_step EchoServer)\<^sup>*\<^sup>* server_begin two_clients"
proof -
  have "server_step EchoServer server_begin (accepted 1 5 server_begin)"
    by (rule server_step.accept) (simp_all add: run_server)
  moreover have "server_step EchoServer (accepted 1 5 server_begin) (async_close EchoServer 1 (accepted 1 5 server_begin))"
    by (rule server_step.close [where c = 0]) (simp_all add: run_server)
  moreover have "server_step EchoServer (async_close EchoServer 1 (accepted 1 5 server_begin)) two_clients"
    unfolding two_clients_def by (rule server_step.accept) (simp_all add: run_server)
  ultimately show ?thesis by (meson converse_rtranclp_into_rtranclp rtranclp.rtrancl_refl)
qed


text \<open>Clients of the HTTP service that come and go one after another.\<close>

definition lingering :: "nat \<Rightarrow> server \<Rightarrow> bool" where
  "lingering n s \<longleftrightarrow>
     sv_active s = Map.empty \<and> sv_clients s = n \<and> dom (sv_table s) = int ` {0..<n} \<and> dom (sv_owned s) = {0..<n} \<and>
     g_spawn_count (sv_group s) = of_nat n \<and> g_sweep_interval (sv_group s) = 1024"

lemma no_sweep_before_1024:
  assumes "0 < n" and "n < 1024"
  shows "(of_nat n :: u64) AND 1023 \<noteq> 0"
proof -
  have "(of_nat n :: u64) AND 1023 = take_bit 10 (of_nat n)" by (simp add: take_bit_eq_mask mask_numeral)
  also have "\<dots> = of_nat n" using assms by (simp add: take_bit_eq_mod word_unat_eq_iff unat_of_nat unat_mod)
  finally show ?thesis using assms by (simp add: word_unat_eq_iff unat_of_nat)
qed

lemma lingering_next:
  assumes "lingering n s" and "Suc n < 1024"
  shows "\<exists>s'. (server_step HttpServer)\<^sup>*\<^sup>* s s' \<and> lingering (Suc n) s'"
proof -
  let ?a = "accepted n (int n) s"
  have none: "sv_table s (int n) = None" "sv_owned s n = None" using assms(1) unfolding lingering_def by (metis atLeastLessThan_iff domIff image_iff less_irrefl of_nat_eq_iff)+
  have "g_spawn_count (sv_group s) + 1 = of_nat (Suc n)" using assms(1) by (simp add: lingering_def)
  then have "(g_spawn_count (sv_group s) + 1) AND (g_sweep_interval (sv_group s) - 1) \<noteq> 0"
    using no_sweep_before_1024 [of "Suc n"] assms by (simp add: lingering_def add.commute)
  note a' = accepted_keep [OF this, of n "int n"]
  have a: "server_step HttpServer s ?a" by (rule server_step.accept) (simp_all add: none)
  have act: "sv_active ?a n = Some (Serving (sv_clients s))" by (simp add: a')
  have r: "server_step HttpServer ?a (returned HttpServer n ?a)"
    by (rule server_step.return [where c = "sv_clients s"]) (simp add: act)
  have "lingering (Suc n) (returned HttpServer n ?a)"
    using assms(1) by (simp add: lingering_def returned_def a' task_ends_def OnTaskDone_def Signal_def Let_def atLeast0_lessThan_Suc fun_eq_iff)
  with a r show ?thesis by (meson converse_rtranclp_into_rtranclp rtranclp.rtrancl_refl)
qed

lemma lingering_reached: "n < 1024 \<Longrightarrow> \<exists>s. (server_step HttpServer)\<^sup>*\<^sup>* server_begin s \<and> lingering n s"
proof (induction n)
  case 0
  then show ?case by (intro exI [of _ server_begin]) (simp add: lingering_def server_begin_def mk_TaskGroup_def)
next
  case (Suc n)
  then obtain s where "(server_step HttpServer)\<^sup>*\<^sup>* server_begin s" "lingering n s" by auto
  with lingering_next [of n s] Suc.prems show ?case by (meson rtranclp_trans)
qed



text \<open>
  In the TLS echo server the descriptor is closed twice, and the kernel may give it to another client in between: there is an
  interleaving in which the descriptor of a client that is being served is closed under its handler.
\<close>

theorem tls_server_closes_other_client:
  "\<exists>s t c fd. (server_step TlsEchoServer)\<^sup>*\<^sup>* server_begin s \<and> sv_active s t = Some (Serving c) \<and>
     sv_owned s t = Some fd \<and> sv_table s fd = None"
proof -
  let ?a = "async_close TlsEchoServer 1 (accepted 1 5 server_begin)"
  have 1: "server_step TlsEchoServer server_begin (accepted 1 5 server_begin)"
    by (rule server_step.accept) (simp_all add: run_server)
  have 2: "server_step TlsEchoServer (accepted 1 5 server_begin) ?a"
    by (rule server_step.close [where c = 0]) (simp_all add: run_server)
  have 3: "server_step TlsEchoServer ?a (accepted 2 5 ?a)"
    by (rule server_step.accept) (simp_all add: run_server)
  have 4: "server_step TlsEchoServer (accepted 2 5 ?a) (returned TlsEchoServer 1 (accepted 2 5 ?a))" (is "server_step _ _ ?s")
    by (rule server_step.return) (simp add: run_server)
  have "(server_step TlsEchoServer)\<^sup>*\<^sup>* server_begin ?s"
    using 1 2 3 4 by (meson converse_rtranclp_into_rtranclp rtranclp.rtrancl_refl)
  moreover have "sv_active ?s 2 = Some (Serving 1)" "sv_owned ?s 2 = Some 5" "sv_table ?s 5 = None"
    by (simp_all add: run_server)
  ultimately show ?thesis by blast
qed
end
