(* ===== verification/Dns_Bench.thy ===== *)
theory Dns_Bench
  imports Servers "HOL-Library.Multiset"
begin

text \<open>
  The examples on blocking work: the DNS benchmark \<^verbatim>\<open>examples/aio/211_dns_resolve.cpp\<close>, whose tasks finish in any order
  and count down a shared counter, and the calculation of \<^verbatim>\<open>examples/aio/05_blocking_bridge.cpp\<close>.
\<close>

definition HeavyCalculation :: "32 word \<Rightarrow> u64" where
  "HeavyCalculation seed = scast seed * 123456789"

text \<open>The text of the first address, empty if it is of another family or has no text.\<close>

definition resolve_blocking :: "'w netsys \<Rightarrow> inet \<Rightarrow> string \<Rightarrow> 'w \<Rightarrow> string \<times> 'w" where
  "resolve_blocking N I host w =
     (case sys_getaddrinfo N host ''80'' w of
        (Inl e, w') \<Rightarrow> (''FAILED'', w')
      | (Inr None, w') \<Rightarrow> (''FAILED'', w')
      | (Inr (Some res), w') \<Rightarrow>
          (case (if ss_family res = AF_INET then inet_ntop I AF_INET (sin_addr res)
                 else if ss_family res = AF_INET6 then inet_ntop I AF_INET6 (sin_addr res)
                 else None) of
             None \<Rightarrow> ([], w')
           | Some buf \<Rightarrow> (buf, w')))"

section \<open>One after another\<close>

fun bench_blocking :: "'w netsys \<Rightarrow> inet \<Rightarrow> string list \<Rightarrow> 'w \<Rightarrow> (string \<times> string) list \<times> 'w" where
  "bench_blocking N I [] w = ([], w)"
| "bench_blocking N I (domain # ds) w =
     (case resolve_blocking N I domain w of
        (ip, w') \<Rightarrow> (case bench_blocking N I ds w' of (results, w'') \<Rightarrow> ((domain, ip) # results, w'')))"

section \<open>In parallel\<close>

text \<open>
  \<open>b_tasks\<close> are the domains whose task is suspended in \<^verbatim>\<open>Offload\<close>; \<open>b_world\<close> is what the resolver has seen, in the order in which
  the pool ran the jobs. A task that is resumed appends its result and counts down.
\<close>

record 'w bench =
  b_tasks :: "string list"
  b_results :: "(string \<times> string) list"
  b_pending :: int
  b_world :: 'w

definition bench_begin :: "string list \<Rightarrow> 'w \<Rightarrow> 'w bench" where
  "bench_begin domains w = \<lparr>b_tasks = domains, b_results = [], b_pending = int (length domains), b_world = w\<rparr>"

definition resolve_one :: "'w netsys \<Rightarrow> inet \<Rightarrow> nat \<Rightarrow> 'w bench \<Rightarrow> 'w bench" where
  "resolve_one N I i b =
     (let domain = b_tasks b ! i;
          (ip, w) = resolve_blocking N I domain (b_world b)
      in b\<lparr>b_tasks := take i (b_tasks b) @ drop (Suc i) (b_tasks b), b_results := b_results b @ [(domain, ip)],
           b_pending := b_pending b - 1, b_world := w\<rparr>)"

inductive bench_step :: "'w netsys \<Rightarrow> inet \<Rightarrow> 'w bench \<Rightarrow> 'w bench \<Rightarrow> bool" for N I where
  finish: "i < length (b_tasks b) \<Longrightarrow> bench_step N I b (resolve_one N I i b)"

text \<open>The test of the loop that waits in \<^verbatim>\<open>bench_async\<close>.\<close>

definition bench_waits :: "'w bench \<Rightarrow> bool" where
  "bench_waits b \<longleftrightarrow> b_pending b > 0"

lemma mset_remove: "i < length xs \<Longrightarrow> mset (take i xs @ drop (Suc i) xs) + {#xs ! i#} = mset xs"
  by (metis add_mset_add_single id_take_nth_drop mset.simps(2) mset_append union_mset_add_mset_right)

lemma bench_accounted:
  assumes "(bench_step N I)\<^sup>*\<^sup>* (bench_begin domains w) b"
  shows "b_pending b = int (length (b_tasks b)) \<and> mset (b_tasks b) + mset (map fst (b_results b)) = mset domains"
  using assms
proof (induction rule: rtranclp_induct)
  case base
  then show ?case by (simp add: bench_begin_def)
next
  case (step b b')
  from step.hyps(2) obtain i where i: "i < length (b_tasks b)" "b' = resolve_one N I i b" by (auto elim: bench_step.cases)
  have "mset (b_tasks b') + mset (map fst (b_results b')) = mset (b_tasks b) + mset (map fst (b_results b))"
    using mset_remove [OF i(1)] by (simp add: i(2) resolve_one_def Let_def case_prod_unfold)
  moreover have "b_pending b' = int (length (b_tasks b'))"
    using step.IH i(1) by (simp add: i(2) resolve_one_def Let_def case_prod_unfold)
  ultimately show ?case using step.IH by simp
qed

text \<open>
  When the benchmark stops waiting, in whatever order the tasks have finished, no task is left that refers to the
  results, and there is one result for every occurrence of a domain, as in the sequential benchmark.
\<close>

theorem bench_waits_for_all:
  assumes "(bench_step N I)\<^sup>*\<^sup>* (bench_begin domains w) b" and "\<not> bench_waits b"
  shows "b_tasks b = [] \<and> mset (map fst (b_results b)) = mset (map fst (fst (bench_blocking N I domains w)))"
proof -
  have "map fst (fst (bench_blocking N I ds v)) = ds" for ds v
    by (induction ds arbitrary: v) (simp_all add: case_prod_unfold)
  then show ?thesis
    using bench_accounted [OF assms(1)] assms(2) by (simp add: bench_waits_def)
qed

end
